(* ===== verification/Prelude.thy ===== *)
theory Prelude
  imports Main "HOL-Library.AList" "HOL-Library.Product_Lexorder"
begin

text \<open>
  Shared vocabulary of the development.

  The runtime keeps almost all of its state in JavaScript \<open>Map\<close> objects. Such a map
  remembers insertion order, overwriting a key keeps its position, and deleting a key and
  setting it again moves it to the end. The association lists of \<open>HOL-Library.AList\<close>
  have exactly this behaviour: \<open>AList.update\<close> replaces in place or appends,
  \<open>AList.delete\<close> filters, \<open>map_of\<close> is \<open>get\<close>. The lemmas below are the ones every
  component uses; the two locales state the shape of argument (an invariant kept by every
  operation, a status table with absorbing states) that the components share.
\<close>

named_theorems jsmap_simps "laws of insertion-ordered maps"

section \<open>Insertion-ordered maps\<close>

type_synonym ('k, 'v) jsmap = "('k \<times> 'v) list"

abbreviation jm_get :: "('k, 'v) jsmap \<Rightarrow> 'k \<Rightarrow> 'v option" where
  "jm_get \<equiv> map_of"

abbreviation jm_set :: "'k \<Rightarrow> 'v \<Rightarrow> ('k, 'v) jsmap \<Rightarrow> ('k, 'v) jsmap" where
  "jm_set \<equiv> AList.update"

abbreviation jm_delete :: "'k \<Rightarrow> ('k, 'v) jsmap \<Rightarrow> ('k, 'v) jsmap" where
  "jm_delete \<equiv> AList.delete"

abbreviation jm_has :: "('k, 'v) jsmap \<Rightarrow> 'k \<Rightarrow> bool" where
  "jm_has m k \<equiv> map_of m k \<noteq> None"

abbreviation jm_keys :: "('k, 'v) jsmap \<Rightarrow> 'k list" where
  "jm_keys m \<equiv> map fst m"

abbreviation jm_values :: "('k, 'v) jsmap \<Rightarrow> 'v list" where
  "jm_values m \<equiv> map snd m"

abbreviation jm_wf :: "('k, 'v) jsmap \<Rightarrow> bool" where
  "jm_wf m \<equiv> distinct (map fst m)"

declare map_of_eq_Some_iff [simp del] Some_eq_map_of_iff [simp del]

lemma jm_get_set [simp, jsmap_simps]: "jm_get (jm_set k v m) = (jm_get m)(k \<mapsto> v)"
  by (simp add: update_conv')

lemma jm_get_delete [simp, jsmap_simps]: "jm_get (jm_delete k m) = (jm_get m)(k := None)"
  by (simp add: delete_conv')

lemma jm_wf_set [simp, jsmap_simps]: "jm_wf m \<Longrightarrow> jm_wf (jm_set k v m)"
  by (simp add: distinct_update)

lemma jm_wf_delete [simp, jsmap_simps]: "jm_wf m \<Longrightarrow> jm_wf (jm_delete k m)"
  by (simp add: distinct_delete)

lemma jm_values_iff: "jm_wf m \<Longrightarrow> v \<in> set (jm_values m) \<longleftrightarrow> (\<exists>k. jm_get m k = Some v)"
  by (force simp: map_of_eq_Some_iff)

lemma jm_value_of_get: "jm_get m k = Some v \<Longrightarrow> v \<in> set (jm_values m)"
  by (force dest: map_of_SomeD)

lemma jm_keys_iff: "k \<in> set (jm_keys m) \<longleftrightarrow> jm_has m k"
  by (simp add: map_of_eq_None_iff)

lemma jm_set_fresh: "\<not> jm_has m k \<Longrightarrow> jm_set k v m = m @ [(k, v)]"
  by (induction m) (auto split: if_splits)

lemma jm_keys_set: "jm_keys (jm_set k v m) = (if jm_has m k then jm_keys m else jm_keys m @ [k])"
  by (induction m) auto

lemma jm_delete_fresh: "\<not> jm_has m k \<Longrightarrow> jm_delete k m = m"
  by (induction m) (auto split: if_splits)

section \<open>Lists\<close>

lemma find_SomeD: "find P xs = Some x \<Longrightarrow> P x \<and> x \<in> set xs"
  by (auto simp: find_Some_iff)

text \<open>Truthiness of an optional string: JavaScript's \<open>a ?? b\<close> on optional values.\<close>

definition or_else :: "'a option \<Rightarrow> 'a option \<Rightarrow> 'a option" where
  "or_else a b = (case a of None \<Rightarrow> b | Some x \<Rightarrow> Some x)"

lemma or_else_simps [simp]: "or_else None b = b" "or_else (Some x) b = Some x"
  by (simp_all add: or_else_def)

definition default_to :: "'a option \<Rightarrow> 'a \<Rightarrow> 'a" where
  "default_to a d = (case a of None \<Rightarrow> d | Some x \<Rightarrow> x)"

lemma default_to_simps [simp]: "default_to None d = d" "default_to (Some x) d = x"
  by (simp_all add: default_to_def)

section \<open>Text\<close>

text \<open>
  Strings are lists of characters; a JavaScript string is modelled on the characters below
  256. \<open>show_nat\<close> is the decimal rendering of a template literal, \<open>js_trim\<close> is
  \<open>String.prototype.trim\<close>, \<open>js_includes\<close> is \<open>includes\<close>.
\<close>

definition digit_char :: "nat \<Rightarrow> char" where
  "digit_char d = char_of (48 + d)"

fun show_nat :: "nat \<Rightarrow> string" where
  "show_nat n = (if n < 10 then [digit_char n] else show_nat (n div 10) @ [digit_char (n mod 10)])"

declare show_nat.simps [simp del]

lemma show_nat_nonempty [simp]: "show_nat n \<noteq> []"
  by (subst show_nat.simps) simp

definition show_int :: "int \<Rightarrow> string" where
  "show_int i = (if i < 0 then CHR ''-'' # show_nat (nat (- i)) else show_nat (nat i))"

definition new_line :: string where
  "new_line = [CHR 0x0A]"

definition is_space :: "char \<Rightarrow> bool" where
  "is_space c = (let n = (of_char c :: nat) in n = 32 \<or> (9 \<le> n \<and> n \<le> 13) \<or> n = 160)"

definition js_trim :: "string \<Rightarrow> string" where
  "js_trim s = rev (dropWhile is_space (rev (dropWhile is_space s)))"

fun is_prefix :: "'a list \<Rightarrow> 'a list \<Rightarrow> bool" where
  "is_prefix [] ys = True"
| "is_prefix (x # xs) [] = False"
| "is_prefix (x # xs) (y # ys) = (x = y \<and> is_prefix xs ys)"

definition ends_with :: "string \<Rightarrow> string \<Rightarrow> bool" where
  "ends_with s p = is_prefix (rev p) (rev s)"

fun js_includes :: "string \<Rightarrow> string \<Rightarrow> bool" where
  "js_includes [] pat = (pat = [])"
| "js_includes (c # cs) pat = (is_prefix pat (c # cs) \<or> js_includes cs pat)"

text \<open>Splitting at a separator character, as \<open>split\<close> with a one-character argument.\<close>

fun split_at_char :: "char \<Rightarrow> string \<Rightarrow> string list" where
  "split_at_char d [] = [[]]"
| "split_at_char d (c # cs) =
     (if c = d then [] # split_at_char d cs
      else (case split_at_char d cs of [] \<Rightarrow> [[c]] | w # ws \<Rightarrow> (c # w) # ws))"

lemma split_at_char_nonempty [simp]: "split_at_char d s \<noteq> []"
  by (induction s) (auto split: list.splits)

fun join_with :: "string \<Rightarrow> string list \<Rightarrow> string" where
  "join_with d [] = []"
| "join_with d [w] = w"
| "join_with d (w # v # ws) = w @ d @ join_with d (v # ws)"

lemma split_no_sep: "w \<in> set (split_at_char d s) \<Longrightarrow> d \<notin> set w"
  by (induction s arbitrary: w) (auto split: list.splits if_splits)

lemma split_append_sep:
  "d \<notin> set w \<Longrightarrow> split_at_char d (w @ d # s) = w # split_at_char d s"
  by (induction w) auto

lemma split_plain: "d \<notin> set w \<Longrightarrow> split_at_char d w = [w]"
  by (induction w) auto

lemma split_append:
  "split_at_char d (x @ d # r) = split_at_char d x @ split_at_char d r"
  by (induction x) (auto split: list.splits)

lemma split_join_concat:
  "ls \<noteq> [] \<Longrightarrow> split_at_char d (join_with [d] ls) = concat (map (split_at_char d) ls)"
  by (induction "[d]" ls rule: join_with.induct) (simp_all add: split_append)

lemma split_join:
  "ws \<noteq> [] \<Longrightarrow> \<forall>w\<in>set ws. d \<notin> set w \<Longrightarrow> split_at_char d (join_with [d] ws) = ws"
  by (induction "[d]" ws rule: join_with.induct) (auto simp: split_plain split_append_sep)

section \<open>Invariants of operation sequences\<close>

text \<open>
  A component whose operations all keep a predicate keeps it over any sequence of calls,
  whatever their arguments. Each component interprets this locale once on its own step
  function and invariant.
\<close>

locale invariant_system =
  fixes step :: "'o \<Rightarrow> 's \<Rightarrow> 's"
    and inv :: "'s \<Rightarrow> bool"
  assumes step_inv: "inv s \<Longrightarrow> inv (step x s)"
begin

lemma run_inv: "inv s \<Longrightarrow> inv (fold step xs s)"
  by (induction xs arbitrary: s) (auto intro: step_inv)

lemma every_prefix_inv: "inv s \<Longrightarrow> inv (fold step (take n xs) s)"
  by (rule run_inv)

end

text \<open>
  A relation between the state before and after a step that is reflexive and transitive
  holds across a whole run: the shape of every "once \<open>X\<close>, always \<open>X\<close>" property.
\<close>

locale preserved_relation = invariant_system +
  fixes rel :: "'s \<Rightarrow> 's \<Rightarrow> bool"
  assumes rel_refl: "inv s \<Longrightarrow> rel s s"
    and rel_trans: "rel s t \<Longrightarrow> rel t u \<Longrightarrow> rel s u"
    and step_rel: "inv s \<Longrightarrow> rel s (step x s)"
begin

lemma run_rel: "inv s \<Longrightarrow> rel s (fold step xs s)"
proof (induction xs arbitrary: s)
  case Nil
  then show ?case by (simp add: rel_refl)
next
  case (Cons x xs)
  from Cons.prems have "inv (step x s)" by (rule step_inv)
  then have "rel (step x s) (fold step xs (step x s))" by (rule Cons.IH)
  with step_rel [OF Cons.prems] show ?case by (auto intro: rel_trans)
qed

end

text \<open>
  The same for components whose callers promise something about the operations they use
  (\<open>ok\<close>); an invariant kept by every operation is the case of no promise.
\<close>

locale guarded_system =
  fixes step :: "'o \<Rightarrow> 's \<Rightarrow> 's"
    and ok :: "'o \<Rightarrow> bool"
    and inv :: "'s \<Rightarrow> bool"
  assumes guarded_inv: "ok x \<Longrightarrow> inv s \<Longrightarrow> inv (step x s)"
begin

lemma guarded_run: "list_all ok xs \<Longrightarrow> inv s \<Longrightarrow> inv (fold step xs s)"
  by (induction xs arbitrary: s) (auto intro: guarded_inv)

end

sublocale invariant_system \<subseteq> guarded_system step "\<lambda>_. True" inv
  by unfold_locales (rule step_inv)

locale guarded_relation = guarded_system +
  fixes rel :: "'s \<Rightarrow> 's \<Rightarrow> bool"
  assumes refl: "inv s \<Longrightarrow> rel s s"
    and trans: "rel s t \<Longrightarrow> rel t u \<Longrightarrow> rel s u"
    and guarded_rel: "ok x \<Longrightarrow> inv s \<Longrightarrow> rel s (step x s)"
begin

lemma guarded_run_rel: "list_all ok xs \<Longrightarrow> inv s \<Longrightarrow> rel s (fold step xs s)"
proof (induction xs arbitrary: s)
  case Nil
  then show ?case by (simp add: refl)
next
  case (Cons x xs)
  then have "inv (step x s)" by (auto intro: guarded_inv)
  with Cons have "rel (step x s) (fold step xs (step x s))" by simp
  with guarded_rel [of x s] Cons.prems show ?case by (auto intro: trans)
qed

end

section \<open>Status tables\<close>

text \<open>
  Every lifecycle in the runtime is a table of allowed moves together with a set of terminal
  statuses. The interface is only that nothing but a self move leaves a terminal status.
\<close>

locale status_machine =
  fixes allowed :: "'st \<Rightarrow> 'st \<Rightarrow> bool"
    and terminal :: "'st \<Rightarrow> bool"
  assumes terminal_absorbs: "terminal a \<Longrightarrow> allowed a b \<Longrightarrow> b = a"
begin

lemma terminal_chain:
  "successively allowed (a # bs) \<Longrightarrow> terminal a \<Longrightarrow> b \<in> set bs \<Longrightarrow> b = a"
proof (induction bs arbitrary: a)
  case Nil
  then show ?case by simp
next
  case (Cons c cs)
  then have "c = a" by (auto intro: terminal_absorbs)
  with Cons show ?case by (cases "b = c") auto
qed

lemma terminal_reach: "allowed\<^sup>*\<^sup>* a b \<Longrightarrow> terminal a \<Longrightarrow> b = a"
  by (induction rule: rtranclp_induct) (auto dest: terminal_absorbs)

end

end
