(* ===== verification/ExecutionRun.thy ===== *)
theory ExecutionRun
  imports Prelude
begin

text \<open>
  The run state machine and its registry: \<open>src/src/core/executionRun.ts\<close>.

  An execution run is a record of seventeen descriptive fields and a status; the registry is the
  insertion-ordered map from run ids to runs. Optional fields of the interface are \<open>option\<close>
  values. The declared type of \<open>phase\<close> is a string, but replay may store \<open>undefined\<close> there
  (see \<open>RunEvents\<close>), so it is optional here too. Timestamps are milliseconds (\<open>int\<close>) instead
  of their ISO rendering. The clock and the fresh run id of \<open>randomUUID\<close> are arguments.
  Each operation returns either the exception it throws or the run it returns, the new registry
  and the raw notification it hands to \<open>onEmit\<close>.
\<close>

section \<open>Statuses\<close>

datatype run_status =
    RQueued | RPreparing | RRunning | RWaiting | RVerifying | RSucceeded
  | RFailed | RCancelled | RTimedOut | RBlocked | RVerificationFailed | RLost

definition terminal_run_states :: "run_status list" where
  "terminal_run_states =
     [RSucceeded, RFailed, RCancelled, RTimedOut, RVerificationFailed, RLost]"

definition is_terminal_run_status :: "run_status \<Rightarrow> bool" where
  "is_terminal_run_status s = List.member terminal_run_states s"

fun valid_transitions :: "run_status \<Rightarrow> run_status list" where
  "valid_transitions RQueued = [RPreparing, RCancelled, RFailed, RLost]"
| "valid_transitions RPreparing = [RRunning, RCancelled, RFailed, RBlocked, RLost]"
| "valid_transitions RRunning =
     [RWaiting, RVerifying, RSucceeded, RFailed, RCancelled, RTimedOut, RBlocked, RLost]"
| "valid_transitions RWaiting =
     [RRunning, RVerifying, RCancelled, RFailed, RTimedOut, RLost]"
| "valid_transitions RVerifying =
     [RSucceeded, RVerificationFailed, RFailed, RCancelled, RLost]"
| "valid_transitions RBlocked = [RRunning, RCancelled, RFailed, RLost]"
| "valid_transitions RSucceeded = []"
| "valid_transitions RFailed = []"
| "valid_transitions RCancelled = []"
| "valid_transitions RTimedOut = []"
| "valid_transitions RVerificationFailed = []"
| "valid_transitions RLost = []"

definition can_transition :: "run_status \<Rightarrow> run_status \<Rightarrow> bool" where
  "can_transition a b = (if a = b then True else List.member (valid_transitions a) b)"

section \<open>The run and its parts\<close>

datatype run_kind =
  KTurn | KAgent | KExternalWorker | KShellTask | KWorkflow | KLoop

record workspace_ref =
  ws_cwd :: string
  ws_worktree_path :: "string option"
  ws_branch :: "string option"

record acceptance_rule =
  ar_description :: string
  ar_command :: "string option"
  ar_required :: "bool option"

record run_budget =
  rb_max_duration_ms :: "int option"
  rb_max_iterations :: "int option"
  rb_max_tokens :: "int option"

datatype claim_type = CtFile | CtDirectory | CtGit | CtPort | CtProcess | CtNetwork

datatype access_mode = AccRead | AccWrite | AccExclusive

record resource_claim =
  rc_type :: claim_type
  rc_key :: string
  rc_access :: access_mode

record artifact_ref =
  af_id :: string
  af_kind :: string
  af_path :: "string option"
  af_content_type :: "string option"
  af_size_bytes :: "int option"

record verification_command =
  vc_command :: string
  vc_passed :: bool
  vc_exit_code :: "int option"
  vc_output :: "string option"

record verification_result =
  vr_passed :: bool
  vr_commands :: "verification_command list"
  vr_started_at :: int
  vr_completed_at :: int

datatype model_tier = TierTop | TierSecondary

record execution_run =
  er_run_id :: string
  er_parent_run_id :: "string option"
  er_kind :: run_kind
  er_goal :: string
  er_status :: run_status
  er_phase :: "string option"
  er_worker :: "string option"
  er_model_profile :: "string option"
  er_model_role :: "string option"
  er_model_tier :: "model_tier option"
  er_model :: "string option"
  er_provider :: "string option"
  er_workspace :: workspace_ref
  er_acceptance :: "acceptance_rule list"
  er_budget :: run_budget
  er_resources :: "resource_claim list"
  er_artifacts :: "artifact_ref list"
  er_verification :: "verification_result option"
  er_error :: "string option"
  er_created_at :: int
  er_updated_at :: int

record create_run_input =
  ci_run_id :: "string option"
  ci_parent_run_id :: "string option"
  ci_kind :: run_kind
  ci_goal :: string
  ci_status :: "run_status option"
  ci_phase :: "string option"
  ci_worker :: "string option"
  ci_model_profile :: "string option"
  ci_model_role :: "string option"
  ci_model_tier :: "model_tier option"
  ci_model :: "string option"
  ci_provider :: "string option"
  ci_workspace :: workspace_ref
  ci_acceptance :: "acceptance_rule list option"
  ci_budget :: "run_budget option"
  ci_resources :: "resource_claim list option"
  ci_artifacts :: "artifact_ref list option"
  ci_verification :: "verification_result option"
  ci_error :: "string option"
  ci_created_at :: "int option"
  ci_updated_at :: "int option"

text \<open>
  A patch is spread over the run (\<open>{...run, ...patch}\<close>): a field of the patch that is present
  overwrites, also with \<open>undefined\<close>. Presence is the outer \<open>option\<close>, the value (itself optional
  where the field is) the inner one.
\<close>

record transition_patch =
  tp_phase :: "string option option"
  tp_error :: "string option option"
  tp_verification :: "verification_result option option"
  tp_worker :: "string option option"
  tp_workspace :: "workspace_ref option"
  tp_artifacts :: "artifact_ref list option"

definition no_patch :: transition_patch where
  "no_patch = \<lparr>tp_phase = None, tp_error = None, tp_verification = None, tp_worker = None,
     tp_workspace = None, tp_artifacts = None\<rparr>"

record update_patch =
  up_base :: transition_patch
  up_parent_run_id :: "string option option"
  up_kind :: "run_kind option"
  up_goal :: "string option"
  up_model_profile :: "string option option"
  up_model_role :: "string option option"
  up_model_tier :: "model_tier option option"
  up_model :: "string option option"
  up_provider :: "string option option"
  up_acceptance :: "acceptance_rule list option"
  up_budget :: "run_budget option"
  up_resources :: "resource_claim list option"

definition phase_patch :: "string option \<Rightarrow> update_patch" where
  "phase_patch p = \<lparr>up_base = no_patch\<lparr>tp_phase := Some p\<rparr>, up_parent_run_id = None, up_kind = None,
     up_goal = None, up_model_profile = None, up_model_role = None, up_model_tier = None,
     up_model = None, up_provider = None, up_acceptance = None, up_budget = None,
     up_resources = None\<rparr>"

definition apply_transition_patch :: "transition_patch \<Rightarrow> execution_run \<Rightarrow> execution_run" where
  "apply_transition_patch p run = run\<lparr>
     er_phase := default_to (tp_phase p) (er_phase run),
     er_error := default_to (tp_error p) (er_error run),
     er_verification := default_to (tp_verification p) (er_verification run),
     er_worker := default_to (tp_worker p) (er_worker run),
     er_workspace := default_to (tp_workspace p) (er_workspace run),
     er_artifacts := default_to (tp_artifacts p) (er_artifacts run)\<rparr>"

definition apply_update_patch :: "update_patch \<Rightarrow> execution_run \<Rightarrow> execution_run" where
  "apply_update_patch p run = (apply_transition_patch (up_base p) run)\<lparr>
     er_parent_run_id := default_to (up_parent_run_id p) (er_parent_run_id run),
     er_kind := default_to (up_kind p) (er_kind run),
     er_goal := default_to (up_goal p) (er_goal run),
     er_model_profile := default_to (up_model_profile p) (er_model_profile run),
     er_model_role := default_to (up_model_role p) (er_model_role run),
     er_model_tier := default_to (up_model_tier p) (er_model_tier run),
     er_model := default_to (up_model p) (er_model run),
     er_provider := default_to (up_provider p) (er_provider run),
     er_acceptance := default_to (up_acceptance p) (er_acceptance run),
     er_budget := default_to (up_budget p) (er_budget run),
     er_resources := default_to (up_resources p) (er_resources run)\<rparr>"

section \<open>The registry\<close>

type_synonym registry = "(string, execution_run) jsmap"

datatype run_error =
    InvalidRunTransition string run_status run_status
  | RunNotFound string
  | RunAlreadyExists string

datatype raw_kind = EmitCreate | EmitTransition | EmitUpdate

record raw_event =
  re_kind :: raw_kind
  re_run :: execution_run
  re_from :: "run_status option"
  re_to :: "run_status option"

type_synonym registry_result = "run_error + execution_run \<times> registry \<times> raw_event"

definition run_of_input :: "string \<Rightarrow> int \<Rightarrow> create_run_input \<Rightarrow> execution_run" where
  "run_of_input rid now i = \<lparr>
     er_run_id = rid,
     er_parent_run_id = ci_parent_run_id i,
     er_kind = ci_kind i,
     er_goal = ci_goal i,
     er_status = default_to (ci_status i) RQueued,
     er_phase = Some (default_to (ci_phase i) ''created''),
     er_worker = ci_worker i,
     er_model_profile = ci_model_profile i,
     er_model_role = ci_model_role i,
     er_model_tier = ci_model_tier i,
     er_model = ci_model i,
     er_provider = ci_provider i,
     er_workspace = ci_workspace i,
     er_acceptance = default_to (ci_acceptance i) [],
     er_budget = default_to (ci_budget i)
       \<lparr>rb_max_duration_ms = None, rb_max_iterations = None, rb_max_tokens = None\<rparr>,
     er_resources = default_to (ci_resources i) [],
     er_artifacts = default_to (ci_artifacts i) [],
     er_verification = ci_verification i,
     er_error = ci_error i,
     er_created_at = default_to (ci_created_at i) now,
     er_updated_at = default_to (ci_updated_at i) now\<rparr>"

definition create_run :: "string \<Rightarrow> int \<Rightarrow> create_run_input \<Rightarrow> registry \<Rightarrow> registry_result" where
  "create_run uuid now i reg =
     (let rid = default_to (ci_run_id i) uuid in
      if jm_has reg rid then Inl (RunAlreadyExists rid)
      else let run = run_of_input rid now i in
        Inr (run, jm_set rid run reg,
          \<lparr>re_kind = EmitCreate, re_run = run, re_from = None, re_to = None\<rparr>))"

definition get_run :: "registry \<Rightarrow> string \<Rightarrow> execution_run option" where
  "get_run reg rid = jm_get reg rid"

definition require_run :: "registry \<Rightarrow> string \<Rightarrow> run_error + execution_run" where
  "require_run reg rid = (case jm_get reg rid of None \<Rightarrow> Inl (RunNotFound rid) | Some run \<Rightarrow> Inr run)"

record run_filter =
  rf_status :: "run_status option"
  rf_kind :: "run_kind option"
  rf_parent :: "string option"

definition list_runs :: "run_filter \<Rightarrow> registry \<Rightarrow> execution_run list" where
  "list_runs f reg =
     (let out = jm_values reg;
          out = (case rf_status f of None \<Rightarrow> out | Some s \<Rightarrow> filter (\<lambda>r. er_status r = s) out);
          out = (case rf_kind f of None \<Rightarrow> out | Some k \<Rightarrow> filter (\<lambda>r. er_kind r = k) out)
      in (case rf_parent f of None \<Rightarrow> out
          | Some p \<Rightarrow> if p = [] then out
                      else filter (\<lambda>r. er_parent_run_id r = Some p) out))"

definition transition_run ::
  "string \<Rightarrow> run_status \<Rightarrow> transition_patch \<Rightarrow> int \<Rightarrow> registry \<Rightarrow> registry_result" where
  "transition_run rid tgt patch now reg =
     (case jm_get reg rid of
        None \<Rightarrow> Inl (RunNotFound rid)
      | Some run \<Rightarrow>
          if \<not> can_transition (er_status run) tgt
          then Inl (InvalidRunTransition rid (er_status run) tgt)
          else let updated = (apply_transition_patch patch run)\<lparr>er_status := tgt, er_updated_at := now\<rparr>
            in Inr (updated, jm_set rid updated reg,
                 \<lparr>re_kind = EmitTransition, re_run = updated,
                  re_from = Some (er_status run), re_to = Some tgt\<rparr>))"

definition update_run :: "string \<Rightarrow> update_patch \<Rightarrow> int \<Rightarrow> registry \<Rightarrow> registry_result" where
  "update_run rid patch now reg =
     (case jm_get reg rid of
        None \<Rightarrow> Inl (RunNotFound rid)
      | Some run \<Rightarrow>
          let updated = (apply_update_patch patch run)\<lparr>er_updated_at := now\<rparr>
          in Inr (updated, jm_set rid updated reg,
               \<lparr>re_kind = EmitUpdate, re_run = updated, re_from = None, re_to = None\<rparr>))"

definition delete_run :: "string \<Rightarrow> registry \<Rightarrow> bool \<times> registry" where
  "delete_run rid reg = (jm_has reg rid, jm_delete rid reg)"

definition registry_size :: "registry \<Rightarrow> nat" where
  "registry_size reg = length reg"

text \<open>The lifecycle operations as data, so that a history of calls is a list.\<close>

datatype registry_op =
    OpCreate string int create_run_input
  | OpTransition string run_status transition_patch int
  | OpUpdate string update_patch int

fun registry_apply :: "registry_op \<Rightarrow> registry \<Rightarrow> registry_result" where
  "registry_apply (OpCreate uuid now i) reg = create_run uuid now i reg"
| "registry_apply (OpTransition rid tgt p now) reg = transition_run rid tgt p now reg"
| "registry_apply (OpUpdate rid p now) reg = update_run rid p now reg"

definition registry_step :: "registry_op \<Rightarrow> registry \<Rightarrow> registry" where
  "registry_step x reg = (case registry_apply x reg of Inl _ \<Rightarrow> reg | Inr (_, reg', _) \<Rightarrow> reg')"

section \<open>The status table\<close>

lemmas status_defs = can_transition_def is_terminal_run_status_def terminal_run_states_def

lemma terminal_iff_no_transition:
  "is_terminal_run_status s \<longleftrightarrow> valid_transitions s = []"
  by (cases s) (simp_all add: status_defs)

lemma can_transition_refl [simp]: "can_transition s s"
  by (simp add: can_transition_def)

lemma terminal_transition: "is_terminal_run_status a \<Longrightarrow> can_transition a b \<Longrightarrow> b = a"
  by (simp add: terminal_iff_no_transition can_transition_def split: if_splits)

interpretation run_status: status_machine can_transition is_terminal_run_status
  by unfold_locales (rule terminal_transition)

lemma nonterminal_abort:
  "\<not> is_terminal_run_status s \<Longrightarrow> b \<in> {RCancelled, RFailed, RLost} \<Longrightarrow> can_transition s b"
  by (cases s) (auto simp: status_defs)

lemma table_steps:
  "can_transition RQueued RPreparing" "can_transition RPreparing RRunning"
  "can_transition RRunning RSucceeded" "can_transition RWaiting RRunning"
  "can_transition RVerifying RSucceeded" "can_transition RBlocked RRunning"
  by (simp_all add: status_defs)

lemma nonterminal_can_succeed:
  assumes "\<not> is_terminal_run_status s"
  shows "can_transition\<^sup>*\<^sup>* s RSucceeded"
proof -
  note step = converse_rtranclp_into_rtranclp [of can_transition]
  have run: "can_transition\<^sup>*\<^sup>* RRunning RSucceeded"
    and ver: "can_transition\<^sup>*\<^sup>* RVerifying RSucceeded"
    by (rule r_into_rtranclp, rule table_steps)+
  have prep: "can_transition\<^sup>*\<^sup>* RPreparing RSucceeded"
    by (rule step [OF table_steps(2) run])
  show ?thesis
  proof (cases s)
    case RQueued
    show ?thesis unfolding \<open>s = RQueued\<close> by (rule step [OF table_steps(1) prep])
  next
    case RWaiting
    show ?thesis unfolding \<open>s = RWaiting\<close> by (rule step [OF table_steps(4) run])
  next
    case RBlocked
    show ?thesis unfolding \<open>s = RBlocked\<close> by (rule step [OF table_steps(6) run])
  qed (use assms run ver prep in \<open>auto simp: status_defs\<close>)
qed

section \<open>Behaviour of the operations\<close>

definition registry_ok :: "registry \<Rightarrow> bool" where
  "registry_ok reg \<longleftrightarrow> jm_wf reg \<and> (\<forall>k v. jm_get reg k = Some v \<longrightarrow> er_run_id v = k)"

lemma registry_ok_empty [simp]: "registry_ok []"
  by (simp add: registry_ok_def)

lemma patch_keeps [simp]:
  "er_run_id (apply_transition_patch p run) = er_run_id run"
  "er_status (apply_transition_patch p run) = er_status run"
  "er_created_at (apply_transition_patch p run) = er_created_at run"
  "er_kind (apply_transition_patch p run) = er_kind run"
  "er_goal (apply_transition_patch p run) = er_goal run"
  "er_parent_run_id (apply_transition_patch p run) = er_parent_run_id run"
  "er_run_id (apply_update_patch q run) = er_run_id run"
  "er_status (apply_update_patch q run) = er_status run"
  "er_created_at (apply_update_patch q run) = er_created_at run"
  by (simp_all add: apply_transition_patch_def apply_update_patch_def)

lemma run_of_input_simps [simp]:
  "er_run_id (run_of_input rid now i) = rid"
  "er_status (run_of_input rid now i) = default_to (ci_status i) RQueued"
  by (simp_all add: run_of_input_def)

lemma create_run_Inr:
  "create_run u now i reg = Inr (run, reg', ev) \<longleftrightarrow>
     (let rid = default_to (ci_run_id i) u in
      \<not> jm_has reg rid \<and> run = run_of_input rid now i \<and> reg' = jm_set rid run reg \<and>
      ev = \<lparr>re_kind = EmitCreate, re_run = run, re_from = None, re_to = None\<rparr>)"
  by (auto simp: create_run_def Let_def)

lemma transition_run_Inr:
  "transition_run rid tgt p now reg = Inr (run', reg', ev) \<longleftrightarrow>
     (\<exists>run. jm_get reg rid = Some run \<and> can_transition (er_status run) tgt \<and>
        run' = (apply_transition_patch p run)\<lparr>er_status := tgt, er_updated_at := now\<rparr> \<and>
        reg' = jm_set rid run' reg \<and>
        ev = \<lparr>re_kind = EmitTransition, re_run = run', re_from = Some (er_status run),
              re_to = Some tgt\<rparr>)"
  by (auto simp: transition_run_def Let_def split: option.splits)

lemma update_run_Inr:
  "update_run rid p now reg = Inr (run', reg', ev) \<longleftrightarrow>
     (\<exists>run. jm_get reg rid = Some run \<and>
        run' = (apply_update_patch p run)\<lparr>er_updated_at := now\<rparr> \<and>
        reg' = jm_set rid run' reg \<and>
        ev = \<lparr>re_kind = EmitUpdate, re_run = run', re_from = None, re_to = None\<rparr>)"
  by (auto simp: update_run_def Let_def split: option.splits)

lemmas registry_op_Inr = create_run_Inr transition_run_Inr update_run_Inr

lemma registry_apply_ok:
  "registry_ok reg \<Longrightarrow> registry_apply x reg = Inr (run, reg', ev) \<Longrightarrow> registry_ok reg'"
  by (cases x) (auto simp: registry_ok_def registry_op_Inr Let_def split: if_splits)

lemma registry_step_ok: "registry_ok reg \<Longrightarrow> registry_ok (registry_step x reg)"
  by (auto simp: registry_step_def intro: registry_apply_ok split: sum.splits)

lemma delete_run_ok: "registry_ok reg \<Longrightarrow> registry_ok (snd (delete_run rid reg))"
  by (auto simp: registry_ok_def delete_run_def)

text \<open>What one call may do to the runs that exist: follow the table, keep identity.\<close>

definition runs_follow_table :: "registry \<Rightarrow> registry \<Rightarrow> bool" where
  "runs_follow_table reg reg' \<longleftrightarrow>
     (\<forall>rid run. jm_get reg rid = Some run \<longrightarrow>
        (\<exists>run'. jm_get reg' rid = Some run' \<and> can_transition\<^sup>*\<^sup>* (er_status run) (er_status run') \<and>
           er_run_id run' = er_run_id run \<and> er_created_at run' = er_created_at run))"

lemma registry_apply_follows:
  assumes "registry_apply x reg = Inr (run, reg', ev)"
  shows "runs_follow_table reg reg'"
  using assms
  by (cases x) (auto simp: runs_follow_table_def registry_op_Inr Let_def
      intro: r_into_rtranclp split: if_splits)

lemma runs_follow_table_refl: "runs_follow_table reg reg"
  by (auto simp: runs_follow_table_def)

lemma runs_follow_table_trans:
  assumes ab: "runs_follow_table a b" and bc: "runs_follow_table b c"
  shows "runs_follow_table a c"
  unfolding runs_follow_table_def
proof (intro allI impI)
  fix rid run
  assume "jm_get a rid = Some run"
  with ab obtain r1 where r1: "jm_get b rid = Some r1"
    "can_transition\<^sup>*\<^sup>* (er_status run) (er_status r1)"
    "er_run_id r1 = er_run_id run" "er_created_at r1 = er_created_at run"
    unfolding runs_follow_table_def by blast
  from bc r1(1) obtain r2 where "jm_get c rid = Some r2"
    "can_transition\<^sup>*\<^sup>* (er_status r1) (er_status r2)"
    "er_run_id r2 = er_run_id r1" "er_created_at r2 = er_created_at r1"
    unfolding runs_follow_table_def by blast
  with r1 show "\<exists>run'. jm_get c rid = Some run' \<and>
      can_transition\<^sup>*\<^sup>* (er_status run) (er_status run') \<and>
      er_run_id run' = er_run_id run \<and> er_created_at run' = er_created_at run"
    by (auto intro: rtranclp_trans)
qed

interpretation registry_history:
  preserved_relation registry_step registry_ok runs_follow_table
proof unfold_locales
  show "runs_follow_table s (registry_step x s)" for s x
    by (auto simp: registry_step_def split: sum.splits
        intro: runs_follow_table_refl registry_apply_follows)
qed (auto intro: registry_step_ok runs_follow_table_refl runs_follow_table_trans)

section \<open>Properties\<close>

text \<open>A run request for the examples: a sub-agent run in a workspace.\<close>

definition sample_input :: create_run_input where
  "sample_input = \<lparr>ci_run_id = None, ci_parent_run_id = None, ci_kind = KAgent,
     ci_goal = ''fix the tests'', ci_status = None, ci_phase = None, ci_worker = None,
     ci_model_profile = None, ci_model_role = None, ci_model_tier = None, ci_model = None,
     ci_provider = None,
     ci_workspace = \<lparr>ws_cwd = ''/repo'', ws_worktree_path = None, ws_branch = None\<rparr>,
     ci_acceptance = None, ci_budget = None, ci_resources = None, ci_artifacts = None,
     ci_verification = None, ci_error = None, ci_created_at = None, ci_updated_at = None\<rparr>"

definition sample_registry :: registry where
  "sample_registry = [(''r1'', run_of_input ''r1'' 0 sample_input)]"

lemma sample_registry_ok [simp]: "registry_ok sample_registry"
  by (simp add: registry_ok_def sample_registry_def)

text \<open>
  (C4) Over any history of \<open>create\<close>, \<open>transition\<close> and \<open>update\<close> calls, a registered run stays
  registered under its id and creation time, its status moves only along the status table, and
  a terminal status never changes again.
\<close>

theorem run_history_follows_table:
  assumes "registry_ok reg" and "jm_get reg rid = Some run"
  shows "\<exists>run'. jm_get (fold registry_step ops reg) rid = Some run' \<and>
    can_transition\<^sup>*\<^sup>* (er_status run) (er_status run') \<and>
    er_run_id run' = rid \<and> er_created_at run' = er_created_at run \<and>
    (is_terminal_run_status (er_status run) \<longrightarrow> er_status run' = er_status run)"
proof -
  from assms have "er_run_id run = rid" by (simp add: registry_ok_def)
  moreover have "runs_follow_table reg (fold registry_step ops reg)"
    using assms(1) by (rule registry_history.run_rel)
  ultimately show ?thesis
    using assms(2) run_status.terminal_reach unfolding runs_follow_table_def by fastforce
qed

theorem run_history_follows_table_witness:
  "\<exists>run'. jm_get (fold registry_step
      [OpTransition ''r1'' RFailed no_patch 5, OpTransition ''r1'' RRunning no_patch 6]
      sample_registry) ''r1'' = Some run' \<and>
    can_transition\<^sup>*\<^sup>* RQueued (er_status run') \<and> er_run_id run' = ''r1'' \<and> er_created_at run' = 0"
proof -
  have run: "jm_get sample_registry ''r1'' = Some (run_of_input ''r1'' 0 sample_input)"
    by (simp add: sample_registry_def)
  have "er_status (run_of_input ''r1'' 0 sample_input) = RQueued"
    "er_created_at (run_of_input ''r1'' 0 sample_input) = 0"
    by (simp_all add: sample_input_def run_of_input_def)
  with run_history_follows_table [OF sample_registry_ok run,
      of "[OpTransition ''r1'' RFailed no_patch 5, OpTransition ''r1'' RRunning no_patch 6]"]
  show ?thesis by metis
qed

text \<open>
  \<open>transition\<close> succeeds exactly when the run exists and the table allows the move; it then
  sets the status and the fields of the patch of that run only, keeps its goal, kind, parent
  and identity, leaves every other run and the order of the registry alone, and notifies the
  old and the new status. Otherwise it reports which of the two conditions failed.
\<close>

theorem transition_run_correct:
  "case transition_run rid tgt p now reg of
     Inr (run', reg', ev) \<Rightarrow>
       (\<exists>run. jm_get reg rid = Some run \<and> can_transition (er_status run) tgt \<and>
          er_status run' = tgt \<and> er_goal run' = er_goal run \<and> er_kind run' = er_kind run \<and>
          er_parent_run_id run' = er_parent_run_id run \<and> er_run_id run' = er_run_id run \<and>
          re_from ev = Some (er_status run) \<and> re_to ev = Some tgt) \<and>
       re_run ev = run' \<and> jm_get reg' = (jm_get reg)(rid \<mapsto> run') \<and> jm_keys reg' = jm_keys reg
   | Inl (RunNotFound r) \<Rightarrow> r = rid \<and> \<not> jm_has reg rid
   | Inl (InvalidRunTransition r a b) \<Rightarrow> r = rid \<and> b = tgt \<and>
       map_option er_status (jm_get reg rid) = Some a \<and> \<not> can_transition a tgt
   | Inl (RunAlreadyExists r) \<Rightarrow> False"
  by (cases "jm_get reg rid") (auto simp: transition_run_def Let_def jm_keys_set)

text \<open>
  The two tables agree: the statuses of \<open>TERMINAL_RUN_STATES\<close> are exactly those that no
  other status follows; every other status can be cancelled, failed or lost at once and still
  has a path to \<open>succeeded\<close>.
\<close>

theorem terminal_set_matches_table:
  "(is_terminal_run_status s \<longleftrightarrow> (\<forall>b. can_transition s b \<longrightarrow> b = s)) \<and>
   (is_terminal_run_status s \<or>
     can_transition s RCancelled \<and> can_transition s RFailed \<and> can_transition s RLost \<and>
     can_transition\<^sup>*\<^sup>* s RSucceeded)"
proof (cases "is_terminal_run_status s")
  case True
  then show ?thesis by (auto dest: terminal_transition)
next
  case False
  then have "can_transition s RCancelled" "can_transition s RFailed" "can_transition s RLost"
    by (auto intro: nonterminal_abort)
  with False show ?thesis
    using nonterminal_can_succeed by (metis run_status.distinct)
qed

theorem terminal_set_matches_table_witness:
  "\<not> is_terminal_run_status RBlocked \<and> can_transition RBlocked RCancelled \<and>
   can_transition\<^sup>*\<^sup>* RBlocked RSucceeded \<and>
   is_terminal_run_status RLost \<and> \<not> can_transition RLost RRunning"
  using terminal_set_matches_table [of RBlocked] terminal_set_matches_table [of RLost]
  by (simp add: status_defs)

text \<open>
  The statuses from which a run can time out, block or fail verification: the header says
  "any non-terminal state", the table restricts each of them (a queued run can do none).
\<close>

theorem restricted_exits:
  "(can_transition s RTimedOut \<longleftrightarrow> s \<in> {RRunning, RWaiting, RTimedOut}) \<and>
   (can_transition s RBlocked \<longleftrightarrow> s \<in> {RPreparing, RRunning, RBlocked}) \<and>
   (can_transition s RVerificationFailed \<longleftrightarrow> s \<in> {RVerifying, RVerificationFailed})"
  by (cases s) (simp_all add: status_defs)

end
