(* ===== verification/RunEvents.thy ===== *)
theory RunEvents
  imports ExecutionRun
begin

text \<open>
  Events of a run, their log and crash recovery: \<open>src/src/core/executionRunEvents.ts\<close>.

  Every registry call produces one envelope; the bus numbers it per run, appends it to the
  JSONL file and fans it out to the subscribers. A file is its list of lines: a line that
  \<open>JSON.parse\<close> accepts carries its envelope, any other line is \<open>LBad\<close>; the file may end in
  the middle of a line after a crash. A subscriber is a function from the envelope to the
  message it throws, if it throws (subscribers that call back into the registry are not
  modelled); the fresh event id and the clock are arguments.
\<close>

section \<open>Envelopes\<close>

record event_payload =
  pl_run :: "execution_run option"
  pl_from :: "run_status option"
  pl_phase :: "string option"
  pl_error :: "string option"
  pl_reason :: "string option"
  pl_data :: string

record envelope =
  ev_id :: string
  ev_run_id :: string
  ev_parent :: "string option"
  ev_seq :: nat
  ev_time :: int
  ev_type :: string
  ev_payload :: event_payload

fun terminal_event_type :: "run_status \<Rightarrow> string" where
  "terminal_event_type RSucceeded = ''run.completed''"
| "terminal_event_type RFailed = ''run.failed''"
| "terminal_event_type RCancelled = ''run.cancelled''"
| "terminal_event_type RTimedOut = ''run.failed''"
| "terminal_event_type RVerificationFailed = ''run.failed''"
| "terminal_event_type RLost = ''run.failed''"
| "terminal_event_type _ = ''run.progress''"

definition event_type_for_transition :: "run_status \<Rightarrow> run_status \<Rightarrow> string" where
  "event_type_for_transition a b =
     (if a = RQueued \<and> b = RPreparing then ''run.started''
      else if b = RBlocked then ''run.blocked''
      else terminal_event_type b)"

definition empty_payload :: event_payload where
  "empty_payload = \<lparr>pl_run = None, pl_from = None, pl_phase = None, pl_error = None,
     pl_reason = None, pl_data = []\<rparr>"

definition payload_for_transition ::
  "run_status \<Rightarrow> run_status \<Rightarrow> execution_run \<Rightarrow> event_payload" where
  "payload_for_transition a b run =
     (let ty = event_type_for_transition a b;
          base = empty_payload\<lparr>pl_run := Some run, pl_from := Some a\<rparr>
      in if ty = ''run.completed'' then base
         else if ty = ''run.failed'' then base\<lparr>pl_error := er_error run\<rparr>
         else if ty = ''run.cancelled'' then base
         else if ty = ''run.blocked'' then base\<lparr>pl_reason := er_error run\<rparr>
         else if ty = ''run.started'' then base
         else base\<lparr>pl_phase := er_phase run\<rparr>)"

definition raw_type_payload :: "raw_event \<Rightarrow> string \<times> event_payload" where
  "raw_type_payload raw =
     (let run = re_run raw in
      case re_kind raw of
        EmitCreate \<Rightarrow> (''run.created'', empty_payload\<lparr>pl_run := Some run\<rparr>)
      | EmitTransition \<Rightarrow>
          (let a = default_to (re_from raw) RQueued; b = default_to (re_to raw) RQueued
           in (event_type_for_transition a b, payload_for_transition a b run))
      | EmitUpdate \<Rightarrow> (''run.progress'',
          empty_payload\<lparr>pl_run := Some run, pl_from := Some (er_status run),
                        pl_phase := er_phase run\<rparr>))"

section \<open>The JSONL store\<close>

datatype 'e log_line = LLine 'e | LBad

record 'e jsonl_file =
  jf_lines :: "'e log_line list"
  jf_open_tail :: bool

definition new_file :: "'e jsonl_file" where
  "new_file = \<lparr>jf_lines = [], jf_open_tail = False\<rparr>"

text \<open>
  Appending writes one line and its newline. When the file ends inside a line (a writer was
  killed before), the text continues that line, which then does not parse.
\<close>

definition jsonl_append :: "'e \<Rightarrow> 'e jsonl_file \<Rightarrow> 'e jsonl_file" where
  "jsonl_append e f =
     (if jf_open_tail f then \<lparr>jf_lines = butlast (jf_lines f) @ [LBad], jf_open_tail = False\<rparr>
      else f\<lparr>jf_lines := jf_lines f @ [LLine e]\<rparr>)"

definition jsonl_append_batch :: "'e list \<Rightarrow> 'e jsonl_file \<Rightarrow> 'e jsonl_file" where
  "jsonl_append_batch es f =
     (case es of
        [] \<Rightarrow> f
      | e # es' \<Rightarrow>
          (let f' = jsonl_append e f
           in f'\<lparr>jf_lines := jf_lines f' @ map LLine es'\<rparr>))"

text \<open>A crash in the middle of an append: part of the line is on disk, the newline is not.\<close>

definition jsonl_torn_append :: "'e jsonl_file \<Rightarrow> 'e jsonl_file" where
  "jsonl_torn_append f =
     (if jf_open_tail f then f
      else \<lparr>jf_lines = jf_lines f @ [LBad], jf_open_tail = True\<rparr>)"

fun parsed_lines :: "'e log_line list \<Rightarrow> 'e list" where
  "parsed_lines [] = []"
| "parsed_lines (LLine e # ls) = e # parsed_lines ls"
| "parsed_lines (LBad # ls) = parsed_lines ls"

definition dedup_events :: "envelope list \<Rightarrow> envelope list" where
  "dedup_events es =
     (let seen = fold (\<lambda>e m. if ev_id e = [] then m else jm_set (ev_id e) e m) es []
      in if length seen = length es then es else jm_values seen)"

definition jsonl_read_all :: "envelope jsonl_file \<Rightarrow> envelope list" where
  "jsonl_read_all f = dedup_events (parsed_lines (jf_lines f))"

section \<open>The bus\<close>

record subscriber =
  sb_id :: nat
  sb_handler :: "envelope \<Rightarrow> string option"
  sb_critical :: bool

record event_bus =
  bus_reg :: registry
  bus_store :: "envelope jsonl_file option"
  bus_disk_ok :: bool
  bus_seqs :: "(string, nat) jsmap"
  bus_subs :: "subscriber list"
  bus_next_sub :: nat
  bus_errors :: "(envelope \<times> string) list"

datatype bus_error = RegistryError run_error | PersistFailed

definition new_bus :: "registry \<Rightarrow> envelope jsonl_file option \<Rightarrow> event_bus" where
  "new_bus reg store = \<lparr>bus_reg = reg, bus_store = store, bus_disk_ok = True, bus_seqs = [],
     bus_subs = [], bus_next_sub = 0, bus_errors = []\<rparr>"

definition bus_on :: "(envelope \<Rightarrow> string option) \<Rightarrow> bool \<Rightarrow> event_bus \<Rightarrow> nat \<times> event_bus" where
  "bus_on h crit b = (bus_next_sub b,
     b\<lparr>bus_subs := bus_subs b @ [\<lparr>sb_id = bus_next_sub b, sb_handler = h, sb_critical = crit\<rparr>],
       bus_next_sub := Suc (bus_next_sub b)\<rparr>)"

definition bus_off :: "nat \<Rightarrow> event_bus \<Rightarrow> event_bus" where
  "bus_off i b = b\<lparr>bus_subs := filter (\<lambda>s. sb_id s \<noteq> i) (bus_subs b)\<rparr>"

definition bus_read_log :: "event_bus \<Rightarrow> envelope list" where
  "bus_read_log b = (case bus_store b of None \<Rightarrow> [] | Some f \<Rightarrow> jsonl_read_all f)"

text \<open>
  Fan-out of a registry event: the errors reported to \<open>onError\<close>, and the message of the first
  critical subscriber that throws, which stops the loop.
\<close>

fun fan_out :: "subscriber list \<Rightarrow> envelope \<Rightarrow> (envelope \<times> string) list \<times> string option" where
  "fan_out [] e = ([], None)"
| "fan_out (s # ss) e =
     (case sb_handler s e of
        None \<Rightarrow> fan_out ss e
      | Some msg \<Rightarrow>
          if sb_critical s then ([], Some (''critical subscriber threw: '' @ msg))
          else let (errs, crit) = fan_out ss e in ((e, msg) # errs, crit))"

text \<open>Fan-out of a subsystem event: every throw goes to \<open>onError\<close>, none stops the loop.\<close>

fun fan_out_all :: "subscriber list \<Rightarrow> envelope \<Rightarrow> (envelope \<times> string) list" where
  "fan_out_all [] e = []"
| "fan_out_all (s # ss) e =
     (case sb_handler s e of None \<Rightarrow> fan_out_all ss e | Some msg \<Rightarrow> (e, msg) # fan_out_all ss e)"

definition can_transition_to_failed :: "run_status \<Rightarrow> bool" where
  "can_transition_to_failed s =
     (\<not> List.member [RSucceeded, RFailed, RCancelled, RTimedOut, RVerificationFailed] s)"

definition next_seq :: "string \<Rightarrow> event_bus \<Rightarrow> nat" where
  "next_seq rid b = default_to (jm_get (bus_seqs b) rid) 0 + 1"

definition persist :: "envelope \<Rightarrow> event_bus \<Rightarrow> bus_error + event_bus" where
  "persist e b =
     (case bus_store b of
        None \<Rightarrow> Inr b
      | Some f \<Rightarrow> if bus_disk_ok b then Inr (b\<lparr>bus_store := Some (jsonl_append e f)\<rparr>)
                  else Inl PersistFailed)"

text \<open>
  A failed critical subscriber moves the run to \<open>failed\<close>. The notification of that transition
  arrives while the run id is in the \<open>emitting\<close> set, so \<open>dispatch\<close> returns at once: the
  registry changes, no envelope is made.
\<close>

definition fail_run_silently :: "raw_event \<Rightarrow> string \<Rightarrow> int \<Rightarrow> event_bus \<Rightarrow> event_bus" where
  "fail_run_silently raw msg now b =
     (let run = re_run raw in
      if er_status run \<noteq> RFailed \<and> can_transition_to_failed (er_status run)
      then (case transition_run (er_run_id run) RFailed
                   (no_patch\<lparr>tp_phase := Some (Some ''critical-subscriber-error''),
                             tp_error := Some (Some (''critical subscriber threw: '' @ msg))\<rparr>)
                   now (bus_reg b) of
              Inl _ \<Rightarrow> b
            | Inr (_, reg', _) \<Rightarrow> b\<lparr>bus_reg := reg'\<rparr>)
      else b)"

definition envelope_of_raw :: "raw_event \<Rightarrow> string \<Rightarrow> nat \<Rightarrow> envelope" where
  "envelope_of_raw raw uuid n =
     \<lparr>ev_id = uuid, ev_run_id = er_run_id (re_run raw),
      ev_parent = er_parent_run_id (re_run raw), ev_seq = n,
      ev_time = er_updated_at (re_run raw),
      ev_type = fst (raw_type_payload raw), ev_payload = snd (raw_type_payload raw)\<rparr>"

definition dispatch :: "string \<Rightarrow> int \<Rightarrow> raw_event \<Rightarrow> event_bus \<Rightarrow> bus_error option \<times> event_bus" where
  "dispatch uuid now raw b =
     (let rid = er_run_id (re_run raw);
          n = next_seq rid b;
          b1 = b\<lparr>bus_seqs := jm_set rid n (bus_seqs b)\<rparr>;
          e = envelope_of_raw raw uuid n
      in case persist e b1 of
           Inl err \<Rightarrow> (Some err, b1)
         | Inr b2 \<Rightarrow>
             (case fan_out (bus_subs b2) e of
                (errs, None) \<Rightarrow> (None, b2\<lparr>bus_errors := bus_errors b2 @ errs\<rparr>)
              | (errs, Some msg) \<Rightarrow>
                  let b3 = fail_run_silently raw msg now (b2\<lparr>bus_errors := bus_errors b2 @ errs\<rparr>)
                  in (None, b3\<lparr>bus_errors := bus_errors b3 @ [(e, msg)]\<rparr>)))"

text \<open>A registry call with the bus plugged in: first the registry changes, then it dispatches.\<close>

definition bus_registry_op ::
  "string \<Rightarrow> int \<Rightarrow> registry_op \<Rightarrow> event_bus \<Rightarrow> (bus_error + execution_run) \<times> event_bus" where
  "bus_registry_op uuid now x b =
     (case registry_apply x (bus_reg b) of
        Inl err \<Rightarrow> (Inl (RegistryError err), b)
      | Inr (run, reg', raw) \<Rightarrow>
          (case dispatch uuid now raw (b\<lparr>bus_reg := reg'\<rparr>) of
             (Some err, b') \<Rightarrow> (Inl err, b')
           | (None, b') \<Rightarrow> (Inr run, b')))"

definition dispatch_explicit ::
  "string \<Rightarrow> int \<Rightarrow> string \<Rightarrow> execution_run \<Rightarrow> event_payload \<Rightarrow> event_bus
   \<Rightarrow> bus_error option \<times> event_bus" where
  "dispatch_explicit uuid now ty run payload b =
     (let rid = er_run_id run;
          n = next_seq rid b;
          b1 = b\<lparr>bus_seqs := jm_set rid n (bus_seqs b)\<rparr>;
          e = \<lparr>ev_id = uuid, ev_run_id = rid, ev_parent = er_parent_run_id run, ev_seq = n,
               ev_time = now, ev_type = ty, ev_payload = payload\<rparr>
      in case persist e b1 of
           Inl err \<Rightarrow> (Some err, b1)
         | Inr b2 \<Rightarrow> (None, b2\<lparr>bus_errors := bus_errors b2 @ fan_out_all (bus_subs b2) e\<rparr>))"

definition bus_emit ::
  "string \<Rightarrow> int \<Rightarrow> string \<Rightarrow> string \<Rightarrow> event_payload \<Rightarrow> event_bus
   \<Rightarrow> bus_error option \<times> event_bus" where
  "bus_emit uuid now ty rid payload b =
     (case get_run (bus_reg b) rid of
        None \<Rightarrow> (None, b)
      | Some run \<Rightarrow> dispatch_explicit uuid now ty run payload b)"

text \<open>The named emitters: each fixes the event type, its data is opaque here.\<close>

datatype subsystem_event =
    SevSteered | SevToolRequested | SevToolStarted | SevToolCompleted | SevToolFailed
  | SevArtifactCreated | SevVerificationStarted | SevVerificationCompleted | SevVerificationFailed

fun subsystem_type :: "subsystem_event \<Rightarrow> string" where
  "subsystem_type SevSteered = ''run.steered''"
| "subsystem_type SevToolRequested = ''tool.requested''"
| "subsystem_type SevToolStarted = ''tool.started''"
| "subsystem_type SevToolCompleted = ''tool.completed''"
| "subsystem_type SevToolFailed = ''tool.failed''"
| "subsystem_type SevArtifactCreated = ''artifact.created''"
| "subsystem_type SevVerificationStarted = ''verification.started''"
| "subsystem_type SevVerificationCompleted = ''verification.completed''"
| "subsystem_type SevVerificationFailed = ''verification.failed''"

definition emit_subsystem ::
  "string \<Rightarrow> int \<Rightarrow> subsystem_event \<Rightarrow> string \<Rightarrow> string \<Rightarrow> event_bus
   \<Rightarrow> bus_error option \<times> event_bus" where
  "emit_subsystem uuid now k rid data b =
     bus_emit uuid now (subsystem_type k) rid (empty_payload\<lparr>pl_data := data\<rparr>) b"

section \<open>Crash recovery\<close>

definition status_from_event_type :: "string \<Rightarrow> run_status \<Rightarrow> run_status option" where
  "status_from_event_type ty current =
     (if ty = ''run.completed'' then Some RSucceeded
      else if ty = ''run.failed'' then Some RFailed
      else if ty = ''run.cancelled'' then Some RCancelled
      else if ty = ''run.blocked'' then Some RBlocked
      else if ty = ''run.lost'' then Some RLost
      else if ty = ''run.started'' then Some (if current = RQueued then RPreparing else current)
      else None)"

definition replay_input :: "envelope \<Rightarrow> execution_run \<Rightarrow> create_run_input" where
  "replay_input e r = \<lparr>
     ci_run_id = Some (ev_run_id e), ci_parent_run_id = er_parent_run_id r, ci_kind = er_kind r,
     ci_goal = er_goal r, ci_status = Some (er_status r), ci_phase = er_phase r,
     ci_worker = er_worker r, ci_model_profile = None, ci_model_role = None,
     ci_model_tier = None, ci_model = None, ci_provider = None, ci_workspace = er_workspace r,
     ci_acceptance = Some (er_acceptance r), ci_budget = Some (er_budget r),
     ci_resources = Some (er_resources r), ci_artifacts = Some (er_artifacts r),
     ci_verification = er_verification r, ci_error = er_error r,
     ci_created_at = Some (ev_time e), ci_updated_at = Some (ev_time e)\<rparr>"

definition truthy_string :: "string option \<Rightarrow> bool" where
  "truthy_string s = (case s of None \<Rightarrow> False | Some t \<Rightarrow> t \<noteq> [])"

text \<open>
  One event of the log, with the exceptions of \<open>create\<close>, \<open>transition\<close> and \<open>update\<close> already
  swallowed as the loop of \<open>recoverRegistryFromStore\<close> does. \<open>now\<close> is the clock at replay.
\<close>

definition apply_event :: "int \<Rightarrow> envelope \<Rightarrow> registry \<Rightarrow> registry" where
  "apply_event now e reg =
     (let existing = get_run reg (ev_run_id e);
          pl = ev_payload e
      in if ev_type e = ''run.created'' then
           (case existing of
              Some _ \<Rightarrow> reg
            | None \<Rightarrow> (case pl_run pl of
                None \<Rightarrow> reg
              | Some r \<Rightarrow> registry_step (OpCreate (ev_run_id e) now (replay_input e r)) reg))
         else (case existing of
            None \<Rightarrow> reg
          | Some run \<Rightarrow>
              (let snap_phase = Option.bind (pl_run pl) er_phase;
                   snap_error = Option.bind (pl_run pl) er_error;
                   tgt = or_else (map_option er_status (pl_run pl))
                                 (status_from_event_type (ev_type e) (er_status run))
               in if tgt \<noteq> None \<and> tgt \<noteq> Some (er_status run) then
                    (if can_transition (er_status run) (the tgt)
                     then registry_step (OpTransition (ev_run_id e) (the tgt)
                            (no_patch\<lparr>tp_phase := Some (or_else (pl_phase pl) snap_phase),
                                      tp_error := Some (or_else (pl_error pl) snap_error)\<rparr>) now) reg
                     else reg)
                  else if truthy_string (pl_phase pl) \<or> truthy_string snap_phase
                  then registry_step (OpUpdate (ev_run_id e)
                         (phase_patch (or_else (pl_phase pl) snap_phase)) now) reg
                  else reg)))"

definition replay :: "int \<Rightarrow> envelope list \<Rightarrow> registry \<Rightarrow> registry" where
  "replay now es reg = fold (apply_event now) es reg"

definition recover_registry_from_store :: "int \<Rightarrow> envelope jsonl_file \<Rightarrow> registry" where
  "recover_registry_from_store now f = replay now (jsonl_read_all f) []"

section \<open>The store interface\<close>

definition fresh_ids :: "envelope list \<Rightarrow> bool" where
  "fresh_ids es \<longleftrightarrow> distinct (map ev_id es) \<and> [] \<notin> set (map ev_id es)"

lemma fresh_ids_simps [simp]:
  "fresh_ids []"
  "fresh_ids (es @ [e]) \<longleftrightarrow> fresh_ids es \<and> ev_id e \<noteq> [] \<and> ev_id e \<notin> set (map ev_id es)"
  by (auto simp: fresh_ids_def)

text \<open>
  What the bus and the recovery rely on: a store that is ready returns the appended event last,
  and a batch is the sequence of its appends.
\<close>

locale event_store =
  fixes append :: "envelope \<Rightarrow> 'f \<Rightarrow> 'f"
    and batch :: "envelope list \<Rightarrow> 'f \<Rightarrow> 'f"
    and read_all :: "'f \<Rightarrow> envelope list"
    and ready :: "'f \<Rightarrow> bool"
  assumes read_append: "ready f \<Longrightarrow> fresh_ids (read_all f @ [e]) \<Longrightarrow> read_all (append e f) = read_all f @ [e]"
    and ready_append: "ready f \<Longrightarrow> fresh_ids (read_all f @ [e]) \<Longrightarrow> ready (append e f)"
    and batch_appends: "ready f \<Longrightarrow> fresh_ids (read_all f @ es) \<Longrightarrow> batch es f = fold append es f"
begin

lemma fold_append:
  "ready f \<Longrightarrow> fresh_ids (read_all f @ es) \<Longrightarrow>
     ready (fold append es f) \<and> read_all (fold append es f) = read_all f @ es"
proof (induction es arbitrary: f)
  case Nil
  then show ?case by simp
next
  case (Cons e es)
  from Cons.prems have e: "fresh_ids (read_all f @ [e])" by (auto simp: fresh_ids_def)
  from Cons.prems have "ready (append e f)" "read_all (append e f) = read_all f @ [e]"
    using e by (simp_all only: ready_append read_append)
  with Cons.IH [of "append e f"] Cons.prems show ?case by simp
qed

lemma read_batch:
  "ready f \<Longrightarrow> fresh_ids (read_all f @ es) \<Longrightarrow> read_all (batch es f) = read_all f @ es"
  by (simp add: batch_appends fold_append)

end

abbreviation seen_step :: "envelope \<Rightarrow> (string, envelope) jsmap \<Rightarrow> (string, envelope) jsmap" where
  "seen_step \<equiv> \<lambda>e m. if ev_id e = [] then m else jm_set (ev_id e) e m"

lemma seen_fold_fresh:
  "distinct (jm_keys m @ map ev_id es) \<Longrightarrow> [] \<notin> set (map ev_id es) \<Longrightarrow>
     fold seen_step es m = m @ map (\<lambda>e. (ev_id e, e)) es"
proof (induction es arbitrary: m)
  case Nil
  then show ?case by simp
next
  case (Cons e es)
  then have new: "\<not> jm_has m (ev_id e)" by (auto simp: map_of_eq_None_iff)
  have "fold seen_step (e # es) m = fold seen_step es (m @ [(ev_id e, e)])"
    using Cons.prems jm_set_fresh [OF new, of e] by auto
  also have "\<dots> = (m @ [(ev_id e, e)]) @ map (\<lambda>e. (ev_id e, e)) es"
    by (rule Cons.IH) (use Cons.prems in auto)
  finally show ?case by simp
qed

lemma seen_fold_again:
  "(\<forall>e\<in>set es. jm_get m (ev_id e) = Some e) \<Longrightarrow> jm_wf m \<Longrightarrow> fold seen_step es m = m"
proof (induction es)
  case (Cons e es)
  from Cons.prems have "jm_set (ev_id e) e m = m"
    by (simp add: AList.update_triv)
  with Cons show ?case by simp
qed simp

lemma dedup_fresh: "fresh_ids es \<Longrightarrow> dedup_events es = es"
  by (simp add: dedup_events_def fresh_ids_def seen_fold_fresh Let_def)

lemma dedup_twice:
  assumes "fresh_ids es"
  shows "dedup_events (es @ es) = es"
proof -
  let ?m = "map (\<lambda>e. (ev_id e, e)) es"
  have "fold seen_step es [] = ?m"
    using assms by (simp add: fresh_ids_def seen_fold_fresh)
  moreover have "fold seen_step es ?m = ?m"
    using assms
    by (intro seen_fold_again) (auto simp: fresh_ids_def comp_def map_of_eq_Some_iff)
  ultimately have "fold seen_step (es @ es) [] = ?m"
    by simp
  then show ?thesis
    by (cases "es = []") (simp_all add: dedup_events_def Let_def comp_def)
qed

definition jsonl_ready :: "envelope jsonl_file \<Rightarrow> bool" where
  "jsonl_ready f \<longleftrightarrow> \<not> jf_open_tail f \<and> fresh_ids (parsed_lines (jf_lines f))"

lemma parsed_append [simp]: "parsed_lines (xs @ ys) = parsed_lines xs @ parsed_lines ys"
  by (induction xs rule: parsed_lines.induct) auto

lemma parsed_map [simp]: "parsed_lines (map LLine es) = es"
  by (induction es) auto

lemma parsed_butlast_bad: "last ls = LBad \<Longrightarrow> ls \<noteq> [] \<Longrightarrow> parsed_lines (butlast ls) = parsed_lines ls"
  by (induction ls rule: parsed_lines.induct) (auto split: if_splits)

lemma ready_read: "jsonl_ready f \<Longrightarrow> jsonl_read_all f = parsed_lines (jf_lines f)"
  by (simp add: jsonl_ready_def jsonl_read_all_def dedup_fresh)

lemma jsonl_fold_append:
  "\<not> jf_open_tail f \<Longrightarrow> fold jsonl_append es f = f\<lparr>jf_lines := jf_lines f @ map LLine es\<rparr>"
  by (induction es arbitrary: f) (simp_all add: jsonl_append_def)

interpretation jsonl: event_store jsonl_append jsonl_append_batch jsonl_read_all jsonl_ready
proof unfold_locales
  fix f e
  assume f: "jsonl_ready f" and fresh: "fresh_ids (jsonl_read_all f @ [e])"
  from f fresh have p: "fresh_ids (parsed_lines (jf_lines f) @ [e])"
    by (simp only: ready_read)
  from f show r: "jsonl_ready (jsonl_append e f)"
    using p by (simp add: jsonl_ready_def jsonl_append_def)
  from f show "jsonl_read_all (jsonl_append e f) = jsonl_read_all f @ [e]"
    by (simp add: ready_read [OF r] ready_read [OF f]) (simp add: jsonl_append_def jsonl_ready_def)
next
  fix f es
  assume "jsonl_ready f"
  then show "jsonl_append_batch es f = fold jsonl_append es f"
    by (cases es) (auto simp: jsonl_append_batch_def jsonl_fold_append jsonl_ready_def
        jsonl_append_def Let_def)
qed

lemma jsonl_ready_new [simp]: "jsonl_ready new_file" "jsonl_read_all new_file = []"
  by (simp_all add: jsonl_ready_def new_file_def jsonl_read_all_def dedup_events_def)

section \<open>Replay follows the live registry\<close>

definition same_status :: "registry \<Rightarrow> registry \<Rightarrow> bool" where
  "same_status a b \<longleftrightarrow> jm_keys a = jm_keys b \<and>
     (\<forall>k. map_option er_status (jm_get a k) = map_option er_status (jm_get b k))"

lemma same_status_refl [simp]: "same_status a a"
  by (simp add: same_status_def)

lemma same_statusD:
  "same_status a b \<Longrightarrow> jm_get a k = Some r \<Longrightarrow> \<exists>r'. jm_get b k = Some r' \<and> er_status r' = er_status r"
  unfolding same_status_def
  by (metis map_option_eq_Some)

lemma same_status_has: "same_status a b \<Longrightarrow> jm_has a k \<longleftrightarrow> jm_has b k"
  unfolding same_status_def by (metis map_option_is_None)

lemma same_status_set:
  assumes "same_status a b" and "er_status v = er_status w"
  shows "same_status (jm_set k v a) (jm_set k w b)"
  using assms same_status_has [OF assms(1), of k] by (simp add: same_status_def jm_keys_set)

lemma same_status_set_left:
  assumes "same_status a b" and "jm_get b k = Some q" and "er_status v = er_status q"
  shows "same_status (jm_set k v a) b"
  using assms same_status_has [OF assms(1), of k] by (auto simp: same_status_def jm_keys_set)

lemma not_created [simp]:
  "terminal_event_type b \<noteq> ''run.created''"
  "event_type_for_transition a b \<noteq> ''run.created''"
  by (cases b; simp add: event_type_for_transition_def)+

lemma payload_run [simp]: "pl_run (payload_for_transition a b run) = Some run"
  by (simp add: payload_for_transition_def Let_def)

lemma registry_step_create:
  "\<not> jm_has reg rid \<Longrightarrow> ci_run_id i = Some rid \<Longrightarrow>
     registry_step (OpCreate u now i) reg = jm_set rid (run_of_input rid now i) reg"
  by (simp add: registry_step_def create_run_def Let_def)

lemma registry_step_transition:
  "jm_get reg rid = Some run \<Longrightarrow> can_transition (er_status run) b \<Longrightarrow>
     registry_step (OpTransition rid b p now) reg =
       jm_set rid ((apply_transition_patch p run)\<lparr>er_status := b, er_updated_at := now\<rparr>) reg"
  by (simp add: registry_step_def transition_run_def Let_def)

lemma registry_step_update:
  "jm_get reg rid = Some run \<Longrightarrow>
     registry_step (OpUpdate rid p now) reg =
       jm_set rid ((apply_update_patch p run)\<lparr>er_updated_at := now\<rparr>) reg"
  by (simp add: registry_step_def update_run_def Let_def)

lemma apply_created:
  assumes "ev_type e = ''run.created''" and "pl_run (ev_payload e) = Some r"
    and "\<not> jm_has rc (ev_run_id e)"
  shows "\<exists>w. apply_event now e rc = jm_set (ev_run_id e) w rc \<and> er_status w = er_status r"
  using assms
  by (auto simp: apply_event_def get_run_def registry_step_create replay_input_def)

text \<open>An event that carries a snapshot of a legal successor brings the replayed run to its status.\<close>

lemma apply_snapshot:
  assumes "ev_type e \<noteq> ''run.created''" and "pl_run (ev_payload e) = Some r"
    and "jm_get rc (ev_run_id e) = Some run" and "can_transition (er_status run) (er_status r)"
  shows "apply_event now e rc = rc \<and> er_status r = er_status run \<or>
    (\<exists>w. apply_event now e rc = jm_set (ev_run_id e) w rc \<and> er_status w = er_status r)"
  using assms
  by (auto simp: apply_event_def get_run_def registry_step_transition registry_step_update Let_def)

text \<open>An event without a snapshot, of a subsystem type and with no phase, replays to nothing.\<close>

lemma apply_subsystem:
  assumes "pl_run (ev_payload e) = None" and "pl_phase (ev_payload e) = None"
    and "status_from_event_type (ev_type e) s = None \<or> ev_type e = ''run.created''"
  shows "apply_event now e rc = rc"
  using assms
  by (auto simp: apply_event_def get_run_def truthy_string_def status_from_event_type_def Let_def
      split: option.splits if_splits)

lemma subsystem_not_status [simp]: "status_from_event_type (subsystem_type k) s = None"
  by (cases k) (simp_all add: status_from_event_type_def)

lemma envelope_of_raw_simps [simp]:
  "ev_id (envelope_of_raw raw u n) = u"
  "ev_run_id (envelope_of_raw raw u n) = er_run_id (re_run raw)"
  "ev_seq (envelope_of_raw raw u n) = n"
  by (simp_all add: envelope_of_raw_def)

text \<open>One registry call and the replay of its envelope keep the two registries in step.\<close>

lemma apply_raw:
  assumes ok: "registry_ok reg" and same: "same_status reg rc"
    and app: "registry_apply x reg = Inr (run, reg', raw)"
  shows "same_status reg' (apply_event now (envelope_of_raw raw u n) rc)"
proof (cases x)
  case (OpCreate u' t i)
  let ?e = "envelope_of_raw raw u n"
  from app OpCreate obtain rid where rid: "\<not> jm_has reg rid" "run = run_of_input rid t i"
    "reg' = jm_set rid run reg"
    "raw = \<lparr>re_kind = EmitCreate, re_run = run, re_from = None, re_to = None\<rparr>"
    by (auto simp: create_run_Inr Let_def)
  then have "ev_type ?e = ''run.created''" "pl_run (ev_payload ?e) = Some run" "ev_run_id ?e = rid"
    by (simp_all add: envelope_of_raw_def raw_type_payload_def)
  moreover from rid same have "\<not> jm_has rc rid" using same_status_has [OF same] by blast
  ultimately obtain w where "apply_event now ?e rc = jm_set rid w rc" "er_status w = er_status run"
    using apply_created [of ?e run rc now] by metis
  with rid same show ?thesis by (simp add: same_status_set)
next
  case (OpTransition rid b p t)
  let ?e = "envelope_of_raw raw u n"
  from app OpTransition obtain r0 where r0: "jm_get reg rid = Some r0"
    "can_transition (er_status r0) b" "reg' = jm_set rid run reg" "er_status run = b"
    "er_run_id run = er_run_id r0"
    "raw = \<lparr>re_kind = EmitTransition, re_run = run, re_from = Some (er_status r0), re_to = Some b\<rparr>"
    by (auto simp: transition_run_Inr)
  with ok have id: "ev_run_id ?e = rid" by (auto simp: registry_ok_def)
  have e: "ev_type ?e \<noteq> ''run.created''" "pl_run (ev_payload ?e) = Some run"
    using r0 by (simp_all add: envelope_of_raw_def raw_type_payload_def Let_def)
  obtain q where q: "jm_get rc rid = Some q" "er_status q = er_status r0"
    using same_statusD [OF same r0(1)] by blast
  show ?thesis
    using apply_snapshot [OF e, of rc q now] q r0 id same
    by (auto simp: same_status_set intro: same_status_set_left)
next
  case (OpUpdate rid p t)
  let ?e = "envelope_of_raw raw u n"
  from app OpUpdate obtain r0 where r0: "jm_get reg rid = Some r0"
    "reg' = jm_set rid run reg" "er_status run = er_status r0" "er_run_id run = er_run_id r0"
    "raw = \<lparr>re_kind = EmitUpdate, re_run = run, re_from = None, re_to = None\<rparr>"
    by (auto simp: update_run_Inr)
  with ok have id: "ev_run_id ?e = rid" by (auto simp: registry_ok_def)
  have e: "ev_type ?e \<noteq> ''run.created''" "pl_run (ev_payload ?e) = Some run"
    using r0 by (simp_all add: envelope_of_raw_def raw_type_payload_def Let_def)
  obtain q where q: "jm_get rc rid = Some q" "er_status q = er_status r0"
    using same_statusD [OF same r0(1)] by blast
  show ?thesis
    using apply_snapshot [OF e, of rc q now] q r0 id same
    by (auto simp: same_status_set intro: same_status_set_left)
qed

section \<open>Histories of the bus\<close>

datatype bus_op =
    BusRegistry string int registry_op
  | BusEmit string int subsystem_event string string

fun bus_op_uuid :: "bus_op \<Rightarrow> string" where
  "bus_op_uuid (BusRegistry u _ _) = u"
| "bus_op_uuid (BusEmit u _ _ _ _) = u"

fun bus_step :: "bus_op \<Rightarrow> event_bus \<Rightarrow> event_bus" where
  "bus_step (BusRegistry u now x) b = snd (bus_registry_op u now x b)"
| "bus_step (BusEmit u now k rid data) b = snd (emit_subsystem u now k rid data b)"

text \<open>No critical subscriber throws.\<close>

definition tame :: "subscriber list \<Rightarrow> bool" where
  "tame ss \<longleftrightarrow> (\<forall>s\<in>set ss. sb_critical s \<longrightarrow> (\<forall>e. sb_handler s e = None))"

lemma tame_fan_out: "tame ss \<Longrightarrow> snd (fan_out ss e) = None"
  by (induction ss) (auto simp: tame_def split: option.splits prod.splits)

definition log_of :: "event_bus \<Rightarrow> envelope list" where
  "log_of b = bus_read_log b"

text \<open>The bus is connected to a working file and its log numbers every run from one.\<close>

definition bus_ok :: "event_bus \<Rightarrow> bool" where
  "bus_ok b \<longleftrightarrow> registry_ok (bus_reg b) \<and> bus_disk_ok b \<and>
     (\<exists>f. bus_store b = Some f \<and> jsonl_ready f) \<and>
     (\<forall>rid. map ev_seq (filter (\<lambda>e. ev_run_id e = rid) (log_of b)) =
        [1..<Suc (default_to (jm_get (bus_seqs b) rid) 0)])"

definition bus_fresh :: "string \<Rightarrow> event_bus \<Rightarrow> bool" where
  "bus_fresh u b \<longleftrightarrow> u \<noteq> [] \<and> u \<notin> set (map ev_id (log_of b))"

lemma persist_ok:
  assumes "bus_store b = Some f" "jsonl_ready f" "bus_disk_ok b"
    and "ev_id e \<noteq> []" "ev_id e \<notin> set (map ev_id (log_of b))"
  shows "\<exists>b'. persist e b = Inr b' \<and> log_of b' = log_of b @ [e] \<and>
    (\<exists>f'. bus_store b' = Some f' \<and> jsonl_ready f') \<and>
    b' = b\<lparr>bus_store := bus_store b'\<rparr>"
proof -
  have fresh: "fresh_ids (jsonl_read_all f @ [e])"
    using assms by (simp add: ready_read log_of_def bus_read_log_def) (simp add: jsonl_ready_def)
  show ?thesis
    using assms jsonl.read_append [OF assms(2) fresh] jsonl.ready_append [OF assms(2) fresh]
    by (simp add: persist_def log_of_def bus_read_log_def)
qed

lemma fail_run_silently_frame [simp]:
  "bus_store (fail_run_silently raw msg now b) = bus_store b"
  "bus_disk_ok (fail_run_silently raw msg now b) = bus_disk_ok b"
  "bus_seqs (fail_run_silently raw msg now b) = bus_seqs b"
  "bus_subs (fail_run_silently raw msg now b) = bus_subs b"
  by (auto simp: fail_run_silently_def Let_def split: sum.splits)

lemma fail_run_silently_ok:
  "registry_ok (bus_reg b) \<Longrightarrow> registry_ok (bus_reg (fail_run_silently raw msg now b))"
  using registry_apply_ok [where x = "OpTransition _ _ _ _"]
  by (fastforce simp: fail_run_silently_def Let_def split: sum.splits)

text \<open>One dispatch on a working bus: exactly one envelope, numbered next, is appended.\<close>

lemma dispatch_appends:
  assumes "bus_store b = Some f" "jsonl_ready f" "bus_disk_ok b" "bus_fresh u b"
  shows "let e = envelope_of_raw raw u (next_seq (er_run_id (re_run raw)) b);
             r = dispatch u now raw b
    in fst r = None \<and> log_of (snd r) = log_of b @ [e] \<and>
       (\<exists>f'. bus_store (snd r) = Some f' \<and> jsonl_ready f') \<and> bus_disk_ok (snd r) \<and>
       bus_subs (snd r) = bus_subs b \<and>
       bus_seqs (snd r) = jm_set (er_run_id (re_run raw)) (ev_seq e) (bus_seqs b) \<and>
       bus_reg (snd r) = (case snd (fan_out (bus_subs b) e) of
         None \<Rightarrow> bus_reg b | Some msg \<Rightarrow> bus_reg (fail_run_silently raw msg now b))"
proof -
  let ?rid = "er_run_id (re_run raw)"
  let ?e = "envelope_of_raw raw u (next_seq ?rid b)"
  let ?b1 = "b\<lparr>bus_seqs := jm_set ?rid (next_seq ?rid b) (bus_seqs b)\<rparr>"
  have "log_of ?b1 = log_of b" by (simp add: log_of_def bus_read_log_def)
  with assms obtain b2 where b2: "persist ?e ?b1 = Inr b2" "log_of b2 = log_of b @ [?e]"
    "\<exists>f'. bus_store b2 = Some f' \<and> jsonl_ready f'" "b2 = ?b1\<lparr>bus_store := bus_store b2\<rparr>"
    using persist_ok [of ?b1 f ?e] by (auto simp: bus_fresh_def)
  have subs: "bus_subs b2 = bus_subs b" "bus_reg b2 = bus_reg b" "bus_disk_ok b2"
    "bus_seqs b2 = bus_seqs ?b1"
    using b2(4) assms(3) by (metis event_bus.select_convs event_bus.surjective event_bus.update_convs)+
  have reg: "bus_reg (fail_run_silently raw msg now (b2\<lparr>bus_errors := x\<rparr>)) =
      bus_reg (fail_run_silently raw msg now b)" for msg x
    using subs by (auto simp: fail_run_silently_def Let_def split: sum.splits)
  show ?thesis
    using b2(1-3) subs reg
    by (auto simp: dispatch_def Let_def log_of_def bus_read_log_def split: prod.splits option.splits)
qed

lemma dispatch_explicit_appends:
  assumes "bus_store b = Some f" "jsonl_ready f" "bus_disk_ok b" "bus_fresh u b"
  shows "\<exists>e. let r = dispatch_explicit u now ty run pl b in
       fst r = None \<and> log_of (snd r) = log_of b @ [e] \<and> ev_id e = u \<and>
       ev_run_id e = er_run_id run \<and> ev_seq e = next_seq (er_run_id run) b \<and>
       ev_type e = ty \<and> ev_payload e = pl \<and>
       (\<exists>f'. bus_store (snd r) = Some f' \<and> jsonl_ready f') \<and> bus_disk_ok (snd r) \<and>
       bus_subs (snd r) = bus_subs b \<and> bus_reg (snd r) = bus_reg b \<and>
       bus_seqs (snd r) = jm_set (er_run_id run) (ev_seq e) (bus_seqs b)"
proof -
  let ?rid = "er_run_id run"
  let ?e = "\<lparr>ev_id = u, ev_run_id = ?rid, ev_parent = er_parent_run_id run,
    ev_seq = next_seq ?rid b, ev_time = now, ev_type = ty, ev_payload = pl\<rparr>"
  let ?b1 = "b\<lparr>bus_seqs := jm_set ?rid (next_seq ?rid b) (bus_seqs b)\<rparr>"
  have "log_of ?b1 = log_of b" by (simp add: log_of_def bus_read_log_def)
  with assms obtain b2 where b2: "persist ?e ?b1 = Inr b2" "log_of b2 = log_of b @ [?e]"
    "\<exists>f'. bus_store b2 = Some f' \<and> jsonl_ready f'" "b2 = ?b1\<lparr>bus_store := bus_store b2\<rparr>"
    using persist_ok [of ?b1 f ?e] by (auto simp: bus_fresh_def)
  have subs: "bus_subs b2 = bus_subs b" "bus_reg b2 = bus_reg b" "bus_disk_ok b2"
    "bus_seqs b2 = bus_seqs ?b1"
    using b2(4) assms(3) by (metis event_bus.select_convs event_bus.surjective event_bus.update_convs)+
  show ?thesis
    using b2(1-3) subs
    by (intro exI [of _ ?e]) (simp add: dispatch_explicit_def Let_def log_of_def bus_read_log_def)
qed

lemma seqs_extend:
  assumes "\<forall>rid. map ev_seq (filter (\<lambda>e. ev_run_id e = rid) es) =
      [1..<Suc (default_to (jm_get sq rid) 0)]"
    and "ev_seq e = default_to (jm_get sq (ev_run_id e)) 0 + 1"
  shows "\<forall>rid. map ev_seq (filter (\<lambda>e. ev_run_id e = rid) (es @ [e])) =
      [1..<Suc (default_to (jm_get (jm_set (ev_run_id e) (ev_seq e) sq) rid) 0)]"
  using assms by simp

text \<open>One step of the bus: the outcome in the cases that matter.\<close>

lemma bus_step_cases:
  assumes ok: "bus_ok b" and fresh: "bus_fresh (bus_op_uuid x) b"
  obtains (skip) "bus_step x b = b"
    | (emit) e where "log_of (bus_step x b) = log_of b @ [e]" "ev_id e = bus_op_uuid x"
        "bus_ok (bus_step x b)" "bus_subs (bus_step x b) = bus_subs b"
        "bus_reg (bus_step x b) = bus_reg b" "\<And>now rc. apply_event now e rc = rc"
    | (call) y run reg' raw n where "registry_apply y (bus_reg b) = Inr (run, reg', raw)"
        "log_of (bus_step x b) = log_of b @ [envelope_of_raw raw (bus_op_uuid x) n]"
        "bus_ok (bus_step x b)" "bus_subs (bus_step x b) = bus_subs b"
        "tame (bus_subs b) \<Longrightarrow> bus_reg (bus_step x b) = reg'"
proof -
  from ok obtain f where f: "bus_store b = Some f" "jsonl_ready f" "bus_disk_ok b"
    and reg: "registry_ok (bus_reg b)"
    and sq: "\<forall>rid. map ev_seq (filter (\<lambda>e. ev_run_id e = rid) (log_of b)) =
        [1..<Suc (default_to (jm_get (bus_seqs b) rid) 0)]"
    by (auto simp: bus_ok_def)
  show thesis
  proof (cases x)
    case (BusEmit u now k rid data)
    show thesis
    proof (cases "jm_get (bus_reg b) rid")
      case None
      then show thesis using BusEmit by (intro skip) (simp add: emit_subsystem_def bus_emit_def get_run_def)
    next
      case (Some run)
      with reg have id: "er_run_id run = rid" by (simp add: registry_ok_def)
      from dispatch_explicit_appends [OF f fresh, of now "subsystem_type k" run
          "empty_payload\<lparr>pl_data := data\<rparr>"] BusEmit Some
      obtain e where e: "log_of (bus_step x b) = log_of b @ [e]" "ev_id e = bus_op_uuid x"
        "ev_run_id e = er_run_id run" "ev_seq e = next_seq (er_run_id run) b"
        "ev_type e = subsystem_type k" "ev_payload e = empty_payload\<lparr>pl_data := data\<rparr>"
        "\<exists>f'. bus_store (bus_step x b) = Some f' \<and> jsonl_ready f'" "bus_disk_ok (bus_step x b)"
        "bus_subs (bus_step x b) = bus_subs b" "bus_reg (bus_step x b) = bus_reg b"
        "bus_seqs (bus_step x b) = jm_set (er_run_id run) (ev_seq e) (bus_seqs b)"
        by (auto simp: emit_subsystem_def bus_emit_def get_run_def Let_def)
      have "bus_ok (bus_step x b)"
        using e reg seqs_extend [OF sq, of e] by (auto simp: bus_ok_def next_seq_def)
      moreover have "apply_event t e rc = rc" for t rc
        using e(5,6) by (intro apply_subsystem) (simp_all add: empty_payload_def)
      ultimately show thesis using e by (intro emit) auto
    qed
  next
    case (BusRegistry u now y)
    show thesis
    proof (cases "registry_apply y (bus_reg b)")
      case (Inl err)
      then show thesis using BusRegistry by (intro skip) (simp add: bus_registry_op_def)
    next
      case (Inr t)
      then obtain run reg' raw where app: "registry_apply y (bus_reg b) = Inr (run, reg', raw)"
        by (cases t) auto
      let ?b = "b\<lparr>bus_reg := reg'\<rparr>"
      let ?n = "next_seq (er_run_id (re_run raw)) ?b"
      let ?e = "envelope_of_raw raw u ?n"
      have "bus_fresh u ?b" using fresh BusRegistry
        by (simp add: bus_fresh_def log_of_def bus_read_log_def)
      with f have d: "log_of (bus_step x b) = log_of b @ [?e]"
        "\<exists>f'. bus_store (bus_step x b) = Some f' \<and> jsonl_ready f'" "bus_disk_ok (bus_step x b)"
        "bus_subs (bus_step x b) = bus_subs b"
        "bus_seqs (bus_step x b) = jm_set (er_run_id (re_run raw)) ?n (bus_seqs b)"
        "bus_reg (bus_step x b) = (case snd (fan_out (bus_subs b) ?e) of
           None \<Rightarrow> reg' | Some msg \<Rightarrow> bus_reg (fail_run_silently raw msg now ?b))"
        using dispatch_appends [of ?b f u raw now] BusRegistry app
        by (auto simp: bus_registry_op_def Let_def log_of_def bus_read_log_def
            split: prod.splits option.splits)
      have "registry_ok reg'" using registry_apply_ok [OF reg app] .
      then have "registry_ok (bus_reg (bus_step x b))"
        using d(6) fail_run_silently_ok [of ?b] by (simp split: option.splits)
      then have "bus_ok (bus_step x b)"
        using d seqs_extend [OF sq, of ?e] by (auto simp: bus_ok_def next_seq_def)
      then show thesis
        using d app BusRegistry tame_fan_out [of "bus_subs b" ?e]
        by (intro call [OF app]) auto
    qed
  qed
qed

lemma bus_run:
  assumes "bus_ok b" and "distinct (map bus_op_uuid xs)"
    and "\<And>x. x \<in> set xs \<Longrightarrow> bus_fresh (bus_op_uuid x) b"
  shows "bus_ok (fold bus_step xs b) \<and> bus_subs (fold bus_step xs b) = bus_subs b \<and>
    (tame (bus_subs b) \<longrightarrow> same_status (bus_reg b) (replay now (log_of b) []) \<longrightarrow>
       same_status (bus_reg (fold bus_step xs b)) (replay now (log_of (fold bus_step xs b)) []))"
  using assms
proof (induction xs arbitrary: b)
  case Nil
  then show ?case by simp
next
  case (Cons x xs)
  let ?b = "bus_step x b"
  have fx: "bus_fresh (bus_op_uuid x) b" by (rule Cons.prems) simp
  have step: "bus_ok ?b \<and> bus_subs ?b = bus_subs b \<and>
      (\<forall>u. bus_fresh u b \<longrightarrow> u \<noteq> bus_op_uuid x \<longrightarrow> bus_fresh u ?b) \<and>
      (tame (bus_subs b) \<longrightarrow> same_status (bus_reg b) (replay now (log_of b) []) \<longrightarrow>
         same_status (bus_reg ?b) (replay now (log_of ?b) []))"
    using Cons.prems(1) fx
  proof (cases rule: bus_step_cases)
    case skip
    with Cons.prems(1) show ?thesis by simp
  next
    case (emit e)
    then show ?thesis by (auto simp: bus_fresh_def replay_def)
  next
    case (call y run reg' raw n)
    have "registry_ok (bus_reg b)" using Cons.prems(1) by (simp add: bus_ok_def)
    with call show ?thesis
      by (auto simp: bus_fresh_def replay_def intro: apply_raw)
  qed
  have "bus_fresh (bus_op_uuid y) ?b" if "y \<in> set xs" for y
    using step Cons.prems(2,3) that by (metis (no_types, lifting) distinct.simps(2) image_eqI
        list.set_intros(2) list.simps(9) set_map)
  with Cons.IH [of ?b] Cons.prems(2) step show ?case by auto
qed

definition start_bus :: "subscriber list \<Rightarrow> event_bus" where
  "start_bus ss = (new_bus [] (Some new_file))\<lparr>bus_subs := ss\<rparr>"

lemma start_bus_simps [simp]:
  "bus_ok (start_bus ss)" "log_of (start_bus ss) = []" "bus_subs (start_bus ss) = ss"
  "bus_reg (start_bus ss) = []" "bus_fresh u (start_bus ss) \<longleftrightarrow> u \<noteq> []"
  by (simp_all add: start_bus_def new_bus_def bus_ok_def log_of_def bus_read_log_def bus_fresh_def)

lemma bus_run_from_start:
  assumes "distinct (map bus_op_uuid xs)" and "[] \<notin> set (map bus_op_uuid xs)"
  shows "bus_ok (fold bus_step xs (start_bus ss)) \<and>
    (tame ss \<longrightarrow> same_status (bus_reg (fold bus_step xs (start_bus ss)))
       (replay now (log_of (fold bus_step xs (start_bus ss))) []))"
proof -
  have "bus_fresh (bus_op_uuid x) (start_bus ss)" if "x \<in> set xs" for x
    using assms(2) that by (metis image_eqI list.set_map start_bus_simps(5))
  from bus_run [OF start_bus_simps(1) assms(1) this] show ?thesis
    by (simp add: replay_def)
qed

interpretation replay_history:
  preserved_relation "apply_event now" registry_ok runs_follow_table for now
proof unfold_locales
  fix e reg
  assume ok: "registry_ok reg"
  show "registry_ok (apply_event now e reg)"
    using ok by (auto simp: apply_event_def Let_def intro: registry_step_ok split: option.splits)
  show "runs_follow_table reg (apply_event now e reg)"
    using ok by (auto simp: apply_event_def Let_def intro: runs_follow_table_refl
        registry_history.step_rel split: option.splits)
qed (auto intro: runs_follow_table_refl runs_follow_table_trans)

lemma critical_fan_out:
  "s \<in> set ss \<Longrightarrow> sb_critical s \<Longrightarrow> sb_handler s e \<noteq> None \<Longrightarrow> \<exists>msg. snd (fan_out ss e) = Some msg"
  by (induction ss) (auto split: option.splits prod.splits)

lemma nonterminal_to_failed: "\<not> is_terminal_run_status s \<Longrightarrow> can_transition_to_failed s \<and> s \<noteq> RFailed"
  by (cases s) (simp_all add: status_defs can_transition_to_failed_def)

section \<open>Properties\<close>

text \<open>A short history and a logger that fails on progress events, for the examples.\<close>

definition sample_ops :: "bus_op list" where
  "sample_ops = [BusRegistry ''e1'' 0 (OpCreate ''r1'' 0 sample_input),
     BusRegistry ''e2'' 1 (OpTransition ''r1'' RPreparing no_patch 1),
     BusEmit ''e3'' 2 SevSteered ''r1'' ''focus'',
     BusRegistry ''e4'' 3 (OpTransition ''r1'' RRunning no_patch 3)]"

definition sample_logger :: "bool \<Rightarrow> subscriber" where
  "sample_logger crit = \<lparr>sb_id = 0, sb_handler = (\<lambda>e. Some ''disk full''), sb_critical = crit\<rparr>"

lemma sample_ops_ids [simp]:
  "distinct (map bus_op_uuid sample_ops)" "[] \<notin> bus_op_uuid ` set sample_ops"
  by (simp_all add: sample_ops_def)

lemma bus_ok_subs [simp]:
  "bus_ok (b\<lparr>bus_subs := ss\<rparr>) = bus_ok b" "log_of (b\<lparr>bus_subs := ss\<rparr>) = log_of b"
  by (simp_all add: bus_ok_def log_of_def bus_read_log_def)

text \<open>
  (C5) Crash recovery is faithful to the run state: after any history of registry calls and
  subsystem emissions on a fresh bus whose critical subscribers do not throw, rebuilding the
  registry from the log file gives the same runs, in the same order, with the same statuses.
\<close>

theorem recovery_restores_status:
  assumes "tame ss" and "distinct (map bus_op_uuid xs)" and "[] \<notin> set (map bus_op_uuid xs)"
  shows "\<exists>f. bus_store (fold bus_step xs (start_bus ss)) = Some f \<and>
    same_status (bus_reg (fold bus_step xs (start_bus ss))) (recover_registry_from_store now f)"
proof -
  from bus_run_from_start [OF assms(2,3), of ss now] assms(1) show ?thesis
    by (auto simp: bus_ok_def recover_registry_from_store_def log_of_def bus_read_log_def)
qed

theorem recovery_restores_status_witness:
  "\<exists>f. bus_store (fold bus_step sample_ops (start_bus [sample_logger False])) = Some f \<and>
    same_status (bus_reg (fold bus_step sample_ops (start_bus [sample_logger False])))
      (recover_registry_from_store 9 f)"
  by (rule recovery_restores_status) (simp_all add: tame_def sample_logger_def)

text \<open>
  The sequence numbers of the events of each run in the log are exactly 1, 2, 3, \<dots> in
  append order, whatever the subscribers do.
\<close>

theorem log_numbers_runs_consecutively:
  assumes "distinct (map bus_op_uuid xs)" and "[] \<notin> set (map bus_op_uuid xs)"
  shows "let evs = filter (\<lambda>e. ev_run_id e = rid) (bus_read_log (fold bus_step xs (start_bus ss)))
    in map ev_seq evs = [1..<Suc (length evs)]"
proof -
  let ?b = "fold bus_step xs (start_bus ss)"
  let ?evs = "filter (\<lambda>e. ev_run_id e = rid) (log_of ?b)"
  have "bus_ok ?b"
    using bus_run_from_start [OF assms] by blast
  then obtain n where n: "map ev_seq ?evs = [1..<Suc n]"
    unfolding bus_ok_def by blast
  then have "length ?evs = n"
    by (metis diff_Suc_1 length_map length_upt)
  with n show ?thesis by (simp add: log_of_def)
qed

theorem log_numbers_runs_consecutively_witness:
  "let evs = filter (\<lambda>e. ev_run_id e = ''r1'')
     (bus_read_log (fold bus_step sample_ops (start_bus [sample_logger True])))
   in map ev_seq evs = [1..<Suc (length evs)]"
  by (rule log_numbers_runs_consecutively) simp_all

text \<open>
  When a critical subscriber throws on a move to a non-terminal status, the run ends
  \<open>failed\<close> in memory, but that failure is never written: recovery from the log brings the run
  back in the status it was moving to.
\<close>

theorem critical_failure_is_not_recovered:
  assumes "bus_ok b" and "same_status (bus_reg b) (replay now (log_of b) [])"
    and "bus_fresh u b" and "jm_get (bus_reg b) rid = Some run"
    and "can_transition (er_status run) tgt" and "\<not> is_terminal_run_status tgt"
    and "s \<in> set (bus_subs b)" and "sb_critical s" and "\<forall>e. sb_handler s e \<noteq> None"
  shows "let b' = bus_step (BusRegistry u t (OpTransition rid tgt p t)) b
    in map_option er_status (jm_get (bus_reg b') rid) = Some RFailed \<and>
       map_option er_status (jm_get (replay now (bus_read_log b') []) rid) = Some tgt"
proof -
  let ?x = "OpTransition rid tgt p t"
  from assms(1) obtain f where f: "bus_store b = Some f" "jsonl_ready f" "bus_disk_ok b"
    and ok: "registry_ok (bus_reg b)" by (auto simp: bus_ok_def)
  obtain run' reg' raw where app: "registry_apply ?x (bus_reg b) = Inr (run', reg', raw)"
    using assms(4,5) by (cases "registry_apply ?x (bus_reg b)")
      (auto simp: transition_run_def Let_def)
  then have raw: "re_run raw = run'" "jm_get reg' rid = Some run'" "er_status run' = tgt"
    "er_run_id run' = rid"
    using assms(4) ok by (auto simp: transition_run_Inr registry_ok_def)
  let ?b = "b\<lparr>bus_reg := reg'\<rparr>"
  let ?e = "envelope_of_raw raw u (next_seq (er_run_id (re_run raw)) ?b)"
  obtain msg where msg: "snd (fan_out (bus_subs b) ?e) = Some msg"
    using critical_fan_out [OF assms(7,8)] assms(9) by blast
  have "bus_fresh u ?b" using assms(3) by (simp add: bus_fresh_def log_of_def bus_read_log_def)
  with f msg have d: "log_of (bus_step (BusRegistry u t ?x) b) = log_of b @ [?e]"
    "bus_reg (bus_step (BusRegistry u t ?x) b) = bus_reg (fail_run_silently raw msg t ?b)"
    using dispatch_appends [of ?b f u raw t] app
    by (auto simp: bus_registry_op_def Let_def log_of_def bus_read_log_def
        split: prod.splits option.splits)
  have "same_status reg' (replay now (log_of b @ [?e]) [])"
    using apply_raw [OF ok assms(2) app] by (simp add: replay_def)
  then have "map_option er_status (jm_get (replay now (log_of b @ [?e]) []) rid) = Some tgt"
    using raw by (auto dest: same_statusD)
  moreover have "map_option er_status (jm_get (bus_reg (fail_run_silently raw msg t ?b)) rid) = Some RFailed"
    using raw nonterminal_to_failed [OF assms(6)] nonterminal_abort [OF assms(6), of RFailed]
    by (auto simp: fail_run_silently_def transition_run_def Let_def)
  ultimately show ?thesis unfolding Let_def log_of_def [symmetric] d by blast
qed

theorem critical_failure_is_not_recovered_witness:
  "let b = (fold bus_step sample_ops (start_bus []))\<lparr>bus_subs := [sample_logger True]\<rparr>;
       b' = bus_step (BusRegistry ''e5'' 4 (OpTransition ''r1'' RWaiting no_patch 4)) b
   in map_option er_status (jm_get (bus_reg b') ''r1'') = Some RFailed \<and>
      map_option er_status (jm_get (replay 9 (bus_read_log b') []) ''r1'') = Some RWaiting"
proof -
  let ?b0 = "fold bus_step sample_ops (start_bus [])"
  let ?b = "?b0\<lparr>bus_subs := [sample_logger True]\<rparr>"
  have run: "bus_ok ?b0 \<and> same_status (bus_reg ?b0) (replay 9 (log_of ?b0) [])"
    using bus_run_from_start [of sample_ops "[]" 9] by (simp add: tame_def)
  have log: "set (map ev_id (log_of ?b0)) = {''e1'', ''e2'', ''e3'', ''e4''}"
    and reg: "map_option er_status (jm_get (bus_reg ?b0) ''r1'') = Some RRunning"
    by (code_simp)+
  from reg obtain run where r: "jm_get (bus_reg ?b0) ''r1'' = Some run" "er_status run = RRunning"
    by auto
  show ?thesis
    unfolding Let_def
    by (rule critical_failure_is_not_recovered [unfolded Let_def, of ?b 9 "''e5''" "''r1''" run
          RWaiting "sample_logger True"])
      (use run log r in \<open>auto simp: bus_fresh_def status_defs sample_logger_def\<close>)
qed

text \<open>
  After a writer was killed in the middle of a line, the log up to there stays readable,
  but the next event appended is glued to the torn line and lost; the one after it is read.
\<close>

theorem torn_line_swallows_next_event:
  assumes "jsonl_ready f" and "fresh_ids (jsonl_read_all f @ [e2])"
  shows "jsonl_read_all (jsonl_torn_append f) = jsonl_read_all f \<and>
    jsonl_read_all (jsonl_append e (jsonl_torn_append f)) = jsonl_read_all f \<and>
    jsonl_read_all (jsonl_append e2 (jsonl_append e (jsonl_torn_append f))) = jsonl_read_all f @ [e2]"
proof -
  let ?g = "jsonl_append e (jsonl_torn_append f)"
  have t: "jsonl_read_all (jsonl_torn_append f) = jsonl_read_all f"
    and g: "jsonl_read_all ?g = jsonl_read_all f" and r: "jsonl_ready ?g"
    using assms(1)
    by (simp_all add: jsonl_torn_append_def jsonl_append_def jsonl_read_all_def jsonl_ready_def)
  with jsonl.read_append [OF r, of e2] assms(2) show ?thesis by simp
qed

theorem torn_line_swallows_next_event_witness:
  "let e = envelope_of_raw \<lparr>re_kind = EmitCreate, re_run = run_of_input ''r1'' 0 sample_input,
             re_from = None, re_to = None\<rparr>
   in jsonl_read_all (jsonl_torn_append new_file) = [] \<and>
      jsonl_read_all (jsonl_append (e ''a'' 1) (jsonl_torn_append new_file)) = [] \<and>
      jsonl_read_all (jsonl_append (e ''b'' 2) (jsonl_append (e ''a'' 1) (jsonl_torn_append new_file)))
        = [e ''b'' 2]"
  using torn_line_swallows_next_event [of new_file "envelope_of_raw
      \<lparr>re_kind = EmitCreate, re_run = run_of_input ''r1'' 0 sample_input,
       re_from = None, re_to = None\<rparr> ''b'' 2"]
  by (simp add: Let_def fresh_ids_def)

text \<open>
  Replay is idempotent at the level of the file: writing the same batch of events twice
  reads back as the batch once, in its order.
\<close>

theorem duplicated_batch_reads_once:
  assumes "fresh_ids es"
  shows "jsonl_read_all (jsonl_append_batch es (jsonl_append_batch es new_file)) = es"
proof -
  have "jsonl_append_batch es (jsonl_append_batch es new_file) =
      new_file\<lparr>jf_lines := map LLine es @ map LLine es\<rparr>"
    by (cases es) (simp_all add: jsonl_append_batch_def jsonl_append_def new_file_def)
  with assms show ?thesis by (simp add: jsonl_read_all_def dedup_twice)
qed

theorem duplicated_batch_reads_once_witness:
  "let raw = \<lparr>re_kind = EmitCreate, re_run = run_of_input ''r1'' 0 sample_input,
             re_from = None, re_to = None\<rparr>;
       es = [envelope_of_raw raw ''a'' 1, envelope_of_raw raw ''b'' 2]
   in jsonl_read_all (jsonl_append_batch es (jsonl_append_batch es new_file)) = es"
  unfolding Let_def by (rule duplicated_batch_reads_once) (simp add: fresh_ids_def)

text \<open>
  Whatever a log contains (gaps, foreign events, events of unknown runs, illegal moves),
  recovery yields a well-formed registry, and more log only moves each recovered run along
  the status table: no recovered run leaves a terminal status.
\<close>

theorem replay_of_any_log_is_safe:
  "registry_ok (recover_registry_from_store now f) \<and>
   runs_follow_table (replay now es []) (replay now (es @ es') [])"
proof -
  have "registry_ok (replay now es [])" for es
    unfolding replay_def by (rule replay_history.run_inv) simp
  then show ?thesis
    using replay_history.run_rel [of "replay now es []"]
    by (simp add: recover_registry_from_store_def) (simp add: replay_def)
qed

end
