(* ===== verification/ResourceScheduler.thy ===== *)
theory ResourceScheduler
  imports RunEvents
begin

text \<open>
  The resource scheduler: \<open>src/src/core/resourceScheduler.ts\<close>.

  The state holds, per key, the claims currently held, the live leases, the queue of waiting
  \<open>acquire\<close> calls, and the outcomes delivered to them so far (a resolved or rejected promise).
  Lease and waiter ids come from counters: the random ids of the source are assumed distinct.
  Timers and abort listeners of the environment arrive as the operation \<open>cancel_waiter\<close>.
\<close>

section \<open>Claims and conflicts\<close>

definition claims_conflict :: "access_mode \<Rightarrow> access_mode \<Rightarrow> bool" where
  "claims_conflict existing incoming =
     (if existing = AccExclusive \<or> incoming = AccExclusive then True
      else if existing = AccWrite \<or> incoming = AccWrite
      then \<not> (existing = AccRead \<and> incoming = AccRead)
      else False)"

definition claims_conflict_between :: "resource_claim list \<Rightarrow> resource_claim list \<Rightarrow> bool" where
  "claims_conflict_between a b =
     (if a = [] \<or> b = [] then False
      else list_ex (\<lambda>ca. list_ex (\<lambda>cb. rc_type ca = rc_type cb \<and> rc_key ca = rc_key cb \<and>
             claims_conflict (rc_access ca) (rc_access cb)) b) a)"

definition normalize_claim :: "string option \<Rightarrow> resource_claim \<Rightarrow> resource_claim" where
  "normalize_claim ws c =
     (let acc = (if rc_type c = CtGit then AccExclusive else rc_access c);
          key = (case ws of None \<Rightarrow> rc_key c
                 | Some w \<Rightarrow> if w = [] then rc_key c else w @ ''::'' @ rc_key c)
      in \<lparr>rc_type = rc_type c, rc_key = key, rc_access = acc\<rparr>)"

definition file_claim :: "string \<Rightarrow> access_mode \<Rightarrow> resource_claim" where
  "file_claim p a = \<lparr>rc_type = CtFile, rc_key = p, rc_access = a\<rparr>"

definition directory_claim :: "string \<Rightarrow> access_mode \<Rightarrow> resource_claim" where
  "directory_claim p a = \<lparr>rc_type = CtDirectory, rc_key = p, rc_access = a\<rparr>"

definition git_claim :: "string \<Rightarrow> resource_claim" where
  "git_claim r = \<lparr>rc_type = CtGit, rc_key = r, rc_access = AccWrite\<rparr>"

section \<open>State\<close>

record held_claim =
  hc_lease :: nat
  hc_run :: string
  hc_claim :: resource_claim

record lease =
  ls_run :: string
  ls_claims :: "resource_claim list"

record waiter =
  wt_id :: nat
  wt_run :: string
  wt_claims :: "resource_claim list"

record conflict_detail =
  cd_claim :: resource_claim
  cd_blocker_run :: string
  cd_blocker_lease :: nat
  cd_blocker_access :: access_mode

datatype wait_outcome = Resolved nat | TimedOutWait | AbortedWait | ShutDownWait

record rsched =
  rs_holdings :: "(string, held_claim list) jsmap"
  rs_leases :: "(nat, lease) jsmap"
  rs_waiters :: "waiter list"
  rs_workspace :: "string option"
  rs_next_lease :: nat
  rs_next_waiter :: nat
  rs_outcomes :: "(nat \<times> wait_outcome) list"

definition new_scheduler :: "string option \<Rightarrow> rsched" where
  "new_scheduler ws = \<lparr>rs_holdings = [], rs_leases = [], rs_waiters = [], rs_workspace = ws,
     rs_next_lease = 0, rs_next_waiter = 0, rs_outcomes = []\<rparr>"

section \<open>Operations\<close>

definition held_of :: "rsched \<Rightarrow> string \<Rightarrow> held_claim list" where
  "held_of s k = default_to (jm_get (rs_holdings s) k) []"

definition find_conflicts :: "rsched \<Rightarrow> resource_claim list \<Rightarrow> conflict_detail list" where
  "find_conflicts s claims = concat (map (\<lambda>c.
     map (\<lambda>h. \<lparr>cd_claim = c, cd_blocker_run = hc_run h, cd_blocker_lease = hc_lease h,
               cd_blocker_access = rc_access (hc_claim h)\<rparr>)
       (filter (\<lambda>h. claims_conflict (rc_access (hc_claim h)) (rc_access c))
          (held_of s (rc_key c)))) claims)"

definition conflicts_for :: "rsched \<Rightarrow> resource_claim list \<Rightarrow> conflict_detail list" where
  "conflicts_for s claims = find_conflicts s (map (normalize_claim (rs_workspace s)) claims)"

fun hold_claims :: "nat \<Rightarrow> string \<Rightarrow> resource_claim list \<Rightarrow> rsched \<Rightarrow> rsched" where
  "hold_claims i rid [] s = s"
| "hold_claims i rid (c # cs) s =
     hold_claims i rid cs
       (s\<lparr>rs_holdings := jm_set (rc_key c)
            (held_of s (rc_key c) @ [\<lparr>hc_lease = i, hc_run = rid, hc_claim = c\<rparr>])
            (rs_holdings s)\<rparr>)"

definition add_lease :: "nat \<Rightarrow> string \<Rightarrow> resource_claim list \<Rightarrow> rsched \<Rightarrow> rsched" where
  "add_lease i rid cs s = s\<lparr>rs_leases := jm_set i \<lparr>ls_run = rid, ls_claims = cs\<rparr> (rs_leases s)\<rparr>"

definition install_lease :: "string \<Rightarrow> resource_claim list \<Rightarrow> rsched \<Rightarrow> nat \<times> rsched" where
  "install_lease rid claims s =
     (let i = rs_next_lease s
      in (i, add_lease i rid claims (hold_claims i rid claims (s\<lparr>rs_next_lease := Suc i\<rparr>))))"

definition mint_empty_lease :: "string \<Rightarrow> rsched \<Rightarrow> nat \<times> rsched" where
  "mint_empty_lease rid s =
     (let i = rs_next_lease s in (i, add_lease i rid [] (s\<lparr>rs_next_lease := Suc i\<rparr>)))"

text \<open>
  One waiter is granted: it leaves the queue, gets its lease and its promise resolves.
\<close>

definition grant_waiter :: "waiter \<Rightarrow> rsched \<Rightarrow> rsched" where
  "grant_waiter w s =
     (let (i, s') = install_lease (wt_run w) (wt_claims w) s
      in s'\<lparr>rs_outcomes := rs_outcomes s' @ [(wt_id w, Resolved i)]\<rparr>)"

lemma hold_claims_frame [simp]:
  "rs_leases (hold_claims i rid cs s) = rs_leases s"
  "rs_waiters (hold_claims i rid cs s) = rs_waiters s"
  "rs_workspace (hold_claims i rid cs s) = rs_workspace s"
  "rs_next_lease (hold_claims i rid cs s) = rs_next_lease s"
  "rs_next_waiter (hold_claims i rid cs s) = rs_next_waiter s"
  "rs_outcomes (hold_claims i rid cs s) = rs_outcomes s"
  by (induction cs arbitrary: s) simp_all

lemma grant_waiter_waiters [simp]: "rs_waiters (grant_waiter w s) = rs_waiters s"
  by (simp add: grant_waiter_def install_lease_def add_lease_def Let_def)

text \<open>
  The queue is scanned from the front for the first waiter without conflicts, to a fixed point.
\<close>

function pump_waiters :: "rsched \<Rightarrow> rsched" where
  "pump_waiters s =
     (case List.extract (\<lambda>w. find_conflicts s (wt_claims w) = []) (rs_waiters s) of
        None \<Rightarrow> s
      | Some (ys, w, zs) \<Rightarrow> pump_waiters (grant_waiter w (s\<lparr>rs_waiters := ys @ zs\<rparr>)))"
  by pat_completeness auto
termination
  by (relation "measure (\<lambda>s. length (rs_waiters s))") (auto simp: extract_Some_iff)

declare pump_waiters.simps [simp del]

fun drop_claims :: "nat \<Rightarrow> resource_claim list \<Rightarrow> rsched \<Rightarrow> rsched" where
  "drop_claims i [] s = s"
| "drop_claims i (c # cs) s =
     (case jm_get (rs_holdings s) (rc_key c) of
        None \<Rightarrow> drop_claims i cs s
      | Some held \<Rightarrow>
          (let next = filter (\<lambda>h. hc_lease h \<noteq> i) held
           in drop_claims i cs
                (if next = [] then s\<lparr>rs_holdings := jm_delete (rc_key c) (rs_holdings s)\<rparr>
                 else s\<lparr>rs_holdings := jm_set (rc_key c) next (rs_holdings s)\<rparr>)))"

definition release_lease :: "nat \<Rightarrow> rsched \<Rightarrow> rsched" where
  "release_lease i s =
     (case jm_get (rs_leases s) i of
        None \<Rightarrow> s
      | Some l \<Rightarrow> pump_waiters (drop_claims i (ls_claims l)
                    (s\<lparr>rs_leases := jm_delete i (rs_leases s)\<rparr>)))"

datatype acquire_outcome = Granted nat | Conflict "conflict_detail list" | Waiting nat

definition acquire :: "string \<Rightarrow> resource_claim list \<Rightarrow> bool \<Rightarrow> rsched \<Rightarrow> acquire_outcome \<times> rsched" where
  "acquire rid claims no_wait s =
     (if claims = [] then (let (i, s') = mint_empty_lease rid s in (Granted i, s'))
      else let normalized = map (normalize_claim (rs_workspace s)) claims;
               conflicts = find_conflicts s normalized
        in if conflicts = [] then (let (i, s') = install_lease rid normalized s in (Granted i, s'))
           else if no_wait then (Conflict conflicts, s)
           else (Waiting (rs_next_waiter s),
                 s\<lparr>rs_waiters := rs_waiters s @
                     [\<lparr>wt_id = rs_next_waiter s, wt_run = rid, wt_claims = normalized\<rparr>],
                   rs_next_waiter := Suc (rs_next_waiter s)\<rparr>))"

text \<open>A timeout or an abort of a waiting call.\<close>

definition cancel_waiter :: "nat \<Rightarrow> wait_outcome \<Rightarrow> rsched \<Rightarrow> rsched" where
  "cancel_waiter n why s =
     (if n \<in> set (map wt_id (rs_waiters s))
      then s\<lparr>rs_waiters := filter (\<lambda>w. wt_id w \<noteq> n) (rs_waiters s),
             rs_outcomes := rs_outcomes s @ [(n, why)]\<rparr>
      else s)"

text \<open>
  The loop runs over the lease ids that existed when it started; \<open>release\<close> may grant and add
  leases meanwhile.
\<close>

fun release_run_loop :: "nat list \<Rightarrow> string \<Rightarrow> nat \<Rightarrow> rsched \<Rightarrow> nat \<times> rsched" where
  "release_run_loop [] rid n s = (n, s)"
| "release_run_loop (i # is) rid n s =
     (case jm_get (rs_leases s) i of
        None \<Rightarrow> release_run_loop is rid n s
      | Some l \<Rightarrow>
          if ls_run l \<noteq> rid then release_run_loop is rid n s
          else release_run_loop is rid (Suc n) (release_lease i s))"

definition release_run :: "string \<Rightarrow> rsched \<Rightarrow> nat \<times> rsched" where
  "release_run rid s = release_run_loop (jm_keys (rs_leases s)) rid 0 s"

definition snapshot_holdings :: "rsched \<Rightarrow> held_claim list" where
  "snapshot_holdings s = concat (jm_values (rs_holdings s))"

definition waiter_count :: "rsched \<Rightarrow> nat" where
  "waiter_count s = length (rs_waiters s)"

definition release_all :: "rsched \<Rightarrow> rsched" where
  "release_all s =
     (let s1 = fold release_lease (jm_keys (rs_leases s)) s
      in fold (\<lambda>w. cancel_waiter (wt_id w) ShutDownWait) (rs_waiters s1) s1)"

definition terminal_event_types :: "string list" where
  "terminal_event_types = [''run.completed'', ''run.failed'', ''run.cancelled'']"

definition on_run_event :: "envelope \<Rightarrow> rsched \<Rightarrow> rsched" where
  "on_run_event e s =
     (if \<not> List.member terminal_event_types (ev_type e) then s
      else snd (release_run (ev_run_id e) s))"

datatype sched_op =
    SAcquire string "resource_claim list" bool
  | SRelease nat
  | SReleaseRun string
  | SReleaseAll
  | SCancel nat wait_outcome
  | SRunEvent envelope

fun sched_step :: "sched_op \<Rightarrow> rsched \<Rightarrow> rsched" where
  "sched_step (SAcquire rid cs nw) s = snd (acquire rid cs nw s)"
| "sched_step (SRelease i) s = release_lease i s"
| "sched_step (SReleaseRun rid) s = snd (release_run rid s)"
| "sched_step SReleaseAll s = release_all s"
| "sched_step (SCancel n why) s = cancel_waiter n why s"
| "sched_step (SRunEvent e) s = on_run_event e s"

section \<open>Holdings\<close>

lemma claims_conflict_iff: "claims_conflict a b \<longleftrightarrow> a \<noteq> AccRead \<or> b \<noteq> AccRead"
  by (cases a; cases b) (simp_all add: claims_conflict_def)

lemma claims_conflict_sym: "claims_conflict a b \<longleftrightarrow> claims_conflict b a"
  by (auto simp: claims_conflict_iff)

lemma find_conflicts_Nil:
  "find_conflicts s cs = [] \<longleftrightarrow>
     (\<forall>c\<in>set cs. \<forall>h\<in>set (held_of s (rc_key c)).
        \<not> claims_conflict (rc_access (hc_claim h)) (rc_access c))"
  by (auto simp: find_conflicts_def filter_empty_conv)

lemma held_of_cong: "rs_holdings s = rs_holdings t \<Longrightarrow> held_of s k = held_of t k"
  by (simp add: held_of_def)

lemma held_of_hold [simp]:
  "held_of (hold_claims i rid cs s) k =
     held_of s k @ map (\<lambda>c. \<lparr>hc_lease = i, hc_run = rid, hc_claim = c\<rparr>) (filter (\<lambda>c. rc_key c = k) cs)"
  by (induction cs arbitrary: s) (auto simp: held_of_def)

lemma held_of_upd [simp]:
  "held_of (s\<lparr>rs_leases := x\<rparr>) k = held_of s k"
  "held_of (s\<lparr>rs_waiters := y\<rparr>) k = held_of s k"
  "held_of (s\<lparr>rs_next_lease := z\<rparr>) k = held_of s k"
  "held_of (s\<lparr>rs_next_waiter := z\<rparr>) k = held_of s k"
  "held_of (s\<lparr>rs_outcomes := u\<rparr>) k = held_of s k"
  by (simp_all add: held_of_def)

lemma find_conflicts_cong:
  "(\<And>k. held_of s k = held_of t k) \<Longrightarrow> find_conflicts s cs = find_conflicts t cs"
  by (simp add: find_conflicts_def)

lemma held_of_drop:
  "held_of (drop_claims i cs s) k =
     (if k \<in> rc_key ` set cs then filter (\<lambda>h. hc_lease h \<noteq> i) (held_of s k) else held_of s k)"
  by (induction cs arbitrary: s)
    (auto simp: held_of_def Let_def filter_empty_conv split: option.splits)

lemma drop_claims_frame [simp]:
  "rs_leases (drop_claims i cs s) = rs_leases s"
  "rs_waiters (drop_claims i cs s) = rs_waiters s"
  "rs_workspace (drop_claims i cs s) = rs_workspace s"
  "rs_next_lease (drop_claims i cs s) = rs_next_lease s"
  by (induction cs arbitrary: s) (simp_all add: Let_def split: option.splits)

lemma holdings_wf:
  "jm_wf (rs_holdings s) \<Longrightarrow> jm_wf (rs_holdings (hold_claims i rid cs s))"
  "jm_wf (rs_holdings s) \<Longrightarrow> jm_wf (rs_holdings (drop_claims i cs s))"
  by (induction cs arbitrary: s) (simp_all add: Let_def split: option.splits)

section \<open>The invariant\<close>

text \<open>
  Leases and holdings describe the same facts, and no two leases hold conflicting claims.
\<close>

definition leases_match :: "rsched \<Rightarrow> bool" where
  "leases_match s \<longleftrightarrow> jm_wf (rs_leases s) \<and> jm_wf (rs_holdings s) \<and>
     (\<forall>i l. jm_get (rs_leases s) i = Some l \<longrightarrow> i < rs_next_lease s) \<and>
     (\<forall>k h. h \<in> set (held_of s k) \<longleftrightarrow>
        (\<exists>l. jm_get (rs_leases s) (hc_lease h) = Some l \<and> hc_run h = ls_run l \<and>
           hc_claim h \<in> set (ls_claims l) \<and> rc_key (hc_claim h) = k))"

definition exclusion :: "rsched \<Rightarrow> bool" where
  "exclusion s \<longleftrightarrow> (\<forall>k. \<forall>h\<in>set (held_of s k). \<forall>h'\<in>set (held_of s k).
     hc_lease h \<noteq> hc_lease h' \<longrightarrow>
       \<not> claims_conflict (rc_access (hc_claim h)) (rc_access (hc_claim h')))"

definition sched_core :: "rsched \<Rightarrow> bool" where
  "sched_core s \<longleftrightarrow> leases_match s \<and> exclusion s"

definition waiters_blocked :: "rsched \<Rightarrow> bool" where
  "waiters_blocked s \<longleftrightarrow> (\<forall>w\<in>set (rs_waiters s). find_conflicts s (wt_claims w) \<noteq> [])"

definition sched_ok :: "rsched \<Rightarrow> bool" where
  "sched_ok s \<longleftrightarrow> sched_core s \<and> waiters_blocked s"

lemma sched_core_cong:
  assumes "rs_holdings t = rs_holdings s" "rs_leases t = rs_leases s"
    "rs_next_lease t = rs_next_lease s"
  shows "sched_core t = sched_core s"
proof -
  have "held_of t k = held_of s k" for k by (rule held_of_cong) (rule assms)
  with assms show ?thesis by (simp add: sched_core_def leases_match_def exclusion_def)
qed

lemma new_scheduler_ok: "sched_ok (new_scheduler ws)"
  by (simp add: sched_ok_def sched_core_def leases_match_def exclusion_def waiters_blocked_def
      new_scheduler_def held_of_def)

lemma install_held:
  "held_of (snd (install_lease rid cs s)) k = held_of s k @
     map (\<lambda>c. \<lparr>hc_lease = rs_next_lease s, hc_run = rid, hc_claim = c\<rparr>) (filter (\<lambda>c. rc_key c = k) cs)"
  by (simp add: install_lease_def add_lease_def Let_def)

lemma install_frame [simp]:
  "rs_waiters (snd (install_lease rid cs s)) = rs_waiters s"
  "rs_leases (snd (install_lease rid cs s)) =
     jm_set (rs_next_lease s) \<lparr>ls_run = rid, ls_claims = cs\<rparr> (rs_leases s)"
  "rs_next_lease (snd (install_lease rid cs s)) = Suc (rs_next_lease s)"
  "fst (install_lease rid cs s) = rs_next_lease s"
  by (simp_all add: install_lease_def add_lease_def Let_def)

lemma install_wf: "jm_wf (rs_holdings s) \<Longrightarrow> jm_wf (rs_holdings (snd (install_lease rid cs s)))"
  by (simp add: install_lease_def add_lease_def Let_def holdings_wf)

text \<open>Granting claims without conflicts keeps the core invariant.\<close>

lemma install_core:
  assumes core: "sched_core s" and free: "find_conflicts s cs = []"
  shows "sched_core (snd (install_lease rid cs s))"
proof -
  let ?i = "rs_next_lease s" and ?t = "snd (install_lease rid cs s)"
  from core have m: "leases_match s" and x: "exclusion s" by (simp_all add: sched_core_def)
  have new: "jm_get (rs_leases s) ?i = None"
    using m by (cases "jm_get (rs_leases s) ?i") (auto simp: leases_match_def)
  have old: "hc_lease h \<noteq> ?i" if "h \<in> set (held_of s k)" for h k
    using m new that by (auto simp: leases_match_def)
  have "leases_match ?t"
    unfolding leases_match_def
  proof (intro conjI allI impI)
    show "jm_wf (rs_leases ?t)" "jm_wf (rs_holdings ?t)"
      using m by (simp_all add: leases_match_def install_wf)
    show "i < rs_next_lease ?t" if "jm_get (rs_leases ?t) i = Some l" for i l
      using m that by (auto simp: leases_match_def less_Suc_eq split: if_splits)
    show "h \<in> set (held_of ?t k) \<longleftrightarrow>
        (\<exists>l. jm_get (rs_leases ?t) (hc_lease h) = Some l \<and> hc_run h = ls_run l \<and>
           hc_claim h \<in> set (ls_claims l) \<and> rc_key (hc_claim h) = k)" for k h
    proof (cases "hc_lease h = ?i")
      case True
      then show ?thesis using old [of h k] by (cases h) (auto simp: install_held)
    next
      case False
      then show ?thesis using m by (auto simp: install_held leases_match_def)
    qed
  qed
  moreover have "exclusion ?t"
    using x free old claims_conflict_sym
    by (fastforce simp: exclusion_def install_held find_conflicts_Nil)
  ultimately show ?thesis by (simp add: sched_core_def)
qed

lemma grant_core:
  "sched_core s \<Longrightarrow> find_conflicts s (wt_claims w) = [] \<Longrightarrow> sched_core (grant_waiter w s)"
  using install_core [of s "wt_claims w" "wt_run w"]
    sched_core_cong [of "grant_waiter w s" "snd (install_lease (wt_run w) (wt_claims w) s)"]
  by (simp add: grant_waiter_def split_beta)

lemma pump_ok: "sched_core s \<Longrightarrow> sched_ok (pump_waiters s)"
proof (induction s rule: pump_waiters.induct)
  case (1 s)
  show ?case
  proof (cases "List.extract (\<lambda>w. find_conflicts s (wt_claims w) = []) (rs_waiters s)")
    case None
    then have "pump_waiters s = s" by (subst pump_waiters.simps) simp
    moreover from None have "waiters_blocked s"
      by (simp add: waiters_blocked_def extract_None_iff)
    ultimately show ?thesis using 1 by (simp add: sched_ok_def)
  next
    case (Some t)
    then obtain ys w zs where t: "t = (ys, w, zs)" by (cases t) auto
    with Some have free: "find_conflicts s (wt_claims w) = []" by (simp add: extract_Some_iff)
    let ?s = "s\<lparr>rs_waiters := ys @ zs\<rparr>"
    have "find_conflicts ?s (wt_claims w) = []"
      using free find_conflicts_cong [of ?s s] by simp
    moreover have "sched_core ?s" using 1 sched_core_cong [of ?s s] by simp
    ultimately have "sched_core (grant_waiter w ?s)" by (intro grant_core)
    with "1.IH" Some t show ?thesis by (subst pump_waiters.simps) simp
  qed
qed

lemma release_ok:
  assumes "sched_ok s"
  shows "sched_ok (release_lease i s)"
proof (cases "jm_get (rs_leases s) i")
  case None
  with assms show ?thesis by (simp add: release_lease_def)
next
  case (Some l)
  let ?s = "s\<lparr>rs_leases := jm_delete i (rs_leases s)\<rparr>"
  let ?t = "drop_claims i (ls_claims l) ?s"
  from assms have m: "leases_match s" and x: "exclusion s"
    by (simp_all add: sched_ok_def sched_core_def)
  have held: "held_of ?t k = filter (\<lambda>h. hc_lease h \<noteq> i) (held_of s k)" for k
  proof (cases "k \<in> rc_key ` set (ls_claims l)")
    case True
    then show ?thesis by (simp add: held_of_drop)
  next
    case False
    then have "\<forall>h\<in>set (held_of s k). hc_lease h \<noteq> i"
      using m Some by (fastforce simp: leases_match_def)
    with False show ?thesis by (simp add: held_of_drop)
  qed
  have "leases_match ?t"
    unfolding leases_match_def held
    using m by (auto simp: leases_match_def holdings_wf split: if_splits)
  moreover have "exclusion ?t"
    using x by (auto simp: exclusion_def held)
  ultimately show ?thesis
    using Some by (simp add: release_lease_def pump_ok sched_core_def)
qed

lemma acquire_ok:
  assumes ok: "sched_ok s"
  shows "sched_ok (snd (acquire rid cs nw s))"
proof -
  let ?ns = "map (normalize_claim (rs_workspace s)) cs"
  have core: "sched_core s" and bl: "waiters_blocked s" using ok by (simp_all add: sched_ok_def)
  have more: "waiters_blocked t"
    if "rs_waiters t = rs_waiters s" "\<And>k. set (held_of s k) \<subseteq> set (held_of t k)" for t
    using bl that unfolding waiters_blocked_def find_conflicts_Nil by fastforce
  show ?thesis
  proof (cases "cs = []")
    case True
    have mint: "snd (mint_empty_lease rid s) = snd (install_lease rid [] s)"
      by (simp add: mint_empty_lease_def install_lease_def Let_def)
    have "sched_core (snd (install_lease rid [] s))"
      by (rule install_core [OF core]) (simp add: find_conflicts_def)
    moreover have "waiters_blocked (snd (install_lease rid [] s))"
      by (rule more) (simp_all add: install_held)
    ultimately show ?thesis using True mint
      by (simp add: acquire_def sched_ok_def split_beta)
  next
    case ne: False
    show ?thesis
    proof (cases "find_conflicts s ?ns = []")
      case True
      then have "sched_core (snd (install_lease rid ?ns s))" by (rule install_core [OF core])
      moreover have "waiters_blocked (snd (install_lease rid ?ns s))"
        by (rule more) (auto simp: install_held)
      ultimately show ?thesis using ne True
        by (simp add: acquire_def sched_ok_def split_beta Let_def)
    next
      case False
      let ?t = "s\<lparr>rs_waiters := rs_waiters s @ [\<lparr>wt_id = rs_next_waiter s, wt_run = rid,
          wt_claims = ?ns\<rparr>], rs_next_waiter := Suc (rs_next_waiter s)\<rparr>"
      have "find_conflicts ?t c = find_conflicts s c" for c
        by (rule find_conflicts_cong) simp
      with bl False have "waiters_blocked ?t" by (simp add: waiters_blocked_def)
      moreover have "sched_core ?t" using core sched_core_cong [of ?t s] by simp
      ultimately show ?thesis using ne False ok
        by (simp add: acquire_def sched_ok_def Let_def)
    qed
  qed
qed

lemma cancel_ok: "sched_ok s \<Longrightarrow> sched_ok (cancel_waiter n why s)"
proof -
  assume ok: "sched_ok s"
  let ?t = "s\<lparr>rs_waiters := filter (\<lambda>w. wt_id w \<noteq> n) (rs_waiters s),
             rs_outcomes := rs_outcomes s @ [(n, why)]\<rparr>"
  have "find_conflicts ?t c = find_conflicts s c" for c by (rule find_conflicts_cong) simp
  then have "sched_ok ?t"
    using ok sched_core_cong [of ?t s] by (simp add: sched_ok_def waiters_blocked_def)
  with ok show ?thesis by (simp add: cancel_waiter_def)
qed

section \<open>What the pump may change\<close>

text \<open>
  Pumping keeps every lease, takes waiters from the queue only, and each lease it adds is that of
  a waiter and has a fresh id.
\<close>

definition pumped_from :: "rsched \<Rightarrow> rsched \<Rightarrow> bool" where
  "pumped_from s t \<longleftrightarrow> rs_next_lease s \<le> rs_next_lease t \<and>
     set (rs_waiters t) \<subseteq> set (rs_waiters s) \<and>
     (\<forall>i. i < rs_next_lease s \<longrightarrow> jm_get (rs_leases t) i = jm_get (rs_leases s) i) \<and>
     (\<forall>i l. jm_get (rs_leases t) i = Some l \<longrightarrow>
        jm_get (rs_leases s) i = Some l \<or>
        (\<exists>w\<in>set (rs_waiters s). ls_run l = wt_run w \<and> ls_claims l = wt_claims w))"

lemma grant_frame [simp]:
  "rs_leases (grant_waiter w s) =
     jm_set (rs_next_lease s) \<lparr>ls_run = wt_run w, ls_claims = wt_claims w\<rparr> (rs_leases s)"
  "rs_next_lease (grant_waiter w s) = Suc (rs_next_lease s)"
  by (simp_all add: grant_waiter_def split_beta)

lemma pump_pumped: "pumped_from s (pump_waiters s)"
proof (induction s rule: pump_waiters.induct)
  case (1 s)
  show ?case
  proof (cases "List.extract (\<lambda>w. find_conflicts s (wt_claims w) = []) (rs_waiters s)")
    case None
    then have "pump_waiters s = s" by (subst pump_waiters.simps) simp
    then show ?thesis by (simp add: pumped_from_def)
  next
    case (Some t)
    then obtain ys w zs where t: "t = (ys, w, zs)" by (cases t) auto
    with Some have q: "rs_waiters s = ys @ w # zs" by (simp add: extract_Some_iff)
    let ?g = "grant_waiter w (s\<lparr>rs_waiters := ys @ zs\<rparr>)"
    have p: "pump_waiters s = pump_waiters ?g"
      using Some t by (subst pump_waiters.simps) simp
    have ih: "pumped_from ?g (pump_waiters ?g)" using "1.IH" Some t by simp
    have sub: "set (rs_waiters ?g) \<subseteq> set (rs_waiters s)" and w: "w \<in> set (rs_waiters s)"
      using q by auto
    show ?thesis
      unfolding p pumped_from_def
    proof (intro conjI allI impI)
      show "rs_next_lease s \<le> rs_next_lease (pump_waiters ?g)"
        using ih by (simp add: pumped_from_def)
      show "set (rs_waiters (pump_waiters ?g)) \<subseteq> set (rs_waiters s)"
        using ih sub by (auto simp: pumped_from_def)
      show "jm_get (rs_leases (pump_waiters ?g)) i = jm_get (rs_leases s) i"
        if "i < rs_next_lease s" for i
        using ih that by (simp add: pumped_from_def)
      show "jm_get (rs_leases s) i = Some l \<or>
          (\<exists>w\<in>set (rs_waiters s). ls_run l = wt_run w \<and> ls_claims l = wt_claims w)"
        if "jm_get (rs_leases (pump_waiters ?g)) i = Some l" for i l
      proof -
        from ih that have "jm_get (rs_leases ?g) i = Some l \<or>
            (\<exists>w\<in>set (rs_waiters ?g). ls_run l = wt_run w \<and> ls_claims l = wt_claims w)"
          unfolding pumped_from_def by blast
        with sub w show ?thesis by (auto split: if_splits)
      qed
    qed
  qed
qed

text \<open>Releasing one lease: that lease is gone, the others stay, new ones belong to waiters.\<close>

lemma release_effect:
  assumes ok: "sched_ok s" and "jm_get (rs_leases s) i = Some l"
  shows "jm_get (rs_leases (release_lease i s)) i = None"
    and "set (rs_waiters (release_lease i s)) \<subseteq> set (rs_waiters s)"
    and "jm_get (rs_leases (release_lease i s)) j = Some l' \<Longrightarrow>
      (j \<noteq> i \<and> jm_get (rs_leases s) j = Some l') \<or>
      (\<exists>w\<in>set (rs_waiters s). ls_run l' = wt_run w \<and> ls_claims l' = wt_claims w)"
proof -
  let ?t = "drop_claims i (ls_claims l) (s\<lparr>rs_leases := jm_delete i (rs_leases s)\<rparr>)"
  have r: "release_lease i s = pump_waiters ?t" using assms by (simp add: release_lease_def)
  have i: "i < rs_next_lease s"
    using assms by (auto simp: sched_ok_def sched_core_def leases_match_def)
  note p = pump_pumped [of ?t, unfolded pumped_from_def]
  show "jm_get (rs_leases (release_lease i s)) i = None"
    using p i by (simp add: r)
  show "set (rs_waiters (release_lease i s)) \<subseteq> set (rs_waiters s)"
    using p by (simp add: r)
  show "(j \<noteq> i \<and> jm_get (rs_leases s) j = Some l') \<or>
      (\<exists>w\<in>set (rs_waiters s). ls_run l' = wt_run w \<and> ls_claims l' = wt_claims w)"
    if "jm_get (rs_leases (release_lease i s)) j = Some l'"
  proof -
    from p that have "jm_get (rs_leases ?t) j = Some l' \<or>
        (\<exists>w\<in>set (rs_waiters ?t). ls_run l' = wt_run w \<and> ls_claims l' = wt_claims w)"
      unfolding r by blast
    then show ?thesis by (auto split: if_splits)
  qed
qed

lemma release_run_loop_clears:
  assumes "sched_ok s" and "\<forall>w\<in>set (rs_waiters s). wt_run w \<noteq> rid"
    and "\<And>i l. jm_get (rs_leases s) i = Some l \<Longrightarrow> ls_run l = rid \<Longrightarrow> i \<in> set is"
    and "jm_get (rs_leases (snd (release_run_loop is rid n s))) j = Some l'"
  shows "ls_run l' \<noteq> rid"
  using assms
proof (induction "is" arbitrary: s n)
  case Nil
  then show ?case by fastforce
next
  case (Cons i "is")
  show ?case
  proof (cases "\<exists>l. jm_get (rs_leases s) i = Some l \<and> ls_run l = rid")
    case False
    then have skip: "release_run_loop (i # is) rid n s = release_run_loop is rid n s"
      by (auto split: option.splits)
    show ?thesis
      by (rule Cons.IH [of s n]) (use Cons.prems False skip in auto)
  next
    case True
    then obtain l where l: "jm_get (rs_leases s) i = Some l" "ls_run l = rid" by blast
    then have step: "release_run_loop (i # is) rid n s =
        release_run_loop is rid (Suc n) (release_lease i s)" by simp
    note eff = release_effect [OF Cons.prems(1) l(1)]
    show ?thesis
    proof (rule Cons.IH [of "release_lease i s" "Suc n"])
      show "sched_ok (release_lease i s)" using Cons.prems(1) by (rule release_ok)
      show "\<forall>w\<in>set (rs_waiters (release_lease i s)). wt_run w \<noteq> rid"
        using Cons.prems(2) eff(2) by blast
      show "k \<in> set is" if "jm_get (rs_leases (release_lease i s)) k = Some m" "ls_run m = rid" for k m
        using eff(3) [OF that(1)] that(2) Cons.prems(2,3) by (metis set_ConsD)
    qed (use Cons.prems(4) step in simp)
  qed
qed

lemma release_run_clears:
  assumes "sched_ok s" and "\<forall>w\<in>set (rs_waiters s). wt_run w \<noteq> rid"
    and "jm_get (rs_leases (snd (release_run rid s))) j = Some l"
  shows "ls_run l \<noteq> rid"
proof (rule release_run_loop_clears [OF assms(1,2)])
  show "i \<in> set (jm_keys (rs_leases s))" if "jm_get (rs_leases s) i = Some l'" for i l'
    using that unfolding jm_keys_iff by simp
  show "jm_get (rs_leases (snd (release_run_loop (jm_keys (rs_leases s)) rid 0 s))) j = Some l"
    using assms(3) by (simp add: release_run_def)
qed

section \<open>Normal form of the stored claims\<close>

text \<open>Git claims are stored as exclusive, in leases and in the queue.\<close>

definition git_exclusive :: "resource_claim \<Rightarrow> bool" where
  "git_exclusive c \<longleftrightarrow> (rc_type c = CtGit \<longrightarrow> rc_access c = AccExclusive)"

definition claims_normal :: "rsched \<Rightarrow> bool" where
  "claims_normal s \<longleftrightarrow>
     (\<forall>i l. jm_get (rs_leases s) i = Some l \<longrightarrow> (\<forall>c\<in>set (ls_claims l). git_exclusive c)) \<and>
     (\<forall>w\<in>set (rs_waiters s). \<forall>c\<in>set (wt_claims w). git_exclusive c)"

lemma normalize_git [simp]: "git_exclusive (normalize_claim ws c)"
  by (simp add: git_exclusive_def normalize_claim_def Let_def)

lemma release_normal: "sched_ok s \<Longrightarrow> claims_normal s \<Longrightarrow> claims_normal (release_lease i s)"
proof (cases "jm_get (rs_leases s) i")
  case None
  then show "claims_normal s \<Longrightarrow> claims_normal (release_lease i s)" by (simp add: release_lease_def)
next
  case (Some l)
  assume ok: "sched_ok s" and n: "claims_normal s"
  note eff = release_effect [OF ok Some]
  show "claims_normal (release_lease i s)"
    unfolding claims_normal_def
  proof (intro conjI allI impI)
    show "\<forall>c\<in>set (ls_claims l'). git_exclusive c"
      if "jm_get (rs_leases (release_lease i s)) j = Some l'" for j l'
      using eff(3) [OF that] n by (auto simp: claims_normal_def)
    show "\<forall>w\<in>set (rs_waiters (release_lease i s)). \<forall>c\<in>set (wt_claims w). git_exclusive c"
      using eff(2) n by (auto simp: claims_normal_def)
  qed
qed

definition sched_inv :: "rsched \<Rightarrow> bool" where
  "sched_inv s \<longleftrightarrow> sched_ok s \<and> claims_normal s"

lemma release_inv: "sched_inv s \<Longrightarrow> sched_inv (release_lease i s)"
  by (simp add: sched_inv_def release_ok release_normal)

lemma cancel_inv: "sched_inv s \<Longrightarrow> sched_inv (cancel_waiter n why s)"
  by (simp add: sched_inv_def cancel_ok) (auto simp: cancel_waiter_def claims_normal_def)

lemma acquire_inv: "sched_inv s \<Longrightarrow> sched_inv (snd (acquire rid cs nw s))"
  by (simp add: sched_inv_def acquire_ok)
    (auto simp: acquire_def claims_normal_def mint_empty_lease_def add_lease_def Let_def split_beta)

lemma release_run_loop_inv: "sched_inv s \<Longrightarrow> sched_inv (snd (release_run_loop is rid n s))"
  by (induction "is" arbitrary: n s) (auto simp: release_inv split: option.splits)

lemma fold_release_inv: "sched_inv s \<Longrightarrow> sched_inv (fold release_lease is s)"
  by (induction "is" arbitrary: s) (simp_all add: release_inv)

lemma fold_cancel_inv:
  "sched_inv s \<Longrightarrow> sched_inv (fold (\<lambda>w. cancel_waiter (wt_id w) why) ws s)"
  by (induction ws arbitrary: s) (simp_all add: cancel_inv)

lemma sched_step_inv: "sched_inv s \<Longrightarrow> sched_inv (sched_step x s)"
  by (cases x) (simp_all add: acquire_inv release_inv release_run_def release_run_loop_inv cancel_inv
      release_all_def fold_release_inv fold_cancel_inv on_run_event_def Let_def)

interpretation sched: invariant_system sched_step sched_inv
  by unfold_locales (rule sched_step_inv)

lemma new_scheduler_inv: "sched_inv (new_scheduler ws)"
  using new_scheduler_ok by (simp add: sched_inv_def) (simp add: claims_normal_def new_scheduler_def)

lemmas reachable_sched_inv = sched.run_inv [OF new_scheduler_inv]

lemma sched_invD:
  "sched_inv s \<Longrightarrow> leases_match s" "sched_inv s \<Longrightarrow> exclusion s" "sched_inv s \<Longrightarrow> waiters_blocked s"
  "sched_inv s \<Longrightarrow> claims_normal s" "sched_inv s \<Longrightarrow> sched_ok s" "sched_inv s \<Longrightarrow> sched_core s"
  by (simp_all add: sched_inv_def sched_ok_def sched_core_def)

lemma held_git_exclusive:
  "sched_inv s \<Longrightarrow> h \<in> set (held_of s k) \<Longrightarrow> git_exclusive (hc_claim h)"
  using sched_invD(1,4) by (fastforce simp: leases_match_def claims_normal_def)

section \<open>Properties\<close>

text \<open>Two write claims on one file by two runs, for the examples.\<close>

definition two_writers :: "sched_op list" where
  "two_writers = [SAcquire ''a'' [file_claim ''/f'' AccWrite] False,
                  SAcquire ''b'' [file_claim ''/f'' AccWrite] False]"

definition two_readers :: "sched_op list" where
  "two_readers = [SAcquire ''a'' [file_claim ''/f'' AccRead] False,
                  SAcquire ''b'' [file_claim ''/f'' AccRead] False]"

text \<open>
  (C2) Mutual exclusion: after any sequence of scheduler operations, if two different leases hold
  claims on the same key then both claims are reads and neither is on a git resource.
\<close>

theorem conflicting_claims_never_coexist:
  assumes "s = fold sched_step ops (new_scheduler ws)"
    and "h \<in> set (held_of s k)" and "h' \<in> set (held_of s k)" and "hc_lease h \<noteq> hc_lease h'"
  shows "rc_access (hc_claim h) = AccRead \<and> rc_access (hc_claim h') = AccRead \<and>
    rc_type (hc_claim h) \<noteq> CtGit \<and> rc_type (hc_claim h') \<noteq> CtGit"
proof -
  have inv: "sched_inv s" unfolding assms(1) by (rule reachable_sched_inv)
  with assms have "\<not> claims_conflict (rc_access (hc_claim h)) (rc_access (hc_claim h'))"
    using sched_invD(2) by (simp add: exclusion_def)
  with held_git_exclusive [OF inv assms(2)] held_git_exclusive [OF inv assms(3)] show ?thesis
    by (auto simp: claims_conflict_iff git_exclusive_def)
qed

theorem conflicting_claims_never_coexist_witness:
  "let s = fold sched_step two_readers (new_scheduler None);
       h = held_of s ''/f'' ! 0; h' = held_of s ''/f'' ! 1
   in h \<in> set (held_of s ''/f'') \<and> h' \<in> set (held_of s ''/f'') \<and> hc_lease h \<noteq> hc_lease h' \<and>
      rc_access (hc_claim h) = AccRead \<and> rc_access (hc_claim h') = AccRead"
proof -
  let ?s = "fold sched_step two_readers (new_scheduler None)"
  let ?h = "held_of ?s ''/f'' ! 0" and ?h' = "held_of ?s ''/f'' ! 1"
  have "length (held_of ?s ''/f'') = 2" "hc_lease ?h \<noteq> hc_lease ?h'" by code_simp+
  moreover from this have "?h \<in> set (held_of ?s ''/f'')" "?h' \<in> set (held_of ?s ''/f'')" by simp_all
  ultimately show ?thesis
    using conflicting_claims_never_coexist [of ?s two_readers None ?h "''/f''" ?h'] by (simp add: Let_def)
qed

text \<open>
  No lost wake-up: after any sequence of operations every queued \<open>acquire\<close> really conflicts
  with a claim that is held right now; nobody waits for resources that are free.
\<close>

theorem every_waiter_is_blocked:
  assumes "s = fold sched_step ops (new_scheduler ws)" and "w \<in> set (rs_waiters s)"
  shows "\<exists>c\<in>set (wt_claims w). \<exists>h\<in>set (held_of s (rc_key c)).
    claims_conflict (rc_access (hc_claim h)) (rc_access c)"
proof -
  have "sched_inv s" unfolding assms(1) by (rule reachable_sched_inv)
  with assms(2) have "find_conflicts s (wt_claims w) \<noteq> []"
    using sched_invD(3) by (simp add: waiters_blocked_def)
  then show ?thesis by (simp add: find_conflicts_Nil)
qed

theorem every_waiter_is_blocked_witness:
  "let s = fold sched_step two_writers (new_scheduler None); w = rs_waiters s ! 0
   in w \<in> set (rs_waiters s) \<and> (\<exists>c\<in>set (wt_claims w). \<exists>h\<in>set (held_of s (rc_key c)).
        claims_conflict (rc_access (hc_claim h)) (rc_access c))"
proof -
  let ?s = "fold sched_step two_writers (new_scheduler None)"
  have "length (rs_waiters ?s) = 1" by code_simp
  then have w: "rs_waiters ?s ! 0 \<in> set (rs_waiters ?s)" by simp
  show ?thesis using every_waiter_is_blocked [OF refl w] w unfolding Let_def by blast
qed

text \<open>
  All or nothing: after any sequence of operations, the claims held under a lease id are
  exactly the claims of that live lease: no lease is partly granted, no claim outlives it.
\<close>

theorem leases_are_held_atomically:
  fixes ws ops
  defines "s \<equiv> fold sched_step ops (new_scheduler ws)"
  shows "{hc_claim h | h k. h \<in> set (held_of s k) \<and> hc_lease h = i} =
    (case jm_get (rs_leases s) i of None \<Rightarrow> {} | Some l \<Rightarrow> set (ls_claims l))"
proof -
  have "leases_match s" unfolding s_def by (rule sched_invD(1) [OF reachable_sched_inv])
  then have held: "h \<in> set (held_of s k) \<longleftrightarrow>
      (\<exists>l. jm_get (rs_leases s) (hc_lease h) = Some l \<and> hc_run h = ls_run l \<and>
         hc_claim h \<in> set (ls_claims l) \<and> rc_key (hc_claim h) = k)" for h k
    by (simp add: leases_match_def)
  show ?thesis
  proof (cases "jm_get (rs_leases s) i")
    case None
    then show ?thesis using held by auto
  next
    case (Some l)
    have "\<exists>h k. c = hc_claim h \<and> h \<in> set (held_of s k) \<and> hc_lease h = i"
      if "c \<in> set (ls_claims l)" for c
      using Some that held [of "\<lparr>hc_lease = i, hc_run = ls_run l, hc_claim = c\<rparr>" "rc_key c"]
      by (intro exI [of _ "\<lparr>hc_lease = i, hc_run = ls_run l, hc_claim = c\<rparr>"] exI [of _ "rc_key c"])
        simp
    with Some held show ?thesis by auto
  qed
qed

text \<open>
  Every branch of \<open>acquire\<close>: with no conflict it grants a fresh lease on the normalised
  claims at once; with a conflict, \<open>noWait\<close> rejects naming only holders that really conflict and
  changes nothing, and otherwise the call is queued behind the others and nothing is held for it.
\<close>

theorem acquire_correct:
  assumes "sched_inv s" and "claims \<noteq> []"
  shows "case acquire rid claims nw s of
      (Granted i, s') \<Rightarrow> conflicts_for s claims = [] \<and> \<not> jm_has (rs_leases s) i \<and>
        jm_get (rs_leases s') = (jm_get (rs_leases s))
          (i \<mapsto> \<lparr>ls_run = rid, ls_claims = map (normalize_claim (rs_workspace s)) claims\<rparr>) \<and>
        rs_waiters s' = rs_waiters s
    | (Conflict ds, s') \<Rightarrow> nw \<and> s' = s \<and> ds \<noteq> [] \<and>
        (\<forall>d\<in>set ds. \<exists>h\<in>set (held_of s (rc_key (cd_claim d))). hc_lease h = cd_blocker_lease d \<and>
           hc_run h = cd_blocker_run d \<and> claims_conflict (cd_blocker_access d) (rc_access (cd_claim d)))
    | (Waiting n, s') \<Rightarrow> \<not> nw \<and> conflicts_for s claims \<noteq> [] \<and>
        rs_holdings s' = rs_holdings s \<and> rs_leases s' = rs_leases s \<and>
        (\<exists>w. rs_waiters s' = rs_waiters s @ [w] \<and> wt_id w = n \<and> wt_run w = rid)"
proof -
  have "jm_get (rs_leases s) (rs_next_lease s) = None"
    using sched_invD(1) [OF assms(1)]
    by (cases "jm_get (rs_leases s) (rs_next_lease s)") (auto simp: leases_match_def)
  with assms(2) show ?thesis
    by (auto simp: acquire_def conflicts_for_def Let_def split_beta) (auto simp: find_conflicts_def)
qed

theorem acquire_correct_witness:
  "let s = fold sched_step two_readers (new_scheduler None);
       r = acquire ''c'' [file_claim ''/f'' AccWrite] True s
   in snd r = s \<and> (\<exists>ds. fst r = Conflict ds \<and> ds \<noteq> [])"
proof -
  let ?s = "fold sched_step two_readers (new_scheduler None)"
  let ?r = "acquire ''c'' [file_claim ''/f'' AccWrite] True ?s"
  have kind: "(case fst ?r of Conflict ds \<Rightarrow> True | _ \<Rightarrow> False)" by code_simp
  show ?thesis
    using acquire_correct [OF reachable_sched_inv [of two_readers None],
        of "[file_claim ''/f'' AccWrite]" "''c''" True] kind
    by (cases ?r) (auto simp: Let_def split: acquire_outcome.splits)
qed

text \<open>
  Releasing a lease removes it and everything held under it, for good: releasing it again
  changes nothing, and other leases that were live stay live.
\<close>

theorem release_is_complete_and_idempotent:
  assumes "sched_inv s" and "i < rs_next_lease s"
  shows "\<not> jm_has (rs_leases (release_lease i s)) i \<and>
    (\<forall>k. \<forall>h\<in>set (held_of (release_lease i s) k). hc_lease h \<noteq> i) \<and>
    release_lease i (release_lease i s) = release_lease i s \<and>
    (\<forall>j l. j \<noteq> i \<longrightarrow> jm_get (rs_leases s) j = Some l \<longrightarrow>
       jm_get (rs_leases (release_lease i s)) j = Some l)"
proof (cases "jm_get (rs_leases s) i")
  case None
  then show ?thesis
    using sched_invD(1) [OF assms(1)] by (auto simp: release_lease_def leases_match_def)
next
  case (Some l)
  let ?t = "drop_claims i (ls_claims l) (s\<lparr>rs_leases := jm_delete i (rs_leases s)\<rparr>)"
  have gone: "jm_get (rs_leases (release_lease i s)) i = None"
    by (rule release_effect(1) [OF sched_invD(5) [OF assms(1)] Some])
  have match: "leases_match (release_lease i s)"
    by (rule sched_invD(1) [OF release_inv [OF assms(1)]])
  have keep: "jm_get (rs_leases (release_lease i s)) j = jm_get (rs_leases s) j"
    if "j \<noteq> i" "jm_get (rs_leases s) j = Some l'" for j l'
  proof -
    have "j < rs_next_lease s"
      using sched_invD(1) [OF assms(1)] that by (auto simp: leases_match_def)
    then show ?thesis
      using pump_pumped [of ?t] that Some by (simp add: pumped_from_def release_lease_def)
  qed
  have "release_lease i (release_lease i s) = release_lease i s"
    using gone by (simp add: release_lease_def [of i "release_lease i s"])
  then show ?thesis using gone match keep by (auto simp: leases_match_def)
qed

theorem release_is_complete_and_idempotent_witness:
  "let s = fold sched_step two_writers (new_scheduler None)
   in \<not> jm_has (rs_leases (release_lease 0 s)) 0 \<and>
      release_lease 0 (release_lease 0 s) = release_lease 0 s"
proof -
  have "0 < rs_next_lease (fold sched_step two_writers (new_scheduler None))" by code_simp
  from release_is_complete_and_idempotent [OF reachable_sched_inv this]
  show ?thesis by (simp add: Let_def)
qed

text \<open>
  When a run with no queued \<open>acquire\<close> makes a legal move to a terminal status, the event the
  bus emits for it makes the scheduler release every lease of that run.
\<close>

theorem terminal_transition_releases_run:
  assumes "sched_inv s" and "\<forall>w\<in>set (rs_waiters s). wt_run w \<noteq> rid"
    and "registry_ok reg" and "jm_get reg rid = Some run" and "er_status run \<noteq> tgt"
    and "transition_run rid tgt p now reg = Inr (run', reg', raw)" and "is_terminal_run_status tgt"
  shows "\<forall>i l. jm_get (rs_leases (on_run_event (envelope_of_raw raw u n) s)) i = Some l \<longrightarrow>
    ls_run l \<noteq> rid"
proof -
  from assms(3-6) have raw: "raw = \<lparr>re_kind = EmitTransition, re_run = run',
      re_from = Some (er_status run), re_to = Some tgt\<rparr>" "er_run_id run' = rid"
    by (auto simp: transition_run_Inr registry_ok_def)
  have "List.member terminal_event_types (event_type_for_transition a tgt)" for a
    using assms(7) by (cases tgt) (simp_all add: event_type_for_transition_def
        terminal_event_types_def status_defs)
  then have "on_run_event (envelope_of_raw raw u n) s = snd (release_run rid s)"
    using raw by (simp add: on_run_event_def envelope_of_raw_def raw_type_payload_def Let_def)
  with release_run_clears [OF sched_invD(5) [OF assms(1)] assms(2)] show ?thesis by auto
qed

theorem terminal_transition_releases_run_witness:
  "let s = fold sched_step [SAcquire ''r1'' [file_claim ''/f'' AccWrite] False] (new_scheduler None)
   in \<exists>run' reg' raw. transition_run ''r1'' RCancelled no_patch 5 sample_registry = Inr (run', reg', raw) \<and>
      (\<nexists>i l. jm_get (rs_leases (on_run_event (envelope_of_raw raw ''e'' 2) s)) i = Some l \<and>
         ls_run l = ''r1'')"
proof -
  let ?s = "fold sched_step [SAcquire ''r1'' [file_claim ''/f'' AccWrite] False] (new_scheduler None)"
  obtain run where run: "jm_get sample_registry ''r1'' = Some run" "er_status run = RQueued"
    by (simp add: sample_registry_def sample_input_def)
  then obtain run' reg' raw where t:
    "transition_run ''r1'' RCancelled no_patch 5 sample_registry = Inr (run', reg', raw)"
    by (auto simp: transition_run_def status_defs Let_def)
  have w: "rs_waiters ?s = []" by code_simp
  have "\<forall>i l. jm_get (rs_leases (on_run_event (envelope_of_raw raw ''e'' 2) ?s)) i = Some l \<longrightarrow>
      ls_run l \<noteq> ''r1''"
    by (rule terminal_transition_releases_run [OF reachable_sched_inv _ sample_registry_ok run(1) _ t])
      (use w run in \<open>simp_all add: status_defs\<close>)
  with t show ?thesis by auto
qed

text \<open>
  The clean-up is not complete when the run itself is queued: releasing its leases lets the
  pump grant its own waiting call, and that new lease survives \<open>releaseRun\<close> and the terminal
  event; likewise \<open>releaseAll\<close> leaves the lease it grants to a waiter.
\<close>

theorem cleanup_can_leave_leases:
  "let c = [file_claim ''/f'' AccWrite];
       s = fold sched_step [SAcquire ''r'' c False, SAcquire ''r'' c False] (new_scheduler None)
   in map ls_run (jm_values (rs_leases (snd (release_run ''r'' s)))) = [''r''] \<and>
      snapshot_holdings (release_all (fold sched_step two_writers (new_scheduler None))) \<noteq> []"
  unfolding Let_def by (rule conjI) code_simp+

end
