(* ===== verification/ToolResultBudget.thy ===== *)
theory ToolResultBudget
  imports Prelude
begin

text \<open>
  Truncation of tool results: \<open>src/src/core/context/toolResultBudget.ts\<close>.

  A result is its text. Writing the full text to a spill file is the environment's: \<open>spill\<close>
  gives the path of the file when the write succeeded and \<open>None\<close> when there is no session
  directory or the write threw. Eviction of old spill files is file I/O and not modelled.
\<close>

definition max_tool_result_length :: nat where
  "max_tool_result_length = 20000"

definition max_aggregate_tool_results :: nat where
  "max_aggregate_tool_results = 60000"

definition spill_notice :: "string \<Rightarrow> string \<Rightarrow> string" where
  "spill_notice result path =
     take 2000 result @ new_line @ new_line @ ''[... Full output ('' @ show_nat (length result) @
     '' chars) saved to: '' @ path @ '' ...]''"

definition truncate_tool_result :: "string option \<Rightarrow> string \<Rightarrow> string" where
  "truncate_tool_result spill result =
     (if length result \<le> max_tool_result_length then result
      else case spill of
        Some path \<Rightarrow> spill_notice result path
      | None \<Rightarrow>
          (let half = max_tool_result_length div 2
           in take half result @ new_line @ new_line @ ''[... '' @
              show_nat (length result - max_tool_result_length) @ '' chars truncated ...]'' @
              new_line @ new_line @ drop (length result - half) result))"

definition aggregate_notice :: "nat \<Rightarrow> string" where
  "aggregate_notice n = new_line @ new_line @ ''[... '' @ show_nat n @
     '' chars truncated to fit aggregate budget ...]'' @ new_line @ new_line"

definition truncate_to_target :: "nat \<Rightarrow> string \<Rightarrow> string" where
  "truncate_to_target target original =
     (let head_len = max 1 (target div 2);
          tail_len = max 1 (target - head_len)
      in take head_len original @ aggregate_notice (length original - (head_len + tail_len)) @
         drop (length original - tail_len) original)"

text \<open>The new text of one result above the target size.\<close>

definition shrink_result :: "(nat \<Rightarrow> string option) \<Rightarrow> nat \<Rightarrow> nat \<Rightarrow> string \<Rightarrow> string" where
  "shrink_result spill target i original =
     (if length original > max_tool_result_length
      then (case spill i of
              Some path \<Rightarrow> spill_notice original path
            | None \<Rightarrow> truncate_to_target target original)
      else truncate_to_target target original)"

fun enforce_loop ::
  "(nat \<Rightarrow> string option) \<Rightarrow> nat \<Rightarrow> (nat \<times> nat) list \<Rightarrow> int \<Rightarrow> string list \<Rightarrow> string list" where
  "enforce_loop spill target [] current results = results"
| "enforce_loop spill target ((i, sz) # items) current results =
     (if current \<le> int max_aggregate_tool_results then results
      else if sz \<le> target then enforce_loop spill target items current results
      else let original = results ! i;
               new = shrink_result spill target i original
           in enforce_loop spill target items
                (current + int (length new) - int (length original)) (results[i := new]))"

definition indexed_by_size :: "string list \<Rightarrow> (nat \<times> nat) list" where
  "indexed_by_size results =
     sort_key (\<lambda>(i, sz). - int sz) (enumerate 0 (map length results))"

definition enforce_aggregate_budget :: "(nat \<Rightarrow> string option) \<Rightarrow> string list \<Rightarrow> string list" where
  "enforce_aggregate_budget spill results =
     (let total = sum_list (map length results)
      in if total \<le> max_aggregate_tool_results then results
         else if results = [] then results
         else enforce_loop spill (max 1 (max_aggregate_tool_results div length results))
                (indexed_by_size results) (int total) results)"

section \<open>Lemmas\<close>

lemma length_enforce_loop [simp]:
  "length (enforce_loop spill target items current results) = length results"
  by (induction spill target items current results rule: enforce_loop.induct) (simp_all add: Let_def)

lemma length_aggregate_notice: "length (aggregate_notice n) = 54 + length (show_nat n)"
  by (simp add: aggregate_notice_def new_line_def)

lemma show_nat_mono: "m \<le> n \<Longrightarrow> length (show_nat m) \<le> length (show_nat n)"
proof (induction n arbitrary: m rule: show_nat.induct)
  case (1 n)
  show ?case
  proof (cases "n < 10 \<or> m < 10")
    case True
    then show ?thesis
      using 1(2) by (auto simp: show_nat.simps [of m] show_nat.simps [of n])
  next
    case False
    then have "length (show_nat (m div 10)) \<le> length (show_nat (n div 10))"
      using 1 by (simp add: div_le_mono)
    with False show ?thesis by (simp add: show_nat.simps [of m] show_nat.simps [of n])
  qed
qed

lemma length_truncate_to_target:
  assumes "0 < target" and "target < length original"
  shows "length (truncate_to_target target original) \<le>
    target + 55 + length (show_nat (length original))"
proof -
  let ?h = "max 1 (target div 2)" let ?t = "max 1 (target - ?h)"
  have "?h + ?t \<le> target + 1" using assms by (auto simp: max_def)
  moreover have "length (truncate_to_target target original) \<le>
      ?h + (54 + length (show_nat (length original - (?h + ?t)))) + ?t"
    using assms by (simp add: truncate_to_target_def Let_def length_aggregate_notice)
  moreover have "length (show_nat (length original - (?h + ?t))) \<le> length (show_nat (length original))"
    by (rule show_nat_mono) simp
  ultimately show ?thesis by linarith
qed

lemma sum_length_update:
  "i < length rs \<Longrightarrow>
     sum_list (map length (rs[i := r])) + length (rs ! i) = sum_list (map length rs) + length r"
  by (induction rs arbitrary: i) (auto split: nat.splits)

lemma sum_length_bound: "\<forall>r\<in>set rs. length r \<le> N \<Longrightarrow> sum_list (map length rs) \<le> length rs * N"
  by (induction rs) auto

lemma enforce_loop_bound:
  assumes "0 < target" and "current = int (sum_list (map length results))"
    and "\<And>i sz. (i, sz) \<in> set items \<Longrightarrow>
      i < length results \<and> length (results ! i) = sz \<and> length (show_nat sz) \<le> D"
    and "distinct (map fst items)"
    and "\<And>i. i < length results \<Longrightarrow> i \<notin> set (map fst items) \<Longrightarrow>
      length (results ! i) \<le> target + 55 + D"
  shows "sum_list (map length (enforce_loop (\<lambda>_. None) target items current results)) \<le>
    max max_aggregate_tool_results (length results * (target + 55 + D))"
  using assms
proof (induction "\<lambda>_::nat. None :: string option" target items current results rule: enforce_loop.induct)
  case (1 target current results)
  then have "\<forall>r\<in>set results. length r \<le> target + 55 + D" by (auto simp: in_set_conv_nth)
  from sum_length_bound [OF this] show ?case by simp
next
  case (2 target i sz items current results)
  let ?new = "shrink_result (\<lambda>_. None) target i (results ! i)"
  from 2(5) have i: "i < length results" "length (results ! i) = sz" "length (show_nat sz) \<le> D"
    by auto
  consider "current \<le> int max_aggregate_tool_results"
    | "\<not> current \<le> int max_aggregate_tool_results" "sz \<le> target"
    | "\<not> current \<le> int max_aggregate_tool_results" "\<not> sz \<le> target" by blast
  then show ?case
  proof cases
    case 1
    with 2(4) show ?thesis by simp
  next
    case 2
    have "length (results ! k) \<le> target + 55 + D"
      if "k < length results" "k \<notin> set (map fst items)" for k
      using "2.prems"(5) [of k] that i 2(2) by (cases "k = i") auto
    then have "sum_list (map length (enforce_loop (\<lambda>_. None) target items current results)) \<le>
        max max_aggregate_tool_results (length results * (target + 55 + D))"
      using "2.prems"(1-4) by (intro "2.hyps"(1) [OF 2]) auto
    with 2 show ?thesis by simp
  next
    case 3
    have new: "length ?new \<le> target + 55 + D"
      using length_truncate_to_target [of target "results ! i"] "2.prems"(1) 3(2) i
      by (auto simp: shrink_result_def)
    have sum: "int (sum_list (map length (results[i := ?new]))) =
        current + int (length ?new) - int (length (results ! i))"
      using sum_length_update [OF i(1), of ?new] "2.prems"(2) by linarith
    have "sum_list (map length (enforce_loop (\<lambda>_. None) target items
        (current + int (length ?new) - int (length (results ! i))) (results[i := ?new]))) \<le>
        max max_aggregate_tool_results (length (results[i := ?new]) * (target + 55 + D))"
    proof (rule "2.hyps"(2) [OF 3 refl refl])
      show "0 < target" by (rule "2.prems"(1))
      show "current + int (length ?new) - int (length (results ! i)) =
          int (sum_list (map length (results[i := ?new])))" using sum by simp
      show "distinct (map fst items)" using "2.prems"(4) by simp
      show "k < length (results[i := ?new]) \<and> length (results[i := ?new] ! k) = z \<and>
          length (show_nat z) \<le> D" if "(k, z) \<in> set items" for k z
      proof -
        from that "2.prems"(4) have "k \<noteq> i" by force
        with that "2.prems"(3) [of k z] show ?thesis by simp
      qed
      show "length (results[i := ?new] ! k) \<le> target + 55 + D"
        if "k < length (results[i := ?new])" "k \<notin> set (map fst items)" for k
        using that new "2.prems"(5) [of k] by (cases "k = i") auto
    qed
    with 3 show ?thesis by (simp add: Let_def)
  qed
qed

lemma indexed_by_size_entries:
  "(i, sz) \<in> set (indexed_by_size rs) \<longleftrightarrow> i < length rs \<and> length (rs ! i) = sz"
  by (auto simp: indexed_by_size_def in_set_enumerate_eq)

lemma indexed_by_size_distinct: "distinct (map fst (indexed_by_size rs))"
proof -
  have "distinct (map fst (enumerate 0 (map length rs)))" by simp
  then show ?thesis by (simp only: indexed_by_size_def distinct_map distinct_sort set_sort)
qed

section \<open>Properties\<close>

text \<open>
  The aggregate budget, when nothing is spilled to disk: the number of results is kept, a
  set of results within 60000 characters is untouched, and otherwise the total is at most
  60000, or the number of results times the per-item target plus the length of the inserted
  notice (55 characters and the digits of the largest length).
\<close>

theorem aggregate_budget_bound:
  assumes "results \<noteq> []" and "\<forall>r\<in>set results. length (show_nat (length r)) \<le> D"
  shows "let out = enforce_aggregate_budget (\<lambda>_. None) results; n = length results
    in length out = n \<and>
       (sum_list (map length results) \<le> 60000 \<longrightarrow> out = results) \<and>
       sum_list (map length out) \<le> max 60000 (n * (max 1 (60000 div n) + 55 + D))"
proof -
  let ?t = "max 1 (60000 div length results)"
  have loop: "sum_list (map length (enforce_loop (\<lambda>_. None) ?t (indexed_by_size results)
      (int (sum_list (map length results))) results)) \<le>
      max max_aggregate_tool_results (length results * (?t + 55 + D))"
  proof (rule enforce_loop_bound)
    show "i < length results \<and> length (results ! i) = sz \<and> length (show_nat sz) \<le> D"
      if "(i, sz) \<in> set (indexed_by_size results)" for i sz
      using that assms(2) by (auto simp: indexed_by_size_entries)
    show "length (results ! i) \<le> ?t + 55 + D"
      if "i < length results" "i \<notin> set (map fst (indexed_by_size results))" for i
      using that indexed_by_size_entries [of i "length (results ! i)" results] by force
  qed (simp_all add: indexed_by_size_distinct)
  then show ?thesis
    using assms(1) by (auto simp: enforce_aggregate_budget_def max_aggregate_tool_results_def Let_def)
qed

theorem aggregate_budget_bound_witness:
  "sum_list (map length (enforce_aggregate_budget (\<lambda>_. None) [''ok'', ''done''])) \<le> 60114"
proof -
  have d: "\<forall>r\<in>set [''ok'', ''done'']. length (show_nat (length r)) \<le> 1"
    by (simp add: show_nat.simps)
  have "[''ok'', ''done''] \<noteq> ([] :: string list)" by simp
  from aggregate_budget_bound [OF this d] show ?thesis by (simp add: Let_def)
qed

text \<open>
  The aggregate does not have to fit: four results of 15001 characters (60004 in all) are
  each replaced by a text longer than the original, and the total rises to 60220.
\<close>

theorem aggregate_budget_can_grow:
  "let rs = replicate 4 (replicate 15001 CHR ''x'')
   in sum_list (map length rs) = 60004 \<and>
      sum_list (map length (enforce_aggregate_budget (\<lambda>_. None) rs)) = 60220"
proof -
  define r where "r = replicate 15001 CHR ''x''"
  have r: "length r = 15001" by (simp add: r_def)
  have new: "length (shrink_result (\<lambda>_. None) 15000 i r) = 15055" for i
    using r by (simp add: shrink_result_def truncate_to_target_def max_tool_result_length_def
        length_aggregate_notice Let_def show_nat.simps)
  have idx: "indexed_by_size [r, r, r, r] = [(0, 15001), (1, 15001), (2, 15001), (3, 15001)]"
    by (simp add: indexed_by_size_def r)
  have four: "replicate 4 r = [r, r, r, r]"
    by (simp add: numeral_eq_Suc)
  show ?thesis
    unfolding r_def [symmetric] four Let_def
    by (simp add: enforce_aggregate_budget_def max_aggregate_tool_results_def r idx Let_def new)
qed

end
