(* ===== verification/StructuredResult.thy ===== *)
theory StructuredResult
  imports ExecutionRun
begin

text \<open>
  Results of tools: \<open>src/src/core/structuredToolResult.ts\<close>. A tool returns the flat legacy form or the
  structured one; diagnostics of the structured form are not modelled, nothing of the core reads them.
\<close>

section \<open>Results\<close>

record tool_result =
  tr_content :: string
  tr_is_error :: bool

datatype result_status = StSuccess | StFailed | StCancelled | StTimedOut

record structured_result =
  sr_status :: result_status
  sr_summary :: string
  sr_exit_code :: "int option"
  sr_stdout :: "string option"
  sr_stderr :: "string option"
  sr_artifacts :: "artifact_ref list option"
  sr_retryable :: "bool option"
  sr_content :: "string option"

datatype any_result = Legacy tool_result | Structured structured_result

definition to_structured :: "any_result \<Rightarrow> structured_result" where
  "to_structured r =
     (case r of
        Structured q \<Rightarrow> q
      | Legacy l \<Rightarrow> \<lparr>sr_status = (if tr_is_error l then StFailed else StSuccess), sr_summary = tr_content l,
          sr_exit_code = None, sr_stdout = None, sr_stderr = None, sr_artifacts = None, sr_retryable = None,
          sr_content = Some (tr_content l)\<rparr>)"

definition non_empty :: "string option \<Rightarrow> string list" where
  "non_empty t = (case t of None \<Rightarrow> [] | Some v \<Rightarrow> if v = [] then [] else [v])"

definition pick_legacy_content :: "structured_result \<Rightarrow> string" where
  "pick_legacy_content q =
     (let parts = non_empty (sr_stdout q) @ non_empty (sr_stderr q)
      in if non_empty (sr_content q) \<noteq> [] then the (sr_content q)
         else if parts \<noteq> []
         then (case sr_exit_code q of None \<Rightarrow> [] | Some n \<Rightarrow> ''Exit code: '' @ show_int n @ new_line) @
              join_with (new_line @ ''--- stderr ---'' @ new_line) parts
         else sr_summary q)"

definition to_legacy :: "any_result \<Rightarrow> tool_result" where
  "to_legacy r =
     (case r of
        Legacy l \<Rightarrow> l
      | Structured q \<Rightarrow> \<lparr>tr_content = pick_legacy_content q, tr_is_error = (sr_status q \<noteq> StSuccess)\<rparr>)"

text \<open>
  Large output is moved to an artifact; the preview keeps the first and last half of the limit.
\<close>

definition default_large_output_bytes :: nat where
  "default_large_output_bytes = 8 * 1024"

definition route_large_output :: "string \<Rightarrow> string \<Rightarrow> nat \<Rightarrow> (artifact_ref \<times> string) option" where
  "route_large_output output i threshold =
     (if length output \<le> threshold then None
      else (let half = threshold div 2;
                tail = (if half = 0 then output else drop (length output - half) output)
            in Some (\<lparr>af_id = i, af_kind = ''log'', af_path = None, af_content_type = Some ''text/plain'',
                  af_size_bytes = Some (int (length output))\<rparr>,
                 take half output @ new_line @ ''... ['' @ show_nat (length output - threshold) @
                 '' bytes truncated; see artifact '' @ i @ ''] ...'' @ new_line @ tail)))"

section \<open>Round trip\<close>

text \<open>Normalising a result and flattening it again gives the flat result.\<close>

lemma structured_roundtrip:
  "to_legacy (Structured (to_structured r)) = to_legacy r"
  "to_structured (Structured (to_structured r)) = to_structured r"
  by (cases r; simp add: to_legacy_def to_structured_def pick_legacy_content_def non_empty_def)+

end
