(* ===== verification/ToolScheduler.thy ===== *)
theory ToolScheduler
  imports ResourceScheduler ToolResultBudget StructuredResult
begin

text \<open>
  The tool scheduler: \<open>src/src/core/toolRuntime/toolScheduler.ts\<close>, with the canonical claim keys
  of \<open>resourceScheduler.ts\<close>.

  A tool is its name and, when it declares claims, the function from the call's input to its
  claims (\<open>None\<close> when that function throws); inputs are opaque. \<open>path.resolve\<close> is the POSIX one.
  What executing a call yields (the executor with its claims acquired and released) is a
  parameter; rendering and logging do not influence the messages and are left out.
\<close>

section \<open>Canonical keys\<close>

text \<open>\<open>path.resolve cwd key\<close>: segments, with the two dot segments resolved on a stack.\<close>

fun normalize_segments :: "string list \<Rightarrow> string list \<Rightarrow> string list" where
  "normalize_segments stack [] = rev stack"
| "normalize_segments stack (w # ws) =
     (if w = [] \<or> w = ''.'' then normalize_segments stack ws
      else if w = ''..'' then normalize_segments (tl stack) ws
      else normalize_segments (w # stack) ws)"

definition is_absolute :: "string \<Rightarrow> bool" where
  "is_absolute p = (case p of [] \<Rightarrow> False | c # _ \<Rightarrow> c = CHR ''/'')"

definition resolve_path :: "string \<Rightarrow> string \<Rightarrow> string \<Rightarrow> string" where
  "resolve_path process_cwd cwd key =
     (let full = (if is_absolute key then key
                  else if is_absolute cwd then cwd @ ''/'' @ key
                  else process_cwd @ ''/'' @ cwd @ ''/'' @ key)
      in ''/'' @ join_with ''/'' (normalize_segments [] (split_at_char CHR ''/'' full)))"

definition canonicalize_claim_keys ::
  "string \<Rightarrow> string option \<Rightarrow> resource_claim list \<Rightarrow> resource_claim list" where
  "canonicalize_claim_keys process_cwd cwd claims =
     (case cwd of
        None \<Rightarrow> claims
      | Some dir \<Rightarrow>
          if dir = [] then claims
          else map (\<lambda>c.
            if rc_type c \<noteq> CtFile \<and> rc_type c \<noteq> CtDirectory then c
            else if js_includes (rc_key c) ''://'' then c
            else c\<lparr>rc_key := resolve_path process_cwd dir (rc_key c)\<rparr>) claims)"

section \<open>Partition into batches\<close>

record tool_call =
  tc_id :: string
  tc_name :: string
  tc_input :: string

record tool_spec =
  ts_name :: string
  ts_claims :: "(string \<Rightarrow> resource_claim list option) option"

record tool_batch =
  tb_safe :: bool
  tb_calls :: "tool_call list"
  tb_claims :: "resource_claim list"

definition find_tool :: "tool_spec list \<Rightarrow> string \<Rightarrow> tool_spec option" where
  "find_tool tools name = List.find (\<lambda>t. ts_name t = name) tools"

definition call_claims ::
  "tool_spec list \<Rightarrow> string \<Rightarrow> string option \<Rightarrow> tool_call \<Rightarrow> resource_claim list" where
  "call_claims tools process_cwd cwd call =
     canonicalize_claim_keys process_cwd cwd
       (case find_tool tools (tc_name call) of
          None \<Rightarrow> []
        | Some tool \<Rightarrow> (case ts_claims tool of
              None \<Rightarrow> []
            | Some f \<Rightarrow> (case f (tc_input call) of None \<Rightarrow> [] | Some cs \<Rightarrow> cs)))"

definition partition_step ::
  "(tool_call \<Rightarrow> resource_claim list) \<Rightarrow> tool_call \<Rightarrow> tool_batch list \<Rightarrow> tool_batch list" where
  "partition_step claims_of call batches =
     (let claims = claims_of call;
          parallelizable = (claims \<noteq> [])
      in if parallelizable \<and> batches \<noteq> [] \<and> tb_safe (last batches) \<and>
            tb_claims (last batches) \<noteq> [] \<and>
            \<not> claims_conflict_between (tb_claims (last batches)) claims
         then butlast batches @
           [(last batches)\<lparr>tb_calls := tb_calls (last batches) @ [call],
                           tb_claims := tb_claims (last batches) @ claims\<rparr>]
         else batches @ [\<lparr>tb_safe = parallelizable, tb_calls = [call], tb_claims = claims\<rparr>])"

definition partition_tool_calls ::
  "tool_spec list \<Rightarrow> string \<Rightarrow> string option \<Rightarrow> tool_call list \<Rightarrow> tool_batch list" where
  "partition_tool_calls tools process_cwd cwd calls =
     fold (partition_step (call_claims tools process_cwd cwd)) calls []"

section \<open>Executing the batches\<close>


record tool_message =
  tm_tool_call_id :: string
  tm_name :: string
  tm_content :: string



definition tool_message_of :: "tool_call \<Rightarrow> string \<Rightarrow> tool_message" where
  "tool_message_of call content =
     \<lparr>tm_tool_call_id = tc_id call, tm_name = tc_name call,
      tm_content = (let t = js_trim content
                    in if t = [] then ''('' @ tc_name call @ '' completed with no output)'' else t)\<rparr>"





section \<open>Lemmas on the partition\<close>

definition batch_ok :: "(tool_call \<Rightarrow> resource_claim list) \<Rightarrow> tool_batch \<Rightarrow> bool" where
  "batch_ok claims_of b \<longleftrightarrow> tb_calls b \<noteq> [] \<and>
     tb_claims b = concat (map claims_of (tb_calls b)) \<and>
     (if tb_safe b
      then (\<forall>c\<in>set (tb_calls b). claims_of c \<noteq> []) \<and>
        sorted_wrt (\<lambda>c d. \<not> claims_conflict_between (claims_of c) (claims_of d)) (tb_calls b)
      else \<exists>c. tb_calls b = [c] \<and> claims_of c = [])"

lemma conflict_between_iff:
  "claims_conflict_between a b \<longleftrightarrow>
     (\<exists>x\<in>set a. \<exists>y\<in>set b. rc_type x = rc_type y \<and> rc_key x = rc_key y \<and>
        claims_conflict (rc_access x) (rc_access y))"
  by (auto simp: claims_conflict_between_def list_ex_iff)

lemma no_conflict_concat:
  "\<not> claims_conflict_between (concat (map f cs)) b \<Longrightarrow> c \<in> set cs \<Longrightarrow>
     \<not> claims_conflict_between (f c) b"
  by (fastforce simp: conflict_between_iff)

lemma partition_step_calls:
  "concat (map tb_calls (partition_step f c bs)) = concat (map tb_calls bs) @ [c]"
proof (cases bs rule: rev_cases)
  case Nil
  then show ?thesis by (simp add: partition_step_def Let_def)
next
  case (snoc ys y)
  then show ?thesis by (simp add: partition_step_def Let_def)
qed

lemma partition_step_ok:
  assumes "\<forall>b\<in>set bs. batch_ok f b"
  shows "\<forall>b\<in>set (partition_step f c bs). batch_ok f b"
proof (cases "f c \<noteq> [] \<and> bs \<noteq> [] \<and> tb_safe (last bs) \<and> tb_claims (last bs) \<noteq> [] \<and>
    \<not> claims_conflict_between (tb_claims (last bs)) (f c)")
  case True
  then obtain ys y where bs: "bs = ys @ [y]" by (metis append_butlast_last_id)
  with True assms have y: "batch_ok f y" "tb_safe y" "f c \<noteq> []"
    "\<not> claims_conflict_between (concat (map f (tb_calls y))) (f c)"
    by (auto simp: batch_ok_def)
  then have "batch_ok f (y\<lparr>tb_calls := tb_calls y @ [c], tb_claims := tb_claims y @ f c\<rparr>)"
    using no_conflict_concat [OF y(4)] by (auto simp: batch_ok_def sorted_wrt_append)
  with True assms bs show ?thesis by (auto simp: partition_step_def Let_def)
next
  case False
  have "batch_ok f \<lparr>tb_safe = f c \<noteq> [], tb_calls = [c], tb_claims = f c\<rparr>"
    by (simp add: batch_ok_def)
  moreover have "partition_step f c bs =
      bs @ [\<lparr>tb_safe = f c \<noteq> [], tb_calls = [c], tb_claims = f c\<rparr>]"
    using False by (auto simp: partition_step_def Let_def)
  ultimately show ?thesis using assms by simp
qed

lemma partition_fold:
  "concat (map tb_calls (fold (partition_step f) cs bs)) = concat (map tb_calls bs) @ cs"
  by (induction cs arbitrary: bs) (simp_all add: partition_step_calls)

lemma partition_fold_ok:
  "\<forall>b\<in>set bs. batch_ok f b \<Longrightarrow> \<forall>b\<in>set (fold (partition_step f) cs bs). batch_ok f b"
proof (induction cs arbitrary: bs)
  case Nil
  then show ?case by simp
next
  case (Cons c cs)
  from Cons.IH [OF partition_step_ok [OF Cons.prems]] show ?case by simp
qed

lemma partition_ok:
  "\<forall>b\<in>set (partition_tool_calls tools d cwd calls). batch_ok (call_claims tools d cwd) b"
  unfolding partition_tool_calls_def by (rule partition_fold_ok) simp

section \<open>Lemmas on execution\<close>

lemma length_enforce_aggregate [simp]:
  "length (enforce_aggregate_budget spill results) = length results"
  by (simp add: enforce_aggregate_budget_def Let_def)

lemma tool_message_simps [simp]:
  "tm_tool_call_id (tool_message_of c s) = tc_id c" "tm_name (tool_message_of c s) = tc_name c"
  "tm_content (tool_message_of c s) \<noteq> []"
  by (simp_all add: tool_message_of_def Let_def)

text \<open>Messages that answer the calls of a list, one each, in order, with a text.\<close>

definition answers :: "tool_message list \<Rightarrow> tool_call list \<Rightarrow> bool" where
  "answers ms cs \<longleftrightarrow>
     list_all2 (\<lambda>m c. tm_tool_call_id m = tc_id c \<and> tm_name m = tc_name c \<and> tm_content m \<noteq> []) ms cs"



lemma answers_Nil [simp]: "answers [] []"
  by (simp add: answers_def)





section \<open>A batch under the resource scheduler\<close>

text \<open>
  The calls of a batch run concurrently (\<open>executeWithClaims\<close> under \<open>Promise.allSettled\<close>): each is
  idle, waiting in \<open>acquire\<close>, running with the lease it got, or done. \<open>call_moves\<close> is what a
  call can do by itself in the current state of the scheduler: acquire, resume when its promise
  has settled, finish and release. A waiting call can also be aborted or time out.
\<close>

datatype call_state = CsIdle | CsWaiting nat | CsRunning "nat option" | CsDone

definition acquire_id :: "string option \<Rightarrow> tool_call \<Rightarrow> string" where
  "acquire_id run_id call = default_to run_id (''toolcall_'' @ tc_id call)"

fun call_moves ::
  "string \<Rightarrow> resource_claim list \<Rightarrow> call_state \<Rightarrow> rsched \<Rightarrow> (call_state \<times> rsched) list" where
  "call_moves rid claims CsIdle s =
     (if claims = [] then [(CsRunning None, s)]
      else case acquire rid claims False s of
        (Granted i, s') \<Rightarrow> [(CsRunning (Some i), s')]
      | (Waiting n, s') \<Rightarrow> [(CsWaiting n, s')]
      | (Conflict ds, s') \<Rightarrow> [(CsDone, s')])"
| "call_moves rid claims (CsWaiting n) s =
     (case jm_get (rs_outcomes s) n of
        None \<Rightarrow> []
      | Some (Resolved i) \<Rightarrow> [(CsRunning (Some i), s)]
      | Some _ \<Rightarrow> [(CsDone, s)])"
| "call_moves rid claims (CsRunning None) s = [(CsDone, s)]"
| "call_moves rid claims (CsRunning (Some i)) s = [(CsDone, release_lease i s)]"
| "call_moves rid claims CsDone s = []"

fun abort_moves :: "call_state \<Rightarrow> rsched \<Rightarrow> (call_state \<times> rsched) list" where
  "abort_moves (CsWaiting n) s =
     (if jm_get (rs_outcomes s) n = None
      then [(CsDone, cancel_waiter n AbortedWait s), (CsDone, cancel_waiter n TimedOutWait s)]
      else [])"
| "abort_moves st s = []"

inductive batch_step ::
  "string option \<Rightarrow> (tool_call \<Rightarrow> resource_claim list) \<Rightarrow> tool_call list \<Rightarrow>
   rsched \<times> call_state list \<Rightarrow> rsched \<times> call_state list \<Rightarrow> bool"
  for run_id and claims_of and calls where
  own: "i < length cs \<Longrightarrow>
     (st, s') \<in> set (call_moves (acquire_id run_id (calls ! i)) (claims_of (calls ! i)) (cs ! i) s) \<Longrightarrow>
     batch_step run_id claims_of calls (s, cs) (s', cs[i := st])"
| abort: "i < length cs \<Longrightarrow> (st, s') \<in> set (abort_moves (cs ! i) s) \<Longrightarrow>
     batch_step run_id claims_of calls (s, cs) (s', cs[i := st])"

inductive_cases batch_stepE: "batch_step run_id claims_of calls p q"

definition batch_start :: "string option \<Rightarrow> tool_call list \<Rightarrow> rsched \<times> call_state list" where
  "batch_start ws calls = (new_scheduler ws, map (\<lambda>_. CsIdle) calls)"

text \<open>
  Who owns a lease; the waiters of the queue are calls of the batch; settled promises and queued
  waiters are disjoint.
\<close>

definition owns :: "rsched \<Rightarrow> call_state \<Rightarrow> nat \<Rightarrow> bool" where
  "owns s st i \<longleftrightarrow> st = CsRunning (Some i) \<or>
     (\<exists>n. st = CsWaiting n \<and> jm_get (rs_outcomes s) n = Some (Resolved i))"

definition waiters_ok :: "rsched \<Rightarrow> bool" where
  "waiters_ok s \<longleftrightarrow> distinct (map wt_id (rs_waiters s)) \<and>
     (\<forall>w\<in>set (rs_waiters s). wt_id w < rs_next_waiter s \<and> jm_get (rs_outcomes s) (wt_id w) = None) \<and>
     (\<forall>n. jm_has (rs_outcomes s) n \<longrightarrow> n < rs_next_waiter s)"

definition batch_owned :: "rsched \<Rightarrow> call_state list \<Rightarrow> bool" where
  "batch_owned s cs \<longleftrightarrow>
     (\<forall>w\<in>set (rs_waiters s). CsWaiting (wt_id w) \<in> set cs) \<and>
     (\<forall>i. jm_has (rs_leases s) i \<longrightarrow> (\<exists>st\<in>set cs. owns s st i)) \<and>
     (\<forall>n. CsWaiting n \<in> set cs \<longrightarrow> jm_has (rs_outcomes s) n \<or> n \<in> wt_id ` set (rs_waiters s))"

definition batch_inv :: "rsched \<times> call_state list \<Rightarrow> bool" where
  "batch_inv p \<longleftrightarrow> sched_inv (fst p) \<and> waiters_ok (fst p) \<and> batch_owned (fst p) (snd p)"

lemma grant_more [simp]:
  "rs_next_waiter (grant_waiter w s) = rs_next_waiter s"
  "rs_outcomes (grant_waiter w s) = rs_outcomes s @ [(wt_id w, Resolved (rs_next_lease s))]"
  by (simp_all add: grant_waiter_def install_lease_def add_lease_def Let_def)

lemma grant_owned:
  assumes "waiters_ok s" "batch_owned s cs" "rs_waiters s = ys @ w # zs"
  shows "waiters_ok (grant_waiter w (s\<lparr>rs_waiters := ys @ zs\<rparr>)) \<and>
    batch_owned (grant_waiter w (s\<lparr>rs_waiters := ys @ zs\<rparr>)) cs"
proof -
  let ?t = "grant_waiter w (s\<lparr>rs_waiters := ys @ zs\<rparr>)"
  have fresh: "jm_get (rs_outcomes s) (wt_id w) = None" "wt_id w < rs_next_waiter s"
    "CsWaiting (wt_id w) \<in> set cs"
    using assms by (auto simp: waiters_ok_def batch_owned_def)
  have out: "jm_get (rs_outcomes ?t) n =
      (if n = wt_id w then Some (Resolved (rs_next_lease s)) else jm_get (rs_outcomes s) n)" for n
    using fresh(1) by (auto simp: map_add_def split: option.splits)
  have "wt_id w \<notin> wt_id ` (set ys \<union> set zs)"
    using assms(1,3) by (auto simp: waiters_ok_def)
  then have other: "wt_id x \<noteq> wt_id w" if "x \<in> set ys \<union> set zs" for x
    using that by (metis imageI)
  have "waiters_ok ?t"
    using assms(1,3) fresh other unfolding waiters_ok_def out by auto
  moreover have keep: "owns ?t st i" if "owns s st i" for st i
    using that fresh unfolding owns_def out by auto
  have mine: "owns ?t (CsWaiting (wt_id w)) (rs_next_lease s)"
    unfolding owns_def out by simp
  have "batch_owned ?t cs"
    unfolding batch_owned_def
  proof (intro conjI ballI allI impI)
    show "CsWaiting (wt_id x) \<in> set cs" if "x \<in> set (rs_waiters ?t)" for x
      using that assms(2,3) by (auto simp: batch_owned_def)
    show "\<exists>st\<in>set cs. owns ?t st i" if "jm_has (rs_leases ?t) i" for i
    proof (cases "i = rs_next_lease s")
      case True
      then show ?thesis using mine fresh(3) by blast
    next
      case False
      with that assms(2) obtain st where "st \<in> set cs" "owns s st i"
        by (auto simp: batch_owned_def)
      then show ?thesis using keep by blast
    qed
    show "jm_has (rs_outcomes ?t) n \<or> n \<in> wt_id ` set (rs_waiters ?t)"
      if "CsWaiting n \<in> set cs" for n
      using that assms(2,3) unfolding batch_owned_def out by auto
  qed
  ultimately show ?thesis by simp
qed

lemma pump_owned:
  "waiters_ok s \<Longrightarrow> batch_owned s cs \<Longrightarrow> waiters_ok (pump_waiters s) \<and> batch_owned (pump_waiters s) cs"
proof (induction s rule: pump_waiters.induct)
  case (1 s)
  show ?case
  proof (cases "List.extract (\<lambda>w. find_conflicts s (wt_claims w) = []) (rs_waiters s)")
    case None
    then have "pump_waiters s = s" by (subst pump_waiters.simps) simp
    with 1 show ?thesis by simp
  next
    case (Some t)
    then obtain ys w zs where t: "t = (ys, w, zs)" by (cases t) auto
    with Some have "rs_waiters s = ys @ w # zs" by (simp add: extract_Some_iff)
    from grant_owned [OF "1.prems" this] have "waiters_ok (pump_waiters (grant_waiter w
        (s\<lparr>rs_waiters := ys @ zs\<rparr>))) \<and> batch_owned (pump_waiters (grant_waiter w
        (s\<lparr>rs_waiters := ys @ zs\<rparr>))) cs"
      using "1.IH" [OF Some t [symmetric] refl] by blast
    then show ?thesis using Some t by (subst (1 2) pump_waiters.simps) simp
  qed
qed

lemma set_update_facts:
  assumes "i < length cs"
  shows "x \<in> set cs \<Longrightarrow> x \<noteq> cs ! i \<Longrightarrow> x \<in> set (cs[i := st])"
    and "st \<in> set (cs[i := st])"
    and "x \<in> set (cs[i := st]) \<Longrightarrow> x = st \<or> x \<in> set cs"
  using assms
  by (auto simp: in_set_conv_nth nth_list_update) (metis nth_list_update_neq)

lemma drop_claims_more [simp]:
  "rs_next_waiter (drop_claims i cs s) = rs_next_waiter s"
  "rs_outcomes (drop_claims i cs s) = rs_outcomes s"
  by (induction cs arbitrary: s) (simp_all add: Let_def split: option.splits)

lemma owns_cong: "rs_outcomes t = rs_outcomes s \<Longrightarrow> owns t st i = owns s st i"
  by (simp add: owns_def)

text \<open>A call moves while queue, promises and the other leases stay.\<close>

lemma owned_move:
  assumes own: "batch_owned s cs" and i: "i < length cs"
    and same: "rs_outcomes t = rs_outcomes s" "rs_waiters t = rs_waiters s"
    and wait: "\<And>n. cs ! i = CsWaiting n \<Longrightarrow> n \<notin> wt_id ` set (rs_waiters s)"
    and st: "\<And>n. st \<noteq> CsWaiting n"
    and lease: "\<And>j. jm_has (rs_leases t) j \<Longrightarrow>
      owns s st j \<or> jm_has (rs_leases s) j \<and> \<not> owns s (cs ! i) j"
  shows "batch_owned t (cs[i := st])"
  unfolding batch_owned_def same
proof (intro conjI ballI allI impI)
  fix w assume w: "w \<in> set (rs_waiters s)"
  then have "CsWaiting (wt_id w) \<in> set cs" using own by (auto simp: batch_owned_def)
  moreover have "CsWaiting (wt_id w) \<noteq> cs ! i" using wait [of "wt_id w"] w by auto
  ultimately show "CsWaiting (wt_id w) \<in> set (cs[i := st])" by (rule set_update_facts(1) [OF i])
next
  fix j assume "jm_has (rs_leases t) j"
  from lease [OF this] show "\<exists>st\<in>set (cs[i := st]). owns t st j"
  proof
    assume "owns s st j"
    then show ?thesis using set_update_facts(2) [OF i] owns_cong [OF same(1)] by blast
  next
    assume a: "jm_has (rs_leases s) j \<and> \<not> owns s (cs ! i) j"
    then obtain x where "x \<in> set cs" "owns s x j" using own by (auto simp: batch_owned_def)
    then show ?thesis using a set_update_facts(1) [OF i] owns_cong [OF same(1)] by metis
  qed
next
  fix n assume "CsWaiting n \<in> set (cs[i := st])"
  then have "CsWaiting n \<in> set cs" using set_update_facts(3) [OF i] st by metis
  then show "jm_has (rs_outcomes s) n \<or> n \<in> wt_id ` set (rs_waiters s)"
    using own by (auto simp: batch_owned_def)
qed

lemma waiters_ok_cong:
  "rs_waiters t = rs_waiters s \<Longrightarrow> rs_outcomes t = rs_outcomes s \<Longrightarrow>
     rs_next_waiter t = rs_next_waiter s \<Longrightarrow> waiters_ok t = waiters_ok s"
  by (simp add: waiters_ok_def)

lemma release_owned:
  assumes "waiters_ok s" "batch_owned s cs" "i < length cs" "cs ! i = CsRunning (Some j)"
  shows "waiters_ok (release_lease j s) \<and> batch_owned (release_lease j s) (cs[i := CsDone])"
proof (cases "jm_get (rs_leases s) j")
  case None
  have "batch_owned s (cs[i := CsDone])"
    using assms None by (intro owned_move [OF assms(2,3)]) (auto simp: owns_def)
  with None assms(1) show ?thesis by (simp add: release_lease_def)
next
  case (Some l)
  let ?t = "drop_claims j (ls_claims l) (s\<lparr>rs_leases := jm_delete j (rs_leases s)\<rparr>)"
  have "batch_owned ?t (cs[i := CsDone])"
    using assms by (intro owned_move [OF assms(2,3)]) (auto simp: owns_def split: if_splits)
  moreover have "waiters_ok ?t" using assms(1) waiters_ok_cong [of ?t s] by simp
  ultimately show ?thesis using Some pump_owned [of ?t] by (simp add: release_lease_def)
qed

lemma acquire_owned:
  assumes ok: "waiters_ok s" "batch_owned s cs" "i < length cs" "cs ! i = CsIdle" "claims \<noteq> []"
    and move: "(st, s') \<in> set (call_moves rid claims CsIdle s)"
  shows "waiters_ok s' \<and> batch_owned s' (cs[i := st])"
proof (cases "find_conflicts s (map (normalize_claim (rs_workspace s)) claims) = []")
  case True
  let ?t = "snd (install_lease rid (map (normalize_claim (rs_workspace s)) claims) s)"
  have t: "rs_outcomes ?t = rs_outcomes s" "rs_next_waiter ?t = rs_next_waiter s"
    by (simp_all add: install_lease_def add_lease_def Let_def)
  have st: "st = CsRunning (Some (rs_next_lease s))" "s' = ?t"
    using move ok(5) True by (simp_all add: acquire_def split_beta Let_def)
  have "batch_owned ?t (cs[i := st])"
    using ok t st by (intro owned_move [OF ok(2,3)]) (auto simp: owns_def split: if_splits)
  moreover have "waiters_ok ?t" using ok(1) t waiters_ok_cong [of ?t s] by simp
  ultimately show ?thesis using st by simp
next
  case False
  let ?n = "rs_next_waiter s"
  let ?w = "\<lparr>wt_id = ?n, wt_run = rid, wt_claims = map (normalize_claim (rs_workspace s)) claims\<rparr>"
  let ?t = "s\<lparr>rs_waiters := rs_waiters s @ [?w], rs_next_waiter := Suc ?n\<rparr>"
  have st: "st = CsWaiting ?n" "s' = ?t"
    using move ok(5) False by (simp_all add: acquire_def split_beta Let_def)
  have fresh: "jm_get (rs_outcomes s) ?n = None"
    using ok(1) by (cases "jm_get (rs_outcomes s) ?n") (auto simp: waiters_ok_def)
  have "waiters_ok ?t" using ok(1) fresh by (auto simp: waiters_ok_def less_Suc_eq)
  moreover have "batch_owned ?t (cs[i := st])"
    unfolding batch_owned_def
  proof (intro conjI ballI allI impI)
    fix w assume "w \<in> set (rs_waiters ?t)"
    then consider "w = ?w" | "w \<in> set (rs_waiters s)" by auto
    then show "CsWaiting (wt_id w) \<in> set (cs[i := st])"
    proof cases
      case 1
      then show ?thesis using set_update_facts(2) [OF ok(3)] st by simp
    next
      case 2
      then have "CsWaiting (wt_id w) \<in> set cs" using ok(2) by (auto simp: batch_owned_def)
      then show ?thesis using set_update_facts(1) [OF ok(3)] ok(4) by simp
    qed
  next
    fix j assume "jm_has (rs_leases ?t) j"
    then obtain x where x: "x \<in> set cs" "owns s x j" using ok(2) by (auto simp: batch_owned_def)
    then have "x \<noteq> cs ! i" using ok(4) by (auto simp: owns_def)
    with x show "\<exists>st\<in>set (cs[i := st]). owns ?t st j"
      using set_update_facts(1) [OF ok(3)] by (auto simp: owns_def)
  next
    fix n assume "CsWaiting n \<in> set (cs[i := st])"
    then show "jm_has (rs_outcomes ?t) n \<or> n \<in> wt_id ` set (rs_waiters ?t)"
      using set_update_facts(3) [OF ok(3)] st ok(2) by (fastforce simp: batch_owned_def)
  qed
  ultimately show ?thesis using st by simp
qed

lemma cancel_owned:
  assumes ok: "waiters_ok s" "batch_owned s cs" "i < length cs" "cs ! i = CsWaiting n"
    and none: "jm_get (rs_outcomes s) n = None" and why: "\<And>j. why \<noteq> Resolved j"
  shows "waiters_ok (cancel_waiter n why s) \<and> batch_owned (cancel_waiter n why s) (cs[i := CsDone])"
proof -
  let ?t = "cancel_waiter n why s"
  have mem: "n \<in> set (map wt_id (rs_waiters s))"
    using ok(2,3,4) none nth_mem [OF ok(3)] by (auto simp: batch_owned_def)
  then have t: "rs_waiters ?t = filter (\<lambda>w. wt_id w \<noteq> n) (rs_waiters s)"
      "rs_outcomes ?t = rs_outcomes s @ [(n, why)]" "rs_leases ?t = rs_leases s"
      "rs_next_waiter ?t = rs_next_waiter s"
    by (simp_all add: cancel_waiter_def)
  have out: "jm_get (rs_outcomes ?t) m = (if m = n then Some why else jm_get (rs_outcomes s) m)" for m
    using none by (auto simp: t(2) map_add_def split: option.splits)
  have n: "n < rs_next_waiter s" using mem ok(1) by (auto simp: waiters_ok_def)
  have "waiters_ok ?t"
    using ok(1) n unfolding waiters_ok_def out t by (auto simp: distinct_map_filter)
  moreover have same: "owns ?t st j \<longleftrightarrow> owns s st j" for st j
    using none why by (cases st) (auto simp: owns_def out)
  have not: "\<not> owns s (cs ! i) j" for j using ok(4) none by (simp add: owns_def)
  have "batch_owned ?t (cs[i := CsDone])"
    unfolding batch_owned_def
  proof (intro conjI ballI allI impI)
    show "CsWaiting (wt_id w) \<in> set (cs[i := CsDone])" if "w \<in> set (rs_waiters ?t)" for w
      using that ok(2,4) set_update_facts(1) [OF ok(3), of "CsWaiting (wt_id w)"]
      by (auto simp: batch_owned_def t)
    show "\<exists>st\<in>set (cs[i := CsDone]). owns ?t st j" if "jm_has (rs_leases ?t) j" for j
    proof -
      from that ok(2) obtain x where "x \<in> set cs" "owns s x j" by (auto simp: batch_owned_def t)
      with not set_update_facts(1) [OF ok(3)] same show ?thesis by metis
    qed
    show "jm_has (rs_outcomes ?t) m \<or> m \<in> wt_id ` set (rs_waiters ?t)"
      if "CsWaiting m \<in> set (cs[i := CsDone])" for m
    proof -
      from that have "CsWaiting m \<in> set cs" using set_update_facts(3) [OF ok(3)] by auto
      with ok(2) show ?thesis unfolding batch_owned_def out t by auto
    qed
  qed
  ultimately show ?thesis by simp
qed

text \<open>How many moves a call still has at most.\<close>

fun moves_left :: "call_state \<Rightarrow> nat" where
  "moves_left CsIdle = 3"
| "moves_left (CsWaiting n) = 2"
| "moves_left (CsRunning l) = 1"
| "moves_left CsDone = 0"

lemma call_moves_effect:
  assumes "(st, s') \<in> set (call_moves rid claims st0 s)"
  shows "moves_left st < moves_left st0"
    and "s' = s \<or> s' = snd (acquire rid claims False s) \<or> (\<exists>j. s' = release_lease j s)"
proof -
  have "moves_left st < moves_left st0 \<and>
      (s' = s \<or> s' = snd (acquire rid claims False s) \<or> (\<exists>j. s' = release_lease j s))"
  proof (cases st0)
    case CsIdle
    obtain out t where a: "acquire rid claims False s = (out, t)" by fastforce
    show ?thesis using assms CsIdle a by (cases out) (auto split: if_splits)
  next
    case (CsWaiting n)
    show ?thesis
    proof (cases "jm_get (rs_outcomes s) n")
      case None
      with assms CsWaiting show ?thesis by simp
    next
      case (Some o')
      with assms CsWaiting show ?thesis by (cases o') auto
    qed
  next
    case (CsRunning l)
    with assms show ?thesis by (cases l) auto
  next
    case CsDone
    with assms show ?thesis by simp
  qed
  then show "moves_left st < moves_left st0"
    and "s' = s \<or> s' = snd (acquire rid claims False s) \<or> (\<exists>j. s' = release_lease j s)"
    by blast+
qed

lemma call_moves_inv:
  "sched_inv s \<Longrightarrow> (st, s') \<in> set (call_moves rid claims st0 s) \<Longrightarrow> sched_inv s'"
  using call_moves_effect(2) acquire_inv release_inv by metis

lemma batch_step_inv:
  assumes "batch_step run_id f calls p q" and "batch_inv p"
  shows "batch_inv q"
  using assms
proof (induction rule: batch_step.induct)
  case (own i cs st s' s)
  let ?rid = "acquire_id run_id (calls ! i)" and ?claims = "f (calls ! i)"
  have inv: "sched_inv s" "waiters_ok s" "batch_owned s cs" using own by (simp_all add: batch_inv_def)
  have "waiters_ok s' \<and> batch_owned s' (cs[i := st])"
  proof (cases "cs ! i")
    case CsIdle
    show ?thesis
    proof (cases "?claims = []")
      case True
      have "batch_owned s (cs[i := CsRunning None])"
        using CsIdle by (intro owned_move [OF inv(3) own(1)]) (auto simp: owns_def)
      with True own(2) CsIdle inv show ?thesis by simp
    next
      case False
      show ?thesis using acquire_owned [OF inv(2,3) own(1) CsIdle False] own(2) CsIdle by simp
    qed
  next
    case (CsWaiting n)
    have n: "jm_has (rs_outcomes s) n" 
      using own(2) CsWaiting by (cases "jm_get (rs_outcomes s) n") simp_all
    then obtain o' where o: "jm_get (rs_outcomes s) n = Some o'" by blast
    have q: "n \<notin> wt_id ` set (rs_waiters s)"
      using n inv(2) by (auto simp: waiters_ok_def)
    have s: "s' = s" "st = (case o' of Resolved j \<Rightarrow> CsRunning (Some j) | _ \<Rightarrow> CsDone)"
      using own(2) CsWaiting o by (cases o', simp_all)+
    have "batch_owned s (cs[i := st])"
    proof (rule owned_move [OF inv(3) own(1) refl refl])
      show "m \<notin> wt_id ` set (rs_waiters s)" if "cs ! i = CsWaiting m" for m
        using that q CsWaiting by simp
      show "st \<noteq> CsWaiting m" for m using s(2) by (cases o') auto
      show "owns s st j \<or> jm_has (rs_leases s) j \<and> \<not> owns s (cs ! i) j"
        if "jm_has (rs_leases s) j" for j
        using that CsWaiting o s(2) by (auto simp: owns_def)
    qed
    with inv s(1) show ?thesis by simp
  next
    case (CsRunning o')
    show ?thesis
    proof (cases o')
      case None
      have "batch_owned s (cs[i := CsDone])"
        using CsRunning None by (intro owned_move [OF inv(3) own(1)]) (auto simp: owns_def)
      with None own(2) CsRunning inv show ?thesis by simp
    next
      case (Some j)
      then show ?thesis using release_owned [OF inv(2,3) own(1), of j] CsRunning own(2) by simp
    qed
  next
    case CsDone
    with own(2) show ?thesis by simp
  qed
  moreover have "sched_inv s'" by (rule call_moves_inv [OF inv(1) own(2)])
  ultimately show ?case by (simp add: batch_inv_def)
next
  case (abort i cs st s' s)
  then obtain n why where "cs ! i = CsWaiting n" "jm_get (rs_outcomes s) n = None"
    "s' = cancel_waiter n why s" "st = CsDone" "\<And>j. why \<noteq> Resolved j"
    by (cases "cs ! i") (auto split: if_splits)
  then show ?case
    using cancel_owned [of s cs i n why] abort cancel_inv [of s n why] by (simp add: batch_inv_def)
qed

lemma batch_start_inv: "batch_inv (batch_start ws calls)"
proof -
  have "batch_owned (new_scheduler ws) (map (\<lambda>_. CsIdle) calls)"
    by (auto simp: batch_owned_def new_scheduler_def)
  then show ?thesis
    using new_scheduler_inv by (simp add: batch_inv_def batch_start_def)
      (simp add: waiters_ok_def new_scheduler_def)
qed

lemma batch_reach_inv:
  "(batch_step run_id f calls)\<^sup>*\<^sup>* (batch_start ws calls) p \<Longrightarrow>
     batch_inv p \<and> length (snd p) = length calls"
proof (induction rule: rtranclp_induct)
  case base
  show ?case using batch_start_inv by (simp add: batch_start_def)
next
  case (step p q)
  then show ?case using batch_step_inv by (auto elim: batch_step.cases)
qed

lemma sum_update_less:
  "i < length ns \<Longrightarrow> k < ns ! i \<Longrightarrow> sum_list (ns[i := k]) < sum_list (ns :: nat list)"
  by (induction ns arbitrary: i) (auto split: nat.splits)

lemma batch_step_decreases:
  "batch_step run_id f calls p q \<Longrightarrow>
     sum_list (map moves_left (snd q)) < sum_list (map moves_left (snd p))"
proof (induction rule: batch_step.induct)
  case (own i cs st s' s)
  from call_moves_effect(1) [OF own(2)]
  show ?case using own(1) by (simp add: map_update sum_update_less)
next
  case (abort i cs st s' s)
  then have "moves_left st < moves_left (cs ! i)"
    by (cases "cs ! i") (auto split: if_splits)
  then show ?case using abort(1) by (simp add: map_update sum_update_less)
qed

lemma batch_progress:
  assumes "batch_inv (s, cs)" "\<exists>st\<in>set cs. st \<noteq> CsDone"
  shows "\<exists>i<length cs. \<forall>rid claims. call_moves rid claims (cs ! i) s \<noteq> []"
proof -
  have own: "batch_owned s cs" and inv: "sched_inv s" using assms(1) by (simp_all add: batch_inv_def)
  have can: "?thesis" if "st \<in> set cs" "\<And>rid claims. call_moves rid claims st s \<noteq> []" for st
    using that by (metis in_set_conv_nth)
  have res: "call_moves rid claims (CsWaiting n) s \<noteq> []" if "jm_has (rs_outcomes s) n"
    for n rid claims using that by (auto split: wait_outcome.splits)
  have run: "call_moves rid claims (CsRunning o') s \<noteq> []" for rid claims o'
    by (cases o') simp_all
  from assms(2) obtain st where st: "st \<in> set cs" "st \<noteq> CsDone" by blast
  show ?thesis
  proof (cases st)
    case CsIdle
    show ?thesis
      by (rule can [OF st(1)]) (auto simp: CsIdle split: acquire_outcome.splits prod.splits)
  next
    case (CsRunning o')
    show ?thesis by (rule can [OF st(1)]) (use CsRunning run in simp)
  next
    case (CsWaiting n)
    show ?thesis
    proof (cases "jm_has (rs_outcomes s) n")
      case True
      show ?thesis by (rule can [OF st(1)]) (use CsWaiting res [OF True] in simp)
    next
      case False
      then obtain w where w: "w \<in> set (rs_waiters s)"
        using own st(1) CsWaiting by (auto simp: batch_owned_def)
      then obtain c :: resource_claim and h where "h \<in> set (held_of s (rc_key c))"
        using sched_invD(3) [OF inv]
        by (simp add: waiters_blocked_def find_conflicts_Nil) blast
      then have "jm_has (rs_leases s) (hc_lease h)"
        using sched_invD(1) [OF inv] by (auto simp: leases_match_def)
      then obtain x where x: "x \<in> set cs" "owns s x (hc_lease h)"
        using own by (auto simp: batch_owned_def)
      show ?thesis
        by (rule can [OF x(1)]) (use x(2) run res in \<open>auto simp: owns_def\<close>)
    qed
  qed (use st in simp)
qed

section \<open>Lemmas on canonical keys\<close>

lemma normalize_append:
  "normalize_segments st (a @ b) = normalize_segments (rev (normalize_segments st a)) b"
  by (induction st a rule: normalize_segments.induct) simp_all

definition plain_segment :: "string \<Rightarrow> bool" where
  "plain_segment w \<longleftrightarrow> w \<noteq> [] \<and> w \<noteq> ''.'' \<and> w \<noteq> ''..''"

lemma normalize_plain:
  "list_all plain_segment ws \<Longrightarrow> normalize_segments st ws = rev st @ ws"
  by (induction st ws rule: normalize_segments.induct) (simp_all add: plain_segment_def)

lemma normalized_plain:
  "list_all plain_segment st \<Longrightarrow> list_all plain_segment (normalize_segments st ws)"
proof (induction st ws rule: normalize_segments.induct)
  case (2 st w ws)
  then show ?case by (cases st) (auto simp: plain_segment_def)
qed simp

lemma normalized_subset: "set (normalize_segments st ws) \<subseteq> set st \<union> set ws"
proof (induction st ws rule: normalize_segments.induct)
  case (2 st w ws)
  then show ?case by (cases st) auto
qed simp

lemma includes_split: "js_includes s p \<Longrightarrow> \<exists>a b. s = a @ p @ b"
proof (induction s p rule: js_includes.induct)
  case (2 c cs p)
  have pre: "is_prefix p ys \<Longrightarrow> \<exists>b. ys = p @ b" for ys :: string
    by (induction p ys rule: is_prefix.induct) auto
  from 2(2) consider "is_prefix p (c # cs)" | "js_includes cs p" by auto
  then show ?case
  proof cases
    case 1
    with pre obtain b where "c # cs = p @ b" by blast
    then show ?thesis by (metis append_Nil)
  next
    case 2
    with "2.IH" obtain a b where "cs = a @ p @ b" by blast
    then show ?thesis by (metis append_Cons)
  qed
qed simp

text \<open>The shape of a resolved path: a slash and plain segments.\<close>

lemma resolve_path_shape:
  obtains segs where "resolve_path p d k = ''/'' @ join_with ''/'' segs"
    "list_all plain_segment segs" "\<forall>w\<in>set segs. CHR ''/'' \<notin> set w"
proof -
  let ?full = "if is_absolute k then k else if is_absolute d then d @ ''/'' @ k
    else p @ ''/'' @ d @ ''/'' @ k"
  let ?segs = "normalize_segments [] (split_at_char CHR ''/'' ?full)"
  have "list_all plain_segment ?segs" by (rule normalized_plain) simp
  moreover have "\<forall>w\<in>set ?segs. CHR ''/'' \<notin> set w"
    using normalized_subset [of "[]" "split_at_char CHR ''/'' ?full"] split_no_sep by fastforce
  moreover have "resolve_path p d k = ''/'' @ join_with ''/'' ?segs"
    by (simp add: resolve_path_def Let_def)
  ultimately show thesis by (rule that [rotated])
qed

lemma resolve_path_idem: "resolve_path p d (resolve_path p d k) = resolve_path p d k"
proof -
  obtain segs where s: "resolve_path p d k = ''/'' @ join_with ''/'' segs"
    "list_all plain_segment segs" "\<forall>w\<in>set segs. CHR ''/'' \<notin> set w"
    by (rule resolve_path_shape)
  have "normalize_segments [] (split_at_char CHR ''/'' (''/'' @ join_with ''/'' segs)) = segs"
  proof (cases "segs = []")
    case True
    then show ?thesis by simp
  next
    case False
    then have "split_at_char CHR ''/'' (join_with ''/'' segs) = segs"
      using s(3) by (intro split_join) auto
    with s(2) show ?thesis by (simp add: normalize_plain)
  qed
  then show ?thesis unfolding s(1) by (simp add: resolve_path_def is_absolute_def)
qed

lemma resolve_path_no_url: "\<not> js_includes (resolve_path p d k) ''://''"
proof
  obtain segs where s: "resolve_path p d k = ''/'' @ join_with ''/'' segs"
    "list_all plain_segment segs" "\<forall>w\<in>set segs. CHR ''/'' \<notin> set w"
    by (rule resolve_path_shape)
  let ?t = "join_with ''/'' segs"
  assume "js_includes (resolve_path p d k) ''://''"
  then have "js_includes ?t ''://''" unfolding s(1) by simp
  then obtain a b where t: "?t = (a @ '':'') @ CHR ''/'' # CHR ''/'' # b"
    using includes_split [of ?t "''://''"] by auto
  have "[] \<in> set (split_at_char CHR ''/'' ?t)"
    unfolding t by (subst split_append) simp
  moreover have "segs \<noteq> []" using t by auto
  then have "split_at_char CHR ''/'' ?t = segs" using s(3) by (intro split_join) auto
  ultimately show False using s(2) by (auto simp: list_all_iff plain_segment_def)
qed

section \<open>Properties\<close>

text \<open>
  The partition keeps every call, in order; no batch is empty; two calls of one parallel
  batch never have conflicting claims and all of them declare claims; a call without claims is
  alone in a serial batch.
\<close>

theorem partition_is_sound:
  "let f = call_claims tools process_cwd cwd;
       batches = partition_tool_calls tools process_cwd cwd calls
   in concat (map tb_calls batches) = calls \<and>
      list_all (\<lambda>b. tb_calls b \<noteq> [] \<and> tb_claims b = concat (map f (tb_calls b)) \<and>
        (if tb_safe b
         then list_all (\<lambda>c. f c \<noteq> []) (tb_calls b) \<and>
           sorted_wrt (\<lambda>c d. \<not> claims_conflict_between (f c) (f d)) (tb_calls b)
         else length (tb_calls b) = 1 \<and> f (hd (tb_calls b)) = [])) batches"
proof -
  have "concat (map tb_calls (partition_tool_calls tools process_cwd cwd calls)) = calls"
    by (simp add: partition_tool_calls_def partition_fold)
  then show ?thesis
    using partition_ok [of tools process_cwd cwd calls]
    unfolding Let_def list_all_iff batch_ok_def by fastforce
qed

text \<open>
  The planner never contradicts the lock: when the partition finds the claims of two calls
  conflicting, a scheduler that holds the first call's claims (and nothing else) refuses the
  second call's claims, whatever the workspace prefix.
\<close>

theorem planner_conflict_is_lock_conflict:
  assumes "claims_conflict_between a b"
  shows "\<exists>ds. ds \<noteq> [] \<and>
    fst (acquire r b True (snd (acquire q a nw (new_scheduler ws)))) = Conflict ds"
proof -
  let ?s = "snd (acquire q a nw (new_scheduler ws))"
  obtain x y where xy: "x \<in> set a" "y \<in> set b" "rc_type x = rc_type y" "rc_key x = rc_key y"
    "claims_conflict (rc_access x) (rc_access y)"
    using assms by (auto simp: conflict_between_iff)
  have ne: "a \<noteq> []" "b \<noteq> []" using xy by auto
  have "find_conflicts (new_scheduler ws) cs = []" for cs :: "resource_claim list"
    by (simp add: find_conflicts_Nil held_of_def new_scheduler_def)
  then have s: "?s = snd (install_lease q (map (normalize_claim ws) a) (new_scheduler ws))"
    using ne by (simp add: acquire_def Let_def split_beta new_scheduler_def)
  have w: "rs_workspace ?s = ws"
    unfolding s by (simp add: install_lease_def add_lease_def Let_def new_scheduler_def)
  let ?h = "\<lparr>hc_lease = 0, hc_run = q, hc_claim = normalize_claim ws x\<rparr>"
  have "?h \<in> set (held_of ?s (rc_key (normalize_claim ws x)))"
    unfolding s install_held using xy(1) by (auto simp: new_scheduler_def)
  moreover have "rc_key (normalize_claim ws x) = rc_key (normalize_claim ws y)"
    using xy(4) by (simp add: normalize_claim_def Let_def split: option.splits)
  moreover have "claims_conflict (rc_access (normalize_claim ws x)) (rc_access (normalize_claim ws y))"
    using xy(3,5) by (auto simp: normalize_claim_def Let_def claims_conflict_iff)
  ultimately have "find_conflicts ?s (map (normalize_claim ws) b) \<noteq> []"
    using xy(2) by (fastforce simp: find_conflicts_Nil)
  then show ?thesis using ne w by (auto simp: acquire_def Let_def)
qed

theorem planner_conflict_is_lock_conflict_witness:
  "\<exists>ds. ds \<noteq> [] \<and> fst (acquire ''b'' [file_claim ''/f'' AccWrite] True
     (snd (acquire ''a'' [file_claim ''/f'' AccRead] True (new_scheduler (Some ''w''))))) = Conflict ds"
  by (rule planner_conflict_is_lock_conflict)
    (simp add: claims_conflict_between_def file_claim_def claims_conflict_def)

text \<open>
  Canonical keys: canonicalisation is idempotent and keeps type and access of every claim;
  and with an absolute working directory the spellings \<open>k\<close>, \<open>./k\<close>, \<open>x/../k\<close> and \<open>dir/k\<close> of one
  relative path get one key.
\<close>

theorem claim_keys_are_canonical:
  assumes "is_absolute dir" and "\<not> is_absolute k" and "plain_segment x" and "CHR ''/'' \<notin> set x"
  shows "canonicalize_claim_keys p cwd (canonicalize_claim_keys p cwd cs) =
      canonicalize_claim_keys p cwd cs \<and>
    map (\<lambda>c. (rc_type c, rc_access c)) (canonicalize_claim_keys p cwd cs) =
      map (\<lambda>c. (rc_type c, rc_access c)) cs \<and>
    resolve_path p dir (''./'' @ k) = resolve_path p dir k \<and>
    resolve_path p dir (x @ ''/../'' @ k) = resolve_path p dir k \<and>
    resolve_path p dir (dir @ ''/'' @ k) = resolve_path p dir k"
proof (intro conjI)
  show "canonicalize_claim_keys p cwd (canonicalize_claim_keys p cwd cs) =
      canonicalize_claim_keys p cwd cs"
    by (auto simp: canonicalize_claim_keys_def resolve_path_idem resolve_path_no_url
        split: option.splits)
  show "map (\<lambda>c. (rc_type c, rc_access c)) (canonicalize_claim_keys p cwd cs) =
      map (\<lambda>c. (rc_type c, rc_access c)) cs"
    by (auto simp: canonicalize_claim_keys_def split: option.splits)
  have x: "\<not> is_absolute (x @ ''/../'' @ k)"
    using assms(3,4) by (cases x) (auto simp: plain_segment_def is_absolute_def)
  have segs: "split_at_char CHR ''/'' (dir @ CHR ''/'' # r) =
      split_at_char CHR ''/'' dir @ split_at_char CHR ''/'' r" for r
    by (rule split_append)
  show "resolve_path p dir (''./'' @ k) = resolve_path p dir k"
    using assms by (simp add: resolve_path_def is_absolute_def [of "CHR ''.'' # _"] segs normalize_append)
  show "resolve_path p dir (x @ ''/../'' @ k) = resolve_path p dir k"
    using assms x
    by (simp add: resolve_path_def segs normalize_append split_append [of _ x] split_plain
        plain_segment_def)
  have "is_absolute (dir @ ''/'' @ k)"
    using assms(1) by (cases dir) (simp_all add: is_absolute_def)
  then show "resolve_path p dir (dir @ ''/'' @ k) = resolve_path p dir k"
    using assms by (simp add: resolve_path_def)
qed

theorem claim_keys_are_canonical_witness:
  "resolve_path ''/'' ''/repo'' (''src'' @ ''/../'' @ ''a.ts'') = resolve_path ''/'' ''/repo'' ''a.ts''"
  using claim_keys_are_canonical [of "''/repo''" "''a.ts''" "''src''" "''/''" None "[]"]
  by (simp add: is_absolute_def plain_segment_def)


text \<open>
  (C3) No deadlock: for any set of concurrent calls and any interleaving of their acquires,
  resumptions, releases, aborts and timeouts, as long as a call is not done some call can move by
  itself; every interleaving has at most three moves per call; and when all calls are done no
  lease is held and no waiter is queued.
\<close>

theorem concurrent_batch_never_deadlocks:
  assumes "(batch_step run_id f calls ^^ k) (batch_start ws calls) (s, cs)"
  shows "k \<le> 3 * length calls \<and>
    (if \<forall>st\<in>set cs. st = CsDone then rs_leases s = [] \<and> rs_waiters s = []
     else \<exists>i<length cs. call_moves (acquire_id run_id (calls ! i)) (f (calls ! i)) (cs ! i) s \<noteq> [])"
proof -
  have count: "k + sum_list (map moves_left (snd p)) \<le> 3 * length calls"
    if "(batch_step run_id f calls ^^ k) (batch_start ws calls) p" for p
    using that
  proof (induction k arbitrary: p)
    case 0
    then show ?case by (auto simp: batch_start_def sum_list_triv o_def)
  next
    case (Suc k)
    then obtain q where "(batch_step run_id f calls ^^ k) (batch_start ws calls) q"
      "batch_step run_id f calls q p" by auto
    with Suc.IH [of q] batch_step_decreases [of run_id f calls q p] show ?case by simp
  qed
  have inv: "batch_inv (s, cs)"
    using batch_reach_inv [OF relpowp_imp_rtranclp [OF assms]] by blast
  have "rs_leases s = [] \<and> rs_waiters s = []" if "\<forall>st\<in>set cs. st = CsDone"
  proof -
    have own: "batch_owned s cs" using inv by (simp add: batch_inv_def)
    have no: "\<not> jm_has (rs_leases s) i" for i
      using own that unfolding batch_owned_def owns_def by fastforce
    have "rs_leases s = []"
    proof (cases "rs_leases s")
      case (Cons p ps)
      then show ?thesis using no [of "fst p"] by (cases p) simp
    qed
    moreover have "rs_waiters s = []"
      using own that unfolding batch_owned_def by (cases "rs_waiters s") fastforce+
    ultimately show ?thesis by blast
  qed
  with batch_progress [OF inv] count [OF assms] show ?thesis by auto
qed

definition write_calls :: "tool_call list" where
  "write_calls = [\<lparr>tc_id = ''1'', tc_name = ''Write'', tc_input = ''a''\<rparr>,
                  \<lparr>tc_id = ''2'', tc_name = ''Edit'', tc_input = ''a''\<rparr>]"

definition write_claims :: "tool_call \<Rightarrow> resource_claim list" where
  "write_claims c = [file_claim (tc_input c) AccWrite]"

text \<open>The first call holds the file and the second one waits for it.\<close>

theorem concurrent_batch_never_deadlocks_witness:
  "\<exists>s. (batch_step (Some ''r'') write_claims write_calls ^^ 2) (batch_start None write_calls)
       (s, [CsRunning (Some 0), CsWaiting 0]) \<and>
     length (rs_waiters s) = 1 \<and>
     (\<exists>i<2. call_moves ''r'' (write_claims (write_calls ! i))
       ([CsRunning (Some 0), CsWaiting 0] ! i) s \<noteq> [])"
proof -
  let ?c = "file_claim ''a'' AccWrite" and ?step = "batch_step (Some ''r'') write_claims write_calls"
  define s1 where "s1 = snd (acquire ''r'' [?c] False (new_scheduler None))"
  define s2 where "s2 = snd (acquire ''r'' [?c] False s1)"
  note ev = acquire_def install_lease_def add_lease_def new_scheduler_def find_conflicts_def
    held_of_def normalize_claim_def file_claim_def claims_conflict_def Let_def
  have a1: "acquire ''r'' [?c] False (new_scheduler None) = (Granted 0, s1)"
    unfolding s1_def by (simp add: ev)
  have a2: "acquire ''r'' [?c] False s1 = (Waiting 0, s2)"
    unfolding s2_def s1_def by (simp add: ev)
  have calls: "write_claims (write_calls ! 0) = [?c]" "write_claims (write_calls ! Suc 0) = [?c]"
    by (simp_all add: write_claims_def write_calls_def)
  have "?step (new_scheduler None, [CsIdle, CsIdle]) (s1, [CsIdle, CsIdle][0 := CsRunning (Some 0)])"
    by (rule batch_step.own) (simp_all add: calls acquire_id_def a1)
  moreover have "?step (s1, [CsRunning (Some 0), CsIdle])
      (s2, [CsRunning (Some 0), CsIdle][Suc 0 := CsWaiting 0])"
    by (rule batch_step.own) (simp_all add: calls acquire_id_def a2)
  ultimately have run: "(?step ^^ 2) (batch_start None write_calls)
      (s2, [CsRunning (Some 0), CsWaiting 0])"
    by (auto simp: numeral_2_eq_2 batch_start_def write_calls_def)
  have "length (rs_waiters s2) = 1" unfolding s2_def s1_def by (simp add: ev)
  moreover from concurrent_batch_never_deadlocks [OF run] run
  have "\<exists>i<2. call_moves ''r'' (write_claims (write_calls ! i))
      ([CsRunning (Some 0), CsWaiting 0] ! i) s2 \<noteq> []"
    by (simp add: acquire_id_def numeral_2_eq_2)
  ultimately show ?thesis using run by blast
qed

end
