(* ===== verification/ControlPlane.thy ===== *)
theory ControlPlane
  imports ToolScheduler
begin

text \<open>
  The durable task queue \<open>src/src/core/taskControlPlane.ts\<close>: \<open>TaskControlPlane\<close> (enqueue, claim,
  heartbeat, complete, fail, cancel, lease recovery, the event file and its replay) and
  \<open>TaskWorker.runOnce\<close>.

  Times are milliseconds; ISO strings are compared and parsed like the numbers they stand for. The
  clock is read once per operation and is an argument of it, as is the random id of a new task.
  Numbers that are not finite, or absent, are \<open>None\<close>; finite ones are integers. Payloads that the
  plane only stores (metadata, artifact contents) are strings.
\<close>

section \<open>Data\<close>

datatype control_status = TqQueued | TqRunning | TqSucceeded | TqFailed | TqCancelled

record control_result =
  cr_summary :: "string option"
  cr_output :: "string option"
  cr_changed_files :: "string list option"
  cr_artifacts :: "(string \<times> string option \<times> string option) list option"
  cr_metadata :: "string option"

record control_task =
  ct_id :: string
  ct_goal :: string
  ct_cwd :: string
  ct_base_ref :: "string option"
  ct_status :: control_status
  ct_priority :: int
  ct_attempt :: nat
  ct_max_attempts :: nat
  ct_worker :: "string option"
  ct_lease :: "nat option"
  ct_result :: "control_result option"
  ct_error :: "string option"
  ct_metadata :: "string option"
  ct_created :: nat
  ct_updated :: nat

record enqueue_input =
  ei_goal :: string
  ei_cwd :: string
  ei_base_ref :: "string option"
  ei_priority :: "int option"
  ei_max_attempts :: "int option"
  ei_metadata :: "string option"

datatype control_event_type = CeEnqueued | CeClaimed | CeHeartbeat | CeCompleted | CeFailed | CeRequeued | CeCancelled

record control_event =
  ce_sequence :: nat
  ce_task_id :: string
  ce_type :: control_event_type
  ce_timestamp :: nat
  ce_task :: control_task

record control_plane =
  cp_tasks :: "(string, control_task) jsmap"
  cp_events :: "control_event list"
  cp_sequence :: nat
  cp_max_events :: nat
  cp_file :: "control_event jsonl_file"

datatype control_error =
    GoalRequired
  | CwdRequired
  | WorkerRequired
  | LeaseTooShort
  | TaskNotFound string
  | TaskNotRunning string
  | TaskOwnedBy string "string option"

definition is_ownership_error :: "control_error \<Rightarrow> bool" where
  "is_ownership_error e = (case e of TaskNotRunning _ \<Rightarrow> True | TaskOwnedBy _ _ \<Rightarrow> True | _ \<Rightarrow> False)"

definition control_error_message :: "control_error \<Rightarrow> string" where
  "control_error_message e = (case e of
      GoalRequired \<Rightarrow> ''task goal is required''
    | CwdRequired \<Rightarrow> ''task cwd is required''
    | WorkerRequired \<Rightarrow> ''workerId is required''
    | LeaseTooShort \<Rightarrow> ''leaseMs must be at least 1000''
    | TaskNotFound i \<Rightarrow> ''task not found: '' @ i
    | TaskNotRunning i \<Rightarrow> ''task '' @ i @ '' is not running''
    | TaskOwnedBy i w \<Rightarrow> ''task '' @ i @ '' is owned by '' @ default_to w ''no worker'')"

section \<open>Reading and recording\<close>

definition get_task :: "control_plane \<Rightarrow> string \<Rightarrow> control_task option" where
  "get_task cp i = jm_get (cp_tasks cp) i"

text \<open>Sorted by falling priority, then by age; the sort is stable.\<close>

definition claim_order :: "control_task \<Rightarrow> int \<times> nat" where
  "claim_order t = (- ct_priority t, ct_created t)"

definition list_tasks :: "control_status option \<Rightarrow> control_plane \<Rightarrow> control_task list" where
  "list_tasks status cp = sort_key claim_order
     (filter (\<lambda>t. case status of None \<Rightarrow> True | Some s \<Rightarrow> ct_status t = s) (jm_values (cp_tasks cp)))"

definition task_events :: "string option \<Rightarrow> control_plane \<Rightarrow> control_event list" where
  "task_events i cp =
     filter (\<lambda>e. case i of None \<Rightarrow> True | Some k \<Rightarrow> k = [] \<or> ce_task_id e = k) (cp_events cp)"

definition require_task :: "control_plane \<Rightarrow> string \<Rightarrow> control_error + control_task" where
  "require_task cp i = (case get_task cp i of None \<Rightarrow> Inl (TaskNotFound i) | Some t \<Rightarrow> Inr t)"

definition owned_running_task :: "control_plane \<Rightarrow> string \<Rightarrow> string \<Rightarrow> control_error + control_task" where
  "owned_running_task cp i w = (case require_task cp i of
      Inl e \<Rightarrow> Inl e
    | Inr t \<Rightarrow> if ct_status t \<noteq> TqRunning then Inl (TaskNotRunning i)
             else if ct_worker t \<noteq> Some w then Inl (TaskOwnedBy i (ct_worker t))
             else Inr t)"

definition valid_lease :: "int option \<Rightarrow> nat option" where
  "valid_lease lease = (case lease of None \<Rightarrow> None | Some ms \<Rightarrow> if ms < 1000 then None else Some (nat ms))"

text \<open>The oldest events are shifted out of the memory copy while it is too long.\<close>

definition bound_events :: "nat \<Rightarrow> control_event list \<Rightarrow> control_event list" where
  "bound_events n es = drop (length es - n) es"

definition record_task ::
  "control_event_type \<Rightarrow> control_task \<Rightarrow> nat \<Rightarrow> control_plane \<Rightarrow> control_plane" where
  "record_task ty t now cp =
     (let e = \<lparr>ce_sequence = Suc (cp_sequence cp), ce_task_id = ct_id t, ce_type = ty,
               ce_timestamp = now, ce_task = t\<rparr>
      in cp\<lparr>cp_sequence := Suc (cp_sequence cp),
            cp_file := jsonl_append e (cp_file cp),
            cp_events := bound_events (cp_max_events cp) (cp_events cp @ [e]),
            cp_tasks := jm_set (ct_id t) t (cp_tasks cp)\<rparr>)"

text \<open>Replay of the event file when a plane is constructed.\<close>

definition load_event :: "control_event \<Rightarrow> control_plane \<Rightarrow> control_plane" where
  "load_event e cp =
     cp\<lparr>cp_sequence := max (cp_sequence cp) (ce_sequence e),
        cp_events := cp_events cp @ [e],
        cp_tasks := jm_set (ct_id (ce_task e)) (ce_task e) (cp_tasks cp)\<rparr>"

definition load_plane :: "int \<Rightarrow> control_event jsonl_file \<Rightarrow> control_plane" where
  "load_plane max_events f =
     (let n = nat (max 1 max_events);
          cp = fold load_event (parsed_lines (jf_lines f))
            \<lparr>cp_tasks = [], cp_events = [], cp_sequence = 0, cp_max_events = n, cp_file = f\<rparr>
      in cp\<lparr>cp_events := bound_events n (cp_events cp)\<rparr>)"

section \<open>Operations\<close>

definition enqueue_task ::
  "string \<Rightarrow> string \<Rightarrow> enqueue_input \<Rightarrow> nat \<Rightarrow> control_plane \<Rightarrow> control_error + control_task \<times> control_plane" where
  "enqueue_task process_cwd uuid input now cp =
     (if js_trim (ei_goal input) = [] then Inl GoalRequired
      else if js_trim (ei_cwd input) = [] then Inl CwdRequired
      else let t = \<lparr>ct_id = uuid, ct_goal = js_trim (ei_goal input),
             ct_cwd = resolve_path process_cwd process_cwd (ei_cwd input),
             ct_base_ref = ei_base_ref input, ct_status = TqQueued,
             ct_priority = default_to (ei_priority input) 0, ct_attempt = 0,
             ct_max_attempts = (case ei_max_attempts input of None \<Rightarrow> 1 | Some n \<Rightarrow> nat (max 1 n)),
             ct_worker = None, ct_lease = None, ct_result = None, ct_error = None,
             ct_metadata = ei_metadata input, ct_created = now, ct_updated = now\<rparr>
        in Inr (t, record_task CeEnqueued t now cp))"

text \<open>What a lapsed or failed attempt becomes: queued again, or failed after the last attempt.\<close>

definition give_back :: "string \<Rightarrow> nat \<Rightarrow> control_task \<Rightarrow> control_event_type \<times> control_task" where
  "give_back err now t =
     (if ct_attempt t < ct_max_attempts t
      then (CeRequeued, t\<lparr>ct_status := TqQueued, ct_worker := None, ct_lease := None,
                          ct_error := Some err, ct_updated := now\<rparr>)
      else (CeFailed, t\<lparr>ct_status := TqFailed, ct_lease := None, ct_error := Some err, ct_updated := now\<rparr>))"

definition lease_expired :: "nat \<Rightarrow> control_task \<Rightarrow> bool" where
  "lease_expired now t \<longleftrightarrow> ct_status t = TqRunning \<and>
     (case ct_lease t of None \<Rightarrow> False | Some l \<Rightarrow> \<not> l > now)"

text \<open>
  The loop over the tasks. Recording a task overwrites the entry of the task just visited, so the
  entries still to come are those of the start.
\<close>

fun recover_loop ::
  "nat \<Rightarrow> control_task list \<Rightarrow> control_plane \<Rightarrow> control_task list \<times> control_plane" where
  "recover_loop now [] cp = ([], cp)"
| "recover_loop now (t # ts) cp =
     (if \<not> lease_expired now t then recover_loop now ts cp
      else let (ty, t') = give_back ''worker lease expired'' now t;
               (rest, cp') = recover_loop now ts (record_task ty t' now cp)
           in (t' # rest, cp'))"

definition recover_expired_leases :: "nat \<Rightarrow> control_plane \<Rightarrow> control_task list \<times> control_plane" where
  "recover_expired_leases now cp = recover_loop now (jm_values (cp_tasks cp)) cp"

text \<open>
  A claim recovers lapsed leases first; a lease that is too short is noticed only after that, and
  only when there is a task to claim.
\<close>

definition claim_task ::
  "string \<Rightarrow> int option \<Rightarrow> nat \<Rightarrow> control_plane \<Rightarrow> control_plane \<times> (control_error + control_task option)" where
  "claim_task w lease now cp =
     (if js_trim w = [] then (cp, Inl WorkerRequired)
      else let cp1 = snd (recover_expired_leases now cp)
        in case list_tasks (Some TqQueued) cp1 of
             [] \<Rightarrow> (cp1, Inr None)
           | t # _ \<Rightarrow>
             (case valid_lease lease of
                None \<Rightarrow> (cp1, Inl LeaseTooShort)
              | Some ms \<Rightarrow>
                  let t' = t\<lparr>ct_status := TqRunning, ct_attempt := Suc (ct_attempt t),
                             ct_worker := Some w, ct_lease := Some (now + ms), ct_error := None,
                             ct_updated := now\<rparr>
                  in (record_task CeClaimed t' now cp1, Inr (Some t'))))"

definition heartbeat_task ::
  "string \<Rightarrow> string \<Rightarrow> int option \<Rightarrow> nat \<Rightarrow> control_plane \<Rightarrow> control_error + control_task \<times> control_plane" where
  "heartbeat_task i w lease now cp = (case owned_running_task cp i w of
      Inl e \<Rightarrow> Inl e
    | Inr t \<Rightarrow> (case valid_lease lease of
          None \<Rightarrow> Inl LeaseTooShort
        | Some ms \<Rightarrow> let t' = t\<lparr>ct_lease := Some (now + ms), ct_updated := now\<rparr>
                    in Inr (t', record_task CeHeartbeat t' now cp)))"

definition complete_task ::
  "string \<Rightarrow> string \<Rightarrow> control_result \<Rightarrow> nat \<Rightarrow> control_plane \<Rightarrow> control_error + control_task \<times> control_plane" where
  "complete_task i w result now cp = (case owned_running_task cp i w of
      Inl e \<Rightarrow> Inl e
    | Inr t \<Rightarrow> let t' = t\<lparr>ct_status := TqSucceeded, ct_result := Some result, ct_lease := None,
                           ct_error := None, ct_updated := now\<rparr>
              in Inr (t', record_task CeCompleted t' now cp))"

definition fail_task ::
  "string \<Rightarrow> string \<Rightarrow> string \<Rightarrow> nat \<Rightarrow> control_plane \<Rightarrow> control_error + control_task \<times> control_plane" where
  "fail_task i w err now cp = (case owned_running_task cp i w of
      Inl e \<Rightarrow> Inl e
    | Inr t \<Rightarrow> let (ty, t') = give_back err now t in Inr (t', record_task ty t' now cp))"

definition task_over :: "control_task \<Rightarrow> bool" where
  "task_over t \<longleftrightarrow> ct_status t = TqSucceeded \<or> ct_status t = TqFailed \<or> ct_status t = TqCancelled"

definition cancel_task ::
  "string \<Rightarrow> nat \<Rightarrow> control_plane \<Rightarrow> control_error + control_task \<times> control_plane" where
  "cancel_task i now cp = (case require_task cp i of
      Inl e \<Rightarrow> Inl e
    | Inr t \<Rightarrow>
        if task_over t then Inr (t, cp)
        else let t' = t\<lparr>ct_status := TqCancelled, ct_lease := None, ct_updated := now\<rparr>
             in Inr (t', record_task CeCancelled t' now cp))"

section \<open>Histories of a plane\<close>

text \<open>
  One call on the plane, or a restart of the process. A random id that is already taken does not
  occur.
\<close>

datatype control_op =
    CEnqueue string string enqueue_input nat
  | CClaim string "int option" nat
  | CHeartbeat string string "int option" nat
  | CComplete string string control_result nat
  | CFail string string string nat
  | CCancel string nat
  | CRecover nat
  | CRestart

definition after_call :: "control_plane \<Rightarrow> control_error + control_task \<times> control_plane \<Rightarrow> control_plane" where
  "after_call cp r = (case r of Inl _ \<Rightarrow> cp | Inr (_, cp') \<Rightarrow> cp')"

fun control_step :: "control_op \<Rightarrow> control_plane \<Rightarrow> control_plane" where
  "control_step (CEnqueue dir i input now) cp =
     (if jm_has (cp_tasks cp) i then cp else after_call cp (enqueue_task dir i input now cp))"
| "control_step (CClaim w lease now) cp = fst (claim_task w lease now cp)"
| "control_step (CHeartbeat i w lease now) cp = after_call cp (heartbeat_task i w lease now cp)"
| "control_step (CComplete i w result now) cp = after_call cp (complete_task i w result now cp)"
| "control_step (CFail i w err now) cp = after_call cp (fail_task i w err now cp)"
| "control_step (CCancel i now) cp = after_call cp (cancel_task i now cp)"
| "control_step (CRecover now) cp = snd (recover_expired_leases now cp)"
| "control_step CRestart cp = load_plane (int (cp_max_events cp)) (cp_file cp)"

section \<open>A worker\<close>

text \<open>
  \<open>runOnce\<close>: claim, execute, report. While the task executes, other calls on the plane happen
  (heartbeats of the worker's timer, other workers, cancellation, recovery); they are the list
  \<open>others\<close>. The execution returns a result or throws a message.
\<close>

definition report_failure ::
  "control_task \<Rightarrow> string \<Rightarrow> string \<Rightarrow> nat \<Rightarrow> control_plane \<Rightarrow> control_plane \<times> (control_error + control_task option)" where
  "report_failure t w msg now cp = (case fail_task (ct_id t) w msg now cp of
      Inr (t', cp') \<Rightarrow> (cp', Inr (Some t'))
    | Inl e \<Rightarrow> if is_ownership_error e then (cp, Inr (Some (default_to (get_task cp (ct_id t)) t)))
              else (cp, Inl e))"

definition run_once ::
  "string \<Rightarrow> int option \<Rightarrow> nat \<Rightarrow> control_op list \<Rightarrow> string + control_result \<Rightarrow> nat \<Rightarrow> control_plane \<Rightarrow>
   control_plane \<times> (control_error + control_task option)" where
  "run_once w lease now others outcome later cp = (case claim_task w lease now cp of
      (cp1, Inl e) \<Rightarrow> (cp1, Inl e)
    | (cp1, Inr None) \<Rightarrow> (cp1, Inr None)
    | (cp1, Inr (Some t)) \<Rightarrow>
        let cp2 = fold control_step others cp1 in
        case outcome of
          Inl msg \<Rightarrow> report_failure t w msg later cp2
        | Inr result \<Rightarrow> (case complete_task (ct_id t) w result later cp2 of
              Inr (t', cp3) \<Rightarrow> (cp3, Inr (Some t'))
            | Inl e \<Rightarrow> report_failure t w (control_error_message e) later cp2))"

section \<open>Lifecycle of a task\<close>

definition task_ok :: "control_task \<Rightarrow> bool" where
  "task_ok t \<longleftrightarrow> 1 \<le> ct_max_attempts t \<and> ct_attempt t \<le> ct_max_attempts t \<and>
     (case ct_status t of
        TqQueued \<Rightarrow> ct_worker t = None \<and> ct_lease t = None \<and> ct_attempt t < ct_max_attempts t
      | TqRunning \<Rightarrow> ct_worker t \<noteq> None \<and> ct_lease t \<noteq> None \<and> 1 \<le> ct_attempt t
      | TqSucceeded \<Rightarrow> ct_lease t = None \<and> ct_result t \<noteq> None \<and> ct_error t = None
      | TqFailed \<Rightarrow> ct_lease t = None \<and> ct_error t \<noteq> None \<and> ct_attempt t = ct_max_attempts t
      | TqCancelled \<Rightarrow> ct_lease t = None)"

definition same_job :: "control_task \<Rightarrow> control_task \<Rightarrow> bool" where
  "same_job t u \<longleftrightarrow> ct_id u = ct_id t \<and> ct_goal u = ct_goal t \<and> ct_cwd u = ct_cwd t \<and>
     ct_base_ref u = ct_base_ref t \<and> ct_priority u = ct_priority t \<and>
     ct_max_attempts u = ct_max_attempts t \<and> ct_metadata u = ct_metadata t \<and> ct_created u = ct_created t"

definition task_move :: "control_task \<Rightarrow> control_task \<Rightarrow> bool" where
  "task_move t u \<longleftrightarrow> same_job t u \<and>
     (case (ct_status t, ct_status u) of
        (TqQueued, TqRunning) \<Rightarrow> ct_attempt u = Suc (ct_attempt t)
      | (TqQueued, TqCancelled) \<Rightarrow> ct_attempt u = ct_attempt t
      | (TqRunning, _) \<Rightarrow> ct_attempt u = ct_attempt t
      | _ \<Rightarrow> False)"

definition may_record :: "control_plane \<Rightarrow> control_task \<Rightarrow> bool" where
  "may_record cp u \<longleftrightarrow> task_ok u \<and> (case jm_get (cp_tasks cp) (ct_id u) of
      None \<Rightarrow> ct_status u = TqQueued \<and> ct_attempt u = 0
    | Some t \<Rightarrow> task_move t u)"

text \<open>What every operation is: a sequence of recorded moves.\<close>

inductive moves_to :: "control_plane \<Rightarrow> control_plane \<Rightarrow> bool" where
  moves_none: "moves_to cp cp"
| moves_record: "moves_to cp cp1 \<Longrightarrow> may_record cp1 u \<Longrightarrow> moves_to cp (record_task ty u now cp1)"

lemmas moves_one = moves_record [OF moves_none]

lemma moves_trans:
  assumes "moves_to a b" "moves_to b c"
  shows "moves_to a c"
  using assms(2,1) by (induction rule: moves_to.induct) (auto intro: moves_to.intros)

definition plane_keys :: "control_plane \<Rightarrow> bool" where
  "plane_keys cp \<longleftrightarrow> jm_wf (cp_tasks cp) \<and>
     (\<forall>i t. jm_get (cp_tasks cp) i = Some t \<longrightarrow> ct_id t = i \<and> task_ok t)"

lemma record_tasks [simp]:
  "cp_tasks (record_task ty t now cp) = jm_set (ct_id t) t (cp_tasks cp)"
  "cp_max_events (record_task ty t now cp) = cp_max_events cp"
  by (simp_all add: record_task_def Let_def)

lemma record_keys: "plane_keys cp \<Longrightarrow> may_record cp u \<Longrightarrow> plane_keys (record_task ty u now cp)"
  by (simp add: plane_keys_def may_record_def)

lemma moves_keys: "moves_to cp cp' \<Longrightarrow> plane_keys cp \<Longrightarrow> plane_keys cp'"
  by (induction rule: moves_to.induct) (auto intro: record_keys)

lemma over_no_move: "task_over t \<Longrightarrow> \<not> task_move t u"
  by (auto simp: task_over_def task_move_def)

section \<open>Every operation moves tasks along the lifecycle\<close>

lemma current_record:
  assumes "jm_get (cp_tasks cp) (ct_id t) = Some t" "task_move t u" "task_ok u"
  shows "may_record cp u"
  using assms by (auto simp: may_record_def task_move_def same_job_def split: option.splits)

lemma give_back_move:
  assumes "task_ok t" "ct_status t = TqRunning" "give_back err now t = (ty, u)"
  shows "task_move t u \<and> task_ok u \<and> ct_id u = ct_id t"
  using assms by (auto simp: give_back_def task_move_def same_job_def task_ok_def split: if_splits)

lemma recover_loop_moves:
  assumes "plane_keys cp" "distinct (map ct_id ts)"
    and "\<forall>t\<in>set ts. jm_get (cp_tasks cp) (ct_id t) = Some t"
  shows "moves_to cp (snd (recover_loop now ts cp))"
  using assms
proof (induction now ts cp rule: recover_loop.induct)
  case (1 now cp)
  then show ?case by (simp add: moves_none)
next
  case (2 now t ts cp)
  show ?case
  proof (cases "lease_expired now t")
    case False
    with 2 show ?thesis by simp
  next
    case True
    obtain ty u where u: "give_back ''worker lease expired'' now t = (ty, u)" by fastforce
    have t: "jm_get (cp_tasks cp) (ct_id t) = Some t" "task_ok t" "ct_status t = TqRunning"
    proof -
      show g: "jm_get (cp_tasks cp) (ct_id t) = Some t" using 2(5) by simp
      from g 2(3) show "task_ok t" unfolding plane_keys_def by blast
      from True show "ct_status t = TqRunning" by (simp add: lease_expired_def)
    qed
    from give_back_move [OF t(2,3) u] have m: "task_move t u" "task_ok u" "ct_id u = ct_id t" by auto
    from current_record [OF t(1) m(1,2)] have r: "may_record cp u" .
    have "\<forall>v\<in>set ts. jm_get (cp_tasks (record_task ty u now cp)) (ct_id v) = Some v"
    proof
      fix v
      assume "v \<in> set ts"
      moreover from this have "ct_id v \<noteq> ct_id u" using 2(4) m(3) by (auto simp: rev_image_eqI)
      ultimately show "jm_get (cp_tasks (record_task ty u now cp)) (ct_id v) = Some v" using 2(5) by simp
    qed
    then have "moves_to (record_task ty u now cp) (snd (recover_loop now ts (record_task ty u now cp)))"
      by (intro 2(2) [OF _ refl]) (use True u record_keys [OF 2(3) r] 2(4) in simp_all)
    with moves_one [OF r] show ?thesis
      using True u by (auto simp: split_beta intro: moves_trans)
  qed
qed

lemma plane_values:
  assumes "plane_keys cp"
  shows "distinct (map ct_id (jm_values (cp_tasks cp)))"
    and "t \<in> set (jm_values (cp_tasks cp)) \<longleftrightarrow> jm_get (cp_tasks cp) (ct_id t) = Some t"
proof -
  have eq: "ct_id (snd p) = fst p" if "p \<in> set (cp_tasks cp)" for p
    using assms that by (cases p) (auto simp: plane_keys_def map_of_eq_Some_iff)
  then have "map ct_id (jm_values (cp_tasks cp)) = jm_keys (cp_tasks cp)" by simp
  then show "distinct (map ct_id (jm_values (cp_tasks cp)))" using assms by (simp only: plane_keys_def)
  show "t \<in> set (jm_values (cp_tasks cp)) \<longleftrightarrow> jm_get (cp_tasks cp) (ct_id t) = Some t"
    using assms jm_values_iff [of "cp_tasks cp" t] by (auto simp: plane_keys_def)
qed

lemma recover_moves: "plane_keys cp \<Longrightarrow> moves_to cp (snd (recover_expired_leases now cp))"
  unfolding recover_expired_leases_def
  by (rule recover_loop_moves) (use plane_values [of cp] in blast)+

lemma list_tasks_set:
  "plane_keys cp \<Longrightarrow> t \<in> set (list_tasks (Some st) cp) \<longleftrightarrow>
     jm_get (cp_tasks cp) (ct_id t) = Some t \<and> ct_status t = st"
  using plane_values(2) [of cp t] by (auto simp: list_tasks_def)

lemma owned_iff:
  "owned_running_task cp i w = Inr t \<longleftrightarrow>
     jm_get (cp_tasks cp) i = Some t \<and> ct_status t = TqRunning \<and> ct_worker t = Some w"
  by (auto simp: owned_running_task_def require_task_def get_task_def split: option.splits)

lemma plane_keysD: "plane_keys cp \<Longrightarrow> jm_get (cp_tasks cp) i = Some t \<Longrightarrow> ct_id t = i \<and> task_ok t"
  by (simp add: plane_keys_def)

lemma claimed_move:
  assumes "task_ok t" "ct_status t = TqQueued"
    and "u = t\<lparr>ct_status := TqRunning, ct_attempt := Suc (ct_attempt t), ct_worker := Some w,
      ct_lease := Some l, ct_error := None, ct_updated := now\<rparr>"
  shows "task_move t u \<and> task_ok u \<and> ct_id u = ct_id t"
  using assms by (simp add: task_move_def same_job_def task_ok_def)

lemma running_move:
  assumes "task_ok t" "ct_status t = TqRunning"
  shows "task_move t (t\<lparr>ct_lease := Some l, ct_updated := now\<rparr>)"
    "task_ok (t\<lparr>ct_lease := Some l, ct_updated := now\<rparr>)"
    "task_move t (t\<lparr>ct_status := TqSucceeded, ct_result := Some r, ct_lease := None, ct_error := None,
       ct_updated := now\<rparr>)"
    "task_ok (t\<lparr>ct_status := TqSucceeded, ct_result := Some r, ct_lease := None, ct_error := None,
       ct_updated := now\<rparr>)"
  using assms by (simp_all add: task_move_def same_job_def task_ok_def)

lemma cancelled_move:
  assumes "task_ok t" "\<not> task_over t"
  shows "task_move t (t\<lparr>ct_status := TqCancelled, ct_lease := None, ct_updated := now\<rparr>)"
    "task_ok (t\<lparr>ct_status := TqCancelled, ct_lease := None, ct_updated := now\<rparr>)"
  using assms by (cases "ct_status t"; simp add: task_move_def same_job_def task_ok_def task_over_def)+

lemma move_moves:
  assumes "plane_keys cp" "jm_get (cp_tasks cp) i = Some t" "task_move t u" "task_ok u"
  shows "moves_to cp (record_task ty u now cp)"
proof (rule moves_one, rule current_record [OF _ assms(3,4)])
  show "jm_get (cp_tasks cp) (ct_id t) = Some t" using plane_keysD [OF assms(1,2)] assms(2) by simp
qed

lemma claim_moves:
  assumes "plane_keys cp"
  shows "moves_to cp (fst (claim_task w lease now cp))"
proof -
  let ?cp1 = "snd (recover_expired_leases now cp)"
  have r: "moves_to cp ?cp1" and k: "plane_keys ?cp1"
    using recover_moves [OF assms] moves_keys [OF recover_moves [OF assms] assms] by blast+
  show ?thesis
  proof (cases "list_tasks (Some TqQueued) ?cp1")
    case Nil
    with r show ?thesis by (simp add: claim_task_def moves_none)
  next
    case (Cons t ts)
    then have "t \<in> set (list_tasks (Some TqQueued) ?cp1)" by simp
    then have t: "jm_get (cp_tasks ?cp1) (ct_id t) = Some t" "ct_status t = TqQueued"
      by (simp_all add: list_tasks_set [OF k])
    show ?thesis
    proof (cases "js_trim w = [] \<or> valid_lease lease = None")
      case True
      with Cons r show ?thesis by (auto simp: claim_task_def moves_none)
    next
      case False
      then obtain ms where ms: "valid_lease lease = Some ms" "js_trim w \<noteq> []" by auto
      let ?u = "t\<lparr>ct_status := TqRunning, ct_attempt := Suc (ct_attempt t), ct_worker := Some w,
        ct_lease := Some (now + ms), ct_error := None, ct_updated := now\<rparr>"
      from plane_keysD [OF k t(1)] claimed_move [OF _ t(2) refl, where w = w and l = "now + ms" and now = now]
      have "moves_to ?cp1 (record_task CeClaimed ?u now ?cp1)"
        by (intro move_moves [OF k t(1)]) blast+
      with r have "moves_to cp (record_task CeClaimed ?u now ?cp1)" by (rule moves_trans)
      with Cons ms show ?thesis by (simp add: claim_task_def Let_def)
    qed
  qed
qed

lemma enqueue_moves:
  assumes "\<not> jm_has (cp_tasks cp) i" "enqueue_task dir i input now cp = Inr (t, cp')"
  shows "moves_to cp cp'"
  using assms
  by (auto simp: enqueue_task_def Let_def may_record_def task_ok_def split: if_splits option.splits
      intro!: moves_one)

lemma owned_moves:
  assumes k: "plane_keys cp" and o: "owned_running_task cp i w = Inr t"
  shows "moves_to cp (record_task ty (t\<lparr>ct_lease := Some l, ct_updated := now\<rparr>) now cp)"
    and "moves_to cp (record_task ty (t\<lparr>ct_status := TqSucceeded, ct_result := Some r,
       ct_lease := None, ct_error := None, ct_updated := now\<rparr>) now cp)"
    and "give_back err now t = (ty', u) \<Longrightarrow> moves_to cp (record_task ty' u now cp)"
proof -
  from o have g: "jm_get (cp_tasks cp) i = Some t" "ct_status t = TqRunning" by (simp_all add: owned_iff)
  from plane_keysD [OF k g(1)] have ok: "task_ok t" by simp
  show "moves_to cp (record_task ty (t\<lparr>ct_lease := Some l, ct_updated := now\<rparr>) now cp)"
    by (rule move_moves [OF k g(1) running_move(1,2) [OF ok g(2)]])
  show "moves_to cp (record_task ty (t\<lparr>ct_status := TqSucceeded, ct_result := Some r,
       ct_lease := None, ct_error := None, ct_updated := now\<rparr>) now cp)"
    by (rule move_moves [OF k g(1) running_move(3,4) [OF ok g(2)]])
  show "give_back err now t = (ty', u) \<Longrightarrow> moves_to cp (record_task ty' u now cp)"
    using give_back_move [OF ok g(2)] by (intro move_moves [OF k g(1)]) blast+
qed

lemma step_moves:
  assumes k: "plane_keys cp" and "x \<noteq> CRestart"
  shows "moves_to cp (control_step x cp)"
proof (cases x)
  case (CEnqueue dir i input now)
  then show ?thesis
    using enqueue_moves [of cp i dir input now]
    by (auto simp: after_call_def moves_none split: sum.splits)
next
  case (CClaim w lease now)
  with claim_moves [OF k] show ?thesis by simp
next
  case (CHeartbeat i w lease now)
  then show ?thesis
    using owned_moves(1) [OF k, of i w]
    by (auto simp: after_call_def heartbeat_task_def Let_def moves_none split: sum.splits option.splits)
next
  case (CComplete i w r now)
  then show ?thesis
    using owned_moves(2) [OF k, of i w]
    by (auto simp: after_call_def complete_task_def Let_def moves_none split: sum.splits)
next
  case (CFail i w err now)
  then show ?thesis
    using owned_moves(3) [OF k, of i w]
    by (auto simp: after_call_def fail_task_def Let_def moves_none split: sum.splits prod.splits)
next
  case (CCancel i now)
  show ?thesis
  proof (cases "require_task cp i")
    case (Inl e)
    with CCancel show ?thesis by (simp add: after_call_def cancel_task_def moves_none)
  next
    case (Inr t)
    then have g: "jm_get (cp_tasks cp) i = Some t"
      by (auto simp: require_task_def get_task_def split: option.splits)
    with plane_keysD [OF k g] show ?thesis
      using CCancel Inr move_moves [OF k g cancelled_move]
      by (simp add: after_call_def cancel_task_def Let_def moves_none)
  qed
next
  case (CRecover now)
  with recover_moves [OF k] show ?thesis by simp
qed (use assms(2) in simp)

section \<open>Replay\<close>

definition plane_ok :: "control_plane \<Rightarrow> bool" where
  "plane_ok cp \<longleftrightarrow> plane_keys cp \<and> \<not> jf_open_tail (cp_file cp) \<and> 1 \<le> cp_max_events cp \<and>
     load_plane (int (cp_max_events cp)) (cp_file cp) = cp"

lemma bound_events_snoc: "1 \<le> n \<Longrightarrow> bound_events n (bound_events n es @ [e]) = bound_events n (es @ [e])"
  by (cases "length es \<le> n") (simp_all add: bound_events_def Suc_diff_le)

lemma load_event_file: "load_event e (cp\<lparr>cp_file := f\<rparr>) = (load_event e cp)\<lparr>cp_file := f\<rparr>"
  by (simp add: load_event_def)

lemma fold_load_file:
  "fold load_event es (cp\<lparr>cp_file := f\<rparr>) = (fold load_event es cp)\<lparr>cp_file := f\<rparr>"
  by (induction es arbitrary: cp) (simp_all add: load_event_file)

lemma fold_load_frame:
  "cp_max_events (fold load_event es cp) = cp_max_events cp" "cp_file (fold load_event es cp) = cp_file cp"
  by (induction es arbitrary: cp) (simp_all add: load_event_def)

lemma record_ok:
  assumes ok: "plane_ok cp" and m: "may_record cp u"
  shows "plane_ok (record_task ty u now cp)"
proof -
  let ?n = "cp_max_events cp" and ?f = "cp_file cp"
  let ?init = "\<lambda>f. \<lparr>cp_tasks = [], cp_events = [], cp_sequence = 0, cp_max_events = ?n, cp_file = f\<rparr>"
  define e where "e = \<lparr>ce_sequence = Suc (cp_sequence cp), ce_task_id = ct_id u, ce_type = ty,
    ce_timestamp = now, ce_task = u\<rparr>"
  define c where "c = fold load_event (parsed_lines (jf_lines ?f)) (?init ?f)"
  have n: "1 \<le> ?n" "nat (max 1 (int ?n)) = ?n" and tail: "\<not> jf_open_tail ?f"
    using ok by (simp_all add: plane_ok_def)
  have cp: "cp = c\<lparr>cp_events := bound_events ?n (cp_events c)\<rparr>"
    using ok n unfolding plane_ok_def load_plane_def c_def by (simp add: Let_def)
  have f: "jsonl_append e ?f = ?f\<lparr>jf_lines := jf_lines ?f @ [LLine e]\<rparr>"
    using tail by (simp add: jsonl_append_def)
  have c': "fold load_event (parsed_lines (jf_lines (jsonl_append e ?f))) (?init (jsonl_append e ?f)) =
      (load_event e c)\<lparr>cp_file := jsonl_append e ?f\<rparr>"
    using fold_load_file [where es = "parsed_lines (jf_lines (jsonl_append e ?f))" and cp = "?init ?f" and f = "jsonl_append e ?f"]
    by (simp add: f c_def)
  have "load_plane (int ?n) (jsonl_append e ?f) = record_task ty u now cp"
  proof -
    have "cp_sequence c = cp_sequence cp" "cp_tasks c = cp_tasks cp" "cp_max_events c = ?n"
      "cp_events cp = bound_events ?n (cp_events c)"
      by (subst cp, simp, subst cp, simp, simp add: c_def fold_load_frame, subst cp, simp)
    then show ?thesis
      using n bound_events_snoc [OF n(1), of "cp_events c" e]
      by (simp add: load_plane_def c' Let_def)
        (simp add: load_event_def record_task_def e_def Let_def)
  qed
  moreover have "cp_file (record_task ty u now cp) = jsonl_append e ?f"
    by (simp add: record_task_def e_def Let_def)
  ultimately show ?thesis
    using record_keys [OF _ m] ok f by (simp add: plane_ok_def)
qed

lemma moves_ok: "moves_to cp cp' \<Longrightarrow> plane_ok cp \<Longrightarrow> plane_ok cp'"
  by (induction rule: moves_to.induct) (auto intro: record_ok)

lemma new_plane_ok: "plane_ok (load_plane m new_file)"
  by (simp add: plane_ok_def load_plane_def new_file_def plane_keys_def bound_events_def Let_def max_def)
    linarith

lemma control_step_ok: "plane_ok cp \<Longrightarrow> plane_ok (control_step x cp)"
  using step_moves [of cp x] moves_ok [of cp] by (cases "x = CRestart") (auto simp: plane_ok_def)

text \<open>What stays true of every task from one state of the plane to a later one.\<close>

definition plane_follows :: "control_plane \<Rightarrow> control_plane \<Rightarrow> bool" where
  "plane_follows cp cp' \<longleftrightarrow> (\<forall>i t. jm_get (cp_tasks cp) i = Some t \<longrightarrow>
     (\<exists>u. jm_get (cp_tasks cp') i = Some u \<and> same_job t u \<and> ct_attempt t \<le> ct_attempt u \<and>
        (task_over t \<longrightarrow> u = t)))"

lemma follows_refl: "plane_follows cp cp"
  by (simp add: plane_follows_def same_job_def)

lemma follows_trans:
  assumes "plane_follows a b" "plane_follows b c"
  shows "plane_follows a c"
  unfolding plane_follows_def
proof (intro allI impI)
  fix i t
  assume "jm_get (cp_tasks a) i = Some t"
  with assms(1) obtain u where u: "jm_get (cp_tasks b) i = Some u" "same_job t u"
    "ct_attempt t \<le> ct_attempt u" "task_over t \<longrightarrow> u = t"
    unfolding plane_follows_def by blast
  from assms(2) u(1) obtain v where v: "jm_get (cp_tasks c) i = Some v" "same_job u v"
    "ct_attempt u \<le> ct_attempt v" "task_over u \<longrightarrow> v = u"
    unfolding plane_follows_def by blast
  have "same_job t v" using u(2) v(2) by (simp add: same_job_def)
  with u v show "\<exists>u. jm_get (cp_tasks c) i = Some u \<and> same_job t u \<and> ct_attempt t \<le> ct_attempt u \<and>
      (task_over t \<longrightarrow> u = t)"
    by (intro exI [of _ v]) auto
qed

lemma record_follows:
  assumes "may_record cp u"
  shows "plane_follows cp (record_task ty u now cp)"
  unfolding plane_follows_def
proof (intro allI impI)
  fix i t
  assume t: "jm_get (cp_tasks cp) i = Some t"
  show "\<exists>u'. jm_get (cp_tasks (record_task ty u now cp)) i = Some u' \<and> same_job t u' \<and>
      ct_attempt t \<le> ct_attempt u' \<and> (task_over t \<longrightarrow> u' = t)"
  proof (cases "i = ct_id u")
    case True
    with assms t have m: "task_move t u" by (simp add: may_record_def)
    then have "\<not> task_over t" using over_no_move by blast
    with m True show ?thesis
      by (auto simp: task_move_def split: control_status.splits)
  next
    case False
    with t show ?thesis by (simp add: same_job_def)
  qed
qed

lemma moves_follow: "moves_to cp cp' \<Longrightarrow> plane_follows cp cp'"
  by (induction rule: moves_to.induct) (auto intro: follows_refl follows_trans record_follows)

lemma control_step_follows: "plane_ok cp \<Longrightarrow> plane_follows cp (control_step x cp)"
  using step_moves [of cp x] moves_follow [of cp]
  by (cases "x = CRestart") (auto simp: plane_ok_def follows_refl)

interpretation plane: preserved_relation control_step plane_ok plane_follows
  by unfold_locales (blast intro: control_step_ok follows_refl follows_trans control_step_follows)+

lemma reachable_plane_ok: "plane_ok (fold control_step ops (load_plane m new_file))"
  by (rule plane.run_inv [OF new_plane_ok])

section \<open>Recovery and claims\<close>

definition recovered :: "nat \<Rightarrow> control_task \<Rightarrow> control_task" where
  "recovered now t = (if lease_expired now t then snd (give_back ''worker lease expired'' now t) else t)"

lemma give_back_id [simp]: "ct_id (snd (give_back err now t)) = ct_id t"
  by (simp add: give_back_def)

lemma recover_loop_fst:
  "fst (recover_loop now ts cp) = map (recovered now) (filter (lease_expired now) ts)"
  by (induction now ts cp rule: recover_loop.induct) (auto simp: recovered_def split_beta)

lemma recover_loop_get:
  assumes "distinct (map ct_id ts)" "\<forall>t\<in>set ts. jm_get (cp_tasks cp) (ct_id t) = Some t"
    and "\<forall>j v. jm_get (cp_tasks cp) j = Some v \<longrightarrow> ct_id v = j"
  shows "jm_get (cp_tasks (snd (recover_loop now ts cp))) i =
    (case jm_get (cp_tasks cp) i of None \<Rightarrow> None
     | Some t \<Rightarrow> Some (if t \<in> set ts then recovered now t else t))"
  using assms
proof (induction ts arbitrary: cp)
  case Nil
  then show ?case by (simp split: option.splits)
next
  case (Cons t ts)
  let ?cp = "record_task (fst (give_back ''worker lease expired'' now t)) (recovered now t) now cp"
  have nt: "ct_id v \<noteq> ct_id t" if "v \<in> set ts" for v
    using Cons.prems(1) that by (auto simp: rev_image_eqI)
  then have nin: "t \<notin> set ts" by blast
  have t: "jm_get (cp_tasks cp) (ct_id t) = Some t" using Cons.prems(2) by simp
  have d: "distinct (map ct_id ts)" using Cons.prems(1) by simp
  show ?case
  proof (cases "lease_expired now t")
    case False
    with Cons.IH [OF d, of cp] Cons.prems(2,3) show ?thesis
      by (auto simp: recovered_def split: option.splits)
  next
    case True
    have id: "ct_id (recovered now t) = ct_id t" by (simp add: recovered_def)
    have "\<forall>v\<in>set ts. jm_get (cp_tasks ?cp) (ct_id v) = Some v"
      using nt Cons.prems(2) id by simp
    moreover have "\<forall>j v. jm_get (cp_tasks ?cp) j = Some v \<longrightarrow> ct_id v = j"
      using Cons.prems(3) id by simp
    ultimately have ih: "jm_get (cp_tasks (snd (recover_loop now ts ?cp))) i =
        (case jm_get (cp_tasks ?cp) i of None \<Rightarrow> None
         | Some t \<Rightarrow> Some (if t \<in> set ts then recovered now t else t))"
      by (rule Cons.IH [OF d])
    have step: "snd (recover_loop now (t # ts) cp) = snd (recover_loop now ts ?cp)"
      using True by (simp add: split_beta recovered_def)
    have nin': "recovered now t \<notin> set ts" using nt id by metis
    show ?thesis
    proof (cases "i = ct_id t")
      case True
      with t nin' id show ?thesis unfolding step ih by simp
    next
      case False
      then have "v \<noteq> t" if "jm_get (cp_tasks cp) i = Some v" for v
        using that Cons.prems(3) by auto
      with False id show ?thesis unfolding step ih by (auto split: option.splits)
    qed
  qed
qed

lemma recover_get:
  assumes "plane_keys cp"
  shows "jm_get (cp_tasks (snd (recover_expired_leases now cp))) i =
    map_option (recovered now) (jm_get (cp_tasks cp) i)"
proof -
  have "jm_get (cp_tasks (snd (recover_expired_leases now cp))) i =
    (case jm_get (cp_tasks cp) i of None \<Rightarrow> None
     | Some t \<Rightarrow> Some (if t \<in> set (jm_values (cp_tasks cp)) then recovered now t else t))"
    unfolding recover_expired_leases_def
    by (rule recover_loop_get) (use plane_values [OF assms] plane_keysD [OF assms] in blast)+
  then show ?thesis by (cases "jm_get (cp_tasks cp) i") (auto dest: jm_value_of_get)
qed

lemma recovered_not_expired: "\<not> lease_expired now (recovered now t)"
  by (simp add: recovered_def lease_expired_def give_back_def)

lemma list_tasks_hd:
  assumes "list_tasks st cp = t # ts" "v \<in> set (list_tasks st cp)"
  shows "claim_order t \<le> claim_order v"
proof -
  have "sorted (map claim_order (list_tasks st cp))" by (simp add: list_tasks_def)
  with assms show ?thesis by auto
qed

lemma load_tasks:
  "parsed_lines (jf_lines f) = parsed_lines (jf_lines g) \<Longrightarrow>
     cp_tasks (load_plane n f) = cp_tasks (load_plane n g)"
  using fold_load_file [where es = "parsed_lines (jf_lines g)" and f = f and
      cp = "\<lparr>cp_tasks = [], cp_events = [], cp_sequence = 0, cp_max_events = nat (max 1 n), cp_file = g\<rparr>"]
  by (simp add: load_plane_def Let_def)

lemma claim_stores:
  "claim_task w lease now cp = (cp', Inr (Some t)) \<Longrightarrow> jm_get (cp_tasks cp') (ct_id t) = Some t"
  by (auto simp: claim_task_def Let_def split: if_splits list.splits option.splits)

section \<open>Properties\<close>

text \<open>
  (C36) Over any history of calls and restarts, tasks are stored under their own id, no attempt
  counter exceeds its maximum, queued tasks have no worker, no lease and an attempt left, running
  ones have a worker and a lease, finished ones have no lease, failed ones have used all attempts
  and carry an error, and succeeded ones a result and no error.
\<close>

theorem control_plane_invariant:
  fixes ops :: "control_op list" and m :: int
  defines "cp \<equiv> fold control_step ops (load_plane m new_file)"
  shows "map ct_id (jm_values (cp_tasks cp)) = jm_keys (cp_tasks cp) \<and> distinct (jm_keys (cp_tasks cp)) \<and>
    list_all task_ok (jm_values (cp_tasks cp))"
proof -
  have k: "plane_keys cp" using reachable_plane_ok [of ops m] by (simp add: plane_ok_def cp_def)
  then have "ct_id (snd p) = fst p \<and> task_ok (snd p)" if "p \<in> set (cp_tasks cp)" for p
    using that by (cases p) (auto simp: plane_keys_def map_of_eq_Some_iff)
  with k show ?thesis by (auto simp: plane_keys_def list_all_iff)
qed

text \<open>
  The job of a task never changes, its attempts only grow, and a task that succeeded, failed or
  was cancelled is never touched again, by whatever calls and restarts.
\<close>

theorem finished_tasks_are_final:
  assumes "jm_get (cp_tasks (fold control_step ops (load_plane m new_file))) i = Some t"
  shows "\<exists>u. jm_get (cp_tasks (fold control_step (ops @ ops') (load_plane m new_file))) i = Some u \<and>
    same_job t u \<and> ct_attempt t \<le> ct_attempt u \<and> (if task_over t then u = t else True)"
  using plane.run_rel [OF reachable_plane_ok, of ops m ops'] assms
  by (fastforce simp: plane_follows_def)

text \<open>
  (C24) Restarting loses nothing: replaying the event file gives back the same tasks, sequence
  number and event tail, after any history.
\<close>

theorem replay_restores_plane:
  fixes ops :: "control_op list" and m :: int
  defines "cp \<equiv> fold control_step ops (load_plane m new_file)"
  shows "load_plane (int (cp_max_events cp)) (cp_file cp) = cp"
  using reachable_plane_ok [of ops m] by (simp add: plane_ok_def cp_def)

text \<open>
  (C13) A claim hands out the best task: after lapsed leases are recovered, the task with the highest
  priority and among those the oldest one, with one more attempt, the caller as its worker and the
  requested lease; it never hands out a task whose lease is still live, and leaves those as they
  are; it returns nothing exactly when nothing is queued.
\<close>

theorem claim_takes_best_task:
  fixes ops :: "control_op list" and now :: nat and m :: int
  defines "cp \<equiv> fold control_step ops (load_plane m new_file)"
  defines "ready \<equiv> {t. \<exists>s. jm_get (cp_tasks cp) (ct_id t) = Some s \<and> t = recovered now s \<and> ct_status t = TqQueued}"
  assumes "claim_task w lease now cp = (cp', Inr r)"
  shows "case r of
      None \<Rightarrow> ready = {}
    | Some t \<Rightarrow> (\<exists>s\<in>ready. (\<forall>v\<in>ready. ct_priority v \<le> ct_priority s \<and>
          (ct_priority v = ct_priority s \<longrightarrow> ct_created s \<le> ct_created v)) \<and>
        same_job s t \<and> ct_status t = TqRunning \<and> ct_attempt t = Suc (ct_attempt s) \<and> ct_worker t = Some w \<and>
        map_option (\<lambda>l. int l - int now) (ct_lease t) = lease) \<and>
      jm_get (cp_tasks cp') (ct_id t) = Some t \<and>
      (\<forall>i u. jm_get (cp_tasks cp) i = Some u \<and> ct_status u = TqRunning \<and> \<not> lease_expired now u \<longrightarrow>
         i \<noteq> ct_id t \<and> jm_get (cp_tasks cp') i = Some u)"
proof -
  let ?cp1 = "snd (recover_expired_leases now cp)"
  have k: "plane_keys cp" using reachable_plane_ok [of ops m] by (simp add: plane_ok_def cp_def)
  then have k1: "plane_keys ?cp1" using recover_moves moves_keys by blast
  have ready: "ready = set (list_tasks (Some TqQueued) ?cp1)"
    unfolding ready_def by (auto simp: list_tasks_set [OF k1] recover_get [OF k])
  show ?thesis
  proof (cases "list_tasks (Some TqQueued) ?cp1")
    case Nil
    with assms(3) have "r = None" by (auto simp: claim_task_def split: if_splits)
    with Nil ready show ?thesis by simp
  next
    case (Cons s ss)
    with assms(3) obtain ms where ms: "valid_lease lease = Some ms"
      and r: "r = Some (s\<lparr>ct_status := TqRunning, ct_attempt := Suc (ct_attempt s), ct_worker := Some w,
        ct_lease := Some (now + ms), ct_error := None, ct_updated := now\<rparr>)"
      and cp'': "cp' = record_task CeClaimed (s\<lparr>ct_status := TqRunning, ct_attempt := Suc (ct_attempt s),
        ct_worker := Some w, ct_lease := Some (now + ms), ct_error := None, ct_updated := now\<rparr>) now ?cp1"
      by (auto simp: claim_task_def Let_def split: if_splits option.splits)
    let ?t = "s\<lparr>ct_status := TqRunning, ct_attempt := Suc (ct_attempt s), ct_worker := Some w,
        ct_lease := Some (now + ms), ct_error := None, ct_updated := now\<rparr>"
    have cp': "cp' = record_task CeClaimed ?t now ?cp1" by (rule cp'')
    have s: "s \<in> ready" using Cons ready by simp
    then have s1: "jm_get (cp_tasks ?cp1) (ct_id s) = Some s" "ct_status s = TqQueued"
      unfolding ready by (simp_all add: list_tasks_set [OF k1])
    have best: "ct_priority v \<le> ct_priority s \<and>
        (ct_priority v = ct_priority s \<longrightarrow> ct_created s \<le> ct_created v)" if "v \<in> ready" for v
      using list_tasks_hd [OF Cons, of v] that ready by (auto simp: claim_order_def)
    have lease: "map_option (\<lambda>l. int l - int now) (ct_lease ?t) = lease"
      using ms by (auto simp: valid_lease_def split: option.splits if_splits)
    have frame: "i \<noteq> ct_id ?t \<and> jm_get (cp_tasks cp') i = Some u"
      if u: "jm_get (cp_tasks cp) i = Some u" "ct_status u = TqRunning" "\<not> lease_expired now u" for i u
    proof -
      have "jm_get (cp_tasks ?cp1) i = Some u" using u by (simp add: recover_get [OF k] recovered_def)
      moreover from this s1 u(2) have "i \<noteq> ct_id s" by auto
      ultimately show ?thesis by (simp add: cp')
    qed
    show ?thesis
      unfolding r option.case
    proof (intro conjI bexI [OF _ s] ballI)
      show "ct_priority v \<le> ct_priority s" if "v \<in> ready" for v using best that by blast
      show "ct_priority v = ct_priority s \<longrightarrow> ct_created s \<le> ct_created v" if "v \<in> ready" for v
        using best that by blast
      show "\<forall>i u. jm_get (cp_tasks cp) i = Some u \<and> ct_status u = TqRunning \<and> \<not> lease_expired now u \<longrightarrow>
          i \<noteq> ct_id ?t \<and> jm_get (cp_tasks cp') i = Some u"
        using frame by blast
      show "map_option (\<lambda>l. int l - int now) (ct_lease ?t) = lease" by (rule lease)
    qed (simp_all add: same_job_def cp')
  qed
qed

definition job :: "int \<Rightarrow> enqueue_input" where
  "job p = \<lparr>ei_goal = ''g'', ei_cwd = ''/w'', ei_base_ref = None, ei_priority = Some p,
     ei_max_attempts = Some 2, ei_metadata = None\<rparr>"

definition two_jobs :: "control_op list" where
  "two_jobs = [CEnqueue ''/'' ''a'' (job 1) 0, CEnqueue ''/'' ''b'' (job 5) 10]"

lemma two_jobs_claimed:
  "case claim_task ''w'' (Some 1000) 20 (fold control_step two_jobs (load_plane 10 new_file)) of
     (cp, Inr (Some t)) \<Rightarrow> ct_id t = ''b'' \<and> ct_lease t = Some 1020 | _ \<Rightarrow> False"
  by code_simp

theorem claim_takes_best_task_witness:
  "\<exists>t cp'. claim_task ''w'' (Some 1000) 20 (fold control_step two_jobs (load_plane 10 new_file)) =
     (cp', Inr (Some t)) \<and> ct_id t = ''b'' \<and> jm_get (cp_tasks cp') ''b'' = Some t"
proof -
  obtain t cp' where c: "claim_task ''w'' (Some 1000) 20 (fold control_step two_jobs (load_plane 10 new_file)) =
      (cp', Inr (Some t))" and b: "ct_id t = ''b''"
    using two_jobs_claimed by (auto split: prod.splits sum.splits option.splits)
  from claim_takes_best_task [OF c] have "jm_get (cp_tasks cp') (ct_id t) = Some t" by simp
  with b c show ?thesis by metis
qed

theorem finished_tasks_are_final_witness:
  "\<exists>u. jm_get (cp_tasks (fold control_step ([CEnqueue ''/'' ''a'' (job 1) 0, CCancel ''a'' 1] @
      [CClaim ''w'' (Some 1000) 2, CRestart, CCancel ''a'' 3]) (load_plane 10 new_file))) ''a'' = Some u \<and>
    ct_status u = TqCancelled \<and> ct_updated u = 1"
proof -
  obtain t where t: "jm_get (cp_tasks (fold control_step [CEnqueue ''/'' ''a'' (job 1) 0, CCancel ''a'' 1]
      (load_plane 10 new_file))) ''a'' = Some t" "ct_status t = TqCancelled" "ct_updated t = 1"
  proof -
    have "case jm_get (cp_tasks (fold control_step [CEnqueue ''/'' ''a'' (job 1) 0, CCancel ''a'' 1]
      (load_plane 10 new_file))) ''a'' of Some t \<Rightarrow> ct_status t = TqCancelled \<and> ct_updated t = 1 | None \<Rightarrow> False"
      by code_simp
    then show thesis by (auto intro: that split: option.splits)
  qed
  then have "task_over t" by (simp add: task_over_def)
  with finished_tasks_are_final [OF t(1), of "[CClaim ''w'' (Some 1000) 2, CRestart, CCancel ''a'' 3]"] t
  show ?thesis by auto
qed

text \<open>
  Recovery is complete: it returns exactly the running tasks whose lease has lapsed, each queued
  again when an attempt is left and failed otherwise; afterwards no lease is lapsed, and all other
  tasks are as before.
\<close>

theorem recovery_is_complete:
  fixes ops :: "control_op list" and m :: int
  defines "cp \<equiv> fold control_step ops (load_plane m new_file)"
  shows "fst (recover_expired_leases now cp) =
      map (recovered now) (filter (lease_expired now) (jm_values (cp_tasks cp))) \<and>
    list_all (\<lambda>t. ct_status t = (if ct_attempt t < ct_max_attempts t then TqQueued else TqFailed))
      (fst (recover_expired_leases now cp)) \<and>
    \<not> list_ex (lease_expired now) (jm_values (cp_tasks (snd (recover_expired_leases now cp)))) \<and>
    jm_get (cp_tasks (snd (recover_expired_leases now cp))) i = map_option (recovered now) (jm_get (cp_tasks cp) i)"
proof (intro conjI)
  have k: "plane_keys cp" using reachable_plane_ok [of ops m] by (simp add: plane_ok_def cp_def)
  show e: "fst (recover_expired_leases now cp) =
      map (recovered now) (filter (lease_expired now) (jm_values (cp_tasks cp)))"
    by (simp only: recover_expired_leases_def recover_loop_fst)
  show "list_all (\<lambda>t. ct_status t = (if ct_attempt t < ct_max_attempts t then TqQueued else TqFailed))
      (fst (recover_expired_leases now cp))"
    unfolding e by (auto simp: list_all_iff recovered_def give_back_def)
  show g: "jm_get (cp_tasks (snd (recover_expired_leases now cp))) i = map_option (recovered now) (jm_get (cp_tasks cp) i)" for i
    by (rule recover_get [OF k])
  have "plane_keys (snd (recover_expired_leases now cp))" using recover_moves [OF k] moves_keys k by blast
  then show "\<not> list_ex (lease_expired now) (jm_values (cp_tasks (snd (recover_expired_leases now cp))))"
    using g recovered_not_expired by (fastforce simp: list_ex_iff plane_values simp del: set_map)
qed

text \<open>
  A worker reports what is stored: after a claim, whatever other calls happen while the task
  executes, \<open>runOnce\<close> does not throw, and returns the task as the plane holds it afterwards. If the
  task is still the worker's, a result makes it succeeded with that result, and an error queues it
  again or, after the last attempt, fails it; if not, the result is dropped and nothing changes.
\<close>

theorem worker_reports_stored_task:
  fixes ops others :: "control_op list" and m :: int
  assumes "claim_task w lease now (fold control_step ops (load_plane m new_file)) = (cp1, Inr (Some t))"
    and "run_once w lease now others outcome later (fold control_step ops (load_plane m new_file)) = (cp', r)"
  shows "\<exists>u v. jm_get (cp_tasks (fold control_step others cp1)) (ct_id t) = Some v \<and> same_job t v \<and>
    r = Inr (Some u) \<and> jm_get (cp_tasks cp') (ct_id t) = Some u \<and>
    (if ct_status v = TqRunning \<and> ct_worker v = Some w
     then (case outcome of
         Inr result \<Rightarrow> ct_status u = TqSucceeded \<and> ct_result u = Some result
       | Inl msg \<Rightarrow> ct_error u = Some msg \<and>
           ct_status u = (if ct_attempt v < ct_max_attempts v then TqQueued else TqFailed))
     else u = v \<and> cp' = fold control_step others cp1)"
proof -
  let ?cp = "fold control_step ops (load_plane m new_file)" and ?cp2 = "fold control_step others cp1"
  have cp1: "cp1 = control_step (CClaim w lease now) ?cp" using assms(1) by simp
  then have ok1: "plane_ok cp1" using control_step_ok reachable_plane_ok by blast
  then have k2: "plane_keys ?cp2" using plane.run_inv [OF ok1, of others] by (simp add: plane_ok_def)
  have "jm_get (cp_tasks cp1) (ct_id t) = Some t" using claim_stores [OF assms(1)] .
  with plane.run_rel [OF ok1, of others] obtain v where v: "jm_get (cp_tasks ?cp2) (ct_id t) = Some v"
    "same_job t v" unfolding plane_follows_def by blast
  have id: "ct_id v = ct_id t" using plane_keysD [OF k2 v(1)] by simp
  have run: "run_once w lease now others outcome later ?cp = (case outcome of
          Inl msg \<Rightarrow> report_failure t w msg later ?cp2
        | Inr result \<Rightarrow> (case complete_task (ct_id t) w result later ?cp2 of
              Inr (t', cp3) \<Rightarrow> (cp3, Inr (Some t'))
            | Inl e \<Rightarrow> report_failure t w (control_error_message e) later ?cp2))"
    by (simp add: run_once_def assms(1) Let_def)
  show ?thesis
  proof (cases "ct_status v = TqRunning \<and> ct_worker v = Some w")
    case True
    then have o: "owned_running_task ?cp2 (ct_id t) w = Inr v" using v by (simp add: owned_iff)
    show ?thesis
    proof (cases outcome)
      case (Inr result)
      then show ?thesis
        using assms(2) v o True id unfolding run
        by (auto simp: complete_task_def Let_def)
    next
      case (Inl msg)
      then show ?thesis
        using assms(2) v o True id unfolding run
        by (auto simp: report_failure_def fail_task_def give_back_def Let_def)
    qed
  next
    case False
    then obtain e where e: "owned_running_task ?cp2 (ct_id t) w = Inl e" "is_ownership_error e"
      using v by (cases "ct_status v = TqRunning")
        (auto simp: owned_running_task_def require_task_def get_task_def is_ownership_error_def)
    have "report_failure t w msg later ?cp2 = (?cp2, Inr (Some v))" for msg
      using e v by (simp add: report_failure_def fail_task_def get_task_def)
    then show ?thesis
      using assms(2) v e False unfolding run
      by (cases outcome) (auto simp: complete_task_def)
  qed
qed

text \<open>
  A torn write loses the next move: after a crash in the middle of an append the restarted plane
  is intact, but the first move it records afterwards is glued to the torn line. A task completed
  then is reported as succeeded, and after the next restart is running again.
\<close>

theorem torn_write_loses_completion:
  fixes ops :: "control_op list" and m :: int
  defines "cp \<equiv> fold control_step ops (load_plane m new_file)"
  defines "n \<equiv> int (cp_max_events cp)"
  assumes "complete_task i w result now (load_plane n (jsonl_torn_append (cp_file cp))) = Inr (t, cp')"
  shows "ct_status t = TqSucceeded \<and> jm_get (cp_tasks cp') i = Some t \<and>
    cp_tasks (load_plane n (cp_file cp')) = cp_tasks cp \<and>
    map_option ct_status (jm_get (cp_tasks cp) i) = Some TqRunning"
proof -
  have ok: "plane_ok cp" using reachable_plane_ok [of ops m] by (simp add: cp_def)
  then have tail: "\<not> jf_open_tail (cp_file cp)" and ld: "load_plane n (cp_file cp) = cp"
    and k: "plane_keys cp" by (simp_all add: plane_ok_def n_def)
  have same: "cp_tasks (load_plane n f) = cp_tasks cp" if "parsed_lines (jf_lines f) = parsed_lines (jf_lines (cp_file cp))" for f
    using that ld load_tasks by metis
  let ?f = "jsonl_torn_append (cp_file cp)"
  have f: "cp_file (load_plane n ?f) = ?f" "parsed_lines (jf_lines ?f) = parsed_lines (jf_lines (cp_file cp))"
    using tail by (simp_all add: load_plane_def fold_load_frame Let_def jsonl_torn_append_def)
  from assms(3) obtain v where v: "owned_running_task (load_plane n ?f) i w = Inr v"
    and t: "t = v\<lparr>ct_status := TqSucceeded, ct_result := Some result, ct_lease := None, ct_error := None,
      ct_updated := now\<rparr>" and cp': "cp' = record_task CeCompleted t now (load_plane n ?f)"
    by (auto simp: complete_task_def Let_def split: sum.splits)
  have g: "jm_get (cp_tasks cp) i = Some v" "ct_status v = TqRunning"
    using v same [OF f(2)] by (simp_all add: owned_iff)
  have "parsed_lines (jf_lines (cp_file cp')) = parsed_lines (jf_lines (cp_file cp))"
  proof -
    obtain e where "cp_file cp' = jsonl_append e ?f"
      by (simp add: cp' record_task_def Let_def f(1))
    then show ?thesis using tail by (simp add: jsonl_append_def jsonl_torn_append_def)
  qed
  from same [OF this] g plane_keysD [OF k g(1)] show ?thesis by (simp add: t cp')
qed

theorem worker_reports_stored_task_witness:
  "\<exists>u. snd (run_once ''w'' (Some 1000) 20 [CRecover 5000, CClaim ''v'' (Some 1000) 5000] (Inr \<lparr>cr_summary = None,
      cr_output = None, cr_changed_files = None, cr_artifacts = None, cr_metadata = None\<rparr>) 5001
      (fold control_step two_jobs (load_plane 10 new_file))) = Inr (Some u) \<and> ct_id u = ''b'' \<and>
    ct_status u = TqRunning \<and> ct_worker u = Some ''v''"
proof -
  let ?cp = "fold control_step two_jobs (load_plane 10 new_file)"
  let ?ops = "[CRecover 5000, CClaim ''v'' (Some 1000) 5000]"
  obtain t cp1 where c: "claim_task ''w'' (Some 1000) 20 ?cp = (cp1, Inr (Some t))" and b: "ct_id t = ''b''"
    using two_jobs_claimed by (auto split: prod.splits sum.splits option.splits)
  let ?out = "Inr \<lparr>cr_summary = None, cr_output = None, cr_changed_files = None, cr_artifacts = None,
    cr_metadata = None\<rparr> :: string + control_result"
  obtain cp' r where run: "run_once ''w'' (Some 1000) 20 ?ops ?out 5001 ?cp = (cp', r)" by fastforce
  have "case jm_get (cp_tasks (fold control_step ?ops (fst (claim_task ''w'' (Some 1000) 20 ?cp)))) ''b'' of
      Some v \<Rightarrow> ct_status v = TqRunning \<and> ct_worker v = Some ''v'' \<and> ct_id v = ''b'' | None \<Rightarrow> False"
    by code_simp
  with c have v: "case jm_get (cp_tasks (fold control_step ?ops cp1)) ''b'' of
      Some v \<Rightarrow> ct_status v = TqRunning \<and> ct_worker v = Some ''v'' \<and> ct_id v = ''b'' | None \<Rightarrow> False" by simp
  from worker_reports_stored_task [OF c run] b v run show ?thesis
    by (auto split: option.splits)
qed

definition started_job :: "control_op list" where
  "started_job = [CEnqueue ''/'' ''a'' (job 1) 0, CClaim ''w'' (Some 5000) 1]"

definition empty_result :: control_result where
  "empty_result = \<lparr>cr_summary = None, cr_output = None, cr_changed_files = None, cr_artifacts = None,
    cr_metadata = None\<rparr>"

theorem torn_write_loses_completion_witness:
  "\<exists>cp'. complete_task ''a'' ''w'' empty_result 7
      (load_plane 10 (jsonl_torn_append (cp_file (fold control_step started_job (load_plane 10 new_file))))) = Inr cp' \<and>
    cp_tasks (load_plane 10 (cp_file (snd cp'))) = cp_tasks (fold control_step started_job (load_plane 10 new_file))"
proof -
  let ?cp = "fold control_step started_job (load_plane 10 new_file)"
  have n: "int (cp_max_events ?cp) = 10" by code_simp
  have "case complete_task ''a'' ''w'' empty_result 7 (load_plane 10 (jsonl_torn_append (cp_file ?cp))) of
      Inr _ \<Rightarrow> True | Inl _ \<Rightarrow> False" by code_simp
  then obtain t cp' where c: "complete_task ''a'' ''w'' empty_result 7
      (load_plane (int (cp_max_events ?cp)) (jsonl_torn_append (cp_file ?cp))) = Inr (t, cp')"
    unfolding n by (auto split: sum.splits)
  from torn_write_loses_completion [OF c] show ?thesis
    using c unfolding n by auto
qed

end
