(* ===== verification/TaskGraph.thy ===== *)
theory TaskGraph
  imports Prelude "HOL-Library.Multiset"
begin

text \<open>
  The task decomposition graph: \<open>src/src/core/runtime/taskGraph.ts\<close>.

  Nodes sit in an insertion-ordered map. Every method is a function from the graph to an error or
  the new graph; the calls of the two sinks (the event sink and the node transition sink) are
  recorded in the state when a sink is set. JSON text is not modelled: \<open>serialize\<close> yields the
  list of nodes that is written, \<open>restore\<close> takes the list that was parsed. Nodes are values:
  a caller that mutates the object returned by \<open>get\<close> or \<open>list\<close> is not modelled.
\<close>

section \<open>Data\<close>

datatype node_status = Pending | Ready | Running | Blocked | Verifying | Completed | Failed | Cancelled

record retry_policy =
  rp_max_attempts :: nat
  rp_cooldown_ms :: "nat option"

datatype impact_scope = Local | Module | CrossModule | Repository

record task_impact =
  ti_scope :: impact_scope
  ti_public_interface :: bool
  ti_configuration :: bool
  ti_root_cause :: bool
  ti_estimated_files :: int

datatype node_criterion_status = CsUnknown | CsSatisfied | CsFailed

datatype evidence_type = EtTest | EtCommand | EtFileChange | EtReview | EtUser | EtManual

record node_evidence =
  ne_criterion :: string
  ne_status :: node_criterion_status
  ne_type :: evidence_type
  ne_ref :: "string option"
  ne_recorded_at :: nat

record task_node =
  tn_id :: string
  tn_title :: string
  tn_description :: string
  tn_status :: node_status
  tn_dependencies :: "string list"
  tn_criteria :: "string list"
  tn_role :: "string option"
  tn_model_profile :: "string option"
  tn_claims :: "string list option"
  tn_retry :: "retry_policy option"
  tn_artifacts :: "string list"
  tn_attempts :: nat
  tn_block_reason :: "string option"
  tn_fail_reason :: "string option"
  tn_impact :: "task_impact option"
  tn_evidence :: "node_evidence list option"

definition node_terminal :: "node_status \<Rightarrow> bool" where
  "node_terminal s \<longleftrightarrow> s \<in> {Completed, Failed, Cancelled}"

datatype graph_event =
    NodeAdded string string
  | NodeStarted string
  | NodeVerifying string
  | NodeCompleted string "string list"
  | NodeFailed string string
  | NodeBlocked string string
  | NodeUnblocked string
  | NodeRetried string
  | NodeCancelled string string
  | ArtifactAttached string string

datatype node_transition = TStarted | TVerifying | TCompleted | TFailed | TBlocked | TCancelled | TUnblocked

record task_graph =
  tg_nodes :: "(string, task_node) jsmap"
  tg_run_id :: string
  tg_sink :: bool
  tg_transition_sink :: bool
  tg_events :: "(string \<times> graph_event) list"
  tg_transitions :: "node_transition list"

datatype graph_error =
    DuplicateNode string
  | SelfDependency string
  | DependencyCycle string
  | UnknownNode string
  | CannotStart string node_status
  | DependenciesOpen string
  | InvalidMove string node_status node_status
  | NotBlocked string node_status
  | NotRetryable string node_status

text \<open>The argument of \<open>addNode\<close>: a node whose four optional fields may be absent.\<close>

record node_input =
  ni_node :: task_node
  ni_status :: "node_status option"
  ni_artifacts :: "string list option"
  ni_attempts :: "nat option"
  ni_criteria :: "string list option"

definition empty_graph :: task_graph where
  "empty_graph = \<lparr>tg_nodes = [], tg_run_id = ''default'', tg_sink = False, tg_transition_sink = False,
     tg_events = [], tg_transitions = []\<rparr>"

section \<open>Emitting\<close>

definition transition_of_event :: "graph_event \<Rightarrow> node_transition option" where
  "transition_of_event e = (case e of
      NodeStarted _ \<Rightarrow> Some TStarted
    | NodeVerifying _ \<Rightarrow> Some TVerifying
    | NodeCompleted _ _ \<Rightarrow> Some TCompleted
    | NodeFailed _ _ \<Rightarrow> Some TFailed
    | NodeBlocked _ _ \<Rightarrow> Some TBlocked
    | _ \<Rightarrow> None)"

definition notify_transition :: "node_transition \<Rightarrow> task_graph \<Rightarrow> task_graph" where
  "notify_transition t g =
     (if tg_transition_sink g then g\<lparr>tg_transitions := tg_transitions g @ [t]\<rparr> else g)"

definition emit_event :: "graph_event \<Rightarrow> task_graph \<Rightarrow> task_graph" where
  "emit_event e g =
     (let g1 = (if tg_sink g then g\<lparr>tg_events := tg_events g @ [(tg_run_id g, e)]\<rparr> else g)
      in case transition_of_event e of None \<Rightarrow> g1 | Some t \<Rightarrow> notify_transition t g1)"

definition set_run_id :: "string \<Rightarrow> task_graph \<Rightarrow> task_graph" where
  "set_run_id r g = g\<lparr>tg_run_id := r\<rparr>"

definition set_event_sink :: "bool \<Rightarrow> task_graph \<Rightarrow> task_graph" where
  "set_event_sink b g = g\<lparr>tg_sink := b\<rparr>"

definition set_node_transition_sink :: "bool \<Rightarrow> task_graph \<Rightarrow> task_graph" where
  "set_node_transition_sink b g = g\<lparr>tg_transition_sink := b\<rparr>"

section \<open>Lookups and the table\<close>

definition has_node :: "task_graph \<Rightarrow> string \<Rightarrow> bool" where
  "has_node g i = jm_has (tg_nodes g) i"

definition list_nodes :: "task_graph \<Rightarrow> task_node list" where
  "list_nodes g = jm_values (tg_nodes g)"

definition graph_size :: "task_graph \<Rightarrow> nat" where
  "graph_size g = length (tg_nodes g)"

definition require_node :: "string \<Rightarrow> task_graph \<Rightarrow> graph_error + task_node" where
  "require_node i g = (case jm_get (tg_nodes g) i of None \<Rightarrow> Inl (UnknownNode i) | Some n \<Rightarrow> Inr n)"

definition node_moves :: "node_status \<Rightarrow> node_status list" where
  "node_moves s = (case s of
      Pending \<Rightarrow> [Ready, Running, Failed, Blocked, Cancelled]
    | Ready \<Rightarrow> [Running, Failed, Blocked, Cancelled]
    | Running \<Rightarrow> [Verifying, Completed, Failed, Blocked, Cancelled]
    | Verifying \<Rightarrow> [Completed, Failed, Blocked, Cancelled]
    | Blocked \<Rightarrow> [Pending, Cancelled]
    | Failed \<Rightarrow> [Pending, Blocked, Cancelled]
    | Completed \<Rightarrow> []
    | Cancelled \<Rightarrow> [])"

definition node_can_move :: "node_status \<Rightarrow> node_status \<Rightarrow> bool" where
  "node_can_move s t \<longleftrightarrow> t \<in> set (node_moves s)"

definition dep_completed :: "(string, task_node) jsmap \<Rightarrow> string \<Rightarrow> bool" where
  "dep_completed nodes d =
     (case jm_get nodes d of None \<Rightarrow> False | Some m \<Rightarrow> tn_status m = Completed)"

definition deps_completed :: "task_graph \<Rightarrow> task_node \<Rightarrow> bool" where
  "deps_completed g n = list_all (dep_completed (tg_nodes g)) (tn_dependencies n)"

text \<open>Assigning to the fields of a node found in the map.\<close>

definition put_node :: "task_node \<Rightarrow> task_graph \<Rightarrow> task_graph" where
  "put_node n g = g\<lparr>tg_nodes := jm_set (tn_id n) n (tg_nodes g)\<rparr>"

section \<open>Cycle check\<close>

definition unvisited :: "(string, task_node) jsmap \<Rightarrow> string list \<Rightarrow> nat" where
  "unvisited nodes visited = length (filter (\<lambda>k. k \<notin> set visited) (jm_keys nodes))"

lemma unvisited_le: "unvisited nodes (c # visited) \<le> unvisited nodes visited"
  unfolding unvisited_def by (induction nodes) auto

lemma unvisited_less:
  "jm_get nodes c = Some n \<Longrightarrow> c \<notin> set visited \<Longrightarrow> unvisited nodes (c # visited) < unvisited nodes visited"
proof (induction nodes)
  case (Cons p nodes)
  have "unvisited nodes (c # visited) \<le> unvisited nodes visited" by (rule unvisited_le)
  with Cons show ?case by (cases p) (auto simp: unvisited_def split: if_splits)
qed simp

function reaches_id ::
  "(string, task_node) jsmap \<Rightarrow> string \<Rightarrow> string list \<Rightarrow> string list \<Rightarrow> bool" where
  "reaches_id nodes i visited [] = False"
| "reaches_id nodes i visited (cur # stack) =
     (if cur = i then True
      else if cur \<in> set visited then reaches_id nodes i visited stack
      else (case jm_get nodes cur of
              None \<Rightarrow> reaches_id nodes i (cur # visited) stack
            | Some n \<Rightarrow> reaches_id nodes i (cur # visited) (rev (tn_dependencies n) @ stack)))"
  by pat_completeness auto

termination
proof (relation "measures [\<lambda>(nodes, i, visited, stack). unvisited nodes visited,
    \<lambda>(nodes, i, visited, stack). length stack]", goal_cases)
  case (3 nodes i visited cur stack)
  then show ?case using unvisited_le [of nodes cur visited] by (auto simp: le_less)
next
  case (4 nodes i visited cur stack n)
  then show ?case using unvisited_less [of nodes cur n visited] by simp
qed simp_all

definition would_create_cycle :: "(string, task_node) jsmap \<Rightarrow> string \<Rightarrow> bool" where
  "would_create_cycle nodes i =
     reaches_id nodes i [] (case jm_get nodes i of None \<Rightarrow> [] | Some n \<Rightarrow> rev (tn_dependencies n))"

section \<open>Operations\<close>

definition full_node :: "node_input \<Rightarrow> task_node" where
  "full_node ni = (ni_node ni)\<lparr>tn_status := default_to (ni_status ni) Pending,
     tn_artifacts := default_to (ni_artifacts ni) [],
     tn_attempts := default_to (ni_attempts ni) 0,
     tn_criteria := default_to (ni_criteria ni) []\<rparr>"

definition add_node :: "node_input \<Rightarrow> task_graph \<Rightarrow> graph_error + (task_node \<times> task_graph)" where
  "add_node ni g =
     (let n = ni_node ni; i = tn_id n
      in if has_node g i then Inl (DuplicateNode i)
         else if List.member (tn_dependencies n) i then Inl (SelfDependency i)
         else let full = full_node ni; nodes = jm_set i full (tg_nodes g)
           in if would_create_cycle nodes i then Inl (DependencyCycle i)
              else Inr (full, emit_event (NodeAdded i (tn_title full)) (g\<lparr>tg_nodes := nodes\<rparr>)))"

definition ready_nodes :: "task_graph \<Rightarrow> task_node list" where
  "ready_nodes g = filter (\<lambda>n. tn_status n = Pending \<and> deps_completed g n) (list_nodes g)"

definition node_claims :: "task_node \<Rightarrow> string list" where
  "node_claims n = default_to (tn_claims n) []"

definition shares_claim :: "task_node \<Rightarrow> task_node \<Rightarrow> bool" where
  "shares_claim n m = list_ex (\<lambda>c. c \<in> set (node_claims n)) (node_claims m)"

fun place_in_group :: "task_node \<Rightarrow> task_node list list \<Rightarrow> task_node list list" where
  "place_in_group n [] = [[n]]"
| "place_in_group n (g # gs) =
     (if \<not> list_ex (shares_claim n) g then (g @ [n]) # gs else g # place_in_group n gs)"

definition parallel_groups :: "task_graph \<Rightarrow> task_node list list" where
  "parallel_groups g = fold place_in_group (ready_nodes g) []"

definition start_node :: "string \<Rightarrow> task_graph \<Rightarrow> graph_error + task_graph" where
  "start_node i g = (case require_node i g of
      Inl e \<Rightarrow> Inl e
    | Inr n \<Rightarrow>
        if tn_status n \<noteq> Pending \<and> tn_status n \<noteq> Ready then Inl (CannotStart i (tn_status n))
        else if \<not> deps_completed g n then Inl (DependenciesOpen i)
        else Inr (emit_event (NodeStarted i)
               (put_node (n\<lparr>tn_status := Running, tn_attempts := Suc (tn_attempts n)\<rparr>) g)))"

definition checked_move ::
  "string \<Rightarrow> node_status \<Rightarrow> (task_node \<Rightarrow> task_graph) \<Rightarrow> task_graph \<Rightarrow> graph_error + task_graph" where
  "checked_move i t f g = (case require_node i g of
      Inl e \<Rightarrow> Inl e
    | Inr n \<Rightarrow> if node_can_move (tn_status n) t then Inr (f n) else Inl (InvalidMove i (tn_status n) t))"

definition mark_verifying :: "string \<Rightarrow> task_graph \<Rightarrow> graph_error + task_graph" where
  "mark_verifying i g = checked_move i Verifying
     (\<lambda>n. emit_event (NodeVerifying i) (put_node (n\<lparr>tn_status := Verifying\<rparr>) g)) g"

definition unmet_criteria :: "task_node \<Rightarrow> string list \<Rightarrow> string list" where
  "unmet_criteria n satisfied = filter (\<lambda>c. c \<notin> set satisfied) (tn_criteria n)"

definition complete_node ::
  "string \<Rightarrow> string list option \<Rightarrow> string list \<Rightarrow> task_graph \<Rightarrow> graph_error + task_graph" where
  "complete_node i satisfied arts g = checked_move i Completed
     (\<lambda>n. let unmet = (case satisfied of None \<Rightarrow> [] | Some cs \<Rightarrow> unmet_criteria n cs)
          in if unmet \<noteq> []
             then let reason = ''acceptance criteria unmet: '' @ join_with '', '' unmet
               in emit_event (NodeFailed i reason)
                    (put_node (n\<lparr>tn_status := Failed, tn_fail_reason := Some reason\<rparr>) g)
             else emit_event (NodeCompleted i (default_to satisfied []))
                    (put_node (n\<lparr>tn_status := Completed, tn_artifacts := tn_artifacts n @ arts\<rparr>) g)) g"

definition latest_evidence :: "node_evidence list \<Rightarrow> (string, node_evidence) jsmap" where
  "latest_evidence es = fold (\<lambda>e. jm_set (ne_criterion e) e) es []"

definition record_evidence ::
  "string \<Rightarrow> node_evidence \<Rightarrow> task_graph \<Rightarrow> graph_error + (bool \<times> task_graph)" where
  "record_evidence i e g = (case require_node i g of
      Inl err \<Rightarrow> Inl err
    | Inr n \<Rightarrow>
        let es = default_to (tn_evidence n) [] @ [e]
        in Inr (\<not> list_ex (\<lambda>x. ne_status x = CsFailed) (jm_values (latest_evidence es)),
                put_node (n\<lparr>tn_evidence := Some es\<rparr>) g))"

definition satisfied_evidence_count :: "string \<Rightarrow> task_graph \<Rightarrow> graph_error + nat" where
  "satisfied_evidence_count i g = (case require_node i g of
      Inl err \<Rightarrow> Inl err
    | Inr n \<Rightarrow> (case tn_evidence n of
        None \<Rightarrow> Inr 0
      | Some es \<Rightarrow>
          Inr (length (filter (\<lambda>x. ne_status x = CsSatisfied) (jm_values (latest_evidence es))))))"

definition fail_node :: "string \<Rightarrow> string \<Rightarrow> task_graph \<Rightarrow> graph_error + task_graph" where
  "fail_node i reason g = checked_move i Failed
     (\<lambda>n. emit_event (NodeFailed i reason)
            (put_node (n\<lparr>tn_status := Failed, tn_fail_reason := Some reason\<rparr>) g)) g"

definition block_node :: "string \<Rightarrow> string \<Rightarrow> task_graph \<Rightarrow> graph_error + task_graph" where
  "block_node i reason g = checked_move i Blocked
     (\<lambda>n. emit_event (NodeBlocked i reason)
            (put_node (n\<lparr>tn_status := Blocked, tn_block_reason := Some reason\<rparr>) g)) g"

definition unblock_node :: "string \<Rightarrow> task_graph \<Rightarrow> graph_error + task_graph" where
  "unblock_node i g = (case require_node i g of
      Inl e \<Rightarrow> Inl e
    | Inr n \<Rightarrow>
        if tn_status n \<noteq> Blocked then Inl (NotBlocked i (tn_status n))
        else Inr (notify_transition TUnblocked (emit_event (NodeUnblocked i)
               (put_node (n\<lparr>tn_status := (if deps_completed g n then Ready else Pending),
                           tn_block_reason := None\<rparr>) g))))"

definition attach_artifact :: "string \<Rightarrow> string \<Rightarrow> task_graph \<Rightarrow> graph_error + task_graph" where
  "attach_artifact i a g = (case require_node i g of
      Inl e \<Rightarrow> Inl e
    | Inr n \<Rightarrow> Inr (emit_event (ArtifactAttached i a)
        (put_node (if a \<in> set (tn_artifacts n) then n
                   else n\<lparr>tn_artifacts := tn_artifacts n @ [a]\<rparr>) g)))"

definition max_attempts :: "task_node \<Rightarrow> nat" where
  "max_attempts n = (case tn_retry n of None \<Rightarrow> 1 | Some p \<Rightarrow> rp_max_attempts p)"

definition exhausted_reason :: "task_node \<Rightarrow> string" where
  "exhausted_reason n = ''exhausted '' @ show_nat (max_attempts n) @ '' attempt(s): '' @
     default_to (or_else (tn_fail_reason n) (tn_block_reason n)) []"

definition retry_node :: "string \<Rightarrow> task_graph \<Rightarrow> graph_error + task_graph" where
  "retry_node i g = (case require_node i g of
      Inl e \<Rightarrow> Inl e
    | Inr n \<Rightarrow>
        if tn_status n \<noteq> Failed \<and> tn_status n \<noteq> Blocked then Inl (NotRetryable i (tn_status n))
        else if tn_attempts n \<ge> max_attempts n
        then Inr (put_node (n\<lparr>tn_status := Blocked, tn_block_reason := Some (exhausted_reason n)\<rparr>) g)
        else Inr (emit_event (NodeRetried i)
               (put_node (n\<lparr>tn_status := Pending, tn_fail_reason := None, tn_block_reason := None\<rparr>) g)))"

text \<open>An empty reason string is falsy, as an absent one.\<close>

definition cancel_node :: "string \<Rightarrow> string option \<Rightarrow> task_graph \<Rightarrow> graph_error + task_graph" where
  "cancel_node i reason g = checked_move i Cancelled
     (\<lambda>n. emit_event (NodeCancelled i (default_to reason ''cancelled''))
            (put_node (n\<lparr>tn_status := Cancelled,
               tn_fail_reason := (if default_to reason [] \<noteq> [] then reason else tn_fail_reason n)\<rparr>) g)) g"

definition is_done :: "task_graph \<Rightarrow> bool" where
  "is_done g \<longleftrightarrow> 0 < graph_size g \<and> list_all (\<lambda>n. node_terminal (tn_status n)) (list_nodes g)"

definition has_unfinished :: "task_graph \<Rightarrow> bool" where
  "has_unfinished g = list_ex (\<lambda>n. \<not> node_terminal (tn_status n)) (list_nodes g)"

definition has_hard_failures :: "task_graph \<Rightarrow> bool" where
  "has_hard_failures g =
     list_ex (\<lambda>n. tn_status n = Failed \<or> tn_status n = Blocked) (list_nodes g)"

definition reset_graph :: "task_graph \<Rightarrow> task_graph" where
  "reset_graph g = g\<lparr>tg_nodes := []\<rparr>"

definition serialize_graph :: "task_graph \<Rightarrow> task_node list" where
  "serialize_graph g = jm_values (tg_nodes g)"

definition restore_graph :: "task_node list \<Rightarrow> task_graph" where
  "restore_graph ns = empty_graph\<lparr>tg_nodes := fold (\<lambda>n. jm_set (tn_id n) n) ns []\<rparr>"

section \<open>Summary and impact\<close>

record graph_counts =
  gc_total :: nat
  gc_completed :: nat
  gc_failed :: nat
  gc_blocked :: nat
  gc_running :: nat
  gc_ready :: nat
  gc_pending :: nat
  gc_verifying :: nat
  gc_cancelled :: nat

definition zero_counts :: graph_counts where
  "zero_counts = \<lparr>gc_total = 0, gc_completed = 0, gc_failed = 0, gc_blocked = 0, gc_running = 0,
     gc_ready = 0, gc_pending = 0, gc_verifying = 0, gc_cancelled = 0\<rparr>"

definition count_node :: "task_graph \<Rightarrow> task_node \<Rightarrow> graph_counts \<Rightarrow> graph_counts" where
  "count_node g n c0 =
     (let c = c0\<lparr>gc_total := Suc (gc_total c0)\<rparr>
      in case tn_status n of
        Completed \<Rightarrow> c\<lparr>gc_completed := Suc (gc_completed c)\<rparr>
      | Failed \<Rightarrow> c\<lparr>gc_failed := Suc (gc_failed c)\<rparr>
      | Blocked \<Rightarrow> c\<lparr>gc_blocked := Suc (gc_blocked c)\<rparr>
      | Running \<Rightarrow> c\<lparr>gc_running := Suc (gc_running c)\<rparr>
      | Verifying \<Rightarrow> c\<lparr>gc_verifying := Suc (gc_verifying c)\<rparr>
      | Cancelled \<Rightarrow> c\<lparr>gc_cancelled := Suc (gc_cancelled c)\<rparr>
      | Pending \<Rightarrow> if deps_completed g n then c\<lparr>gc_ready := Suc (gc_ready c)\<rparr>
                   else c\<lparr>gc_pending := Suc (gc_pending c)\<rparr>
      | Ready \<Rightarrow> c)"

definition graph_counts_of :: "task_graph \<Rightarrow> graph_counts" where
  "graph_counts_of g = fold (count_node g) (list_nodes g) zero_counts"

definition counts_done :: "graph_counts \<Rightarrow> bool" where
  "counts_done c \<longleftrightarrow> 0 < gc_total c \<and> gc_completed c + gc_failed c + gc_cancelled c = gc_total c"

definition snapshot_graph :: "task_graph \<Rightarrow> task_node list \<times> graph_counts \<times> bool" where
  "snapshot_graph g = (list_nodes g, graph_counts_of g, counts_done (graph_counts_of g))"

record graph_impact =
  gi_config :: bool
  gi_cross_module :: bool
  gi_public_interface :: bool
  gi_root_cause :: bool
  gi_max_scope :: "impact_scope option"
  gi_estimated_files :: int

definition scope_rank :: "impact_scope \<Rightarrow> int" where
  "scope_rank s = (case s of Local \<Rightarrow> 0 | Module \<Rightarrow> 1 | CrossModule \<Rightarrow> 2 | Repository \<Rightarrow> 3)"

definition rank_of_max :: "impact_scope option \<Rightarrow> int" where
  "rank_of_max m = (case m of None \<Rightarrow> - 1 | Some s \<Rightarrow> scope_rank s)"

definition add_impact :: "task_node \<Rightarrow> graph_impact \<Rightarrow> graph_impact" where
  "add_impact n a = (case tn_impact n of
      None \<Rightarrow> a
    | Some i \<Rightarrow> \<lparr>gi_config = gi_config a \<or> ti_configuration i,
        gi_cross_module = gi_cross_module a \<or> ti_scope i = CrossModule \<or> ti_scope i = Repository,
        gi_public_interface = gi_public_interface a \<or> ti_public_interface i,
        gi_root_cause = gi_root_cause a \<or> ti_root_cause i,
        gi_max_scope = (if scope_rank (ti_scope i) > rank_of_max (gi_max_scope a)
                        then Some (ti_scope i) else gi_max_scope a),
        gi_estimated_files = gi_estimated_files a +
          (if ti_estimated_files i > 0 then ti_estimated_files i else 0)\<rparr>)"

definition aggregate_impact :: "task_graph \<Rightarrow> graph_impact option" where
  "aggregate_impact g =
     (if list_nodes g = [] then None
      else Some (fold add_impact (list_nodes g)
        \<lparr>gi_config = False, gi_cross_module = False, gi_public_interface = False,
         gi_root_cause = False, gi_max_scope = None, gi_estimated_files = 0\<rparr>))"

section \<open>Operations as steps\<close>

datatype graph_op =
    GAdd node_input
  | GStart string
  | GVerifying string
  | GComplete string "string list option" "string list"
  | GEvidence string node_evidence
  | GFail string string
  | GBlock string string
  | GUnblock string
  | GArtifact string string
  | GRetry string
  | GCancel string "string option"
  | GReset
  | GRunId string
  | GSink bool
  | GTransitionSink bool

definition on_success :: "task_graph \<Rightarrow> graph_error + task_graph \<Rightarrow> task_graph" where
  "on_success g r = (case r of Inl e \<Rightarrow> g | Inr g' \<Rightarrow> g')"

fun graph_step :: "graph_op \<Rightarrow> task_graph \<Rightarrow> task_graph" where
  "graph_step (GAdd ni) g = on_success g (map_sum id snd (add_node ni g))"
| "graph_step (GStart i) g = on_success g (start_node i g)"
| "graph_step (GVerifying i) g = on_success g (mark_verifying i g)"
| "graph_step (GComplete i cs arts) g = on_success g (complete_node i cs arts g)"
| "graph_step (GEvidence i e) g = on_success g (map_sum id snd (record_evidence i e g))"
| "graph_step (GFail i r) g = on_success g (fail_node i r g)"
| "graph_step (GBlock i r) g = on_success g (block_node i r g)"
| "graph_step (GUnblock i) g = on_success g (unblock_node i g)"
| "graph_step (GArtifact i a) g = on_success g (attach_artifact i a g)"
| "graph_step (GRetry i) g = on_success g (retry_node i g)"
| "graph_step (GCancel i r) g = on_success g (cancel_node i r g)"
| "graph_step GReset g = reset_graph g"
| "graph_step (GRunId r) g = set_run_id r g"
| "graph_step (GSink b) g = set_event_sink b g"
| "graph_step (GTransitionSink b) g = set_node_transition_sink b g"

section \<open>The cycle check is exact\<close>

definition dep_edges :: "(string, task_node) jsmap \<Rightarrow> (string \<times> string) set" where
  "dep_edges nodes = {(a, b). \<exists>n. jm_get nodes a = Some n \<and> b \<in> set (tn_dependencies n)}"

lemma reaches_sound:
  "reaches_id nodes i visited stack \<Longrightarrow> \<exists>s\<in>set stack. (s, i) \<in> (dep_edges nodes)\<^sup>*"
proof (induction nodes i visited stack rule: reaches_id.induct)
  case (2 nodes i visited cur stack)
  consider "cur = i" | "cur \<noteq> i" "cur \<in> set visited"
    | "cur \<noteq> i" "cur \<notin> set visited" "jm_get nodes cur = None"
    | n where "cur \<noteq> i" "cur \<notin> set visited" "jm_get nodes cur = Some n"
    by (cases "jm_get nodes cur") auto
  then show ?case
  proof cases
    case (4 n)
    with 2 obtain s where "s \<in> set (tn_dependencies n) \<union> set stack" "(s, i) \<in> (dep_edges nodes)\<^sup>*"
      by auto
    moreover have "(cur, s) \<in> dep_edges nodes" if "s \<in> set (tn_dependencies n)"
      using 4 that by (simp add: dep_edges_def)
    ultimately show ?thesis by (auto intro: converse_rtrancl_into_rtrancl)
  qed (use 2 in auto)
qed simp

text \<open>A negative answer leaves a set that is closed under the edges and misses the node.\<close>

definition edge_closed :: "(string, task_node) jsmap \<Rightarrow> string set \<Rightarrow> bool" where
  "edge_closed nodes V \<longleftrightarrow> (\<forall>v w. v \<in> V \<longrightarrow> (v, w) \<in> dep_edges nodes \<longrightarrow> w \<in> V)"

definition explored :: "(string, task_node) jsmap \<Rightarrow> string list \<Rightarrow> string list \<Rightarrow> bool" where
  "explored nodes visited stack \<longleftrightarrow>
     (\<forall>v w. v \<in> set visited \<longrightarrow> (v, w) \<in> dep_edges nodes \<longrightarrow> w \<in> set visited \<union> set stack)"

lemma reaches_complete:
  "\<not> reaches_id nodes i visited stack \<Longrightarrow> i \<notin> set visited \<Longrightarrow> explored nodes visited stack \<Longrightarrow>
     \<exists>V. set visited \<union> set stack \<subseteq> V \<and> i \<notin> V \<and> edge_closed nodes V"
proof (induction nodes i visited stack rule: reaches_id.induct)
  case (1 nodes i visited)
  then show ?case
    by (intro exI [of _ "set visited"]) (auto simp: explored_def edge_closed_def)
next
  case (2 nodes i visited cur stack)
  have ne: "cur \<noteq> i" using "2.prems"(1) by auto
  consider (seen) "cur \<in> set visited" | (leaf) "cur \<notin> set visited" "jm_get nodes cur = None"
    | (inner) n where "cur \<notin> set visited" "jm_get nodes cur = Some n"
    by (cases "jm_get nodes cur") auto
  then show ?case
  proof cases
    case seen
    have "explored nodes visited stack"
      using "2.prems"(3) seen unfolding explored_def by auto
    moreover have "\<not> reaches_id nodes i visited stack" using "2.prems"(1) ne seen by simp
    ultimately obtain V where "set visited \<union> set stack \<subseteq> V" "i \<notin> V" "edge_closed nodes V"
      using "2.IH"(1) [OF ne seen] "2.prems"(2) by blast
    with seen show ?thesis by (intro exI [of _ V]) auto
  next
    case leaf
    have "explored nodes (cur # visited) stack"
      using "2.prems"(3) leaf unfolding explored_def by (auto simp: dep_edges_def)
    moreover have "\<not> reaches_id nodes i (cur # visited) stack" using "2.prems"(1) ne leaf by simp
    moreover have "i \<notin> set (cur # visited)" using "2.prems"(2) ne by simp
    ultimately obtain V where "set (cur # visited) \<union> set stack \<subseteq> V" "i \<notin> V" "edge_closed nodes V"
      using "2.IH"(2) [OF ne leaf] by blast
    then show ?thesis by (intro exI [of _ V]) auto
  next
    case (inner n)
    let ?st = "rev (tn_dependencies n) @ stack"
    have "explored nodes (cur # visited) ?st"
      using "2.prems"(3) inner(2) unfolding explored_def by (auto simp: dep_edges_def)
    moreover have "\<not> reaches_id nodes i (cur # visited) ?st" using "2.prems"(1) ne inner by simp
    moreover have "i \<notin> set (cur # visited)" using "2.prems"(2) ne by simp
    ultimately obtain V where "set (cur # visited) \<union> set ?st \<subseteq> V" "i \<notin> V" "edge_closed nodes V"
      using "2.IH"(3) [OF ne inner] by blast
    then show ?thesis by (intro exI [of _ V]) auto
  qed
qed

lemma would_create_cycle_iff:
  assumes "jm_get nodes i = Some n"
  shows "would_create_cycle nodes i \<longleftrightarrow> (i, i) \<in> (dep_edges nodes)\<^sup>+"
proof
  assume "would_create_cycle nodes i"
  then obtain d where "d \<in> set (tn_dependencies n)" "(d, i) \<in> (dep_edges nodes)\<^sup>*"
    using reaches_sound assms by (fastforce simp: would_create_cycle_def)
  then show "(i, i) \<in> (dep_edges nodes)\<^sup>+"
    using assms by (intro rtrancl_into_trancl2 [of i d]) (auto simp: dep_edges_def)
next
  assume cycle: "(i, i) \<in> (dep_edges nodes)\<^sup>+"
  then obtain d where d: "(i, d) \<in> dep_edges nodes" "(d, i) \<in> (dep_edges nodes)\<^sup>*"
    by (meson tranclD)
  show "would_create_cycle nodes i"
  proof (rule ccontr)
    assume "\<not> would_create_cycle nodes i"
    then obtain V where V: "set (tn_dependencies n) \<subseteq> V" "i \<notin> V"
      "edge_closed nodes V"
      using reaches_complete [of nodes i "[]" "rev (tn_dependencies n)"] assms
      by (auto simp: would_create_cycle_def explored_def)
    have "x \<in> V" if "(d, x) \<in> (dep_edges nodes)\<^sup>*" for x
      using that by (induction rule: rtrancl_induct) (use d(1) V assms in \<open>auto simp: dep_edges_def edge_closed_def\<close>)
    with d(2) V(2) show False by blast
  qed
qed

lemma trancl_new_source:
  assumes "(x, y) \<in> (E \<union> {i} \<times> D)\<^sup>+"
  shows "(x, y) \<in> E\<^sup>+ \<or> (x, i) \<in> (E \<union> {i} \<times> D)\<^sup>* \<and> (i, y) \<in> (E \<union> {i} \<times> D)\<^sup>+"
  using assms
proof (induction rule: trancl_induct)
  case (base y)
  then show ?case by auto
next
  case (step y z)
  show ?case
  proof (cases "(y, z) \<in> E")
    case True
    with step.IH step.hyps(2) show ?thesis by (meson trancl.trancl_into_trancl)
  next
    case False
    with step.hyps(2) have "y = i" "(i, z) \<in> (E \<union> {i} \<times> D)\<^sup>+" by auto
    with step.hyps(1) show ?thesis by (auto intro: trancl_into_rtrancl)
  qed
qed

lemma acyclic_new_source:
  assumes "acyclic E" and "(i, i) \<notin> (E \<union> {i} \<times> D)\<^sup>+"
  shows "acyclic (E \<union> {i} \<times> D)"
proof (rule acyclicI, rule allI)
  fix x
  show "(x, x) \<notin> (E \<union> {i} \<times> D)\<^sup>+"
  proof
    assume "(x, x) \<in> (E \<union> {i} \<times> D)\<^sup>+"
    from trancl_new_source [OF this] assms have "(i, i) \<in> (E \<union> {i} \<times> D)\<^sup>+"
      by (auto simp: acyclic_def dest: trancl_rtrancl_trancl)
    with assms(2) show False by blast
  qed
qed

lemma dep_edges_add:
  assumes "\<not> jm_has nodes i"
  shows "dep_edges (jm_set i n nodes) = dep_edges nodes \<union> {i} \<times> set (tn_dependencies n)"
  using assms by (auto simp: dep_edges_def split: if_splits)

section \<open>What an operation does to the nodes\<close>

definition node_change :: "task_graph \<Rightarrow> bool \<Rightarrow> task_node \<Rightarrow> task_node \<Rightarrow> bool" where
  "node_change g unblocking n n' \<longleftrightarrow>
     tn_id n' = tn_id n \<and> tn_dependencies n' = tn_dependencies n \<and> tn_retry n' = tn_retry n \<and>
     (tn_status n' = tn_status n \<and> tn_attempts n' = tn_attempts n \<or>
      tn_status n' = Running \<and> tn_status n \<in> {Pending, Ready} \<and> deps_completed g n \<and>
        tn_attempts n' = Suc (tn_attempts n) \<or>
      tn_attempts n' = tn_attempts n \<and> tn_status n' \<notin> {Pending, Ready, Running} \<and>
        node_can_move (tn_status n) (tn_status n') \<or>
      tn_attempts n' = tn_attempts n \<and> tn_status n' = Pending \<and> tn_status n \<in> {Failed, Blocked} \<and>
        tn_attempts n < max_attempts n \<or>
      unblocking \<and> tn_attempts n' = tn_attempts n \<and> tn_status n = Blocked \<and>
        (tn_status n' = Ready \<and> deps_completed g n \<or> tn_status n' = Pending))"

definition node_added :: "task_graph \<Rightarrow> node_input \<Rightarrow> task_graph \<Rightarrow> bool" where
  "node_added g ni g' \<longleftrightarrow> (let n = full_node ni in
     \<not> jm_has (tg_nodes g) (tn_id n) \<and> tn_id n \<notin> set (tn_dependencies n) \<and>
     tg_nodes g' = jm_set (tn_id n) n (tg_nodes g) \<and>
     (tn_id n, tn_id n) \<notin> (dep_edges (tg_nodes g'))\<^sup>+)"

lemma full_node_simps [simp]:
  "tn_id (full_node ni) = tn_id (ni_node ni)"
  "tn_dependencies (full_node ni) = tn_dependencies (ni_node ni)"
  "tn_status (full_node ni) = default_to (ni_status ni) Pending"
  "tn_attempts (full_node ni) = default_to (ni_attempts ni) 0"
  by (simp_all add: full_node_def)

definition graph_wf :: "task_graph \<Rightarrow> bool" where
  "graph_wf g \<longleftrightarrow> jm_wf (tg_nodes g) \<and> (\<forall>i n. jm_get (tg_nodes g) i = Some n \<longrightarrow> tn_id n = i)"

lemma emit_nodes [simp]:
  "tg_nodes (emit_event e g) = tg_nodes g" "tg_nodes (notify_transition t g) = tg_nodes g"
  "tg_nodes (put_node n g) = jm_set (tn_id n) n (tg_nodes g)"
  by (simp_all add: emit_event_def notify_transition_def put_node_def Let_def split: option.splits)

lemma require_Inr: "require_node i g = Inr n \<longleftrightarrow> jm_get (tg_nodes g) i = Some n"
  by (simp add: require_node_def split: option.splits)

lemma require_cases:
  obtains "require_node i g = Inl (UnknownNode i)" "jm_get (tg_nodes g) i = None"
  | n where "require_node i g = Inr n" "jm_get (tg_nodes g) i = Some n"
  by (cases "jm_get (tg_nodes g) i") (simp_all add: require_node_def)

lemmas graph_op_defs = start_node_def mark_verifying_def complete_node_def record_evidence_def
  fail_node_def block_node_def unblock_node_def attach_artifact_def retry_node_def cancel_node_def
  checked_move_def

text \<open>A node of the graph is replaced by a changed one.\<close>

definition node_replaced :: "task_graph \<Rightarrow> bool \<Rightarrow> task_graph \<Rightarrow> bool" where
  "node_replaced g unblocking g' \<longleftrightarrow> (\<exists>i n n'. jm_get (tg_nodes g) i = Some n \<and>
     tg_nodes g' = jm_set (tn_id n') n' (tg_nodes g) \<and> node_change g unblocking n n')"

lemma replaced_put:
  assumes "jm_get (tg_nodes g) i = Some n" and "node_change g ub n n'"
  shows "node_replaced g ub (put_node n' g)" "node_replaced g ub (emit_event e (put_node n' g))"
    "node_replaced g ub (notify_transition t (emit_event e (put_node n' g)))"
  using assms by (auto simp: node_replaced_def)

lemma required_replaced:
  assumes "(case require_node i g of Inl e \<Rightarrow> Inl e | Inr n \<Rightarrow> f n) = Inr r"
    and "\<And>n. jm_get (tg_nodes g) i = Some n \<Longrightarrow> f n = Inr r \<Longrightarrow> P"
  shows P
  using assms by (rule_tac require_cases [of i g]) auto

lemma checked_replaced:
  assumes "checked_move i t f g = Inr g'"
    and "\<And>n. jm_get (tg_nodes g) i = Some n \<Longrightarrow> node_can_move (tn_status n) t \<Longrightarrow> node_replaced g ub (f n)"
  shows "node_replaced g ub g'"
  using assms by (auto simp: checked_move_def elim!: required_replaced split: if_splits)

lemma start_replaced: "start_node i g = Inr g' \<Longrightarrow> node_replaced g False g'"
  unfolding start_node_def
  by (erule required_replaced, auto split: if_splits; erule replaced_put; simp add: node_change_def)

lemma move_replaced:
  "mark_verifying i g = Inr g' \<Longrightarrow> node_replaced g False g'"
  "fail_node i r g = Inr g' \<Longrightarrow> node_replaced g False g'"
  "block_node i r g = Inr g' \<Longrightarrow> node_replaced g False g'"
  "cancel_node i reason g = Inr g' \<Longrightarrow> node_replaced g False g'"
  unfolding mark_verifying_def fail_node_def block_node_def cancel_node_def
  by (erule checked_replaced, erule replaced_put, simp add: node_change_def)+

lemma can_complete_can_fail: "node_can_move s Completed \<Longrightarrow> node_can_move s Failed"
  by (cases s) (simp_all add: node_can_move_def node_moves_def)

lemma complete_replaced: "complete_node i cs arts g = Inr g' \<Longrightarrow> node_replaced g False g'"
  unfolding complete_node_def Let_def
  by (erule checked_replaced, rule if_split [THEN iffD2], intro conjI impI; erule replaced_put)
    (simp_all add: node_change_def can_complete_can_fail)

lemma evidence_replaced: "record_evidence i e g = Inr (b, g') \<Longrightarrow> node_replaced g False g'"
  unfolding record_evidence_def Let_def
  by (erule required_replaced, clarsimp, erule replaced_put) (simp add: node_change_def)

lemma artifact_replaced: "attach_artifact i a g = Inr g' \<Longrightarrow> node_replaced g False g'"
  unfolding attach_artifact_def
  by (erule required_replaced, auto split: if_splits; erule replaced_put; simp add: node_change_def)

lemma retry_replaced: "retry_node i g = Inr g' \<Longrightarrow> node_replaced g False g'"
  unfolding retry_node_def
  by (erule required_replaced, auto split: if_splits; erule replaced_put;
      auto simp: node_change_def node_can_move_def node_moves_def)

lemma unblock_replaced: "unblock_node i g = Inr g' \<Longrightarrow> node_replaced g True g'"
  unfolding unblock_node_def
  by (erule required_replaced, auto split: if_splits; erule replaced_put;
      auto simp: node_change_def node_can_move_def node_moves_def)

lemma add_added: "add_node ni g = Inr (n, g') \<Longrightarrow> node_added g ni g'"
  by (auto simp: add_node_def Let_def has_node_def node_added_def would_create_cycle_iff
      split: if_splits)

text \<open>Every operation but a reset keeps the nodes, replaces one or adds one.\<close>

lemma graph_step_effect:
  assumes "x \<noteq> GReset"
  shows "tg_nodes (graph_step x g) = tg_nodes g \<or>
    node_replaced g (\<exists>i. x = GUnblock i) (graph_step x g) \<or>
    (\<exists>ni. x = GAdd ni \<and> node_added g ni (graph_step x g))"
proof (cases x)
  case (GAdd ni)
  then show ?thesis by (cases "add_node ni g") (auto simp: on_success_def dest: add_added)
next
  case (GStart i)
  then show ?thesis by (cases "start_node i g") (auto simp: on_success_def dest: start_replaced)
next
  case (GVerifying i)
  then show ?thesis by (cases "mark_verifying i g") (auto simp: on_success_def dest: move_replaced)
next
  case (GComplete i cs arts)
  then show ?thesis
    by (cases "complete_node i cs arts g") (auto simp: on_success_def dest: complete_replaced)
next
  case (GEvidence i e)
  then show ?thesis
    by (cases "record_evidence i e g") (auto simp: on_success_def dest: evidence_replaced)
next
  case (GFail i r)
  then show ?thesis by (cases "fail_node i r g") (auto simp: on_success_def dest: move_replaced)
next
  case (GBlock i r)
  then show ?thesis by (cases "block_node i r g") (auto simp: on_success_def dest: move_replaced)
next
  case (GUnblock i)
  then show ?thesis by (cases "unblock_node i g") (auto simp: on_success_def dest: unblock_replaced)
next
  case (GArtifact i a)
  then show ?thesis by (cases "attach_artifact i a g") (auto simp: on_success_def dest: artifact_replaced)
next
  case (GRetry i)
  then show ?thesis by (cases "retry_node i g") (auto simp: on_success_def dest: retry_replaced)
next
  case (GCancel i r)
  then show ?thesis by (cases "cancel_node i r g") (auto simp: on_success_def dest: move_replaced)
qed (use assms in \<open>simp_all add: set_run_id_def set_event_sink_def set_node_transition_sink_def\<close>)

section \<open>Invariants\<close>

definition active :: "node_status \<Rightarrow> bool" where
  "active s \<longleftrightarrow> s \<in> {Running, Verifying, Completed}"

definition graph_inv :: "task_graph \<Rightarrow> bool" where
  "graph_inv g \<longleftrightarrow> graph_wf g \<and> acyclic (dep_edges (tg_nodes g)) \<and>
     (\<forall>i n. jm_get (tg_nodes g) i = Some n \<longrightarrow> active (tn_status n) \<longrightarrow> deps_completed g n)"

lemma change_completed:
  "node_change g ub n n' \<Longrightarrow> tn_status n = Completed \<Longrightarrow> tn_status n' = Completed"
  by (auto simp: node_change_def node_can_move_def node_moves_def)

lemma change_active:
  "node_change g ub n n' \<Longrightarrow> active (tn_status n') \<Longrightarrow> deps_completed g n \<or> active (tn_status n)"
  by (cases "tn_status n"; cases "tn_status n'")
    (auto simp: node_change_def node_can_move_def node_moves_def active_def)

lemma deps_completed_mono:
  assumes "\<And>d. d \<in> set (tn_dependencies n) \<Longrightarrow> dep_completed (tg_nodes g) d \<Longrightarrow> dep_completed (tg_nodes g') d"
  shows "deps_completed g n \<Longrightarrow> deps_completed g' n"
  using assms by (auto simp: deps_completed_def list_all_iff)

lemma deps_completed_same:
  "tn_dependencies n' = tn_dependencies n \<Longrightarrow> deps_completed g n' = deps_completed g n"
  by (simp add: deps_completed_def)

lemma graph_inv_same: "tg_nodes g' = tg_nodes g \<Longrightarrow> graph_inv g' = graph_inv g"
  by (simp add: graph_inv_def graph_wf_def deps_completed_def)

lemma replaced_inv:
  assumes inv: "graph_inv g" and "node_replaced g ub g'"
  shows "graph_inv g'"
proof -
  obtain i n n' where n: "jm_get (tg_nodes g) i = Some n" and
    nodes: "tg_nodes g' = jm_set (tn_id n') n' (tg_nodes g)" and ch: "node_change g ub n n'"
    using assms(2) by (auto simp: node_replaced_def)
  have id: "tn_id n = i" "tn_id n' = i" and deps: "tn_dependencies n' = tn_dependencies n"
    using inv n ch by (auto simp: graph_inv_def graph_wf_def node_change_def)
  have get: "jm_get (tg_nodes g') j = (if j = i then Some n' else jm_get (tg_nodes g) j)" for j
    using nodes id by simp
  have mono: "dep_completed (tg_nodes g') d" if "dep_completed (tg_nodes g) d" for d
    using that n change_completed [OF ch] by (auto simp: dep_completed_def get split: option.splits)
  have "graph_wf g'"
    using inv nodes id by (auto simp: graph_inv_def graph_wf_def get)
  moreover have "dep_edges (tg_nodes g') = dep_edges (tg_nodes g)"
    using n deps by (auto simp: dep_edges_def get split: if_splits)
  moreover have "deps_completed g' m" if "jm_get (tg_nodes g') j = Some m" "active (tn_status m)" for j m
  proof -
    have "deps_completed g m"
      using that n inv change_active [OF ch] deps_completed_same [OF deps]
      by (auto simp: get graph_inv_def split: if_splits)
    then show ?thesis by (rule deps_completed_mono [rotated]) (rule mono)
  qed
  ultimately show ?thesis using inv by (simp add: graph_inv_def)
qed

text \<open>A node added in a status that says nothing about its dependencies.\<close>

definition plain_add :: "graph_op \<Rightarrow> bool" where
  "plain_add x = (case x of GAdd ni \<Rightarrow> \<not> active (default_to (ni_status ni) Pending) | _ \<Rightarrow> True)"

lemma added_inv:
  assumes inv: "graph_inv g" and "node_added g ni g'" and "plain_add (GAdd ni)"
  shows "graph_inv g'"
proof -
  let ?n = "full_node ni"
  have new: "\<not> jm_has (tg_nodes g) (tn_id ?n)" and
    nodes: "tg_nodes g' = jm_set (tn_id ?n) ?n (tg_nodes g)" and
    cyc: "(tn_id ?n, tn_id ?n) \<notin> (dep_edges (tg_nodes g'))\<^sup>+"
    using assms(2) by (auto simp: node_added_def Let_def)
  have get: "jm_get (tg_nodes g') j = (if j = tn_id ?n then Some ?n else jm_get (tg_nodes g) j)" for j
    using nodes by simp
  have mono: "dep_completed (tg_nodes g') d" if "dep_completed (tg_nodes g) d" for d
    using that new by (auto simp: dep_completed_def get split: option.splits)
  have edges: "dep_edges (tg_nodes g') =
      dep_edges (tg_nodes g) \<union> {tn_id ?n} \<times> set (tn_dependencies ?n)"
    using dep_edges_add [OF new, of ?n] nodes by simp
  have "acyclic (dep_edges (tg_nodes g'))"
    using cyc inv unfolding edges by (intro acyclic_new_source) (simp_all add: graph_inv_def)
  moreover have "graph_wf g'"
    using inv nodes by (auto simp: graph_inv_def graph_wf_def get)
  moreover have "deps_completed g' m" if "jm_get (tg_nodes g') j = Some m" "active (tn_status m)" for j m
  proof -
    have "deps_completed g m"
      using that inv assms(3) by (auto simp: get graph_inv_def plain_add_def split: if_splits)
    then show ?thesis by (rule deps_completed_mono [rotated]) (rule mono)
  qed
  ultimately show ?thesis by (simp add: graph_inv_def)
qed

lemma graph_step_inv: "plain_add x \<Longrightarrow> graph_inv g \<Longrightarrow> graph_inv (graph_step x g)"
proof (cases "x = GReset")
  case True
  then show ?thesis
    by (simp add: reset_graph_def graph_inv_def graph_wf_def dep_edges_def acyclic_def)
next
  case False
  assume "plain_add x" "graph_inv g"
  with graph_step_effect [OF False, of g] show ?thesis
    using graph_inv_same replaced_inv added_inv by blast
qed

interpretation planned: guarded_system graph_step plain_add graph_inv
  by unfold_locales (rule graph_step_inv)

lemma empty_graph_inv: "graph_inv empty_graph"
  by (simp add: empty_graph_def graph_inv_def graph_wf_def dep_edges_def acyclic_def)

lemmas planned_inv = planned.guarded_run [OF _ empty_graph_inv]

section \<open>Statuses over time\<close>

text \<open>The table, and the move that only \<open>unblock\<close> makes.\<close>

definition status_step :: "node_status \<Rightarrow> node_status \<Rightarrow> bool" where
  "status_step a b \<longleftrightarrow> node_can_move a b \<or> (a = Blocked \<and> b = Ready)"

interpretation node_table: status_machine status_step "\<lambda>s. s = Completed \<or> s = Cancelled"
  by unfold_locales (auto simp: status_step_def node_can_move_def node_moves_def)

lemma change_status: "node_change g ub n n' \<Longrightarrow> status_step\<^sup>*\<^sup>* (tn_status n) (tn_status n')"
proof -
  assume "node_change g ub n n'"
  then have "tn_status n' = tn_status n \<or> status_step (tn_status n) (tn_status n')"
    by (cases "tn_status n"; cases "tn_status n'")
      (auto simp: node_change_def status_step_def node_can_move_def node_moves_def)
  then show ?thesis by auto
qed

text \<open>Every node stays, with its dependencies, and moves along the table.\<close>

definition nodes_evolve :: "task_graph \<Rightarrow> task_graph \<Rightarrow> bool" where
  "nodes_evolve g g' \<longleftrightarrow> (\<forall>i n. jm_get (tg_nodes g) i = Some n \<longrightarrow>
     (\<exists>n'. jm_get (tg_nodes g') i = Some n' \<and> tn_dependencies n' = tn_dependencies n \<and>
        tn_attempts n \<le> tn_attempts n' \<and> status_step\<^sup>*\<^sup>* (tn_status n) (tn_status n')))"

lemma nodes_evolve_step:
  assumes "x \<noteq> GReset" and wf: "graph_wf g"
  shows "nodes_evolve g (graph_step x g)"
proof -
  consider "tg_nodes (graph_step x g) = tg_nodes g"
    | ub where "node_replaced g ub (graph_step x g)"
    | ni where "node_added g ni (graph_step x g)"
    using graph_step_effect [OF assms(1), of g] by blast
  then show ?thesis
  proof cases
    case 1
    then show ?thesis by (simp add: nodes_evolve_def)
  next
    case 2
    then obtain i n n' where n: "jm_get (tg_nodes g) i = Some n"
      "tg_nodes (graph_step x g) = jm_set (tn_id n') n' (tg_nodes g)" "node_change g ub n n'"
      by (auto simp: node_replaced_def)
    then have "tn_id n' = i" "tn_dependencies n' = tn_dependencies n" "tn_attempts n \<le> tn_attempts n'"
      using wf by (auto simp: graph_wf_def node_change_def)
    with n change_status [OF n(3)] show ?thesis by (auto simp: nodes_evolve_def)
  next
    case 3
    then show ?thesis by (auto simp: nodes_evolve_def node_added_def Let_def)
  qed
qed

lemma graph_wf_set:
  "graph_wf g \<Longrightarrow> tg_nodes g' = jm_set (tn_id n) n (tg_nodes g) \<Longrightarrow> graph_wf g'"
  by (auto simp: graph_wf_def split: if_splits)

lemma graph_wf_step: "graph_wf g \<Longrightarrow> graph_wf (graph_step x g)"
proof (cases "x = GReset")
  case True
  then show ?thesis by (simp add: reset_graph_def graph_wf_def)
next
  case False
  assume wf: "graph_wf g"
  consider "tg_nodes (graph_step x g) = tg_nodes g"
    | n where "tg_nodes (graph_step x g) = jm_set (tn_id n) n (tg_nodes g)"
    using graph_step_effect [OF False, of g] unfolding node_replaced_def node_added_def Let_def by blast
  then show ?thesis
  proof cases
    case 1
    with wf show ?thesis by (simp add: graph_wf_def)
  next
    case 2
    show ?thesis by (rule graph_wf_set [OF wf 2])
  qed
qed

interpretation node_history: guarded_relation graph_step "\<lambda>x. x \<noteq> GReset" graph_wf nodes_evolve
proof unfold_locales
  show "graph_wf (graph_step x g)" if "graph_wf g" for x g using that by (rule graph_wf_step)
  show "nodes_evolve g g" for g by (simp add: nodes_evolve_def)
  show "nodes_evolve g h" if ev: "nodes_evolve g f" "nodes_evolve f h" for f g h
    unfolding nodes_evolve_def
  proof (intro allI impI)
    fix i n assume "jm_get (tg_nodes g) i = Some n"
    then obtain m where "jm_get (tg_nodes f) i = Some m" "tn_dependencies m = tn_dependencies n"
      "tn_attempts n \<le> tn_attempts m" "status_step\<^sup>*\<^sup>* (tn_status n) (tn_status m)"
      using ev(1) unfolding nodes_evolve_def by blast
    moreover from this(1) obtain n' where "jm_get (tg_nodes h) i = Some n'"
      "tn_dependencies n' = tn_dependencies m" "tn_attempts m \<le> tn_attempts n'"
      "status_step\<^sup>*\<^sup>* (tn_status m) (tn_status n')"
      using ev(2) unfolding nodes_evolve_def by blast
    ultimately show "\<exists>n'. jm_get (tg_nodes h) i = Some n' \<and> tn_dependencies n' = tn_dependencies n \<and>
        tn_attempts n \<le> tn_attempts n' \<and> status_step\<^sup>*\<^sup>* (tn_status n) (tn_status n')"
      by (intro exI [of _ n']) auto
  qed
  show "nodes_evolve g (graph_step x g)" if "x \<noteq> GReset" "graph_wf g" for x g
    using that by (rule nodes_evolve_step)
qed

interpretation graph_keys: invariant_system graph_step graph_wf
  by unfold_locales (rule graph_wf_step)

lemma empty_graph_wf: "graph_wf empty_graph"
  by (simp add: graph_wf_def empty_graph_def)

section \<open>The retry budget\<close>

definition budget_ok :: "task_node \<Rightarrow> bool" where
  "budget_ok n \<longleftrightarrow> tn_attempts n \<le> max 1 (max_attempts n) \<and>
     (tn_status n \<in> {Pending, Ready} \<longrightarrow> tn_attempts n < max 1 (max_attempts n))"

definition budget_inv :: "task_graph \<Rightarrow> bool" where
  "budget_inv g \<longleftrightarrow> graph_wf g \<and> (\<forall>i n. jm_get (tg_nodes g) i = Some n \<longrightarrow> budget_ok n)"

definition budget_op :: "graph_op \<Rightarrow> bool" where
  "budget_op x = (case x of
      GUnblock i \<Rightarrow> False
    | GAdd ni \<Rightarrow> default_to (ni_attempts ni) 0 = 0
    | _ \<Rightarrow> True)"

lemma change_budget: "node_change g False n n' \<Longrightarrow> budget_ok n \<Longrightarrow> budget_ok n'"
  by (auto simp: node_change_def budget_ok_def max_attempts_def)

lemma budget_step: "budget_op x \<Longrightarrow> budget_inv g \<Longrightarrow> budget_inv (graph_step x g)"
proof (cases "x = GReset")
  case True
  then show ?thesis by (simp add: reset_graph_def budget_inv_def graph_wf_def)
next
  case False
  assume x: "budget_op x" and inv: "budget_inv g"
  have wf: "graph_wf (graph_step x g)" using inv graph_wf_step by (simp add: budget_inv_def)
  have "\<not> (\<exists>i. x = GUnblock i)" using x by (auto simp: budget_op_def)
  with graph_step_effect [OF False, of g] consider "tg_nodes (graph_step x g) = tg_nodes g"
    | "node_replaced g False (graph_step x g)"
    | ni where "x = GAdd ni" "node_added g ni (graph_step x g)" by auto
  then show ?thesis
  proof cases
    case 1
    with inv wf show ?thesis by (simp add: budget_inv_def)
  next
    case 2
    then obtain i n n' where n: "jm_get (tg_nodes g) i = Some n" "node_change g False n n'"
      "tg_nodes (graph_step x g) = jm_set (tn_id n') n' (tg_nodes g)"
      unfolding node_replaced_def by blast
    with inv have "budget_ok n'" by (auto simp: budget_inv_def intro: change_budget)
    with inv wf n(3) show ?thesis by (auto simp: budget_inv_def split: if_splits)
  next
    case 3
    then have "budget_ok (full_node ni)" using x by (simp add: budget_ok_def budget_op_def less_max_iff_disj)
    with inv wf 3 show ?thesis by (auto simp: budget_inv_def node_added_def Let_def split: if_splits)
  qed
qed

interpretation budget: guarded_system graph_step budget_op budget_inv
  by unfold_locales (rule budget_step)

section \<open>Groups, counts, serialisation\<close>

definition disjoint_claims :: "task_node \<Rightarrow> task_node \<Rightarrow> bool" where
  "disjoint_claims m n \<longleftrightarrow> set (node_claims m) \<inter> set (node_claims n) = {}"

definition group_ok :: "task_node list \<Rightarrow> bool" where
  "group_ok g \<longleftrightarrow> g \<noteq> [] \<and> sorted_wrt disjoint_claims g"

lemma place_mset: "mset (concat (place_in_group n gs)) = add_mset n (mset (concat gs))"
  by (induction n gs rule: place_in_group.induct) simp_all

lemma place_ok: "list_all group_ok gs \<Longrightarrow> list_all group_ok (place_in_group n gs)"
  by (induction n gs rule: place_in_group.induct)
    (auto simp: group_ok_def sorted_wrt_append list_ex_iff shares_claim_def disjoint_claims_def)

lemma fold_place_mset: "mset (concat (fold place_in_group ns gs)) = mset ns + mset (concat gs)"
  by (induction ns arbitrary: gs) (simp_all add: place_mset)

lemma fold_place_ok: "list_all group_ok gs \<Longrightarrow> list_all group_ok (fold place_in_group ns gs)"
  by (induction ns arbitrary: gs) (simp_all add: place_ok)

definition how_many :: "task_graph \<Rightarrow> node_status \<Rightarrow> nat" where
  "how_many g s = length (filter (\<lambda>n. tn_status n = s) (list_nodes g))"

text \<open>The counters of a summary are the lengths of filtered lists.\<close>

lemma count_fold:
  "gc_total (fold (count_node g) ns c) = gc_total c + length ns"
  "gc_completed (fold (count_node g) ns c) =
     gc_completed c + length (filter (\<lambda>n. tn_status n = Completed) ns)"
  "gc_failed (fold (count_node g) ns c) = gc_failed c + length (filter (\<lambda>n. tn_status n = Failed) ns)"
  "gc_cancelled (fold (count_node g) ns c) =
     gc_cancelled c + length (filter (\<lambda>n. tn_status n = Cancelled) ns)"
  "gc_ready (fold (count_node g) ns c) =
     gc_ready c + length (filter (\<lambda>n. tn_status n = Pending \<and> deps_completed g n) ns)"
  by (induction ns arbitrary: c) (auto simp: count_node_def Let_def split: node_status.splits)

definition counts_sum :: "graph_counts \<Rightarrow> nat" where
  "counts_sum c = gc_completed c + gc_failed c + gc_blocked c + gc_running c + gc_ready c +
     gc_pending c + gc_verifying c + gc_cancelled c"

lemma counts_sum_fold:
  "counts_sum (fold (count_node g) ns c) + length (filter (\<lambda>n. tn_status n = Ready) ns) =
     counts_sum c + length ns"
proof (induction ns arbitrary: c)
  case (Cons n ns)
  have "counts_sum (count_node g n c) + (if tn_status n = Ready then 1 else 0) = Suc (counts_sum c)"
    by (auto simp: counts_sum_def count_node_def Let_def split: node_status.splits)
  with Cons [of "count_node g n c"] show ?case by (simp split: if_splits)
qed simp

lemma terminal_counts:
  "length (filter (\<lambda>n. tn_status n = Completed) ns) + length (filter (\<lambda>n. tn_status n = Failed) ns) +
     length (filter (\<lambda>n. tn_status n = Cancelled) ns) =
   length (filter (\<lambda>n. node_terminal (tn_status n)) ns)"
  by (induction ns) (auto simp: node_terminal_def)

lemma filter_length_all: "length (filter P xs) = length xs \<longleftrightarrow> list_all P xs"
proof -
  have "length (filter P xs) + length (filter (\<lambda>x. \<not> P x) xs) = length xs"
    by (rule sum_length_filter_compl)
  then have "length (filter P xs) = length xs \<longleftrightarrow> filter (\<lambda>x. \<not> P x) xs = []"
    by (metis add_cancel_right_right length_0_conv)
  then show ?thesis by (auto simp: list_all_iff filter_empty_conv)
qed

lemma restore_fold:
  assumes "distinct (map fst xs)" and "\<forall>(k, n)\<in>set xs. tn_id n = k" and "set (map fst xs) \<inter> set (map fst ys) = {}"
  shows "fold (\<lambda>n. jm_set (tn_id n) n) (map snd xs) ys = ys @ xs"
  using assms
proof (induction xs arbitrary: ys)
  case (Cons x xs)
  obtain k n where x: "x = (k, n)" by (cases x)
  have "jm_get ys k = None" using Cons.prems(3) x by (auto simp: map_of_eq_None_iff)
  then have "jm_set (tn_id n) n ys = ys @ [(k, n)]"
    using Cons.prems(2) x by (simp add: jm_set_fresh)
  with Cons.IH [of "ys @ [(k, n)]"] Cons.prems x show ?case by auto
qed simp

lemma restore_serialize: "graph_wf g \<Longrightarrow> tg_nodes (restore_graph (serialize_graph g)) = tg_nodes g"
  unfolding restore_graph_def serialize_graph_def
  by (subst restore_fold) (auto simp: graph_wf_def map_of_eq_Some_iff empty_graph_def)

lemma finite_dep_edges: "finite (dep_edges nodes)"
proof (rule finite_subset)
  show "dep_edges nodes \<subseteq> (\<Union>(k, n)\<in>set nodes. {k} \<times> set (tn_dependencies n))"
    by (auto simp: dep_edges_def dest!: map_of_SomeD)
qed auto

section \<open>Properties\<close>

definition sample_node :: "string \<Rightarrow> string list \<Rightarrow> task_node" where
  "sample_node i deps = \<lparr>tn_id = i, tn_title = i, tn_description = [], tn_status = Pending,
     tn_dependencies = deps, tn_criteria = [], tn_role = None, tn_model_profile = None,
     tn_claims = None, tn_retry = None, tn_artifacts = [], tn_attempts = 0, tn_block_reason = None,
     tn_fail_reason = None, tn_impact = None, tn_evidence = None\<rparr>"

definition sample_add :: "string \<Rightarrow> string list \<Rightarrow> node_input" where
  "sample_add i deps = \<lparr>ni_node = sample_node i deps, ni_status = None, ni_artifacts = None,
     ni_attempts = None, ni_criteria = None\<rparr>"

definition sample_plan :: "graph_op list" where
  "sample_plan = [GAdd (sample_add ''a'' []), GAdd (sample_add ''b'' [''a'']), GStart ''a'',
     GComplete ''a'' None [], GStart ''b'']"

lemmas graph_eval = sample_plan_def sample_add_def sample_node_def full_node_def empty_graph_def
  add_node_def has_node_def would_create_cycle_def on_success_def emit_event_def put_node_def
  require_node_def start_node_def complete_node_def fail_node_def block_node_def retry_node_def
  unblock_node_def checked_move_def node_can_move_def node_moves_def deps_completed_def
  dep_completed_def transition_of_event_def notify_transition_def max_attempts_def Let_def

text \<open>
  (C6) Plans are sound: whatever the sequence of graph operations (nodes being added in a status
  that does not claim to have started), the dependency graph has no cycle, and every node that is
  running, verifying or completed has all its dependencies in the graph and completed.
\<close>

theorem plan_is_sound:
  assumes "list_all plain_add ops" and "g = fold graph_step ops empty_graph"
  shows "acyclic (dep_edges (tg_nodes g)) \<and>
    (\<forall>i n. jm_get (tg_nodes g) i = Some n \<longrightarrow> tn_status n \<in> {Running, Verifying, Completed} \<longrightarrow>
       (\<forall>d\<in>set (tn_dependencies n). \<exists>m. jm_get (tg_nodes g) d = Some m \<and> tn_status m = Completed))"
proof -
  have inv: "graph_inv g" unfolding assms(2) by (rule planned_inv [OF assms(1)])
  have "\<exists>m. jm_get (tg_nodes g) d = Some m \<and> tn_status m = Completed"
    if "jm_get (tg_nodes g) i = Some n" "tn_status n \<in> {Running, Verifying, Completed}"
      "d \<in> set (tn_dependencies n)" for i n d
  proof -
    have "deps_completed g n" using inv that(1,2) by (auto simp: graph_inv_def active_def)
    with that(3) have "dep_completed (tg_nodes g) d" by (simp add: deps_completed_def list_all_iff)
    then show ?thesis by (simp add: dep_completed_def split: option.splits)
  qed
  with inv show ?thesis unfolding graph_inv_def by blast
qed

theorem plan_is_sound_witness:
  "acyclic (dep_edges (tg_nodes (fold graph_step sample_plan empty_graph)))"
proof -
  have "list_all plain_add sample_plan"
    by (simp add: sample_plan_def plain_add_def sample_add_def active_def)
  from plan_is_sound [OF this refl] show ?thesis by blast
qed

text \<open>
  (C23) \<open>addNode\<close> against a declarative specification: with an acyclic graph, the depth-first search
  rejects a node exactly when the graph with the node would have a cycle; duplicate ids and self
  dependencies are rejected before; an accepted node is appended with its defaults and announced.
\<close>

theorem add_node_correct:
  assumes "acyclic (dep_edges (tg_nodes g))"
  shows "add_node ni g =
    (let n = full_node ni; i = tn_id n; nodes = tg_nodes g @ [(i, n)]
     in if jm_has (tg_nodes g) i then Inl (DuplicateNode i)
        else if i \<in> set (tn_dependencies n) then Inl (SelfDependency i)
        else if \<not> acyclic (dep_edges nodes) then Inl (DependencyCycle i)
        else Inr (n, emit_event (NodeAdded i (tn_title n)) (g\<lparr>tg_nodes := nodes\<rparr>)))"
proof (cases "jm_has (tg_nodes g) (tn_id (full_node ni))")
  case True
  then show ?thesis by (simp add: add_node_def has_node_def Let_def)
next
  case False
  let ?n = "full_node ni"
  have set: "jm_set (tn_id ?n) ?n (tg_nodes g) = tg_nodes g @ [(tn_id ?n, ?n)]"
    using False by (rule jm_set_fresh)
  have edges: "dep_edges (tg_nodes g @ [(tn_id ?n, ?n)]) =
      dep_edges (tg_nodes g) \<union> {tn_id ?n} \<times> set (tn_dependencies ?n)"
    using dep_edges_add [OF False, of ?n] set by simp
  have "would_create_cycle (tg_nodes g @ [(tn_id ?n, ?n)]) (tn_id ?n) \<longleftrightarrow>
      \<not> acyclic (dep_edges (tg_nodes g @ [(tn_id ?n, ?n)]))"
  proof -
    have "jm_get (jm_set (tn_id ?n) ?n (tg_nodes g)) (tn_id ?n) = Some ?n" by simp
    from would_create_cycle_iff [OF this] have
      "would_create_cycle (tg_nodes g @ [(tn_id ?n, ?n)]) (tn_id ?n) \<longleftrightarrow>
         (tn_id ?n, tn_id ?n) \<in> (dep_edges (tg_nodes g @ [(tn_id ?n, ?n)]))\<^sup>+"
      unfolding set .
    then show ?thesis
      using acyclic_new_source [OF assms, of "tn_id ?n" "set (tn_dependencies ?n)"]
      unfolding edges acyclic_def by blast
  qed
  then show ?thesis
    using set False by (auto simp: add_node_def has_node_def Let_def)
qed

theorem add_node_correct_witness:
  "add_node (sample_add ''a'' [''b'']) (fold graph_step [GAdd (sample_add ''b'' [''a''])] empty_graph) =
     Inl (DependencyCycle ''a'') \<and>
   \<not> acyclic (dep_edges (tg_nodes (fold graph_step [GAdd (sample_add ''b'' [''a''])] empty_graph) @
       [(''a'', full_node (sample_add ''a'' [''b'']))]))"
proof -
  let ?g = "fold graph_step [GAdd (sample_add ''b'' [''a''])] empty_graph"
  have "list_all plain_add [GAdd (sample_add ''b'' [''a''])]"
    by (simp add: plain_add_def sample_add_def active_def)
  from planned_inv [OF this] have a: "acyclic (dep_edges (tg_nodes ?g))" by (simp add: graph_inv_def)
  have "add_node (sample_add ''a'' [''b'']) ?g = Inl (DependencyCycle ''a'')"
    by (simp add: graph_eval)
  moreover have "\<not> jm_has (tg_nodes ?g) ''a''" by (simp add: graph_eval)
  ultimately show ?thesis
    using add_node_correct [OF a, of "sample_add ''a'' [''b'']"]
    by (auto simp: Let_def sample_add_def sample_node_def full_node_def split: if_splits)
qed

text \<open>
  (C26) A plan never stalls by itself: while a reachable graph is unfinished, some node is ready to
  start, or is running, verifying or blocked, or was unblocked (status ready), or a pending node
  depends on a node that is missing, failed or cancelled.
\<close>

theorem plan_never_stalls_silently:
  assumes "list_all plain_add ops" and "g = fold graph_step ops empty_graph" and "has_unfinished g"
  shows "ready_nodes g \<noteq> [] \<or>
    (\<exists>n\<in>set (list_nodes g). tn_status n \<in> {Running, Verifying, Blocked, Ready}) \<or>
    (\<exists>n\<in>set (list_nodes g). tn_status n = Pending \<and> (\<exists>d\<in>set (tn_dependencies n).
       case jm_get (tg_nodes g) d of None \<Rightarrow> True | Some m \<Rightarrow> tn_status m \<in> {Failed, Cancelled}))"
proof (rule ccontr)
  assume not: "\<not> ?thesis"
  have inv: "graph_inv g" unfolding assms(2) by (rule planned_inv [OF assms(1)])
  let ?pending = "{i. \<exists>n. jm_get (tg_nodes g) i = Some n \<and> tn_status n = Pending}"
  obtain n where n: "n \<in> set (list_nodes g)" "\<not> node_terminal (tn_status n)"
    using assms(3) by (auto simp: has_unfinished_def list_ex_iff)
  with not have "tn_status n = Pending" by (cases "tn_status n") (auto simp: node_terminal_def)
  moreover obtain k where "jm_get (tg_nodes g) k = Some n"
    using n(1) inv jm_values_iff by (fastforce simp: list_nodes_def graph_inv_def graph_wf_def)
  ultimately have k: "k \<in> ?pending" by blast
  have wfp: "wf ((dep_edges (tg_nodes g))\<inverse>)"
    using inv finite_dep_edges by (intro finite_acyclic_wf_converse) (simp_all add: graph_inv_def)
  obtain i where i: "i \<in> ?pending"
    "\<And>d. (d, i) \<in> (dep_edges (tg_nodes g))\<inverse> \<Longrightarrow> d \<notin> ?pending"
    by (rule wfE_min [OF wfp k]) blast
  then obtain m where m: "jm_get (tg_nodes g) i = Some m" "tn_status m = Pending" by blast
  have mem: "x \<in> set (list_nodes g)" if "jm_get (tg_nodes g) j = Some x" for j x
    using that jm_value_of_get by (force simp: list_nodes_def)
  have "dep_completed (tg_nodes g) d" if d: "d \<in> set (tn_dependencies m)" for d
  proof -
    have "d \<notin> ?pending" using i(2) [of d] m(1) d by (auto simp: dep_edges_def)
    moreover have "\<not> (case jm_get (tg_nodes g) d of None \<Rightarrow> True
        | Some m \<Rightarrow> tn_status m \<in> {Failed, Cancelled})"
      using not mem [OF m(1)] m(2) d by blast
    then obtain x where "jm_get (tg_nodes g) d = Some x" "tn_status x \<notin> {Failed, Cancelled}"
      by (cases "jm_get (tg_nodes g) d") auto
    moreover from this(1) have "tn_status x \<notin> {Running, Verifying, Blocked, Ready}"
      using not mem by blast
    ultimately show ?thesis by (cases "tn_status x") (auto simp: dep_completed_def)
  qed
  then have "m \<in> set (ready_nodes g)"
    using mem [OF m(1)] m(2) by (simp add: ready_nodes_def deps_completed_def list_all_iff)
  with not show False by auto
qed

theorem plan_never_stalls_silently_witness:
  "let g = fold graph_step (take 2 sample_plan) empty_graph
   in ready_nodes g \<noteq> [] \<or> (\<exists>n\<in>set (list_nodes g). tn_status n \<noteq> Pending) \<or>
      jm_get (tg_nodes g) ''a'' = None"
proof -
  have p: "list_all plain_add (take 2 sample_plan)"
    by (simp add: sample_plan_def plain_add_def sample_add_def active_def)
  have u: "has_unfinished (fold graph_step (take 2 sample_plan) empty_graph)"
    by (simp add: graph_eval has_unfinished_def list_nodes_def node_terminal_def)
  show ?thesis
    using plan_never_stalls_silently [OF p refl u]
    by (simp add: graph_eval list_nodes_def)
qed

text \<open>
  Life of a node: until a reset a node stays in the graph with its dependencies, its attempt
  counter only grows, its status moves along the transition table (or from blocked to ready), and
  a completed or cancelled node keeps its status for ever.
\<close>

theorem node_status_history:
  assumes "g = fold graph_step earlier empty_graph" and "GReset \<notin> set later"
    and "jm_get (tg_nodes g) i = Some n"
  shows "\<exists>n'. jm_get (tg_nodes (fold graph_step later g)) i = Some n' \<and>
    tn_dependencies n' = tn_dependencies n \<and> tn_attempts n \<le> tn_attempts n' \<and>
    (\<lambda>a b. node_can_move a b \<or> (a = Blocked \<and> b = Ready))\<^sup>*\<^sup>* (tn_status n) (tn_status n') \<and>
    (tn_status n \<in> {Completed, Cancelled} \<longrightarrow> tn_status n' = tn_status n)"
proof -
  have "graph_wf g" unfolding assms(1) by (rule graph_keys.run_inv [OF empty_graph_wf])
  moreover have "list_all (\<lambda>x. x \<noteq> GReset) later" using assms(2) by (auto simp: list_all_iff)
  ultimately have "nodes_evolve g (fold graph_step later g)"
    by (intro node_history.guarded_run_rel)
  then obtain n' where n': "jm_get (tg_nodes (fold graph_step later g)) i = Some n'"
    "tn_dependencies n' = tn_dependencies n" "tn_attempts n \<le> tn_attempts n'"
    "status_step\<^sup>*\<^sup>* (tn_status n) (tn_status n')"
    using assms(3) unfolding nodes_evolve_def by blast
  moreover have "status_step = (\<lambda>a b. node_can_move a b \<or> (a = Blocked \<and> b = Ready))"
    by (intro ext) (simp add: status_step_def)
  ultimately show ?thesis using node_table.terminal_reach [OF n'(4)] by auto
qed

theorem node_status_history_witness:
  "\<exists>n'. jm_get (tg_nodes (fold graph_step [GFail ''a'' ''x'', GRetry ''a'', GCancel ''b'' None]
      (fold graph_step sample_plan empty_graph))) ''a'' = Some n' \<and> tn_status n' = Completed"
proof -
  obtain n where n: "jm_get (tg_nodes (fold graph_step sample_plan empty_graph)) ''a'' = Some n"
    "tn_status n = Completed"
    by (simp add: graph_eval)
  have "GReset \<notin> set [GFail ''a'' ''x'', GRetry ''a'', GCancel ''b'' None]" by simp
  from node_status_history [OF refl this n(1)] n(2) show ?thesis by auto
qed

text \<open>
  The retry budget: without \<open>unblock\<close>, and with nodes added without attempts, no node is ever
  started more often than its retry policy allows (once without a policy or with a maximum of
  zero).
\<close>

theorem retry_budget_is_respected:
  assumes "\<forall>x\<in>set ops. \<forall>i. x \<noteq> GUnblock i" and "\<forall>ni. GAdd ni \<in> set ops \<longrightarrow> ni_attempts ni = None"
    and "jm_get (tg_nodes (fold graph_step ops empty_graph)) i = Some n"
  shows "tn_attempts n \<le> max 1 (case tn_retry n of None \<Rightarrow> 1 | Some p \<Rightarrow> rp_max_attempts p)"
proof -
  have "list_all budget_op ops"
    using assms(1,2) by (auto simp: list_all_iff budget_op_def split: graph_op.splits)
  moreover have "budget_inv empty_graph"
    using empty_graph_wf by (simp add: budget_inv_def) (simp add: empty_graph_def)
  ultimately have "budget_inv (fold graph_step ops empty_graph)" by (rule budget.guarded_run)
  with assms(3) show ?thesis by (auto simp: budget_inv_def budget_ok_def max_attempts_def)
qed

definition retried_plan :: "graph_op list" where
  "retried_plan = [GAdd (sample_add ''a'' []), GStart ''a'', GFail ''a'' ''x'', GRetry ''a'', GStart ''a'']"

theorem retry_budget_is_respected_witness:
  "map_option tn_attempts (jm_get (tg_nodes (fold graph_step retried_plan empty_graph)) ''a'') = Some 1"
proof -
  obtain n where n: "jm_get (tg_nodes (fold graph_step retried_plan empty_graph)) ''a'' = Some n"
    and r: "tn_retry n = None" and a: "0 < tn_attempts n"
    by (simp add: retried_plan_def graph_eval exhausted_reason_def)
  have "tn_attempts n \<le> max 1 (case tn_retry n of None \<Rightarrow> 1 | Some p \<Rightarrow> rp_max_attempts p)"
    by (rule retry_budget_is_respected [OF _ _ n]) (simp_all add: retried_plan_def sample_add_def)
  with n r a show ?thesis by simp
qed

text \<open>
  An unblocked node leaves the plan: when all dependencies of a blocked node are completed,
  \<open>unblock\<close> succeeds and \<open>start\<close> would accept the node whatever its used attempts, but the node is
  in no parallel group, and the summary counts it in none of its columns.
\<close>

theorem unblocked_node_is_invisible:
  assumes "graph_wf g" and "jm_get (tg_nodes g) i = Some n" and "tn_status n = Blocked"
    and "deps_completed g n"
  shows "\<exists>g' n' g''. unblock_node i g = Inr g' \<and> jm_get (tg_nodes g') i = Some n' \<and>
    start_node i g' = Inr g'' \<and> has_unfinished g' \<and>
    n' \<notin> set (ready_nodes g') \<and> n' \<notin> set (concat (parallel_groups g')) \<and>
    counts_sum (graph_counts_of g') < gc_total (graph_counts_of g')"
proof -
  define n' where "n' = n\<lparr>tn_status := Ready, tn_block_reason := None\<rparr>"
  define g' where "g' = notify_transition TUnblocked (emit_event (NodeUnblocked i) (put_node n' g))"
  have id: "tn_id n = i" using assms(1,2) by (simp add: graph_wf_def)
  then have nodes: "tg_nodes g' = jm_set i n' (tg_nodes g)" by (simp add: g'_def n'_def)
  have un: "unblock_node i g = Inr g'"
    using assms id by (simp add: unblock_node_def require_node_def g'_def n'_def)
  have get: "jm_get (tg_nodes g') i = Some n'" by (simp add: nodes)
  have mem: "n' \<in> set (list_nodes g')" using get jm_value_of_get by (force simp: list_nodes_def)
  have ready: "tn_status n' = Ready" by (simp add: n'_def)
  have "deps_completed g' n'"
  proof -
    have "dep_completed (tg_nodes g') d" if "dep_completed (tg_nodes g) d" for d
      using that assms(2,3) by (auto simp: dep_completed_def nodes split: option.splits)
    with assms(4) show ?thesis by (auto simp: deps_completed_def list_all_iff n'_def)
  qed
  then have "\<exists>g''. start_node i g' = Inr g''"
    using get ready by (simp add: start_node_def require_node_def)
  moreover have "has_unfinished g'"
    using mem ready unfolding has_unfinished_def list_ex_iff node_terminal_def
    by (intro bexI [of _ n']) simp_all
  moreover have "n' \<notin> set (ready_nodes g')" using ready by (simp add: ready_nodes_def)
  moreover have "set (concat (parallel_groups g')) = set (ready_nodes g')"
    using arg_cong [OF fold_place_mset [of "ready_nodes g'" "[]"], of set_mset]
    by (simp add: parallel_groups_def)
  moreover have "counts_sum (graph_counts_of g') < gc_total (graph_counts_of g')"
  proof -
    have "n' \<in> set (filter (\<lambda>n. tn_status n = Ready) (list_nodes g'))" using mem ready by simp
    then have "0 < length (filter (\<lambda>n. tn_status n = Ready) (list_nodes g'))"
      by (rule length_pos_if_in_set)
    moreover have "counts_sum zero_counts = 0" "gc_total zero_counts = 0"
      by (simp_all add: counts_sum_def zero_counts_def)
    ultimately show ?thesis
      using counts_sum_fold [of g' "list_nodes g'" zero_counts]
      unfolding graph_counts_of_def count_fold by linarith
  qed
  ultimately show ?thesis using un get by auto
qed

text \<open>One attempt is allowed; the node starts twice.\<close>

theorem unblocked_node_is_invisible_witness:
  "let g = fold graph_step [GAdd (sample_add ''a'' []), GStart ''a'', GFail ''a'' ''x'', GRetry ''a'']
       empty_graph
   in (\<exists>g'. unblock_node ''a'' g = Inr g' \<and> (\<exists>g''. start_node ''a'' g' = Inr g'')) \<and>
      (\<exists>n. jm_get (tg_nodes (fold graph_step [GUnblock ''a'', GStart ''a''] g)) ''a'' = Some n \<and>
         tn_attempts n = 2 \<and> max_attempts n = 1)"
proof -
  define g where "g = fold graph_step
    [GAdd (sample_add ''a'' []), GStart ''a'', GFail ''a'' ''x'', GRetry ''a''] empty_graph"
  have wf: "graph_wf g" unfolding g_def by (rule graph_keys.run_inv [OF empty_graph_wf])
  obtain n where n: "jm_get (tg_nodes g) ''a'' = Some n" "tn_status n = Blocked" "deps_completed g n"
    by (simp add: graph_eval g_def)
  have "\<exists>n. jm_get (tg_nodes (fold graph_step [GUnblock ''a'', GStart ''a''] g)) ''a'' = Some n \<and>
         tn_attempts n = 2 \<and> max_attempts n = 1"
    by (simp add: graph_eval g_def)
  with unblocked_node_is_invisible [OF wf n] show ?thesis unfolding g_def [symmetric] by auto
qed

text \<open>
  Parallel groups: they hold exactly the ready nodes, each once; no group is empty; and two
  nodes of one group never share a resource claim.
\<close>

theorem parallel_groups_are_safe:
  "mset (concat (parallel_groups g)) = mset (ready_nodes g) \<and>
   list_all (\<lambda>ns. ns \<noteq> [] \<and> sorted_wrt (\<lambda>m n. set (node_claims m) \<inter> set (node_claims n) = {}) ns)
     (parallel_groups g)"
  using fold_place_mset [of "ready_nodes g" "[]"] fold_place_ok [of "[]" "ready_nodes g"]
  by (simp add: parallel_groups_def list_all_iff group_ok_def disjoint_claims_def [abs_def])

text \<open>
  The three notions of being finished agree: \<open>isDone\<close>, the summary's \<open>done\<close>, and "not empty
  and without unfinished nodes"; the summary's ready count is the number of ready nodes; and its
  columns add up to the total exactly when no node has the status ready.
\<close>

theorem graph_summary_agrees:
  "(is_done g \<longleftrightarrow> snd (snd (snapshot_graph g))) \<and>
   (is_done g \<longleftrightarrow> 0 < graph_size g \<and> \<not> has_unfinished g) \<and>
   gc_ready (graph_counts_of g) = length (ready_nodes g) \<and>
   counts_sum (graph_counts_of g) + length (filter (\<lambda>n. tn_status n = Ready) (list_nodes g)) =
     gc_total (graph_counts_of g)"
proof -
  have z: "gc_total zero_counts = 0" "gc_completed zero_counts = 0" "gc_failed zero_counts = 0"
    "gc_cancelled zero_counts = 0" "gc_ready zero_counts = 0" "counts_sum zero_counts = 0"
    by (simp_all add: zero_counts_def counts_sum_def)
  have size: "graph_size g = length (list_nodes g)"
    by (simp add: graph_size_def list_nodes_def)
  have "is_done g \<longleftrightarrow> counts_done (graph_counts_of g)"
    unfolding is_done_def counts_done_def graph_counts_of_def count_fold z size
    by (simp add: terminal_counts filter_length_all)
  moreover have "is_done g \<longleftrightarrow> 0 < graph_size g \<and> \<not> has_unfinished g"
    by (simp add: is_done_def has_unfinished_def list_ex_iff list_all_iff)
  moreover have "gc_ready (graph_counts_of g) = length (ready_nodes g)"
    by (simp add: graph_counts_of_def count_fold z ready_nodes_def)
  moreover have "counts_sum (graph_counts_of g) +
      length (filter (\<lambda>n. tn_status n = Ready) (list_nodes g)) = gc_total (graph_counts_of g)"
    by (simp add: graph_counts_of_def counts_sum_fold count_fold z)
  ultimately show ?thesis by (simp add: snapshot_graph_def)
qed

text \<open>
  Serialisation: a graph that came from any sequence of operations is restored with the same
  nodes in the same order, so it is ready, blocked and done exactly as before.
\<close>

theorem restore_after_serialize:
  "let g = fold graph_step ops empty_graph; r = restore_graph (serialize_graph g)
   in tg_nodes r = tg_nodes g \<and> ready_nodes r = ready_nodes g \<and> is_done r = is_done g"
proof -
  have "graph_wf (fold graph_step ops empty_graph)" by (rule graph_keys.run_inv [OF empty_graph_wf])
  from restore_serialize [OF this] show ?thesis
    by (simp add: Let_def ready_nodes_def is_done_def list_nodes_def graph_size_def deps_completed_def)
qed

end
