(* ===== verification/WorkingState.thy ===== *)
theory WorkingState
  imports ExecutionRun
begin

text \<open>
  The structured task state: \<open>src/src/core/workingState.ts\<close>, and its update from tool results in
  \<open>src/src/core/context/contextManager.ts\<close> (\<open>applyToolEvent\<close>).

  A tool call's input is reduced to the two fields the update reads, each present only when it is
  a string. Violations of compaction carry the dropped items instead of the rendered detail text.
\<close>

section \<open>State\<close>

record fact =
  fc_claim :: string
  fc_source :: "string option"
  fc_confirmed_at :: "string option"

record decision =
  dc_choice :: string
  dc_rationale :: string
  dc_decided_at :: "string option"

record working_state =
  ws_objective :: string
  ws_constraints :: "string list"
  ws_facts :: "fact list"
  ws_decisions :: "decision list"
  ws_files_read :: "string list"
  ws_files_changed :: "string list"
  ws_passed :: "string list"
  ws_failed :: "string list"
  ws_unresolved :: "string list"
  ws_next_actions :: "string list"
  ws_artifacts :: "artifact_ref list"

definition empty_working_state :: "string \<Rightarrow> working_state" where
  "empty_working_state objective = \<lparr>ws_objective = objective, ws_constraints = [], ws_facts = [],
     ws_decisions = [], ws_files_read = [], ws_files_changed = [], ws_passed = [], ws_failed = [],
     ws_unresolved = [], ws_next_actions = [], ws_artifacts = []\<rparr>"

section \<open>Mutators\<close>

definition add_new :: "'a \<Rightarrow> 'a list \<Rightarrow> 'a list" where
  "add_new x xs = (if x \<in> set xs then xs else xs @ [x])"

definition add_constraint :: "working_state \<Rightarrow> string \<Rightarrow> working_state" where
  "add_constraint s c = (if c \<in> set (ws_constraints s) then s
     else s\<lparr>ws_constraints := ws_constraints s @ [c]\<rparr>)"

definition add_fact :: "working_state \<Rightarrow> fact \<Rightarrow> working_state" where
  "add_fact s f =
     (if list_ex (\<lambda>g. fc_claim g = fc_claim f) (ws_facts s)
      then s\<lparr>ws_facts := map (\<lambda>g. if fc_claim g = fc_claim f
                then g\<lparr>fc_source := or_else (fc_source f) (fc_source g),
                       fc_confirmed_at := or_else (fc_confirmed_at f) (fc_confirmed_at g)\<rparr>
                else g) (ws_facts s)\<rparr>
      else s\<lparr>ws_facts := ws_facts s @ [f]\<rparr>)"

definition add_decision :: "working_state \<Rightarrow> decision \<Rightarrow> working_state" where
  "add_decision s d = s\<lparr>ws_decisions := ws_decisions s @ [d]\<rparr>"

definition record_file_read :: "working_state \<Rightarrow> string \<Rightarrow> working_state" where
  "record_file_read s p = (if p \<in> set (ws_files_read s) then s
     else s\<lparr>ws_files_read := ws_files_read s @ [p]\<rparr>)"

definition record_file_change :: "working_state \<Rightarrow> string \<Rightarrow> working_state" where
  "record_file_change s p = (if p \<in> set (ws_files_changed s) then s
     else s\<lparr>ws_files_changed := ws_files_changed s @ [p]\<rparr>)"

definition record_verification :: "working_state \<Rightarrow> string \<Rightarrow> bool \<Rightarrow> working_state" where
  "record_verification s cmd passed =
     (if passed
      then s\<lparr>ws_passed := add_new cmd (ws_passed s), ws_failed := filter (\<lambda>c. c \<noteq> cmd) (ws_failed s)\<rparr>
      else s\<lparr>ws_failed := add_new cmd (ws_failed s), ws_passed := filter (\<lambda>c. c \<noteq> cmd) (ws_passed s)\<rparr>)"

definition resolve_unresolved :: "working_state \<Rightarrow> string \<Rightarrow> working_state" where
  "resolve_unresolved s item = s\<lparr>ws_unresolved := filter (\<lambda>u. u \<noteq> item) (ws_unresolved s)\<rparr>"

definition push_next_action :: "working_state \<Rightarrow> string \<Rightarrow> working_state" where
  "push_next_action s a = (if a \<in> set (ws_next_actions s) then s
     else s\<lparr>ws_next_actions := ws_next_actions s @ [a]\<rparr>)"

definition shift_next_action :: "working_state \<Rightarrow> working_state" where
  "shift_next_action s = s\<lparr>ws_next_actions := tl (ws_next_actions s)\<rparr>"

definition add_artifact :: "working_state \<Rightarrow> artifact_ref \<Rightarrow> working_state" where
  "add_artifact s a = (if list_ex (\<lambda>b. af_id b = af_id a) (ws_artifacts s) then s
     else s\<lparr>ws_artifacts := ws_artifacts s @ [a]\<rparr>)"

section \<open>Updates from tool results\<close>

record tool_event =
  te_tool :: string
  te_file_path :: "string option"
  te_command :: "string option"
  te_is_error :: "bool option"
  te_content :: "string option"
  te_exit_code :: "int option"
  te_status :: "string option"

definition bash_failure :: "string \<Rightarrow> int option \<Rightarrow> string" where
  "bash_failure cmd code = ''Bash failed (exit '' @
     (case code of None \<Rightarrow> ''?'' | Some c \<Rightarrow> show_int c) @ ''): '' @ take 120 cmd"

definition bash_passed :: "tool_event \<Rightarrow> bool" where
  "bash_passed e \<longleftrightarrow> te_is_error e \<noteq> Some True \<and>
     (te_exit_code e = None \<or> te_exit_code e = Some 0)"

definition apply_bash :: "working_state \<Rightarrow> string \<Rightarrow> tool_event \<Rightarrow> working_state" where
  "apply_bash s cmd e =
     (let s1 = record_verification s cmd (bash_passed e)
      in if \<not> bash_passed e
         then s1\<lparr>ws_unresolved := ws_unresolved s1 @ [bash_failure cmd (te_exit_code e)]\<rparr>
         else s1\<lparr>ws_unresolved := filter (\<lambda>u. \<not> js_includes u ''Bash failed'' \<or>
                   \<not> ends_with u ('': '' @ take 120 cmd)) (ws_unresolved s1)\<rparr>)"

definition apply_tool_event :: "tool_event \<Rightarrow> working_state \<Rightarrow> working_state" where
  "apply_tool_event e s =
     (let tool = te_tool e in
      if te_is_error e \<noteq> Some False \<and> te_status e \<noteq> Some ''success'' \<and> te_status e \<noteq> Some ''blocked'' \<and>
         tool \<noteq> ''Bash'' then s
      else if tool = ''Read'' \<and> te_file_path e \<noteq> None
      then record_file_read s (the (te_file_path e))
      else if (tool = ''Edit'' \<or> tool = ''Write'') \<and> te_file_path e \<noteq> None
      then record_file_change s (the (te_file_path e))
      else if tool = ''Bash'' \<and> te_command e \<noteq> None
      then apply_bash s (the (te_command e)) e
      else if (tool = ''Agent'' \<or> tool = ''ClaudeCode'') \<and> te_status e = Some ''blocked''
      then s\<lparr>ws_unresolved := ws_unresolved s @
               [tool @ '' blocked: '' @ take 120 (default_to (te_content e) [])]\<rparr>
      else s)"

section \<open>Rendering\<close>

definition hex_char :: "nat \<Rightarrow> char" where
  "hex_char d = (if d < 10 then char_of (48 + d) else char_of (87 + d))"

text \<open>\<open>JSON.stringify\<close> of a string.\<close>

definition json_char :: "char \<Rightarrow> string" where
  "json_char c =
     (let n = (of_char c :: nat)
      in if n = 34 then [CHR 0x5C, CHR 0x22]
         else if n = 92 then [CHR 0x5C, CHR 0x5C]
         else if n = 8 then [CHR 0x5C, CHR ''b'']
         else if n = 9 then [CHR 0x5C, CHR ''t'']
         else if n = 10 then [CHR 0x5C, CHR ''n'']
         else if n = 12 then [CHR 0x5C, CHR ''f'']
         else if n = 13 then [CHR 0x5C, CHR ''r'']
         else if n < 32 then [CHR 0x5C, CHR ''u'', CHR ''0'', CHR ''0'', hex_char (n div 16), hex_char (n mod 16)]
         else [c])"

definition json_string :: "string \<Rightarrow> string" where
  "json_string s = [CHR 0x22] @ concat (map json_char s) @ [CHR 0x22]"

definition multi_line :: "string \<Rightarrow> string" where
  "multi_line s = (if CHR 0x0A \<notin> set s then s else json_string s)"

definition bullet_section :: "string \<Rightarrow> string list \<Rightarrow> string list" where
  "bullet_section title items = (if items = [] then [] else (title @ '':'') # map (\<lambda>c. ''  - '' @ c) items)"

definition fact_line :: "fact \<Rightarrow> string" where
  "fact_line f = fc_claim f @
     (if default_to (fc_source f) [] = [] then [] else ''  (source: '' @ default_to (fc_source f) [] @ '')'')"

definition decision_lines :: "decision \<Rightarrow> string list" where
  "decision_lines d = [''  - choice: '' @ dc_choice d, ''    rationale: '' @ dc_rationale d]"

definition artifact_line :: "artifact_ref \<Rightarrow> string" where
  "artifact_line a = ''  - id: '' @ af_id a @ ''  kind: '' @ af_kind a @
     (if default_to (af_path a) [] = [] then [] else ''  path: '' @ default_to (af_path a) [])"

definition verification_lines :: "working_state \<Rightarrow> string list" where
  "verification_lines s =
     (if ws_passed s = [] \<and> ws_failed s = [] then []
      else ''verification:'' #
        (if ws_passed s = [] then [] else ''  passed:'' # map (\<lambda>c. ''    - '' @ c) (ws_passed s)) @
        (if ws_failed s = [] then [] else ''  failed:'' # map (\<lambda>c. ''    - '' @ c) (ws_failed s)))"

definition state_is_empty :: "working_state \<Rightarrow> bool" where
  "state_is_empty s \<longleftrightarrow> ws_objective s = [] \<and> ws_constraints s = [] \<and> ws_facts s = [] \<and>
     ws_decisions s = [] \<and> ws_files_read s = [] \<and> ws_files_changed s = [] \<and> ws_passed s = [] \<and>
     ws_failed s = [] \<and> ws_unresolved s = [] \<and> ws_next_actions s = [] \<and> ws_artifacts s = []"

definition serialize_working_state :: "working_state \<Rightarrow> string" where
  "serialize_working_state s =
     (if state_is_empty s then []
      else join_with new_line
        ([''# WorkingState (structured task context)'', [], ''objective: '' @ multi_line (ws_objective s)] @
         bullet_section ''constraints'' (ws_constraints s) @
         bullet_section ''confirmedFacts'' (map fact_line (ws_facts s)) @
         (if ws_decisions s = [] then [] else ''decisions:'' # concat (map decision_lines (ws_decisions s))) @
         bullet_section ''filesRead'' (ws_files_read s) @
         bullet_section ''filesChanged'' (ws_files_changed s) @
         verification_lines s @
         bullet_section ''unresolved'' (ws_unresolved s) @
         bullet_section ''nextActions'' (ws_next_actions s) @
         (if ws_artifacts s = [] then [] else ''artifacts:'' # map artifact_line (ws_artifacts s)) @
         [[], ''# End of WorkingState'']))"

section \<open>Compaction invariants\<close>

datatype violation =
    DroppedConstraints "string list"
  | DroppedFacts nat
  | DroppedChanges "string list"
  | DroppedFailed "string list"
  | DroppedUnresolved "string list"
  | DroppedObjective
  | DroppedDecisions nat
  | ClearedNextActions
  | DroppedArtifacts nat

definition missing_from :: "'a list \<Rightarrow> 'a list \<Rightarrow> 'a list" where
  "missing_from after before = filter (\<lambda>x. x \<notin> set after) before"

definition compaction_violations :: "working_state \<Rightarrow> working_state \<Rightarrow> violation list" where
  "compaction_violations before after =
     (let c = missing_from (ws_constraints after) (ws_constraints before);
          f = missing_from (map fc_claim (ws_facts after)) (remdups (map fc_claim (ws_facts before)));
          g = missing_from (ws_files_changed after) (ws_files_changed before);
          v = missing_from (ws_failed after) (ws_failed before);
          u = missing_from (ws_unresolved after) (ws_unresolved before);
          d = missing_from (map dc_choice (ws_decisions after)) (remdups (map dc_choice (ws_decisions before)));
          a = missing_from (map af_id (ws_artifacts after)) (remdups (map af_id (ws_artifacts before)))
      in (if c = [] then [] else [DroppedConstraints c]) @
         (if f = [] then [] else [DroppedFacts (length f)]) @
         (if g = [] then [] else [DroppedChanges g]) @
         (if v = [] then [] else [DroppedFailed v]) @
         (if u = [] then [] else [DroppedUnresolved u]) @
         (if ws_objective before \<noteq> [] \<and> ws_objective after = [] then [DroppedObjective] else []) @
         (if d = [] then [] else [DroppedDecisions (length d)]) @
         (if ws_next_actions before \<noteq> [] \<and> ws_next_actions after = [] \<and> ws_unresolved before \<noteq> []
          then [ClearedNextActions] else []) @
         (if a = [] then [] else [DroppedArtifacts (length a)]))"

definition assert_compaction_invariants ::
  "working_state \<Rightarrow> working_state \<Rightarrow> violation list + unit" where
  "assert_compaction_invariants before after =
     (let vs = compaction_violations before after in if vs = [] then Inr () else Inl vs)"

text \<open>
  A compaction is committed only when nothing protected was lost: \<open>maybeCompactWithInvariants\<close>
  with the result of the summariser and the derivation of the new state as arguments.
\<close>

definition compact_with_invariants ::
  "bool \<times> 'm \<Rightarrow> working_state option \<Rightarrow> ('m \<Rightarrow> working_state option) \<Rightarrow> violation list + (bool \<times> 'm)" where
  "compact_with_invariants result before derive =
     (case (fst result, before) of
        (True, Some b) \<Rightarrow> (case derive (snd result) of
            None \<Rightarrow> Inr result
          | Some after \<Rightarrow> (case assert_compaction_invariants b after of
              Inl vs \<Rightarrow> Inl vs | Inr _ \<Rightarrow> Inr result))
      | _ \<Rightarrow> Inr result)"

section \<open>Prompt assembly\<close>

definition assemble_system_prompt :: "string \<Rightarrow> working_state option \<Rightarrow> string" where
  "assemble_system_prompt prompt st = (case st of
      None \<Rightarrow> prompt
    | Some s \<Rightarrow> prompt @ new_line @ new_line @ serialize_working_state s)"

text \<open>\<open>Math.ceil (n / 3.5)\<close>, rounding up \<open>2 * n / 7\<close>.\<close>

definition effective_context_budget :: "int \<Rightarrow> int \<Rightarrow> working_state option \<Rightarrow> int" where
  "effective_context_budget model_max reserve st =
     (let tokens = (case st of
            None \<Rightarrow> 0
          | Some s \<Rightarrow> (2 * int (length (serialize_working_state s)) + 6) div 7)
      in max 0 (model_max - reserve - tokens))"

section \<open>Operations as steps\<close>

datatype ws_op =
    WConstraint string
  | WFact fact
  | WDecision decision
  | WRead string
  | WChange string
  | WVerify string bool
  | WResolve string
  | WPush string
  | WShift
  | WArtifact artifact_ref
  | WTool tool_event

fun ws_step :: "ws_op \<Rightarrow> working_state \<Rightarrow> working_state" where
  "ws_step (WConstraint c) s = add_constraint s c"
| "ws_step (WFact f) s = add_fact s f"
| "ws_step (WDecision d) s = add_decision s d"
| "ws_step (WRead p) s = record_file_read s p"
| "ws_step (WChange p) s = record_file_change s p"
| "ws_step (WVerify c b) s = record_verification s c b"
| "ws_step (WResolve u) s = resolve_unresolved s u"
| "ws_step (WPush a) s = push_next_action s a"
| "ws_step WShift s = shift_next_action s"
| "ws_step (WArtifact a) s = add_artifact s a"
| "ws_step (WTool e) s = apply_tool_event e s"

section \<open>The invariant\<close>

definition ws_inv :: "working_state \<Rightarrow> bool" where
  "ws_inv s \<longleftrightarrow> distinct (ws_constraints s) \<and> distinct (map fc_claim (ws_facts s)) \<and>
     distinct (ws_files_read s) \<and> distinct (ws_files_changed s) \<and> distinct (ws_passed s) \<and>
     distinct (ws_failed s) \<and> set (ws_passed s) \<inter> set (ws_failed s) = {} \<and>
     distinct (ws_next_actions s) \<and> distinct (map af_id (ws_artifacts s))"

lemma add_new_simps [simp]:
  "set (add_new x xs) = insert x (set xs)" "distinct (add_new x xs) = distinct xs"
  by (auto simp: add_new_def)

lemma add_fact_claims:
  "map fc_claim (ws_facts (add_fact s f)) = add_new (fc_claim f) (map fc_claim (ws_facts s))"
  by (simp add: add_fact_def add_new_def list_ex_iff image_iff o_def) (auto; metis)

lemma add_fact_frame [simp]:
  "ws_constraints (add_fact s f) = ws_constraints s" "ws_files_read (add_fact s f) = ws_files_read s"
  "ws_files_changed (add_fact s f) = ws_files_changed s" "ws_passed (add_fact s f) = ws_passed s"
  "ws_failed (add_fact s f) = ws_failed s" "ws_next_actions (add_fact s f) = ws_next_actions s"
  "ws_artifacts (add_fact s f) = ws_artifacts s" "ws_unresolved (add_fact s f) = ws_unresolved s"
  "ws_decisions (add_fact s f) = ws_decisions s" "ws_objective (add_fact s f) = ws_objective s"
  by (simp_all add: add_fact_def)

lemma record_verification_inv: "ws_inv s \<Longrightarrow> ws_inv (record_verification s cmd b)"
  by (auto simp: ws_inv_def record_verification_def)

lemma ws_inv_unresolved [simp]: "ws_inv (s\<lparr>ws_unresolved := us\<rparr>) = ws_inv s"
  by (simp add: ws_inv_def)

lemma simple_op_inv:
  "ws_inv s \<Longrightarrow> ws_inv (add_constraint s c)" "ws_inv s \<Longrightarrow> ws_inv (add_fact s f)"
  "ws_inv s \<Longrightarrow> ws_inv (add_decision s d)" "ws_inv s \<Longrightarrow> ws_inv (record_file_read s p)"
  "ws_inv s \<Longrightarrow> ws_inv (record_file_change s p)" "ws_inv s \<Longrightarrow> ws_inv (push_next_action s a)"
  "ws_inv s \<Longrightarrow> ws_inv (shift_next_action s)" "ws_inv s \<Longrightarrow> ws_inv (resolve_unresolved s u)"
  "ws_inv s \<Longrightarrow> ws_inv (add_artifact s r)"
  by (auto simp: ws_inv_def add_constraint_def add_fact_claims add_decision_def record_file_read_def
      record_file_change_def push_next_action_def shift_next_action_def distinct_tl
      resolve_unresolved_def add_artifact_def list_ex_iff image_iff)

lemma tool_event_inv: "ws_inv s \<Longrightarrow> ws_inv (apply_tool_event e s)"
  by (auto simp: apply_tool_event_def apply_bash_def Let_def simple_op_inv record_verification_inv)

lemma ws_step_inv: "ws_inv s \<Longrightarrow> ws_inv (ws_step x s)"
  by (cases x) (simp_all add: simple_op_inv record_verification_inv tool_event_inv)

interpretation working: invariant_system ws_step ws_inv
  by unfold_locales (rule ws_step_inv)

lemma empty_ws_inv: "ws_inv (empty_working_state objective)"
  by (simp add: ws_inv_def empty_working_state_def)

section \<open>What compaction protects\<close>

definition retains :: "working_state \<Rightarrow> working_state \<Rightarrow> bool" where
  "retains before after \<longleftrightarrow>
     set (ws_constraints before) \<subseteq> set (ws_constraints after) \<and>
     fc_claim ` set (ws_facts before) \<subseteq> fc_claim ` set (ws_facts after) \<and>
     set (ws_files_changed before) \<subseteq> set (ws_files_changed after) \<and>
     set (ws_failed before) \<subseteq> set (ws_failed after) \<and>
     set (ws_unresolved before) \<subseteq> set (ws_unresolved after) \<and>
     (ws_objective before \<noteq> [] \<longrightarrow> ws_objective after \<noteq> []) \<and>
     dc_choice ` set (ws_decisions before) \<subseteq> dc_choice ` set (ws_decisions after) \<and>
     af_id ` set (ws_artifacts before) \<subseteq> af_id ` set (ws_artifacts after)"

lemma missing_from_Nil: "missing_from after before = [] \<longleftrightarrow> set before \<subseteq> set after"
  by (auto simp: missing_from_def filter_empty_conv)

lemma violations_Nil:
  "compaction_violations before after = [] \<longleftrightarrow> retains before after \<and>
     (ws_next_actions before \<noteq> [] \<and> ws_unresolved before \<noteq> [] \<longrightarrow> ws_next_actions after \<noteq> [])"
  by (auto simp: compaction_violations_def Let_def missing_from_Nil retains_def)

text \<open>Operations that only add: no pass of a failed command, nothing resolved or shifted.\<close>

definition additive :: "ws_op \<Rightarrow> bool" where
  "additive x = (case x of
      WVerify c b \<Rightarrow> \<not> b
    | WResolve u \<Rightarrow> False
    | WShift \<Rightarrow> False
    | WTool e \<Rightarrow> te_tool e = ''Bash'' \<longrightarrow> \<not> bash_passed e
    | _ \<Rightarrow> True)"

definition grows :: "working_state \<Rightarrow> working_state \<Rightarrow> bool" where
  "grows s t \<longleftrightarrow> retains s t \<and> set (ws_next_actions s) \<subseteq> set (ws_next_actions t)"

lemma grows_violations: "grows s t \<Longrightarrow> compaction_violations s t = []"
  by (auto simp: grows_def violations_Nil)

lemma grows_refl: "grows s s"
  by (simp add: grows_def retains_def)

lemma grows_trans: "grows s t \<Longrightarrow> grows t u \<Longrightarrow> grows s u"
  unfolding grows_def retains_def
  by (elim conjE, intro conjI; (rule subset_trans, assumption, assumption)?) blast

lemma file_grows: "grows s (record_file_read s p)" "grows s (record_file_change s p)"
  by (auto simp: grows_def retains_def record_file_read_def record_file_change_def)

lemma unresolved_grows: "grows s (s\<lparr>ws_unresolved := ws_unresolved s @ us\<rparr>)"
  by (auto simp: grows_def retains_def)

lemma failure_grows: "grows s (record_verification s c False)"
  by (auto simp: grows_def retains_def record_verification_def)

lemma bash_grows: "\<not> bash_passed e \<Longrightarrow> grows s (apply_bash s c e)"
  using grows_trans [OF failure_grows unresolved_grows] by (simp add: apply_bash_def Let_def)

lemma tool_grows: "te_tool e = ''Bash'' \<longrightarrow> \<not> bash_passed e \<Longrightarrow> grows s (apply_tool_event e s)"
  by (simp add: apply_tool_event_def Let_def grows_refl file_grows unresolved_grows bash_grows)

lemma additive_grows: "additive x \<Longrightarrow> grows s (ws_step x s)"
proof (cases x)
  case (WFact f)
  have "fc_claim ` set (ws_facts (add_fact s f)) = insert (fc_claim f) (fc_claim ` set (ws_facts s))"
    using arg_cong [OF add_fact_claims [of s f], of set] by simp
  then show ?thesis using WFact by (auto simp: grows_def retains_def)
next
  case (WTool e)
  assume "additive x"
  then show ?thesis using WTool by (simp add: additive_def tool_grows)
next
  case (WVerify c b)
  assume "additive x"
  then show ?thesis using WVerify failure_grows by (simp add: additive_def)
qed (auto simp: grows_def retains_def additive_def add_constraint_def add_decision_def
    record_file_read_def record_file_change_def push_next_action_def add_artifact_def)

interpretation growth: guarded_relation ws_step additive "\<lambda>_. True" grows
  by unfold_locales (auto intro: grows_refl additive_grows grows_trans)

section \<open>Rendering\<close>

lemma line_of_join:
  assumes "l \<in> set ls" and "CHR 0x0A \<notin> set l"
  shows "l \<in> set (split_at_char CHR 0x0A (join_with new_line ls))"
proof -
  have "ls \<noteq> []" using assms(1) by auto
  then have "set (split_at_char CHR 0x0A (join_with new_line ls)) =
      (\<Union>w\<in>set ls. set (split_at_char CHR 0x0A w))"
    by (simp add: new_line_def split_join_concat)
  moreover have "l \<in> set (split_at_char CHR 0x0A l)" using split_plain [OF assms(2)] by simp
  ultimately show ?thesis using assms(1) by blast
qed

lemma bullets_mem: "x \<in> set xs \<Longrightarrow> ''  - '' @ x \<in> set (bullet_section title xs)"
  by (auto simp: bullet_section_def)

lemma failed_mem: "x \<in> set (ws_failed s) \<Longrightarrow> ''    - '' @ x \<in> set (verification_lines s)"
  by (auto simp: verification_lines_def)

section \<open>Properties\<close>

text \<open>
  The working state over any sequence of updates and tool results: constraints, claims, paths,
  commands, actions and artifacts are kept without duplicates, and no command is both passed and
  failed.
\<close>

theorem working_state_invariant:
  "let s = fold ws_step ops (empty_working_state objective)
   in distinct (ws_constraints s) \<and> distinct (map fc_claim (ws_facts s)) \<and>
      distinct (ws_files_read s) \<and> distinct (ws_files_changed s) \<and>
      distinct (ws_passed s @ ws_failed s) \<and>
      distinct (ws_next_actions s) \<and> distinct (map af_id (ws_artifacts s))"
  using working.run_inv [OF empty_ws_inv, of ops objective]
  by (simp add: ws_inv_def Let_def)

text \<open>
  The compaction check is exact: it reports nothing if and only if every constraint, claim,
  changed file, failed command, unresolved item, decision and artifact of the old state is in the
  new one, a set objective is still set, and the next actions were not emptied while something
  was unresolved; and a compaction result is committed exactly when there is nothing to report.
\<close>

theorem compaction_check_is_exact:
  "(compaction_violations before after = [] \<longleftrightarrow>
     set (ws_constraints before) \<subseteq> set (ws_constraints after) \<and>
     fc_claim ` set (ws_facts before) \<subseteq> fc_claim ` set (ws_facts after) \<and>
     set (ws_files_changed before) \<subseteq> set (ws_files_changed after) \<and>
     set (ws_failed before) \<subseteq> set (ws_failed after) \<and>
     set (ws_unresolved before) \<subseteq> set (ws_unresolved after) \<and>
     dc_choice ` set (ws_decisions before) \<subseteq> dc_choice ` set (ws_decisions after) \<and>
     af_id ` set (ws_artifacts before) \<subseteq> af_id ` set (ws_artifacts after) \<and>
     \<not> (ws_objective before \<noteq> [] \<and> ws_objective after = []) \<and>
     \<not> (ws_next_actions before \<noteq> [] \<and> ws_unresolved before \<noteq> [] \<and> ws_next_actions after = [])) \<and>
   (compact_with_invariants (True, m) (Some before) (\<lambda>_. Some after) = Inr (True, m) \<longleftrightarrow>
     compaction_violations before after = [])"
  unfolding violations_Nil
  by (auto simp: compact_with_invariants_def assert_compaction_invariants_def violations_Nil
      retains_def Let_def split: sum.splits)

text \<open>
  Work never trips the check: between two snapshots with only additive updates between them
  (no command that had failed passes, nothing is resolved or shifted away) no violation is found.
\<close>

theorem additive_work_is_retained:
  assumes "list_all additive ops"
  shows "compaction_violations s (fold ws_step ops s) = []"
  by (rule grows_violations, rule growth.guarded_run_rel [OF assms]) simp

theorem additive_work_is_retained_witness:
  "compaction_violations (empty_working_state ''x'')
     (fold ws_step [WConstraint ''c'', WVerify ''npm test'' False, WChange ''a.ts''] (empty_working_state ''x'')) = []"
  by (rule additive_work_is_retained) (simp add: additive_def)

text \<open>
  The rendered block: it is empty exactly for an empty state, and otherwise every constraint,
  changed file, failed command and unresolved item that is a single line of text is a line of its
  own in it, so it is in every system prompt.
\<close>

theorem rendering_keeps_protected_items:
  assumes "CHR 0x0A \<notin> set x"
  shows "(serialize_working_state s = [] \<longleftrightarrow> state_is_empty s) \<and>
    (x \<in> set (ws_constraints s) \<union> set (ws_files_changed s) \<union> set (ws_unresolved s) \<longrightarrow>
       ''  - '' @ x \<in> set (split_at_char CHR 0x0A (assemble_system_prompt prompt (Some s)))) \<and>
    (x \<in> set (ws_failed s) \<longrightarrow>
       ''    - '' @ x \<in> set (split_at_char CHR 0x0A (assemble_system_prompt prompt (Some s))))"
proof -
  let ?ls = "[''# WorkingState (structured task context)'', [], ''objective: '' @ multi_line (ws_objective s)] @
         bullet_section ''constraints'' (ws_constraints s) @
         bullet_section ''confirmedFacts'' (map fact_line (ws_facts s)) @
         (if ws_decisions s = [] then [] else ''decisions:'' # concat (map decision_lines (ws_decisions s))) @
         bullet_section ''filesRead'' (ws_files_read s) @
         bullet_section ''filesChanged'' (ws_files_changed s) @
         verification_lines s @
         bullet_section ''unresolved'' (ws_unresolved s) @
         bullet_section ''nextActions'' (ws_next_actions s) @
         (if ws_artifacts s = [] then [] else ''artifacts:'' # map artifact_line (ws_artifacts s)) @
         [[], ''# End of WorkingState'']"
  have ser: "\<not> state_is_empty s \<Longrightarrow> serialize_working_state s = join_with new_line ?ls"
    by (simp add: serialize_working_state_def)
  have prompt: "l \<in> set (split_at_char CHR 0x0A (assemble_system_prompt prompt (Some s)))"
    if "l \<in> set ?ls" "CHR 0x0A \<notin> set l" "\<not> state_is_empty s" for l
  proof -
    have "l \<in> set (split_at_char CHR 0x0A (serialize_working_state s))"
      unfolding ser [OF that(3)] by (rule line_of_join [OF that(1,2)])
    then show ?thesis
      by (simp add: assemble_system_prompt_def new_line_def split_append [of _ _ "CHR 0x0A # _"]
          split_append [of _ "[]", simplified])
  qed
  have "join_with new_line ?ls \<noteq> []" by simp
  with ser have "serialize_working_state s = [] \<longleftrightarrow> state_is_empty s"
    by (cases "state_is_empty s") (simp_all add: serialize_working_state_def)
  moreover have "\<not> state_is_empty s"
    if "x \<in> set (ws_constraints s) \<union> set (ws_files_changed s) \<union> set (ws_unresolved s) \<union> set (ws_failed s)"
    using that by (auto simp: state_is_empty_def)
  moreover have "''  - '' @ x \<in> set ?ls"
    if "x \<in> set (ws_constraints s) \<union> set (ws_files_changed s) \<union> set (ws_unresolved s)"
    using that unfolding set_append by (elim UnE) (blast intro: bullets_mem)+
  moreover have "''    - '' @ x \<in> set ?ls" if "x \<in> set (ws_failed s)"
    using that unfolding set_append by (blast intro: failed_mem)
  moreover have "CHR 0x0A \<notin> set (''  - '' @ x)" "CHR 0x0A \<notin> set (''    - '' @ x)"
    using assms by simp_all
  ultimately show ?thesis using prompt by blast
qed

theorem rendering_keeps_protected_items_witness:
  "''  - keep the API'' \<in> set (split_at_char CHR 0x0A
     (assemble_system_prompt ''P'' (Some (add_constraint (empty_working_state ''o'') ''keep the API''))))"
  using rendering_keeps_protected_items [of "''keep the API''" "add_constraint (empty_working_state ''o'') ''keep the API''" "''P''"]
  by (simp add: add_constraint_def empty_working_state_def)

end
