(* ===== verification/Completion.thy ===== *)
theory Completion
  imports TaskGraph WorkingState
begin

text \<open>
  When a run counts as done: the completion contract
  (\<open>src/src/core/runtime/completionContract.ts\<close>), the deterministic reviewer
  (\<open>reviewer.ts\<close>), the evidence store (\<open>evidence.ts\<close>), the termination policy
  (\<open>terminationPolicy.ts\<close>), the turn outcome (\<open>turnOutcome.ts\<close>), and the part of the coordinator
  (\<open>coordinator.ts\<close>) that feeds them from the working state and the task graph and maps the
  verdict to a run status.

  Messages with characters outside Latin-1 are constructors of a datatype that carry the values
  the text is built from. Events and logs are left out. Whether an exploration profile exists and
  what it requires, and the read target of an analysis request, come from regular expressions on
  the user's message and are inputs.
\<close>

section \<open>The completion contract\<close>

datatype task_kind = Informational | Analysis | Mutation

record acceptance_criterion =
  ac_id :: "string option"
  ac_description :: string
  ac_satisfied :: "bool option"

record verification_state =
  vs_executed :: bool
  vs_passed :: bool
  vs_failed :: "string list"

datatype worker_status = WkPending | WkRunning | WkCompleted | WkFailed | WkCancelled

record worker_summary =
  wk_id :: string
  wk_status :: worker_status

record node_summary =
  nsm_id :: string
  nsm_status :: node_status

record completion_input =
  ci_kind :: task_kind
  ci_model_stopped :: bool
  ci_criteria :: "acceptance_criterion list"
  ci_verification :: verification_state
  ci_graph :: "node_summary list option"
  ci_workers :: "worker_summary list"
  ci_blockers :: "string list"
  ci_changed :: "string list"
  ci_findings :: "string list"
  ci_budget_remaining :: int
  ci_budget_exceeded :: bool
  ci_iterations_used :: "nat option"
  ci_iterations_max :: "nat option"
  ci_cancelled :: bool
  ci_failed :: bool

datatype evidence_note = FilesChanged "string list" | CriteriaMet nat nat

datatype blocker =
    WorkersRunning nat
  | Flagged string
  | GraphUnfinished
  | BudgetExceeded
  | VerificationFailing

datatype completion_verdict =
    VCompleted "evidence_note list" "string list"
  | VPartial "evidence_note list" "string list" "string list"
  | VBlocked "blocker list"
  | VFailed string "evidence_note list"
  | VCancelled string
  | VExhausted string nat nat
  | VIncomplete "string list"

definition first_or :: "string list \<Rightarrow> string \<Rightarrow> string" where
  "first_or xs d = (case xs of [] \<Rightarrow> d | x # _ \<Rightarrow> x)"

definition criterion_key :: "acceptance_criterion \<Rightarrow> string" where
  "criterion_key c = default_to (ac_id c) (ac_description c)"

definition satisfied_keys :: "acceptance_criterion list \<Rightarrow> string list" where
  "satisfied_keys cs = remdups (map criterion_key (filter (\<lambda>c. ac_satisfied c = Some True) cs))"

definition unsatisfied_criteria :: "acceptance_criterion list \<Rightarrow> acceptance_criterion list" where
  "unsatisfied_criteria cs = filter (\<lambda>c. criterion_key c \<notin> set (satisfied_keys cs)) cs"

definition worker_active :: "worker_summary \<Rightarrow> bool" where
  "worker_active w \<longleftrightarrow> wk_status w = WkRunning \<or> wk_status w = WkPending"

definition summary_unfinished :: "node_summary \<Rightarrow> bool" where
  "summary_unfinished n \<longleftrightarrow> nsm_status n \<in> {Pending, Ready, Running, Verifying}"

definition hard_blockers :: "completion_input \<Rightarrow> blocker list" where
  "hard_blockers i =
     (if list_ex worker_active (ci_workers i)
      then [WorkersRunning (length (filter worker_active (ci_workers i)))] else []) @
     map Flagged (ci_blockers i) @
     (case ci_graph i of None \<Rightarrow> []
      | Some ns \<Rightarrow> if list_ex summary_unfinished ns then [GraphUnfinished] else []) @
     (if ci_budget_exceeded i then [BudgetExceeded] else []) @
     (if vs_executed (ci_verification i) \<and> \<not> vs_passed (ci_verification i)
      then [VerificationFailing] else [])"

definition exhausted :: "completion_input \<Rightarrow> (nat \<times> nat) option" where
  "exhausted i = (case (ci_iterations_used i, ci_iterations_max i) of
      (Some u, Some m) \<Rightarrow> if u \<ge> m then Some (u, m) else None
    | _ \<Rightarrow> None)"

definition evaluate_completion :: "completion_input \<Rightarrow> completion_verdict" where
  "evaluate_completion i =
     (let files = (if ci_changed i \<noteq> [] then [FilesChanged (ci_changed i)] else []);
          criteria = ci_criteria i;
          satisfied = satisfied_keys criteria;
          unsatisfied = unsatisfied_criteria criteria;
          evidence = files @ (if satisfied \<noteq> [] then [CriteriaMet (length satisfied) (length criteria)] else []);
          remaining = map ac_description unsatisfied
      in if ci_cancelled i then VCancelled (first_or (ci_blockers i) ''user/system cancelled'')
         else if ci_failed i then VFailed (first_or (ci_blockers i) ''engine/provider failure'') files
         else case exhausted i of
           Some (u, m) \<Rightarrow> VExhausted (''hit iteration limit ('' @ show_nat u @ ''/'' @ show_nat m @ '')'') u m
         | None \<Rightarrow>
           if hard_blockers i \<noteq> [] then VBlocked (hard_blockers i)
           else if ci_kind i = Informational \<or> ci_kind i = Analysis
           then (if criteria = [] \<or> unsatisfied = [] then VCompleted evidence []
                 else VPartial evidence remaining [])
           else if criteria = []
           then (if ci_changed i = [] \<and> satisfied = []
                 then VIncomplete [''produce a verifiable change or declare acceptance criteria'']
                 else if ci_changed i \<noteq> [] \<and> \<not> vs_executed (ci_verification i)
                 then VPartial evidence [''execute verification (typecheck/test/lint)'']
                        [''mutation task with file changes but no verification executed'']
                 else VCompleted evidence [])
           else if unsatisfied = []
           then VCompleted evidence
                  ((if \<not> vs_executed (ci_verification i)
                    then [''acceptance met but verification was not executed''] else []) @ ci_findings i)
           else if ci_changed i = [] then VIncomplete remaining
           else VPartial evidence remaining (ci_findings i))"

section \<open>The reviewer\<close>

datatype review_verdict = RvCompleted | RvPartial | RvBlocked | RvFailed

record review_input =
  ri_kind :: task_kind
  ri_goal_present :: bool
  ri_changed :: "string list"
  ri_executed :: bool
  ri_passed :: bool
  ri_failures :: nat
  ri_blockers :: nat
  ri_unsatisfied :: "string list"
  ri_stale :: "string list"
  ri_scope_excessive :: bool

datatype review_risk = RiskText string | RiskScope nat

record review_result =
  rr_verdict :: review_verdict
  rr_kind :: task_kind
  rr_satisfied :: "string list"
  rr_unsatisfied :: "string list"
  rr_stale :: "string list"
  rr_summary :: string
  rr_risks :: "review_risk list"
  rr_findings :: "string list"

definition review_blockers :: "review_input \<Rightarrow> string list" where
  "review_blockers i =
     (if ri_failures i > 0 then [show_nat (ri_failures i) @ '' unhandled failure(s)''] else []) @
     (if ri_executed i \<and> \<not> ri_passed i then [''verification failed''] else []) @
     (if ri_blockers i > 0 then [show_nat (ri_blockers i) @ '' unresolved blocker(s)''] else [])"

definition verification_summary :: "review_input \<Rightarrow> string \<Rightarrow> string" where
  "verification_summary i failed =
     (if ri_executed i then (if ri_passed i then ''passed'' else failed) else ''not executed'')"

definition review_result_of ::
  "review_input \<Rightarrow> review_verdict \<Rightarrow> string list \<Rightarrow> string list \<Rightarrow> string \<Rightarrow> review_risk list \<Rightarrow>
   string list \<Rightarrow> review_result" where
  "review_result_of i v unsat stale summary risks findings =
     \<lparr>rr_verdict = v, rr_kind = ri_kind i, rr_satisfied = [], rr_unsatisfied = unsat, rr_stale = stale,
      rr_summary = summary, rr_risks = risks, rr_findings = findings\<rparr>"

definition review_run :: "review_input \<Rightarrow> review_result" where
  "review_run i =
     (let blocked = review_blockers i;
          stale = [show_nat (length (ri_stale i)) @ '' stale evidence item(s): '' @ join_with '', '' (ri_stale i)];
          unmet = [show_nat (length (ri_unsatisfied i)) @ '' acceptance criteria unmet: '' @
                   join_with '', '' (ri_unsatisfied i)];
          unchanged = [''mutation task produced no file changes''];
          unverified = [''mutation task with file changes but no verification executed'']
      in if blocked \<noteq> []
         then review_result_of i RvBlocked (ri_unsatisfied i) (ri_stale i)
                (verification_summary i ''failed'') (map RiskText blocked) blocked
         else if ri_stale i \<noteq> []
         then review_result_of i RvPartial (ri_unsatisfied i) (ri_stale i) ''stale'' (map RiskText stale) stale
         else if ri_unsatisfied i \<noteq> []
         then review_result_of i RvPartial (ri_unsatisfied i) [] (verification_summary i ''not passed'')
                (map RiskText unmet) unmet
         else if ri_kind i = Informational
         then review_result_of i RvCompleted [] [] ''not required'' [] []
         else if ri_kind i = Analysis
         then review_result_of i RvCompleted [] [] ''not required for analysis'' [] []
         else if ri_changed i = []
         then review_result_of i RvPartial [] [] ''not executed'' (map RiskText unchanged) unchanged
         else if \<not> ri_executed i
         then review_result_of i RvPartial [] [] ''not executed'' (map RiskText unverified) unverified
         else review_result_of i RvCompleted [] [] (if ri_passed i then ''passed'' else ''executed'')
                (if ri_scope_excessive i then [RiskScope (length (ri_changed i))] else []) [])"

section \<open>The gate at the end of a run\<close>

datatype stop_reason = StopSequence | MaxIterations | StopError | Interrupted | RoutingUnavailable

text \<open>What the coordinator holds when the loop has stopped.\<close>

record gate_input =
  gt_reason :: stop_reason
  gt_output :: string
  gt_kind :: "task_kind option"
  gt_goal_present :: bool
  gt_graph :: "task_graph option"
  gt_state :: working_state
  gt_baseline :: working_state
  gt_exploration :: "acceptance_criterion list option"
  gt_read_target :: nat
  gt_execution_required :: bool
  gt_subtasks :: "string list"
  gt_iteration :: "nat option"
  gt_max_iterations :: nat

definition run_passed :: "gate_input \<Rightarrow> string list" where
  "run_passed g = filter (\<lambda>c. c \<notin> set (ws_passed (gt_baseline g))) (ws_passed (gt_state g))"

definition run_failed :: "gate_input \<Rightarrow> string list" where
  "run_failed g = filter (\<lambda>c. c \<notin> set (ws_failed (gt_baseline g))) (ws_failed (gt_state g))"

definition run_unresolved :: "gate_input \<Rightarrow> string list" where
  "run_unresolved g = filter (\<lambda>u. u \<notin> set (ws_unresolved (gt_baseline g))) (ws_unresolved (gt_state g))"

definition run_executed :: "gate_input \<Rightarrow> bool" where
  "run_executed g \<longleftrightarrow> 0 < length (run_passed g) + length (run_failed g)"

text \<open>The nodes of a graph that is present and not empty.\<close>

definition graph_nodes :: "gate_input \<Rightarrow> task_node list option" where
  "graph_nodes g = (case gt_graph g of
      None \<Rightarrow> None
    | Some tg \<Rightarrow> if 0 < graph_size tg then Some (fst (snapshot_graph tg)) else None)"

definition read_description :: "gate_input \<Rightarrow> string" where
  "read_description g = ''Inspect enough relevant files for evidence ('' @
     show_nat (length (ws_files_read (gt_state g))) @ ''/'' @ show_nat (gt_read_target g) @ '')''"

definition execution_description :: string where
  "execution_description = ''Execute at least one real verification command and report its result''"

definition review_unsatisfied :: "gate_input \<Rightarrow> string list" where
  "review_unsatisfied g =
     (case graph_nodes g of None \<Rightarrow> []
      | Some ns \<Rightarrow> concat (map (\<lambda>n. map (\<lambda>desc. tn_id n @ '': '' @ desc) (tn_criteria n))
          (filter (\<lambda>n. tn_status n \<noteq> Completed) ns))) @
     (case gt_exploration g of None \<Rightarrow> []
      | Some cs \<Rightarrow> map ac_description (filter (\<lambda>c. ac_satisfied c \<noteq> Some True) cs)) @
     (if gt_read_target g > length (ws_files_read (gt_state g)) then [read_description g] else []) @
     (if gt_execution_required g \<and> \<not> run_executed g then [execution_description] else [])"

definition gate_review :: "gate_input \<Rightarrow> review_result" where
  "gate_review g = review_run
     \<lparr>ri_kind = default_to (gt_kind g) Informational,
      ri_goal_present = gt_goal_present g,
      ri_changed = ws_files_changed (gt_state g),
      ri_executed = run_executed g,
      ri_passed = (run_failed g = []),
      ri_failures = length (run_failed g),
      ri_blockers = length (run_unresolved g),
      ri_unsatisfied = review_unsatisfied g,
      ri_stale = [],
      ri_scope_excessive = (20 < length (ws_files_changed (gt_state g)))\<rparr>"

definition node_criteria :: "task_node \<Rightarrow> acceptance_criterion list" where
  "node_criteria n = map (\<lambda>(i, desc). \<lparr>ac_id = Some (tn_id n @ ''::'' @ show_nat i),
     ac_description = desc, ac_satisfied = Some (tn_status n = Completed)\<rparr>) (enumerate 0 (tn_criteria n))"

definition gate_criteria :: "gate_input \<Rightarrow> acceptance_criterion list" where
  "gate_criteria g =
     (case graph_nodes g of None \<Rightarrow> [] | Some ns \<Rightarrow> concat (map node_criteria ns)) @
     default_to (gt_exploration g) [] @
     (if gt_read_target g > 0
      then [\<lparr>ac_id = Some ''workspace-analysis-evidence'', ac_description = read_description g,
             ac_satisfied = Some (length (ws_files_read (gt_state g)) \<ge> gt_read_target g)\<rparr>] else []) @
     (if gt_execution_required g
      then [\<lparr>ac_id = Some ''execution-verification-evidence'', ac_description = execution_description,
             ac_satisfied = Some (run_executed g)\<rparr>] else [])"

definition gate_kind :: "gate_input \<Rightarrow> task_kind" where
  "gate_kind g = default_to (gt_kind g)
     (if ws_files_changed (gt_state g) \<noteq> [] then Mutation else Informational)"

definition gate_contract :: "gate_input \<Rightarrow> completion_input" where
  "gate_contract g =
     \<lparr>ci_kind = gate_kind g, ci_model_stopped = True, ci_criteria = gate_criteria g,
      ci_verification = \<lparr>vs_executed = run_executed g, vs_passed = (run_failed g = []),
                         vs_failed = run_failed g\<rparr>,
      ci_graph = map_option (map (\<lambda>n. \<lparr>nsm_id = tn_id n, nsm_status = tn_status n\<rparr>)) (graph_nodes g),
      ci_workers = map (\<lambda>i. \<lparr>wk_id = i, wk_status = WkRunning\<rparr>) (gt_subtasks g),
      ci_blockers = run_unresolved g, ci_changed = ws_files_changed (gt_state g),
      ci_findings = rr_findings (gate_review g), ci_budget_remaining = 1, ci_budget_exceeded = False,
      ci_iterations_used = None, ci_iterations_max = None, ci_cancelled = False, ci_failed = False\<rparr>"

definition stop_text :: "stop_reason \<Rightarrow> string" where
  "stop_text r = (case r of StopSequence \<Rightarrow> ''stop_sequence'' | MaxIterations \<Rightarrow> ''max_iterations''
     | StopError \<Rightarrow> ''error'' | Interrupted \<Rightarrow> ''interrupted'' | RoutingUnavailable \<Rightarrow> ''routing_unavailable'')"

definition gate_verdict :: "gate_input \<Rightarrow> completion_verdict" where
  "gate_verdict g = (case gt_reason g of
      StopSequence \<Rightarrow> evaluate_completion (gate_contract g)
    | Interrupted \<Rightarrow> VCancelled ''run interrupted''
    | MaxIterations \<Rightarrow> VExhausted ''maximum iterations reached''
        (default_to (gt_iteration g) (gt_max_iterations g)) (gt_max_iterations g)
    | r \<Rightarrow> VFailed (if gt_output g \<noteq> [] then gt_output g else ''run stopped with '' @ stop_text r) [])"

definition target_status :: "gate_input \<Rightarrow> run_status" where
  "target_status g = (case gt_reason g of
      StopSequence \<Rightarrow> (case gate_verdict g of
          VCompleted _ _ \<Rightarrow> RSucceeded | VFailed _ _ \<Rightarrow> RFailed | VCancelled _ \<Rightarrow> RCancelled | _ \<Rightarrow> RBlocked)
    | Interrupted \<Rightarrow> RCancelled
    | MaxIterations \<Rightarrow> RBlocked
    | _ \<Rightarrow> RFailed)"

definition completion_rejection :: "completion_verdict \<Rightarrow> (string \<times> (string list + blocker list)) option" where
  "completion_rejection v = (case v of
      VPartial _ remaining _ \<Rightarrow> Some (''partial'', Inl remaining)
    | VBlocked bs \<Rightarrow> Some (''blocked'', Inr bs)
    | VIncomplete remaining \<Rightarrow> Some (''incomplete'', Inl remaining)
    | _ \<Rightarrow> None)"

section \<open>The outcome of a turn\<close>

datatype completion_status = CoCompleted | CoPartial | CoBlocked | CoFailed | CoCancelled | CoExhausted

definition outcome_status :: "gate_input \<Rightarrow> completion_status" where
  "outcome_status g =
     (if gt_reason g = StopError then CoFailed
      else if gt_reason g = Interrupted then CoCancelled
      else if gt_reason g = MaxIterations then CoExhausted
      else case gate_verdict g of
        VPartial _ _ _ \<Rightarrow> CoPartial | VBlocked _ \<Rightarrow> CoBlocked | VFailed _ _ \<Rightarrow> CoFailed
      | VCancelled _ \<Rightarrow> CoCancelled | VExhausted _ _ _ \<Rightarrow> CoExhausted | VCompleted _ _ \<Rightarrow> CoCompleted
      | VIncomplete _ \<Rightarrow> CoBlocked)"

definition outcome_completed :: "completion_status \<Rightarrow> bool" where
  "outcome_completed s \<longleftrightarrow> s = CoCompleted"

definition outcome_terminal :: "completion_status \<Rightarrow> bool" where
  "outcome_terminal s \<longleftrightarrow> s \<in> {CoCompleted, CoFailed, CoCancelled, CoExhausted}"

definition outcome_should_continue :: "completion_status \<Rightarrow> bool" where
  "outcome_should_continue s \<longleftrightarrow> s = CoPartial \<or> s = CoBlocked"

section \<open>Termination\<close>

datatype termination_decision = Continue | HardAbort | SoftAbort | IterationLimit nat

definition check_termination :: "bool \<Rightarrow> bool \<Rightarrow> nat \<Rightarrow> nat \<Rightarrow> termination_decision" where
  "check_termination hard soft iteration max_it =
     (if hard then HardAbort else if soft then SoftAbort
      else if iteration > max_it then IterationLimit max_it else Continue)"

section \<open>The evidence store\<close>

datatype evidence_kind =
    CommandResult | TestResult | BuildResult | FileChange | ArtifactEvidence | AnalysisResult
  | UserConfirmation

record new_evidence =
  nev_run :: string
  nev_node :: string
  nev_criterion :: "string option"
  nev_kind :: evidence_kind
  nev_summary :: string
  nev_source :: string
  nev_command :: "string option"
  nev_exit_code :: "int option"
  nev_artifact_path :: "string option"
  nev_artifact_hash :: "string option"

record task_evidence = new_evidence +
  tev_id :: nat
  tev_revision :: nat
  tev_valid :: bool

record evidence_store =
  es_evidence :: "(string, task_evidence list) jsmap"
  es_revision :: nat
  es_next :: nat

datatype criterion_state = CrPending | CrSatisfied nat | CrFailed | CrStale

definition new_evidence_store :: evidence_store where
  "new_evidence_store = \<lparr>es_evidence = [], es_revision = 0, es_next = 0\<rparr>"

definition bump_revision :: "evidence_store \<Rightarrow> evidence_store" where
  "bump_revision s = s\<lparr>es_revision := Suc (es_revision s)\<rparr>"

definition node_evidence_of :: "evidence_store \<Rightarrow> string \<Rightarrow> task_evidence list" where
  "node_evidence_of s node = default_to (jm_get (es_evidence s) node) []"

definition stamp_evidence :: "evidence_store \<Rightarrow> new_evidence \<Rightarrow> task_evidence" where
  "stamp_evidence s e = new_evidence.extend e
     \<lparr>tev_id = es_next s, tev_revision = es_revision s, tev_valid = True\<rparr>"

definition store_evidence :: "new_evidence \<Rightarrow> evidence_store \<Rightarrow> evidence_store" where
  "store_evidence e s =
     s\<lparr>es_evidence := jm_set (nev_node e) (node_evidence_of s (nev_node e) @ [stamp_evidence s e]) (es_evidence s),
       es_next := Suc (es_next s)\<rparr>"

definition valid_evidence :: "evidence_store \<Rightarrow> string \<Rightarrow> string option \<Rightarrow> task_evidence list" where
  "valid_evidence s node crit = filter (\<lambda>e. tev_valid e \<and> tev_revision e = es_revision s \<and>
     (default_to crit [] = [] \<or> nev_criterion e = crit)) (node_evidence_of s node)"

definition failing :: "task_evidence \<Rightarrow> bool" where
  "failing e \<longleftrightarrow> nev_exit_code e \<noteq> None \<and> nev_exit_code e \<noteq> Some 0"

definition criterion_status :: "evidence_store \<Rightarrow> string \<Rightarrow> string \<Rightarrow> criterion_state" where
  "criterion_status s node crit =
     (let valid = valid_evidence s node (Some crit) in
      if valid = []
      then let all = filter (\<lambda>e. nev_criterion e = Some crit) (node_evidence_of s node)
           in if list_ex failing all then CrFailed
              else if list_ex (\<lambda>e. \<not> tev_valid e \<or> tev_revision e \<noteq> es_revision s) all then CrStale
              else CrPending
      else if list_ex failing valid then CrFailed
      else CrSatisfied (tev_id (last valid)))"

definition all_criteria :: "evidence_store \<Rightarrow> string \<Rightarrow> string list \<Rightarrow> criterion_state list" where
  "all_criteria s node crits = map (criterion_status s node) crits"

definition evidence_for_run :: "evidence_store \<Rightarrow> string \<Rightarrow> task_evidence list" where
  "evidence_for_run s run = concat (map (filter (\<lambda>e. nev_run e = run)) (jm_values (es_evidence s)))"

definition clear_evidence :: "evidence_store \<Rightarrow> evidence_store" where
  "clear_evidence s = s\<lparr>es_evidence := [], es_revision := 0\<rparr>"

section \<open>Lemmas on the contract\<close>

lemma satisfied_keys_set:
  "set (satisfied_keys cs) = criterion_key ` {c \<in> set cs. ac_satisfied c = Some True}"
  by (auto simp: satisfied_keys_def)

lemma unsatisfied_Nil:
  "unsatisfied_criteria cs = [] \<longleftrightarrow>
     (\<forall>c\<in>set cs. \<exists>d\<in>set cs. criterion_key d = criterion_key c \<and> ac_satisfied d = Some True)"
  by (simp add: unsatisfied_criteria_def filter_empty_conv satisfied_keys_set image_iff) metis

lemma hard_blockers_Nil:
  "hard_blockers i = [] \<longleftrightarrow>
     \<not> list_ex worker_active (ci_workers i) \<and> ci_blockers i = [] \<and>
     (case ci_graph i of None \<Rightarrow> True | Some ns \<Rightarrow> \<not> list_ex summary_unfinished ns) \<and>
     \<not> ci_budget_exceeded i \<and> (vs_executed (ci_verification i) \<longrightarrow> vs_passed (ci_verification i))"
  by (auto simp: hard_blockers_def split: option.splits)

definition verdict_completed :: "completion_verdict \<Rightarrow> bool" where
  "verdict_completed v = (case v of VCompleted _ _ \<Rightarrow> True | _ \<Rightarrow> False)"

text \<open>Exactly when the contract says completed.\<close>

lemma completed_iff:
  "verdict_completed (evaluate_completion i) \<longleftrightarrow>
     \<not> ci_cancelled i \<and> \<not> ci_failed i \<and> exhausted i = None \<and> hard_blockers i = [] \<and>
     unsatisfied_criteria (ci_criteria i) = [] \<and>
     (ci_kind i = Mutation \<and> ci_criteria i = [] \<longrightarrow>
        ci_changed i \<noteq> [] \<and> vs_executed (ci_verification i))"
  by (cases "ci_kind i")
    (auto simp: evaluate_completion_def Let_def verdict_completed_def satisfied_keys_def
      unsatisfied_criteria_def split: option.splits)

lemma gate_completed_iff:
  "verdict_completed (evaluate_completion (gate_contract g)) \<longleftrightarrow>
     gt_subtasks g = [] \<and> run_unresolved g = [] \<and> run_failed g = [] \<and>
     (case graph_nodes g of None \<Rightarrow> True
      | Some ns \<Rightarrow> \<forall>n\<in>set ns. tn_status n \<in> {Completed, Failed, Blocked, Cancelled}) \<and>
     unsatisfied_criteria (gate_criteria g) = [] \<and>
     (gate_kind g = Mutation \<and> gate_criteria g = [] \<longrightarrow>
        ws_files_changed (gt_state g) \<noteq> [] \<and> run_executed g)"
proof -
  have st: "(s = Completed \<or> s = Failed \<or> s = Blocked \<or> s = Cancelled) \<longleftrightarrow>
      (s \<noteq> Pending \<and> s \<noteq> Ready \<and> s \<noteq> Running \<and> s \<noteq> Verifying)" for s
    by (cases s) simp_all
  have workers: "list_ex worker_active (map (\<lambda>i. \<lparr>wk_id = i, wk_status = WkRunning\<rparr>) xs) \<longleftrightarrow> xs \<noteq> []"
    for xs by (cases xs) (simp_all add: worker_active_def)
  have graph: "(case ci_graph (gate_contract g) of None \<Rightarrow> True | Some ns \<Rightarrow> \<not> list_ex summary_unfinished ns) \<longleftrightarrow>
      (case graph_nodes g of None \<Rightarrow> True
        | Some ns \<Rightarrow> \<forall>n\<in>set ns. tn_status n \<in> {Completed, Failed, Blocked, Cancelled})"
    by (cases "graph_nodes g") (simp_all add: gate_contract_def list_ex_iff summary_unfinished_def st)
  have parts: "\<not> ci_cancelled (gate_contract g)" "\<not> ci_failed (gate_contract g)"
    "exhausted (gate_contract g) = None" "\<not> ci_budget_exceeded (gate_contract g)"
    "ci_blockers (gate_contract g) = run_unresolved g" "ci_kind (gate_contract g) = gate_kind g"
    "ci_criteria (gate_contract g) = gate_criteria g"
    "ci_changed (gate_contract g) = ws_files_changed (gt_state g)"
    "vs_executed (ci_verification (gate_contract g)) = run_executed g"
    "vs_passed (ci_verification (gate_contract g)) = (run_failed g = [])"
    "list_ex worker_active (ci_workers (gate_contract g)) \<longleftrightarrow> gt_subtasks g \<noteq> []"
    by (simp_all add: gate_contract_def exhausted_def workers)
  have ex: "run_failed g \<noteq> [] \<longrightarrow> run_executed g" by (simp add: run_executed_def)
  show ?thesis
    unfolding completed_iff hard_blockers_Nil graph parts(3-) using ex parts(1,2,4) by blast
qed

section \<open>Criterion keys\<close>

lemma show_nat_no_colon: "CHR '':'' \<notin> set (show_nat n)"
proof (induction n rule: show_nat.induct)
  case (1 n)
  have "CHR '':'' \<noteq> digit_char d" if "d < 10" for d
  proof
    assume "CHR '':'' = digit_char d"
    then have "(of_char (digit_char d) :: nat) = of_char CHR '':''" by simp
    then have "(48 + d) mod 256 = 58" by (simp add: digit_char_def)
    with that show False by simp
  qed
  with 1 show ?case by (subst show_nat.simps) auto
qed

lemma show_nat_inj: "show_nat m = show_nat n \<Longrightarrow> m = n"
proof (induction m arbitrary: n rule: show_nat.induct)
  case (1 m)
  have digit: "digit_char a = digit_char b \<Longrightarrow> a = b" if "a < 10" "b < 10" for a b
  proof -
    assume "digit_char a = digit_char b"
    then have "(of_char (digit_char a) :: nat) = of_char (digit_char b)" by simp
    with that show "a = b" by (simp add: digit_char_def)
  qed
  have len: "length (show_nat k) = 1 \<longleftrightarrow> k < 10" for k
    by (subst show_nat.simps) simp
  have same: "m < 10 \<longleftrightarrow> n < 10" using len [of m] len [of n] 1(2) by simp
  show ?case
  proof (cases "m < 10")
    case True
    with same 1(2) digit show ?thesis by (simp add: show_nat.simps [of m] show_nat.simps [of n])
  next
    case False
    with same 1(2) have "show_nat (m div 10) = show_nat (n div 10)"
      "digit_char (m mod 10) = digit_char (n mod 10)"
      by (simp_all add: show_nat.simps [of m] show_nat.simps [of n])
    with 1(1) [OF False] digit [of "m mod 10" "n mod 10"] have "m div 10 = n div 10" "m mod 10 = n mod 10"
      by simp_all
    then show ?thesis by (metis div_mult_mod_eq)
  qed
qed

lemma append_colon_inj:
  assumes "a @ CHR '':'' # x = b @ CHR '':'' # y" "CHR '':'' \<notin> set x" "CHR '':'' \<notin> set y"
  shows "a = b \<and> x = y"
  using assms
proof (induction a arbitrary: b)
  case Nil
  then show ?case by (cases b) auto
next
  case (Cons c a)
  then show ?case by (cases b) auto
qed

lemma node_key_inj:
  "a @ ''::'' @ show_nat i = b @ ''::'' @ show_nat j \<Longrightarrow> a = b \<and> i = j"
proof -
  assume "a @ ''::'' @ show_nat i = b @ ''::'' @ show_nat j"
  then have "(a @ '':'') @ CHR '':'' # show_nat i = (b @ '':'') @ CHR '':'' # show_nat j" by simp
  from append_colon_inj [OF this show_nat_no_colon show_nat_no_colon] show ?thesis
    by (auto dest: show_nat_inj)
qed

definition exploration_ids :: "string list" where
  "exploration_ids = [''project-file-sample'', ''project-root-context'', ''project-source-areas'',
     ''project-entrypoints'', ''project-tests'']"

definition exploration_ok :: "gate_input \<Rightarrow> bool" where
  "exploration_ok g \<longleftrightarrow>
     (case gt_exploration g of None \<Rightarrow> True | Some cs \<Rightarrow> map ac_id cs = map Some exploration_ids)"

lemma exploration_key:
  assumes "exploration_ok g" "c \<in> set (default_to (gt_exploration g) [])"
  obtains k where "ac_id c = Some k" "criterion_key c = k" "k \<in> set exploration_ids" "CHR '':'' \<notin> set k"
proof -
  obtain cs where cs: "gt_exploration g = Some cs" "c \<in> set cs" "map ac_id cs = map Some exploration_ids"
    using assms by (cases "gt_exploration g") (auto simp: exploration_ok_def)
  from cs(2) have "ac_id c \<in> set (map ac_id cs)" by simp
  then obtain k where "ac_id c = Some k" "k \<in> set exploration_ids" unfolding cs(3) by auto
  moreover from this have "CHR '':'' \<notin> set k" by (auto simp: exploration_ids_def)
  ultimately show thesis using that by (simp add: criterion_key_def)
qed

lemma exploration_unique:
  assumes "exploration_ok g" "c \<in> set (default_to (gt_exploration g) [])"
    "d \<in> set (default_to (gt_exploration g) [])" "ac_id c = ac_id d"
  shows "c = d"
proof -
  obtain cs where cs: "gt_exploration g = Some cs" "map ac_id cs = map Some exploration_ids"
    using assms by (cases "gt_exploration g") (auto simp: exploration_ok_def)
  have "distinct (map ac_id cs)" unfolding cs(2) by (simp add: exploration_ids_def)
  with assms cs(1) show ?thesis by (auto simp: distinct_map dest: inj_onD)
qed

text \<open>
  When all criteria of the gate are met, every node with criteria is completed: the keys of graph
  criteria are unique and differ from the others when no other key has a colon.
\<close>

lemma node_criteria_iff:
  "c \<in> set (node_criteria n) \<longleftrightarrow> (\<exists>i<length (tn_criteria n). c =
     \<lparr>ac_id = Some (tn_id n @ ''::'' @ show_nat i), ac_description = tn_criteria n ! i,
      ac_satisfied = Some (tn_status n = Completed)\<rparr>)"
proof
  assume "c \<in> set (node_criteria n)"
  then show "\<exists>i<length (tn_criteria n). c =
     \<lparr>ac_id = Some (tn_id n @ ''::'' @ show_nat i), ac_description = tn_criteria n ! i,
      ac_satisfied = Some (tn_status n = Completed)\<rparr>"
    by (auto simp: node_criteria_def in_set_enumerate_eq)
next
  assume "\<exists>i<length (tn_criteria n). c =
     \<lparr>ac_id = Some (tn_id n @ ''::'' @ show_nat i), ac_description = tn_criteria n ! i,
      ac_satisfied = Some (tn_status n = Completed)\<rparr>"
  then obtain i where i: "i < length (tn_criteria n)" and c: "c =
     \<lparr>ac_id = Some (tn_id n @ ''::'' @ show_nat i), ac_description = tn_criteria n ! i,
      ac_satisfied = Some (tn_status n = Completed)\<rparr>" by blast
  have "(i, tn_criteria n ! i) \<in> set (enumerate 0 (tn_criteria n))"
    using i by (simp add: in_set_enumerate_eq)
  then show "c \<in> set (node_criteria n)" unfolding node_criteria_def c by force
qed

lemma gate_criteria_cases:
  assumes "c \<in> set (gate_criteria g)"
    and "exploration_ok g"
  shows "(\<exists>ns n. graph_nodes g = Some ns \<and> n \<in> set ns \<and> c \<in> set (node_criteria n)) \<or>
    CHR '':'' \<notin> set (criterion_key c)"
proof -
  consider ns n where "graph_nodes g = Some ns" "n \<in> set ns" "c \<in> set (node_criteria n)"
    | "c \<in> set (default_to (gt_exploration g) [])"
    | "ac_id c = Some ''workspace-analysis-evidence''"
    | "ac_id c = Some ''execution-verification-evidence''"
    using assms(1) by (cases "graph_nodes g") (auto simp: gate_criteria_def split: if_splits)
  then show ?thesis
  proof cases
    case 2
    with assms(2) show ?thesis by (metis exploration_key)
  qed (auto simp: criterion_key_def)
qed

lemma all_met_nodes_completed:
  assumes met: "unsatisfied_criteria (gate_criteria g) = []"
    and ex: "exploration_ok g"
    and g: "graph_nodes g = Some ns" "n \<in> set ns" "tn_criteria n \<noteq> []"
    and uniq: "\<And>m. m \<in> set ns \<Longrightarrow> tn_id m = tn_id n \<Longrightarrow> m = n"
  shows "tn_status n = Completed"
proof -
  let ?c = "\<lparr>ac_id = Some (tn_id n @ ''::'' @ show_nat 0), ac_description = tn_criteria n ! 0,
     ac_satisfied = Some (tn_status n = Completed)\<rparr>"
  have "?c \<in> set (node_criteria n)" using g(3) by (auto simp: node_criteria_iff)
  then have "?c \<in> set (gate_criteria g)" using g by (auto simp: gate_criteria_def)
  with met obtain d where d: "d \<in> set (gate_criteria g)" "criterion_key d = criterion_key ?c"
    "ac_satisfied d = Some True"
    unfolding unsatisfied_Nil by blast
  have key: "criterion_key ?c = tn_id n @ ''::'' @ show_nat 0" by (simp add: criterion_key_def)
  then have "CHR '':'' \<in> set (criterion_key d)" using d(2) by simp
  then obtain m where m: "m \<in> set ns" "d \<in> set (node_criteria m)"
    using gate_criteria_cases [OF d(1) ex] g(1) by auto
  then obtain i where "d = \<lparr>ac_id = Some (tn_id m @ ''::'' @ show_nat i), ac_description = tn_criteria m ! i,
     ac_satisfied = Some (tn_status m = Completed)\<rparr>" by (auto simp: node_criteria_iff)
  then have "tn_id m @ ''::'' @ show_nat i = tn_id n @ ''::'' @ show_nat 0" "tn_status m = Completed"
    using d(2,3) key by (simp_all add: criterion_key_def)
  with node_key_inj uniq [OF m(1)] show ?thesis by blast
qed

lemma keyed_unique:
  assumes "x \<in> E \<or> x = w \<or> x = v" "y \<in> E \<or> y = w \<or> y = v"
    and "\<forall>z\<in>E. key z \<in> I" "inj_on key E" "key w \<notin> I" "key v \<notin> I" "key w \<noteq> key v"
    and "key x = key y"
  shows "x = y"
  using assms by (metis inj_onD)

lemma gate_key_unique:
  assumes "exploration_ok g" "c \<in> set (gate_criteria g)" "d \<in> set (gate_criteria g)"
    and "criterion_key d = criterion_key c" "CHR '':'' \<notin> set (criterion_key c)"
  shows "d = c"
proof -
  have kinds: "x \<in> set (default_to (gt_exploration g) []) \<or>
      x = \<lparr>ac_id = Some ''workspace-analysis-evidence'', ac_description = read_description g,
             ac_satisfied = Some (length (ws_files_read (gt_state g)) \<ge> gt_read_target g)\<rparr> \<or>
      x = \<lparr>ac_id = Some ''execution-verification-evidence'', ac_description = execution_description,
             ac_satisfied = Some (run_executed g)\<rparr>"
    if "x \<in> set (gate_criteria g)" "CHR '':'' \<notin> set (criterion_key x)" for x
    using that by (cases "graph_nodes g")
      (auto simp: gate_criteria_def node_criteria_iff criterion_key_def split: if_splits)
  have "criterion_key x \<in> set exploration_ids" if "x \<in> set (default_to (gt_exploration g) [])" for x
    using exploration_key [OF assms(1) that] by metis
  moreover have "''workspace-analysis-evidence'' \<notin> set exploration_ids"
    "''execution-verification-evidence'' \<notin> set exploration_ids"
    by (simp_all add: exploration_ids_def)
  moreover have "x = y" if "x \<in> set (default_to (gt_exploration g) [])"
    "y \<in> set (default_to (gt_exploration g) [])" "criterion_key x = criterion_key y" for x y
  proof -
    have "ac_id x = ac_id y"
      using exploration_key [OF assms(1) that(1)] exploration_key [OF assms(1) that(2)] that(3) by metis
    with that show ?thesis by (intro exploration_unique [OF assms(1)])
  qed
  ultimately have facts: "\<forall>x\<in>set (default_to (gt_exploration g) []). criterion_key x \<in> set exploration_ids"
    "inj_on criterion_key (set (default_to (gt_exploration g) []))"
    "''workspace-analysis-evidence'' \<notin> set exploration_ids"
    "''execution-verification-evidence'' \<notin> set exploration_ids"
    by (blast, blast intro: inj_onI, blast+)
  have d: "CHR '':'' \<notin> set (criterion_key d)" using assms(4,5) by simp
  show ?thesis
    by (rule keyed_unique [OF kinds [OF assms(3) d] kinds [OF assms(2,5)] facts(1,2) _ _ _ assms(4)])
      (use facts(3,4) in \<open>simp_all add: criterion_key_def\<close>)
qed

text \<open>With all criteria of the gate met, the reviewer finds nothing unsatisfied.\<close>

lemma met_criterion:
  assumes "unsatisfied_criteria (gate_criteria g) = []" "exploration_ok g"
    and "c \<in> set (gate_criteria g)" "CHR '':'' \<notin> set (criterion_key c)"
  shows "ac_satisfied c = Some True"
  using assms(1) gate_key_unique [OF assms(2,3) _ _ assms(4)] assms(3)
  unfolding unsatisfied_Nil by metis

lemma review_all_met:
  assumes met: "unsatisfied_criteria (gate_criteria g) = []" and ex: "exploration_ok g"
    and uniq: "\<And>ns m n. graph_nodes g = Some ns \<Longrightarrow> m \<in> set ns \<Longrightarrow> n \<in> set ns \<Longrightarrow> tn_id m = tn_id n \<Longrightarrow> m = n"
  shows "review_unsatisfied g = []"
proof -
  have "tn_criteria n = []" if "graph_nodes g = Some ns" "n \<in> set ns" "tn_status n \<noteq> Completed" for ns n
    using all_met_nodes_completed [OF met ex that(1,2)] uniq that by metis
  then have "(case graph_nodes g of None \<Rightarrow> []
      | Some ns \<Rightarrow> concat (map (\<lambda>n. map (\<lambda>desc. tn_id n @ '': '' @ desc) (tn_criteria n))
          (filter (\<lambda>n. tn_status n \<noteq> Completed) ns))) = []"
    by (auto split: option.splits)
  moreover have "ac_satisfied c = Some True" if "c \<in> set (default_to (gt_exploration g) [])" for c
  proof (rule met_criterion [OF met ex])
    show "c \<in> set (gate_criteria g)" using that by (simp add: gate_criteria_def)
    show "CHR '':'' \<notin> set (criterion_key c)" using exploration_key [OF ex that] by metis
  qed
  moreover have "gt_read_target g \<le> length (ws_files_read (gt_state g))"
    using met_criterion [OF met ex, of "\<lparr>ac_id = Some ''workspace-analysis-evidence'',
        ac_description = read_description g,
        ac_satisfied = Some (length (ws_files_read (gt_state g)) \<ge> gt_read_target g)\<rparr>"]
    by (cases "gt_read_target g = 0") (simp_all add: gate_criteria_def criterion_key_def)
  moreover have "run_executed g" if "gt_execution_required g"
    using met_criterion [OF met ex, of "\<lparr>ac_id = Some ''execution-verification-evidence'',
        ac_description = execution_description, ac_satisfied = Some (run_executed g)\<rparr>"] that
    by (simp add: gate_criteria_def criterion_key_def)
  ultimately show ?thesis
    by (cases "gt_exploration g") (auto simp: review_unsatisfied_def filter_empty_conv)
qed

text \<open>Conversely, with nothing unsatisfied for the reviewer all criteria are met.\<close>

lemma review_met_all:
  assumes "review_unsatisfied g = []"
  shows "unsatisfied_criteria (gate_criteria g) = []"
proof -
  have "ac_satisfied c = Some True" if "c \<in> set (gate_criteria g)" for c
    using assms that
    by (cases "graph_nodes g"; cases "gt_exploration g")
      (auto simp: review_unsatisfied_def gate_criteria_def node_criteria_iff filter_empty_conv
        split: if_splits)
  then show ?thesis unfolding unsatisfied_Nil by blast
qed

lemma graph_nodes_list: "graph_nodes g = Some ns \<Longrightarrow> \<exists>tg. gt_graph g = Some tg \<and> ns = list_nodes tg"
  by (auto simp: graph_nodes_def snapshot_graph_def split: option.splits if_splits)

lemma wf_nodes_unique:
  "graph_wf tg \<Longrightarrow> m \<in> set (list_nodes tg) \<Longrightarrow> n \<in> set (list_nodes tg) \<Longrightarrow> tn_id m = tn_id n \<Longrightarrow> m = n"
  unfolding graph_wf_def list_nodes_def by (metis jm_values_iff option.inject)

section \<open>Repeated commands\<close>

text \<open>
  A tool event that repeats a command with the outcome it had before the run, or that only reads
  or changes files.
\<close>

definition repeats :: "working_state \<Rightarrow> tool_event \<Rightarrow> bool" where
  "repeats base e \<longleftrightarrow> te_tool e \<in> {''Read'', ''Edit'', ''Write''} \<or>
     te_tool e = ''Bash'' \<and> (case te_command e of None \<Rightarrow> False | Some c \<Rightarrow>
       if bash_passed e then c \<in> set (ws_passed base)
       else c \<in> set (ws_failed base) \<and> bash_failure c (te_exit_code e) \<in> set (ws_unresolved base))"

definition nothing_new :: "working_state \<Rightarrow> working_state \<Rightarrow> bool" where
  "nothing_new base s \<longleftrightarrow> ws_passed s = ws_passed base \<and> ws_failed s = ws_failed base \<and>
     set (ws_unresolved s) \<subseteq> set (ws_unresolved base)"

lemma repeated_bash:
  assumes "set (ws_passed base) \<inter> set (ws_failed base) = {}" and "nothing_new base s"
    and "if bash_passed e then c \<in> set (ws_passed base)
         else c \<in> set (ws_failed base) \<and> bash_failure c (te_exit_code e) \<in> set (ws_unresolved base)"
  shows "nothing_new base (apply_bash s c e)"
proof -
  have keep: "filter (\<lambda>x. x \<noteq> c) xs = xs" if "c \<notin> set xs" for xs :: "string list"
    using that by (induction xs) auto
  show ?thesis
    using assms keep [of "ws_passed base"] keep [of "ws_failed base"]
    by (cases "bash_passed e")
      (auto simp: nothing_new_def apply_bash_def record_verification_def add_new_def Let_def)
qed

lemma repeated_event:
  assumes "set (ws_passed base) \<inter> set (ws_failed base) = {}" and "repeats base e"
    and "nothing_new base s"
  shows "nothing_new base (apply_tool_event e s)"
proof (cases "te_tool e = ''Bash''")
  case True
  then obtain c where "te_command e = Some c"
    "if bash_passed e then c \<in> set (ws_passed base)
     else c \<in> set (ws_failed base) \<and> bash_failure c (te_exit_code e) \<in> set (ws_unresolved base)"
    using assms(2) by (auto simp: repeats_def split: option.splits)
  with repeated_bash [OF assms(1,3)] True show ?thesis by (simp add: apply_tool_event_def)
next
  case False
  then have "te_tool e \<in> {''Read'', ''Edit'', ''Write''}" using assms(2) by (simp add: repeats_def)
  then have "te_tool e \<noteq> ''Bash''" "te_tool e \<noteq> ''Agent''" "te_tool e \<noteq> ''ClaudeCode''" by auto
  then show ?thesis
    using assms(3) by (simp add: apply_tool_event_def Let_def nothing_new_def record_file_read_def
        record_file_change_def)
qed

lemma repeated_events:
  assumes "set (ws_passed base) \<inter> set (ws_failed base) = {}" and "list_all (repeats base) es"
  shows "nothing_new base (fold apply_tool_event es base)"
proof -
  have "nothing_new base s \<Longrightarrow> nothing_new base (fold apply_tool_event es s)" for s
    using assms(2) by (induction es arbitrary: s) (auto intro: repeated_event [OF assms(1)])
  then show ?thesis by (simp add: nothing_new_def)
qed

section \<open>The evidence store\<close>

datatype evidence_op = EvRecord new_evidence | EvBump | EvClear

fun evidence_step :: "evidence_op \<Rightarrow> evidence_store \<Rightarrow> evidence_store" where
  "evidence_step (EvRecord e) s = store_evidence e s"
| "evidence_step EvBump s = bump_revision s"
| "evidence_step EvClear s = clear_evidence s"

definition evidence_inv :: "evidence_store \<Rightarrow> bool" where
  "evidence_inv s \<longleftrightarrow> (\<forall>node. \<forall>e\<in>set (node_evidence_of s node).
     tev_valid e \<and> tev_revision e \<le> es_revision s)"

lemma node_evidence_store:
  "node_evidence_of (store_evidence e s) node =
     (if node = nev_node e then node_evidence_of s node @ [stamp_evidence s e] else node_evidence_of s node)"
  by (simp add: node_evidence_of_def store_evidence_def)

lemma stamp_simps [simp]:
  "tev_valid (stamp_evidence s e)" "tev_revision (stamp_evidence s e) = es_revision s"
  "nev_criterion (stamp_evidence s e) = nev_criterion e" "nev_exit_code (stamp_evidence s e) = nev_exit_code e"
  by (simp_all add: stamp_evidence_def new_evidence.defs)

lemma evidence_step_inv: "evidence_inv s \<Longrightarrow> evidence_inv (evidence_step x s)"
proof (cases x)
  case (EvRecord e)
  assume "evidence_inv s"
  then show ?thesis
    using EvRecord by (auto simp: evidence_inv_def node_evidence_store) (simp_all add: store_evidence_def)
next
  case EvBump
  assume "evidence_inv s"
  then show ?thesis
    using EvBump by (auto simp: evidence_inv_def bump_revision_def node_evidence_of_def le_SucI)
next
  case EvClear
  then show ?thesis by (simp add: evidence_inv_def clear_evidence_def node_evidence_of_def)
qed

interpretation evidence: invariant_system evidence_step evidence_inv
  by unfold_locales (rule evidence_step_inv)

lemma new_evidence_inv: "evidence_inv new_evidence_store"
  by (simp add: evidence_inv_def new_evidence_store_def node_evidence_of_def)

lemma valid_evidence_set:
  "evidence_inv s \<Longrightarrow> crit \<noteq> [] \<Longrightarrow> set (valid_evidence s node (Some crit)) =
     {e \<in> set (node_evidence_of s node). nev_criterion e = Some crit \<and> tev_revision e = es_revision s}"
  by (auto simp: valid_evidence_def evidence_inv_def)

lemma satisfied_iff:
  assumes "evidence_inv s" "crit \<noteq> []"
  shows "(\<exists>i. criterion_status s node crit = CrSatisfied i) \<longleftrightarrow>
    (\<exists>e\<in>set (node_evidence_of s node). nev_criterion e = Some crit \<and> tev_revision e = es_revision s) \<and>
    (\<forall>e\<in>set (node_evidence_of s node). nev_criterion e = Some crit \<and> tev_revision e = es_revision s \<longrightarrow>
       \<not> failing e)"
proof (cases "valid_evidence s node (Some crit) = []")
  case True
  then have "\<not> (\<exists>e\<in>set (node_evidence_of s node). nev_criterion e = Some crit \<and> tev_revision e = es_revision s)"
    using valid_evidence_set [OF assms, of node] by auto
  then show ?thesis using True by (simp add: criterion_status_def Let_def)
next
  case False
  then obtain e where "e \<in> set (valid_evidence s node (Some crit))" by (meson last_in_set)
  then show ?thesis
    using False valid_evidence_set [OF assms, of node]
    by (auto simp: criterion_status_def Let_def list_ex_iff)
qed

section \<open>Properties\<close>

text \<open>
  (C8) Success is earned: the gate moves a run to succeeded only if the model stopped by itself, no
  subtask is running, nothing this run left unresolved, no command is failing that was not failing
  before, every node of the plan is completed, failed, blocked or cancelled, every node that
  states acceptance criteria is completed; and a modifying task without any criterion has changed
  files and a verification that ran.
\<close>

theorem success_is_earned:
  assumes "target_status g = RSucceeded" and "gt_graph g = Some (fold graph_step ops empty_graph)"
    and "exploration_ok g"
  shows "gt_reason g = StopSequence \<and> gt_subtasks g = [] \<and> run_unresolved g = [] \<and> run_failed g = [] \<and>
    (\<forall>n\<in>set (list_nodes (fold graph_step ops empty_graph)).
       tn_status n \<in> {Completed, Failed, Blocked, Cancelled} \<and>
       (tn_criteria n = [] \<or> tn_status n = Completed)) \<and>
    (gate_kind g = Mutation \<and> gate_criteria g = [] \<longrightarrow>
       ws_files_changed (gt_state g) \<noteq> [] \<and> run_executed g)"
proof -
  let ?tg = "fold graph_step ops empty_graph"
  have wf: "graph_wf ?tg" by (rule graph_keys.run_inv [OF empty_graph_wf])
  have stop: "gt_reason g = StopSequence"
    using assms(1) by (auto simp: target_status_def split: stop_reason.splits)
  then have fin: "verdict_completed (evaluate_completion (gate_contract g))"
    using assms(1) by (auto simp: target_status_def gate_verdict_def verdict_completed_def
        split: completion_verdict.splits)
  note facts = fin [unfolded gate_completed_iff]
  have "tn_status n \<in> {Completed, Failed, Blocked, Cancelled} \<and> (tn_criteria n = [] \<or> tn_status n = Completed)"
    if n: "n \<in> set (list_nodes ?tg)" for n
  proof -
    have "graph_nodes g = Some (list_nodes ?tg)"
      using n assms(2) by (auto simp: graph_nodes_def snapshot_graph_def graph_size_def list_nodes_def)
    with facts n all_met_nodes_completed [OF _ assms(3) this n] wf_nodes_unique [OF wf _ n] show ?thesis
      by auto
  qed
  with stop facts show ?thesis by blast
qed

definition sample_gate :: "gate_input" where
  "sample_gate = \<lparr>gt_reason = StopSequence, gt_output = ''ok'', gt_kind = Some Mutation,
     gt_goal_present = True,
     gt_graph = Some (fold graph_step [GAdd (sample_add ''a'' []\<lparr>ni_criteria := Some [''builds'']\<rparr>),
       GStart ''a'', GComplete ''a'' None []] empty_graph),
     gt_state = record_file_change (record_verification (empty_working_state ''x'') ''npm test'' True) ''a.ts'',
     gt_baseline = empty_working_state ''x'', gt_exploration = None, gt_read_target = 0,
     gt_execution_required = False, gt_subtasks = [], gt_iteration = None, gt_max_iterations = 30\<rparr>"

lemmas gate_eval = target_status_def gate_verdict_def gate_contract_def gate_review_def gate_criteria_def
  graph_nodes_def snapshot_graph_def graph_size_def list_nodes_def run_passed_def run_failed_def
  run_unresolved_def run_executed_def review_unsatisfied_def node_criteria_def gate_kind_def
  evaluate_completion_def exhausted_def hard_blockers_def unsatisfied_criteria_def satisfied_keys_def
  criterion_key_def review_run_def review_blockers_def review_result_of_def summary_unfinished_def
  empty_working_state_def record_file_change_def record_verification_def add_new_def

theorem success_is_earned_witness:
  "target_status sample_gate = RSucceeded \<and>
   map tn_status (list_nodes (the (gt_graph sample_gate))) = [Completed]"
proof -
  have s: "target_status sample_gate = RSucceeded"
    by (simp add: sample_gate_def gate_eval graph_eval satisfied_keys_set image_iff)
  have e: "exploration_ok sample_gate" by (simp add: sample_gate_def exploration_ok_def)
  have g: "gt_graph sample_gate = Some (fold graph_step [GAdd (sample_add ''a'' []\<lparr>ni_criteria := Some [''builds'']\<rparr>),
       GStart ''a'', GComplete ''a'' None []] empty_graph)"
    by (simp add: sample_gate_def)
  obtain n where n: "list_nodes (the (gt_graph sample_gate)) = [n]" "tn_criteria n \<noteq> []"
    by (simp add: sample_gate_def graph_eval list_nodes_def)
  from success_is_earned [OF s g e] s n g show ?thesis by auto
qed

text \<open>
  The contract and the reviewer, fed by the gate with a known task kind. When the contract
  says completed, the reviewer says completed, except for a modifying task that changed no file or
  ran no verification, where it says partial. When the reviewer says completed, the contract says
  completed unless a subtask is running or a plan node is unfinished.
\<close>

theorem contract_and_reviewer_compared:
  assumes "gt_kind g = Some k" and "gt_graph g = Some (fold graph_step ops empty_graph)"
    and "exploration_ok g"
  shows "(verdict_completed (evaluate_completion (gate_contract g)) \<longrightarrow>
      rr_verdict (gate_review g) =
        (if k = Mutation \<and> (ws_files_changed (gt_state g) = [] \<or> \<not> run_executed g)
         then RvPartial else RvCompleted)) \<and>
    (rr_verdict (gate_review g) = RvCompleted \<longrightarrow>
      verdict_completed (evaluate_completion (gate_contract g)) \<or> gt_subtasks g \<noteq> [] \<or>
      (\<exists>n\<in>set (list_nodes (fold graph_step ops empty_graph)).
         tn_status n \<in> {Pending, Ready, Running, Verifying}))"
proof (intro conjI impI)
  let ?tg = "fold graph_step ops empty_graph"
  have wf: "graph_wf ?tg" by (rule graph_keys.run_inv [OF empty_graph_wf])
  assume "verdict_completed (evaluate_completion (gate_contract g))"
  note facts = this [unfolded gate_completed_iff]
  have "review_unsatisfied g = []"
  proof (rule review_all_met)
    show "unsatisfied_criteria (gate_criteria g) = []" using facts by blast
    show "exploration_ok g" by (rule assms(3))
    show "m = n" if "graph_nodes g = Some ns" "m \<in> set ns" "n \<in> set ns" "tn_id m = tn_id n" for ns m n
      using that graph_nodes_list [OF that(1)] assms(2) wf_nodes_unique [OF wf] by auto
  qed
  then show "rr_verdict (gate_review g) =
        (if k = Mutation \<and> (ws_files_changed (gt_state g) = [] \<or> \<not> run_executed g)
         then RvPartial else RvCompleted)"
    using facts assms(1)
    by (cases k) (simp_all add: gate_review_def review_run_def review_blockers_def review_result_of_def Let_def)
next
  let ?tg = "fold graph_step ops empty_graph"
  assume fin: "rr_verdict (gate_review g) = RvCompleted"
  have r: "run_failed g = []" "run_unresolved g = []" "review_unsatisfied g = []"
    "k = Mutation \<longrightarrow> ws_files_changed (gt_state g) \<noteq> [] \<and> run_executed g"
    using fin assms(1)
    by (auto simp: gate_review_def review_run_def review_blockers_def review_result_of_def Let_def
        split: if_splits)
  have st: "s \<in> {Completed, Failed, Blocked, Cancelled} \<or> s \<in> {Pending, Ready, Running, Verifying}" for s
    by (cases s) simp_all
  show "verdict_completed (evaluate_completion (gate_contract g)) \<or> gt_subtasks g \<noteq> [] \<or>
      (\<exists>n\<in>set (list_nodes ?tg). tn_status n \<in> {Pending, Ready, Running, Verifying})"
    unfolding gate_completed_iff
    using r review_met_all [OF r(3)] assms(1,2) st graph_nodes_list [of g]
    by (cases "graph_nodes g") (auto simp: gate_kind_def)
qed

theorem contract_and_reviewer_compared_witness:
  "rr_verdict (gate_review sample_gate) = RvCompleted"
proof -
  have k: "gt_kind sample_gate = Some Mutation" by (simp add: sample_gate_def)
  have e: "exploration_ok sample_gate" by (simp add: sample_gate_def exploration_ok_def)
  have g: "gt_graph sample_gate = Some (fold graph_step [GAdd (sample_add ''a'' []\<lparr>ni_criteria := Some [''builds'']\<rparr>),
       GStart ''a'', GComplete ''a'' None []] empty_graph)"
    by (simp add: sample_gate_def)
  have v: "verdict_completed (evaluate_completion (gate_contract sample_gate))"
    unfolding gate_completed_iff unsatisfied_Nil
    by (simp add: sample_gate_def gate_eval graph_eval)
  have c: "ws_files_changed (gt_state sample_gate) \<noteq> [] \<and> run_executed sample_gate"
    by (simp add: sample_gate_def gate_eval)
  from contract_and_reviewer_compared [OF k g e] v c show ?thesis by auto
qed

text \<open>
  The verification delta is by command text: when every event of a run only reads or edits
  files or repeats a command with the result it had before the run, the gate sees no executed
  verification, no failing command and nothing unresolved. A command that keeps failing does not
  block, and a command that passes again does not count as verification.
\<close>

theorem repeated_verification_is_not_counted:
  assumes "set (ws_passed base) \<inter> set (ws_failed base) = {}" and "list_all (repeats base) es"
    and "gt_baseline g = base" and "gt_state g = fold apply_tool_event es base"
  shows "\<not> run_executed g \<and> run_failed g = [] \<and> run_unresolved g = []"
  using repeated_events [OF assms(1,2)] assms(3,4)
  by (auto simp: nothing_new_def run_executed_def run_passed_def run_failed_def run_unresolved_def
      gate_contract_def filter_empty_conv)

definition red_base :: working_state where
  "red_base = apply_tool_event \<lparr>te_tool = ''Bash'', te_file_path = None, te_command = Some ''npm test'',
     te_is_error = Some True, te_content = None, te_exit_code = Some 1, te_status = Some ''error''\<rparr>
     (empty_working_state ''x'')"

definition red_run :: "tool_event list" where
  "red_run = [\<lparr>te_tool = ''Edit'', te_file_path = Some ''a.ts'', te_command = None,
     te_is_error = Some False, te_content = None, te_exit_code = None, te_status = Some ''success''\<rparr>,
     \<lparr>te_tool = ''Bash'', te_file_path = None, te_command = Some ''npm test'',
     te_is_error = Some True, te_content = None, te_exit_code = Some 1, te_status = Some ''error''\<rparr>]"

definition red_gate :: gate_input where
  "red_gate = sample_gate\<lparr>gt_baseline := red_base, gt_state := fold apply_tool_event red_run red_base\<rparr>"

theorem repeated_verification_is_not_counted_witness:
  "run_failed red_gate = [] \<and> ''npm test'' \<in> set (ws_failed (gt_state red_gate)) \<and>
   target_status red_gate = RSucceeded"
proof -
  have r: "list_all (repeats red_base) red_run"
    by code_simp
  have d: "set (ws_passed red_base) \<inter> set (ws_failed red_base) = {}" by code_simp
  have b: "gt_baseline red_gate = red_base" "gt_state red_gate = fold apply_tool_event red_run red_base"
    by (simp_all add: red_gate_def)
  have t: "target_status red_gate = RSucceeded" by code_simp
  have m: "''npm test'' \<in> set (ws_failed (gt_state red_gate))" by code_simp
  from repeated_verification_is_not_counted [OF d r b] t m show ?thesis by blast
qed

text \<open>
  Only criteria tie plan nodes to the verdict: a plan with a failed node that states no
  criteria, or a modifying task with met criteria that changed nothing and verified nothing, still
  ends in success.
\<close>

definition failed_plan :: gate_input where
  "failed_plan = sample_gate\<lparr>gt_graph := Some (fold graph_step [GAdd (sample_add ''a'' []),
     GStart ''a'', GFail ''a'' ''boom''] empty_graph)\<rparr>"

definition idle_plan :: gate_input where
  "idle_plan = sample_gate\<lparr>gt_state := gt_baseline sample_gate\<rparr>"

theorem unmet_plan_can_succeed:
  "map tn_status (list_nodes (the (gt_graph failed_plan))) = [Failed] \<and>
   target_status failed_plan = RSucceeded \<and>
   gate_kind idle_plan = Mutation \<and> ws_files_changed (gt_state idle_plan) = [] \<and>
   \<not> run_executed idle_plan \<and> target_status idle_plan = RSucceeded"
  by code_simp

text \<open>
  (C25) Evidence is current: after any sequence of recordings, revision bumps and clears, a
  criterion of a node counts as satisfied exactly when some evidence for it was recorded at the
  current revision and none recorded at this revision has a failing exit code; and right after a
  bump nothing is satisfied.
\<close>

theorem evidence_is_current:
  fixes ops :: "evidence_op list"
  assumes "crit \<noteq> []" and "s = fold evidence_step ops new_evidence_store"
  shows "((\<exists>i. criterion_status s node crit = CrSatisfied i) \<longleftrightarrow>
      (\<exists>e\<in>set (node_evidence_of s node). nev_criterion e = Some crit \<and> tev_revision e = es_revision s) \<and>
      (\<forall>e\<in>set (node_evidence_of s node). nev_criterion e = Some crit \<and> tev_revision e = es_revision s \<longrightarrow>
         \<not> failing e)) \<and>
    (\<forall>i. criterion_status (bump_revision s) node crit \<noteq> CrSatisfied i)"
proof -
  have inv: "evidence_inv s" unfolding assms(2) by (rule evidence.run_inv [OF new_evidence_inv])
  have inv': "evidence_inv (bump_revision s)" using evidence_step_inv [OF inv, of EvBump] by simp
  have "\<not> tev_revision e = es_revision (bump_revision s)" if "e \<in> set (node_evidence_of (bump_revision s) node)" for e
  proof -
    have "tev_revision e \<le> es_revision s"
      using inv that by (simp add: evidence_inv_def bump_revision_def node_evidence_of_def)
    then show ?thesis by (simp add: bump_revision_def)
  qed
  then show ?thesis
    using satisfied_iff [OF inv assms(1), of node] satisfied_iff [OF inv' assms(1), of node] by blast
qed

definition sample_evidence :: "int option \<Rightarrow> new_evidence" where
  "sample_evidence code = \<lparr>nev_run = ''r'', nev_node = ''n'', nev_criterion = Some ''c'',
     nev_kind = TestResult, nev_summary = [], nev_source = ''tool'', nev_command = None,
     nev_exit_code = code, nev_artifact_path = None, nev_artifact_hash = None\<rparr>"

theorem evidence_is_current_witness:
  "criterion_status (fold evidence_step [EvRecord (sample_evidence (Some 1)), EvBump,
     EvRecord (sample_evidence (Some 0))] new_evidence_store) ''n'' ''c'' = CrSatisfied 1 \<and>
   (\<forall>i. criterion_status (bump_revision (fold evidence_step [EvRecord (sample_evidence (Some 1)), EvBump,
     EvRecord (sample_evidence (Some 0))] new_evidence_store)) ''n'' ''c'' \<noteq> CrSatisfied i)"
proof
  show "criterion_status (fold evidence_step [EvRecord (sample_evidence (Some 1)), EvBump,
     EvRecord (sample_evidence (Some 0))] new_evidence_store) ''n'' ''c'' = CrSatisfied 1" by code_simp
qed (use evidence_is_current [OF _ refl, of "''c''" "[EvRecord (sample_evidence (Some 1)), EvBump,
     EvRecord (sample_evidence (Some 0))]" "''n''"] in simp)

text \<open>
  The outcome of the turn agrees with the status of the run: completed iff succeeded,
  cancelled iff cancelled, failed iff failed, and partial, blocked or exhausted iff blocked; every
  outcome either is terminal or asks to continue, never both; and the run status is one a running
  run may move to.
\<close>

theorem outcome_matches_run_status:
  "(outcome_status g = CoCompleted \<longleftrightarrow> target_status g = RSucceeded) \<and>
    (outcome_status g = CoCancelled \<longleftrightarrow> target_status g = RCancelled) \<and>
    (outcome_status g = CoFailed \<longleftrightarrow> target_status g = RFailed) \<and>
    (outcome_status g \<in> {CoPartial, CoBlocked, CoExhausted} \<longleftrightarrow> target_status g = RBlocked) \<and>
    (outcome_terminal (outcome_status g) \<longleftrightarrow> \<not> outcome_should_continue (outcome_status g)) \<and>
    can_transition RRunning (target_status g)"
  by (cases "gt_reason g"; cases "evaluate_completion (gate_contract g)")
    (simp_all add: gate_verdict_def outcome_status_def target_status_def outcome_terminal_def
      outcome_should_continue_def can_transition_def)

end
