(* ===== verification/QueryMachine.thy ===== *)
theory QueryMachine
  imports Completion
begin

text \<open>
  The loop of a turn: the reducer and the token budget tracker of
  \<open>src/src/core/queryStateMachine.ts\<close>, and the driver of \<open>coordinator.ts\<close> that interprets each
  state and emits the next event, with its retry and continuation counters.

  What the driver learns from outside in one step (abort flags, the model's answer, the premature
  handoff detector, the outcome of the tool calls) is an input record; the steps of a run are a
  sequence of inputs. The assessment of an exploration request depends on the files read, which
  change only while tools execute. Texts with characters outside Latin-1 are constructors.
\<close>

section \<open>States and events\<close>

datatype query_state =
    QBoot
  | QCheckAbort nat
  | QBudgetCheck nat
  | QModuleIteration nat
  | QLlmCall nat
  | QContinuationCheck nat string
  | QParseResponse nat
  | QToolExecution nat
  | QComplete stop_reason string

datatype query_event =
    EvBooted
  | EvContinue
  | EvStop
  | EvHardAbort string
  | EvSoftAbort string
  | EvMaxIterations string
  | EvLlmDone "string option" bool string
  | EvToolsDone bool bool string
  | EvError string

fun transition_query_state :: "query_state \<Rightarrow> query_event \<Rightarrow> query_state" where
  "transition_query_state QBoot e = (case e of EvBooted \<Rightarrow> QCheckAbort 1 | _ \<Rightarrow> QBoot)"
| "transition_query_state (QCheckAbort i) e = (case e of
      EvHardAbort out \<Rightarrow> QComplete Interrupted out
    | EvSoftAbort out \<Rightarrow> QComplete Interrupted out
    | EvMaxIterations out \<Rightarrow> QComplete MaxIterations out
    | EvError out \<Rightarrow> QComplete StopError out
    | EvContinue \<Rightarrow> QBudgetCheck i
    | _ \<Rightarrow> QCheckAbort i)"
| "transition_query_state (QBudgetCheck i) e =
     (case e of EvContinue \<Rightarrow> QModuleIteration i | _ \<Rightarrow> QBudgetCheck i)"
| "transition_query_state (QModuleIteration i) e =
     (case e of EvContinue \<Rightarrow> QLlmCall i | _ \<Rightarrow> QModuleIteration i)"
| "transition_query_state (QLlmCall i) e = (case e of
      EvHardAbort out \<Rightarrow> QComplete Interrupted out
    | EvError out \<Rightarrow> QComplete StopError out
    | EvLlmDone finish has_calls out \<Rightarrow>
        if finish = Some ''stop'' \<or> \<not> has_calls then QContinuationCheck i out else QParseResponse i
    | _ \<Rightarrow> QLlmCall i)"
| "transition_query_state (QContinuationCheck i held) e = (case e of
      EvContinue \<Rightarrow> QLlmCall i
    | EvHardAbort out \<Rightarrow> QComplete Interrupted out
    | EvSoftAbort out \<Rightarrow> QComplete StopSequence out
    | _ \<Rightarrow> QComplete StopSequence held)"
| "transition_query_state (QParseResponse i) e =
     (case e of EvContinue \<Rightarrow> QToolExecution i | _ \<Rightarrow> QParseResponse i)"
| "transition_query_state (QToolExecution i) e = (case e of
      EvToolsDone aborted hard out \<Rightarrow>
        if aborted then QComplete Interrupted out else QCheckAbort (i + 1)
    | _ \<Rightarrow> QToolExecution i)"
| "transition_query_state (QComplete r out) e = QComplete r out"

definition query_terminal :: "query_state \<Rightarrow> bool" where
  "query_terminal s = (case s of QComplete _ _ \<Rightarrow> True | _ \<Rightarrow> False)"

section \<open>The token budget tracker\<close>

record budget_tracker =
  bt_count :: nat
  bt_last_delta :: int
  bt_last_tokens :: int
  bt_started :: int

definition create_budget_tracker :: "int \<Rightarrow> budget_tracker" where
  "create_budget_tracker now = \<lparr>bt_count = 0, bt_last_delta = 0, bt_last_tokens = 0, bt_started = now\<rparr>"

record continuation_event =
  ce_count :: nat
  ce_pct :: int
  ce_tokens :: int
  ce_budget :: int
  ce_diminishing :: bool
  ce_duration :: int

datatype nudge = BudgetNudge int int int

datatype budget_decision =
    BudgetContinue nudge nat int int int
  | BudgetStop "continuation_event option"

definition diminishing_threshold :: int where
  "diminishing_threshold = 500"

text \<open>\<open>Math.round\<close> of the percentage; tokens and budget are integers.\<close>

definition budget_pct :: "int \<Rightarrow> int \<Rightarrow> int" where
  "budget_pct tokens budget = (200 * tokens + budget) div (2 * budget)"

definition is_diminishing :: "budget_tracker \<Rightarrow> int \<Rightarrow> bool" where
  "is_diminishing t tokens \<longleftrightarrow> bt_count t \<ge> 3 \<and>
     tokens - bt_last_tokens t < diminishing_threshold \<and> bt_last_delta t < diminishing_threshold"

definition check_token_budget ::
  "budget_tracker \<Rightarrow> int option \<Rightarrow> int \<Rightarrow> int \<Rightarrow> budget_decision \<times> budget_tracker" where
  "check_token_budget t budget tokens now = (case budget of
      None \<Rightarrow> (BudgetStop None, t)
    | Some b \<Rightarrow>
        if b \<le> 0 then (BudgetStop None, t)
        else if \<not> is_diminishing t tokens \<and> 10 * tokens < 9 * b
        then let t' = t\<lparr>bt_count := Suc (bt_count t), bt_last_delta := tokens - bt_last_tokens t,
                        bt_last_tokens := tokens\<rparr>
          in (BudgetContinue (BudgetNudge (budget_pct tokens b) tokens b) (bt_count t')
                (budget_pct tokens b) tokens b, t')
        else if is_diminishing t tokens \<or> bt_count t > 0
        then (BudgetStop (Some \<lparr>ce_count = bt_count t, ce_pct = budget_pct tokens b, ce_tokens = tokens,
                ce_budget = b, ce_diminishing = is_diminishing t tokens, ce_duration = now - bt_started t\<rparr>), t)
        else (BudgetStop None, t))"

section \<open>The driver\<close>

definition max_empty_retries :: nat where "max_empty_retries = 2"
definition max_length_retries :: nat where "max_length_retries = 3"
definition max_exploration_no_progress :: nat where "max_exploration_no_progress = 3"
definition max_completion_continuations :: nat where "max_completion_continuations = 3"

record driver_config =
  dc_max_iterations :: nat
  dc_continuation :: bool
  dc_budget :: int

record driver_input =
  in_throws :: bool
  in_hard :: bool
  in_soft :: bool
  in_output :: string
  in_text_length :: nat
  in_finish :: "string option"
  in_tool_calls :: nat
  in_handoff :: bool
  in_tools_aborted :: bool
  in_exploration :: "bool \<times> nat"
  in_now :: int

record driver =
  dv_state :: query_state
  dv_empty :: nat
  dv_length :: nat
  dv_no_progress :: nat
  dv_last_read :: nat
  dv_completions :: nat
  dv_tracker :: budget_tracker
  dv_tokens :: nat
  dv_exploration :: "(bool \<times> nat) option"
  dv_calls :: nat

definition start_driver :: "(bool \<times> nat) option \<Rightarrow> int \<Rightarrow> driver" where
  "start_driver exploration now =
     \<lparr>dv_state = transition_query_state QBoot EvBooted, dv_empty = 0, dv_length = 0, dv_no_progress = 0,
      dv_last_read = 0, dv_completions = 0, dv_tracker = create_budget_tracker now, dv_tokens = 0,
      dv_exploration = exploration, dv_calls = 0\<rparr>"

definition send :: "query_event \<Rightarrow> driver \<Rightarrow> driver" where
  "send e d = d\<lparr>dv_state := transition_query_state (dv_state d) e\<rparr>"

text \<open>Before each iteration: aborts first, then the iteration limit.\<close>

definition drive_check_abort :: "driver_config \<Rightarrow> driver_input \<Rightarrow> nat \<Rightarrow> driver \<Rightarrow> driver" where
  "drive_check_abort c x i d =
     send (case check_termination (in_hard x) (in_soft x) i (dc_max_iterations c) of
        HardAbort \<Rightarrow> EvHardAbort (in_output x)
      | SoftAbort \<Rightarrow> EvSoftAbort (in_output x)
      | IterationLimit _ \<Rightarrow> EvMaxIterations (in_output x)
      | Continue \<Rightarrow> EvContinue) d"

text \<open>
  A model call. Tokens are estimated as the rounded-up quotient of the text length by 3.5. An empty
  answer and one cut at the length limit are retried in the same state.
\<close>

definition drive_llm_call :: "driver_input \<Rightarrow> driver \<Rightarrow> driver" where
  "drive_llm_call x d =
     (let d1 = d\<lparr>dv_calls := Suc (dv_calls d), dv_tokens := dv_tokens d + (2 * in_text_length x + 6) div 7\<rparr>
      in if in_text_length x = 0 \<and> in_tool_calls x = 0 \<and> dv_empty d1 < max_empty_retries
         then send EvContinue (d1\<lparr>dv_empty := Suc (dv_empty d1)\<rparr>)
         else if in_finish x = Some ''length'' \<and> in_tool_calls x = 0 \<and> dv_length d1 < max_length_retries
         then send EvContinue (d1\<lparr>dv_length := Suc (dv_length d1)\<rparr>)
         else send (EvLlmDone (in_finish x) (in_tool_calls x > 0) (in_output x)) d1)"

text \<open>
  When the model stops: an unfinished exploration, a premature handoff or an unused token budget
  sends it back to work, each within its own limit.
\<close>

definition explore_again :: "driver \<Rightarrow> bool \<times> driver" where
  "explore_again d = (case dv_exploration d of
      None \<Rightarrow> (False, d)
    | Some (done_exploring, files) \<Rightarrow>
        if done_exploring then (False, d)
        else let np = (if files > dv_last_read d then 0 else Suc (dv_no_progress d))
          in (np \<le> max_exploration_no_progress, d\<lparr>dv_no_progress := np, dv_last_read := files\<rparr>))"

definition drive_continuation :: "driver_config \<Rightarrow> driver_input \<Rightarrow> driver \<Rightarrow> driver" where
  "drive_continuation c x d =
     (let (again, d1) = explore_again d
      in if again then send EvContinue d1
         else if dv_completions d1 < max_completion_continuations \<and> in_handoff x
         then send EvContinue (d1\<lparr>dv_completions := Suc (dv_completions d1)\<rparr>)
         else if dc_continuation c
         then (case check_token_budget (dv_tracker d1) (Some (dc_budget c)) (int (dv_tokens d1)) (in_now x) of
             (BudgetContinue _ _ _ _ _, t) \<Rightarrow> send EvContinue (d1\<lparr>dv_tracker := t\<rparr>)
           | (BudgetStop _, t) \<Rightarrow> send EvStop (d1\<lparr>dv_tracker := t\<rparr>))
         else send EvStop d1)"

definition drive_tools :: "driver_input \<Rightarrow> driver \<Rightarrow> driver" where
  "drive_tools x d =
     send (EvToolsDone (in_tools_aborted x \<or> in_hard x) (in_hard x) (in_output x))
       (d\<lparr>dv_exploration := map_option (\<lambda>_. in_exploration x) (dv_exploration d)\<rparr>)"

text \<open>
  One turn of the loop. An exception ends it, as interrupted when the turn was aborted and as an
  error otherwise.
\<close>

definition driver_step :: "driver_config \<Rightarrow> driver_input \<Rightarrow> driver \<Rightarrow> driver" where
  "driver_step c x d =
     (if query_terminal (dv_state d) then d
      else if in_throws x
      then d\<lparr>dv_state := QComplete (if in_hard x then Interrupted else StopError) (in_output x)\<rparr>
      else case dv_state d of
          QCheckAbort i \<Rightarrow> drive_check_abort c x i d
        | QBudgetCheck _ \<Rightarrow> send EvContinue d
        | QModuleIteration _ \<Rightarrow> send EvContinue d
        | QLlmCall _ \<Rightarrow> drive_llm_call x d
        | QContinuationCheck _ _ \<Rightarrow> drive_continuation c x d
        | QParseResponse _ \<Rightarrow> send EvContinue d
        | QToolExecution _ \<Rightarrow> drive_tools x d
        | QBoot \<Rightarrow> send EvBooted d
        | QComplete _ _ \<Rightarrow> d)"

section \<open>Continuations for the token budget are bounded\<close>

text \<open>
  From the fourth continuation on, two consecutive ones produce at least 500 tokens together, or
  the tracker stops; all of them happen below nine tenths of the budget.
\<close>

definition tracker_ok :: "int \<Rightarrow> budget_tracker \<Rightarrow> int \<Rightarrow> bool" where
  "tracker_ok b t tokens \<longleftrightarrow> 0 \<le> bt_last_delta t \<and> bt_last_delta t \<le> bt_last_tokens t \<and>
     bt_last_tokens t \<le> tokens \<and> (bt_count t > 0 \<longrightarrow> 10 * bt_last_tokens t < 9 * b) \<and>
     (bt_count t \<ge> 3 \<longrightarrow> 500 * (int (bt_count t) - 3) + bt_last_delta t \<le> 2 * bt_last_tokens t)"

definition continuation_limit :: "int \<Rightarrow> nat" where
  "continuation_limit b = 3 + nat (9 * b div 2500)"

lemma tracker_ok_more: "tracker_ok b t m \<Longrightarrow> m \<le> n \<Longrightarrow> tracker_ok b t n"
  by (auto simp: tracker_ok_def)

lemma tracker_limit:
  assumes "tracker_ok b t tokens"
  shows "bt_count t \<le> continuation_limit b"
proof (cases "bt_count t \<ge> 3")
  case True
  let ?c = "int (bt_count t) - 3"
  have "500 * ?c \<le> 2 * bt_last_tokens t" "10 * bt_last_tokens t < 9 * b" "0 \<le> ?c"
    using assms True by (auto simp: tracker_ok_def)
  then have "2500 * ?c < 9 * b + 2500" by linarith
  then have "2500 * ?c \<le> 9 * b" using \<open>500 * ?c \<le> 2 * bt_last_tokens t\<close> \<open>10 * bt_last_tokens t < 9 * b\<close> by linarith
  then have "2500 * ?c div 2500 \<le> 9 * b div 2500" by (rule zdiv_mono1) simp
  then have "?c \<le> 9 * b div 2500" by simp
  then show ?thesis using \<open>0 \<le> ?c\<close> unfolding continuation_limit_def by linarith
next
  case False
  then show ?thesis by (simp add: continuation_limit_def)
qed

lemma budget_continue:
  assumes ok: "tracker_ok b t tokens"
    and "check_token_budget t (Some b) tokens now = (BudgetContinue n c p m l, t')"
  shows "tracker_ok b t' tokens \<and> bt_count t' = Suc (bt_count t)"
proof -
  from assms(2) have nd: "\<not> is_diminishing t tokens" and below: "10 * tokens < 9 * b"
    and t': "t' = t\<lparr>bt_count := Suc (bt_count t), bt_last_delta := tokens - bt_last_tokens t,
                    bt_last_tokens := tokens\<rparr>"
    by (auto simp: check_token_budget_def Let_def split: if_splits)
  have "500 \<le> bt_last_delta t + (tokens - bt_last_tokens t)" if "bt_count t \<ge> 3"
    using nd ok that by (auto simp: is_diminishing_def diminishing_threshold_def tracker_ok_def)
  then show ?thesis
    using ok below by (cases "bt_count t \<ge> 3") (auto simp: tracker_ok_def t')
qed

lemma budget_stop:
  "check_token_budget t (Some b) tokens now = (BudgetStop e, t') \<Longrightarrow> t' = t"
  by (auto simp: check_token_budget_def Let_def split: if_splits)

section \<open>The driver makes progress\<close>

definition budget_limit :: "driver_config \<Rightarrow> nat" where
  "budget_limit c = (if dc_continuation c then continuation_limit (dc_budget c) else 0)"

definition retries_left :: "driver_config \<Rightarrow> driver \<Rightarrow> nat" where
  "retries_left c d = (max_empty_retries - dv_empty d) + (max_length_retries - dv_length d) +
     (max_completion_continuations - dv_completions d) + (budget_limit c - bt_count (dv_tracker d))"

definition explores_left :: "driver \<Rightarrow> nat" where
  "explores_left d = (case dv_exploration d of None \<Rightarrow> 0 | Some (fin, files) \<Rightarrow>
     if fin then 0 else if files > dv_last_read d then Suc max_exploration_no_progress
     else max_exploration_no_progress - dv_no_progress d)"

fun in_iteration :: "query_state \<Rightarrow> nat \<Rightarrow> bool" where
  "in_iteration QBoot n = False"
| "in_iteration (QCheckAbort i) n = (1 \<le> i \<and> i \<le> Suc n)"
| "in_iteration (QBudgetCheck i) n = (1 \<le> i \<and> i \<le> n)"
| "in_iteration (QModuleIteration i) n = (1 \<le> i \<and> i \<le> n)"
| "in_iteration (QLlmCall i) n = (1 \<le> i \<and> i \<le> n)"
| "in_iteration (QContinuationCheck i _) n = (1 \<le> i \<and> i \<le> n)"
| "in_iteration (QParseResponse i) n = (1 \<le> i \<and> i \<le> n)"
| "in_iteration (QToolExecution i) n = (1 \<le> i \<and> i \<le> n)"
| "in_iteration (QComplete _ _) n = True"

definition driver_inv :: "driver_config \<Rightarrow> driver \<Rightarrow> bool" where
  "driver_inv c d \<longleftrightarrow> in_iteration (dv_state d) (dc_max_iterations c) \<and>
     tracker_ok (dc_budget c) (dv_tracker d) (int (dv_tokens d))"

text \<open>Model calls still possible, and steps still possible.\<close>

definition calls_left :: "driver_config \<Rightarrow> driver \<Rightarrow> nat" where
  "calls_left c d = (let n = dc_max_iterations c; r = retries_left c d; x = explores_left d in
     case dv_state d of
       QBoot \<Rightarrow> 0
     | QCheckAbort i \<Rightarrow> 5 * (Suc n - i) + r
     | QBudgetCheck i \<Rightarrow> 5 * (Suc n - i) + r
     | QModuleIteration i \<Rightarrow> 5 * (Suc n - i) + r
     | QLlmCall i \<Rightarrow> 5 * (n - i) + r + x + 1
     | QContinuationCheck i _ \<Rightarrow> 5 * (n - i) + r + x
     | QParseResponse i \<Rightarrow> 5 * (n - i) + r + x
     | QToolExecution i \<Rightarrow> 5 * (n - i) + r + x
     | QComplete _ _ \<Rightarrow> 0)"

definition steps_left :: "driver_config \<Rightarrow> driver \<Rightarrow> nat" where
  "steps_left c d = (let n = dc_max_iterations c; r = retries_left c d; x = explores_left d in
     case dv_state d of
       QBoot \<Rightarrow> 0
     | QCheckAbort i \<Rightarrow> 14 * (Suc n - i) + 2 * r + 1
     | QBudgetCheck i \<Rightarrow> 14 * (Suc n - i) + 2 * r
     | QModuleIteration i \<Rightarrow> 14 * (Suc n - i) + 2 * r - 1
     | QLlmCall i \<Rightarrow> 14 * (n - i) + 2 * (r + x) + 4
     | QContinuationCheck i _ \<Rightarrow> 14 * (n - i) + 2 * (r + x) + 3
     | QParseResponse i \<Rightarrow> 14 * (n - i) + 2 * (r + x) + 3
     | QToolExecution i \<Rightarrow> 14 * (n - i) + 2 * (r + x) + 2
     | QComplete _ _ \<Rightarrow> 0)"

definition progress :: "driver_config \<Rightarrow> driver \<Rightarrow> driver \<Rightarrow> bool" where
  "progress c d d' \<longleftrightarrow> driver_inv c d' \<and> steps_left c d' < steps_left c d \<and>
     dv_calls d' + calls_left c d' \<le> dv_calls d + calls_left c d"

lemma send_simps [simp]:
  "dv_state (send e d) = transition_query_state (dv_state d) e"
  "dv_empty (send e d) = dv_empty d" "dv_length (send e d) = dv_length d"
  "dv_no_progress (send e d) = dv_no_progress d" "dv_last_read (send e d) = dv_last_read d"
  "dv_completions (send e d) = dv_completions d" "dv_tracker (send e d) = dv_tracker d"
  "dv_tokens (send e d) = dv_tokens d" "dv_exploration (send e d) = dv_exploration d"
  "dv_calls (send e d) = dv_calls d"
  by (simp_all add: send_def)

lemma left_send [simp]:
  "retries_left c (send e d) = retries_left c d" "explores_left (send e d) = explores_left d"
  by (simp_all add: retries_left_def explores_left_def split: option.split prod.split)

lemma explores_bound: "explores_left d \<le> 4"
  by (auto simp: explores_left_def max_exploration_no_progress_def split: option.splits)

lemmas limits = max_empty_retries_def max_length_retries_def max_completion_continuations_def
  max_exploration_no_progress_def

lemma complete_progress:
  assumes "driver_inv c d" "\<not> query_terminal (dv_state d)"
    and "dv_state d' = QComplete r out" "dv_calls d' \<le> dv_calls d + calls_left c d"
    and "dv_tracker d' = dv_tracker d" "dv_tokens d' \<ge> dv_tokens d"
  shows "progress c d d'"
proof -
  have "0 < steps_left c d"
    using assms(1,2) by (cases "dv_state d") (auto simp: steps_left_def driver_inv_def query_terminal_def Let_def)
  moreover have "driver_inv c d'"
    using assms tracker_ok_more [of "dc_budget c" "dv_tracker d" "int (dv_tokens d)" "int (dv_tokens d')"]
    by (simp add: driver_inv_def)
  ultimately show ?thesis
    using assms by (simp add: progress_def steps_left_def calls_left_def Let_def)
qed

lemma check_abort_progress:
  assumes "driver_inv c d" "dv_state d = QCheckAbort i"
  shows "progress c d (drive_check_abort c x i d)"
proof (cases "check_termination (in_hard x) (in_soft x) i (dc_max_iterations c)")
  case Continue
  then have i: "i \<le> dc_max_iterations c"
    by (auto simp: check_termination_def split: if_splits)
  have "drive_check_abort c x i d = send EvContinue d" by (simp add: drive_check_abort_def Continue)
  then show ?thesis
    using assms i by (simp add: progress_def driver_inv_def steps_left_def calls_left_def Let_def)
qed (use assms in \<open>auto simp: drive_check_abort_def query_terminal_def intro!: complete_progress [OF assms(1)]\<close>)

lemma pass_progress:
  assumes "driver_inv c d"
    and "dv_state d = QBudgetCheck i \<or> dv_state d = QModuleIteration i \<or> dv_state d = QParseResponse i"
  shows "progress c d (send EvContinue d)"
  using assms explores_bound [of d]
  by (elim disjE) (auto simp: progress_def driver_inv_def steps_left_def calls_left_def Let_def)

lemma tools_progress:
  assumes "driver_inv c d" "dv_state d = QToolExecution i"
  shows "progress c d (drive_tools x d)"
  using assms
  by (auto simp: progress_def drive_tools_def driver_inv_def steps_left_def calls_left_def retries_left_def Let_def)

lemma llm_progress:
  assumes inv: "driver_inv c d" and st: "dv_state d = QLlmCall i"
  shows "progress c d (drive_llm_call x d)"
proof -
  let ?n = "(2 * in_text_length x + 6) div 7"
  let ?d1 = "d\<lparr>dv_calls := Suc (dv_calls d), dv_tokens := dv_tokens d + ?n\<rparr>"
  have t: "tracker_ok (dc_budget c) (dv_tracker d) (int (dv_tokens d + ?n))"
    using inv by (auto simp: driver_inv_def intro: tracker_ok_more)
  have i: "1 \<le> i" "i \<le> dc_max_iterations c" using inv st by (simp_all add: driver_inv_def)
  have same: "explores_left (?d1\<lparr>dv_empty := a, dv_length := b\<rparr>) = explores_left d" for a b
    by (simp add: explores_left_def split: option.split prod.split)
  consider (empty) "in_text_length x = 0 \<and> in_tool_calls x = 0 \<and> dv_empty d < max_empty_retries"
    | (cut) "\<not> (in_text_length x = 0 \<and> in_tool_calls x = 0 \<and> dv_empty d < max_empty_retries)"
        "in_finish x = Some ''length'' \<and> in_tool_calls x = 0 \<and> dv_length d < max_length_retries"
    | (answer) "\<not> (in_text_length x = 0 \<and> in_tool_calls x = 0 \<and> dv_empty d < max_empty_retries)"
        "\<not> (in_finish x = Some ''length'' \<and> in_tool_calls x = 0 \<and> dv_length d < max_length_retries)"
    by blast
  then show ?thesis
  proof cases
    case empty
    let ?d2 = "?d1\<lparr>dv_empty := Suc (dv_empty d)\<rparr>"
    have e: "drive_llm_call x d = send EvContinue ?d2" using empty by (simp add: drive_llm_call_def Let_def)
    have "retries_left c ?d2 + 1 = retries_left c d" using empty by (auto simp: retries_left_def limits)
    moreover have "explores_left ?d2 = explores_left d"
      by (simp add: explores_left_def split: option.split prod.split)
    ultimately show ?thesis
      using st i t by (simp add: e progress_def driver_inv_def steps_left_def calls_left_def Let_def)
  next
    case cut
    let ?d2 = "?d1\<lparr>dv_length := Suc (dv_length d)\<rparr>"
    have e: "drive_llm_call x d = send EvContinue ?d2" using cut by (simp add: drive_llm_call_def Let_def)
    have "retries_left c ?d2 + 1 = retries_left c d" using cut by (auto simp: retries_left_def limits)
    moreover have "explores_left ?d2 = explores_left d"
      by (simp add: explores_left_def split: option.split prod.split)
    ultimately show ?thesis
      using st i t by (simp add: e progress_def driver_inv_def steps_left_def calls_left_def Let_def)
  next
    case answer
    then have e: "drive_llm_call x d = send (EvLlmDone (in_finish x) (in_tool_calls x > 0) (in_output x)) ?d1"
      by (auto simp: drive_llm_call_def Let_def)
    have "retries_left c ?d1 = retries_left c d" "explores_left ?d1 = explores_left d"
      by (simp_all add: retries_left_def explores_left_def split: option.split prod.split)
    then show ?thesis
      using st i t by (simp add: e progress_def driver_inv_def steps_left_def calls_left_def Let_def)
  qed
qed

text \<open>Going back to the model uses up one continuation.\<close>

lemma again_progress:
  assumes "driver_inv c d" "dv_state d = QContinuationCheck i out"
    and "dv_state d' = QContinuationCheck i out" "dv_calls d' = dv_calls d"
    and "tracker_ok (dc_budget c) (dv_tracker d') (int (dv_tokens d'))"
    and "retries_left c d' + explores_left d' < retries_left c d + explores_left d"
  shows "progress c d (send EvContinue d')"
  using assms by (simp add: progress_def driver_inv_def steps_left_def calls_left_def Let_def)

lemma explore_again_simps:
  assumes "explore_again d = (again, d1)"
  shows "dv_state d1 = dv_state d" "dv_calls d1 = dv_calls d" "dv_tracker d1 = dv_tracker d"
    "dv_tokens d1 = dv_tokens d" "dv_completions d1 = dv_completions d" "retries_left c d1 = retries_left c d"
    "if again then explores_left d1 < explores_left d else explores_left d1 \<le> explores_left d"
  using assms
  by (auto simp: explore_again_def explores_left_def retries_left_def limits Let_def
      split: option.splits prod.splits if_splits)

lemma continuation_progress:
  assumes inv: "driver_inv c d" and st: "dv_state d = QContinuationCheck i out"
  shows "progress c d (drive_continuation c x d)"
proof -
  obtain again d1 where e: "explore_again d = (again, d1)" by fastforce
  note ex = explore_again_simps [OF e]
  have t: "tracker_ok (dc_budget c) (dv_tracker d) (int (dv_tokens d))" using inv by (simp add: driver_inv_def)
  have stop: "progress c d (send EvStop d1)"
    using st ex by (intro complete_progress [OF inv]) (simp_all add: query_terminal_def)
  consider (explore) "again"
    | (handoff) "\<not> again" "dv_completions d1 < max_completion_continuations \<and> in_handoff x"
    | (budget) "\<not> again" "\<not> (dv_completions d1 < max_completion_continuations \<and> in_handoff x)"
    by blast
  then show ?thesis
  proof cases
    case explore
    then have "drive_continuation c x d = send EvContinue d1" by (simp add: drive_continuation_def e)
    then show ?thesis
      using again_progress [OF inv st, of d1] st ex t explore by simp
  next
    case handoff
    let ?d2 = "d1\<lparr>dv_completions := Suc (dv_completions d1)\<rparr>"
    have d2: "drive_continuation c x d = send EvContinue ?d2"
      using handoff by (simp add: drive_continuation_def e)
    have "retries_left c ?d2 + 1 = retries_left c d1" "explores_left ?d2 = explores_left d1"
      using handoff by (auto simp: retries_left_def explores_left_def limits split: option.split prod.split)
    then show ?thesis
      using again_progress [OF inv st, of ?d2] st ex t handoff(1) unfolding d2 by simp
  next
    case budget
    show ?thesis
    proof (cases "dc_continuation c")
      case False
      with budget have "drive_continuation c x d = send EvStop d1" by (auto simp: drive_continuation_def e)
      with stop show ?thesis by simp
    next
      case True
      obtain b t' where b: "check_token_budget (dv_tracker d1) (Some (dc_budget c)) (int (dv_tokens d1)) (in_now x) = (b, t')"
        by fastforce
      show ?thesis
      proof (cases b)
        case (BudgetContinue n k p m l)
        let ?d2 = "d1\<lparr>dv_tracker := t'\<rparr>"
        have d2: "drive_continuation c x d = send EvContinue ?d2"
          using budget True b BudgetContinue by (auto simp: drive_continuation_def e)
        from budget_continue [OF _ b [unfolded BudgetContinue]] t ex
        have ok: "tracker_ok (dc_budget c) t' (int (dv_tokens d1))" and cnt: "bt_count t' = Suc (bt_count (dv_tracker d1))"
          by simp_all
        from tracker_limit [OF ok] cnt True have "retries_left c ?d2 + 1 = retries_left c d1"
          by (simp add: retries_left_def budget_limit_def)
        moreover have "explores_left ?d2 = explores_left d1"
          by (simp add: explores_left_def split: option.split prod.split)
        ultimately show ?thesis
          using again_progress [OF inv st, of ?d2] st ex ok budget(1) unfolding d2 by simp
      next
        case (BudgetStop ev)
        then have "t' = dv_tracker d1" using budget_stop b by blast
        then have "drive_continuation c x d = send EvStop d1"
          using budget True b BudgetStop by (auto simp: drive_continuation_def e)
        with stop show ?thesis by simp
      qed
    qed
  qed
qed

lemma driver_progress:
  assumes "driver_inv c d" "\<not> query_terminal (dv_state d)"
  shows "progress c d (driver_step c x d)"
proof (cases "in_throws x")
  case True
  with assms show ?thesis by (intro complete_progress [OF assms]) (simp_all add: driver_step_def)
next
  case False
  with assms show ?thesis
    by (cases "dv_state d")
      (auto simp: driver_step_def query_terminal_def driver_inv_def [of c d]
        intro: check_abort_progress pass_progress llm_progress continuation_progress tools_progress)
qed

lemma driver_step_inv: "driver_inv c d \<Longrightarrow> driver_inv c (driver_step c x d)"
  using driver_progress [of c d x] by (cases "query_terminal (dv_state d)") (auto simp: progress_def driver_step_def)

lemma start_driver_inv: "driver_inv c (start_driver exploration now)"
  by (simp add: driver_inv_def start_driver_def create_budget_tracker_def tracker_ok_def)

interpretation drive: invariant_system "driver_step c" "driver_inv c"
  by unfold_locales (rule driver_step_inv)

lemma calls_never_exceed:
  "driver_inv c d \<Longrightarrow>
     dv_calls (fold (driver_step c) xs d) + calls_left c (fold (driver_step c) xs d) \<le> dv_calls d + calls_left c d"
proof (induction xs arbitrary: d)
  case (Cons x xs)
  have "dv_calls (driver_step c x d) + calls_left c (driver_step c x d) \<le> dv_calls d + calls_left c d"
    using driver_progress [OF Cons.prems] by (cases "query_terminal (dv_state d)") (auto simp: progress_def driver_step_def)
  with Cons.IH [OF driver_step_inv [OF Cons.prems]] show ?case by (fastforce intro: le_trans)
qed simp

lemma steps_run_out:
  "driver_inv c d \<Longrightarrow> steps_left c d \<le> length xs \<Longrightarrow> query_terminal (dv_state (fold (driver_step c) xs d))"
proof (induction xs arbitrary: d)
  case Nil
  show ?case
  proof (rule ccontr)
    assume "\<not> query_terminal (dv_state (fold (driver_step c) [] d))"
    then have "\<not> query_terminal (dv_state d)" by simp
    with driver_progress [OF Nil.prems(1)] Nil.prems(2) show False by (simp add: progress_def)
  qed
next
  case (Cons x xs)
  show ?case
  proof (cases "query_terminal (dv_state d)")
    case True
    then have "fold (driver_step c) ys d = d" for ys by (induction ys) (simp_all add: driver_step_def)
    from this [of "x # xs"] True show ?thesis by simp
  next
    case False
    have "progress c d (driver_step c x d)" by (rule driver_progress [OF Cons.prems(1) False])
    then have "driver_inv c (driver_step c x d)" "steps_left c (driver_step c x d) < steps_left c d"
      by (simp_all add: progress_def)
    with Cons.IH Cons.prems(2) show ?thesis by simp
  qed
qed

lemma start_bounds:
  "steps_left c (start_driver exploration now) = 14 * dc_max_iterations c + 2 * budget_limit c + 17"
  "dv_calls (start_driver exploration now) = 0"
  "calls_left c (start_driver exploration now) = 5 * dc_max_iterations c + budget_limit c + 8"
  by (simp_all add: steps_left_def calls_left_def start_driver_def create_budget_tracker_def retries_left_def
      limits Let_def)

section \<open>Properties\<close>

text \<open>
  (C7) Every turn ends: whatever the model answers, the tools do and the abort flags are, the loop
  is in a complete state after a number of steps that depends only on the iteration limit and the
  token budget, and it has called the model only a bounded number of times before.
\<close>

theorem turn_terminates:
  fixes c :: driver_config and xs :: "driver_input list" and b :: nat
  defines "b \<equiv> (if dc_continuation c then 3 + nat (9 * dc_budget c div 2500) else 0)"
  assumes "14 * dc_max_iterations c + 2 * b + 17 \<le> length xs"
  shows "query_terminal (dv_state (fold (driver_step c) xs (start_driver exploration now)))"
proof (rule steps_run_out [OF start_driver_inv])
  have "budget_limit c = b" by (simp add: budget_limit_def continuation_limit_def b_def)
  with assms(2) show "steps_left c (start_driver exploration now) \<le> length xs" by (simp add: start_bounds)
qed

text \<open>
  The number of model calls of a turn is bounded by five for each iteration, the retries and
  handoff continuations, and the continuations the token budget allows, at every moment and for
  every behaviour of the model.
\<close>

theorem model_calls_are_bounded:
  "dv_calls (fold (driver_step c) xs (start_driver exploration now)) \<le>
     5 * dc_max_iterations c + 8 +
     (if dc_continuation c then 3 + nat (9 * dc_budget c div 2500) else 0)"
proof -
  have "budget_limit c = (if dc_continuation c then 3 + nat (9 * dc_budget c div 2500) else 0)"
    by (simp add: budget_limit_def continuation_limit_def)
  with calls_never_exceed [OF start_driver_inv, of c xs exploration now] show ?thesis
    by (simp only: start_bounds)
qed

definition idle_input :: driver_input where
  "idle_input = \<lparr>in_throws = False, in_hard = False, in_soft = False, in_output = ''out'', in_text_length = 7,
     in_finish = Some ''stop'', in_tool_calls = 0, in_handoff = True, in_tools_aborted = False,
     in_exploration = (True, 0), in_now = 0\<rparr>"

definition small_config :: driver_config where
  "small_config = \<lparr>dc_max_iterations = 1, dc_continuation = True, dc_budget = 100\<rparr>"

theorem turn_terminates_witness:
  "query_terminal (dv_state (fold (driver_step small_config) (replicate 37 idle_input) (start_driver None 0))) \<and>
   dv_calls (fold (driver_step small_config) (replicate 37 idle_input) (start_driver None 0)) = 7"
proof
  show "query_terminal (dv_state (fold (driver_step small_config) (replicate 37 idle_input) (start_driver None 0)))"
    by (rule turn_terminates) (simp add: small_config_def)
qed code_simp

end
