(* ===== verification/Progress.thy ===== *)
theory Progress
  imports TaskGraph Complex_Main "HOL-Library.Char_ord" "HOL-Library.List_Lexorder"
begin

text \<open>
  Stall detection: \<open>src/src/core/runtime/progressMonitor.ts\<close> and the risk gate of the critic,
  \<open>criticTrigger.ts\<close>.

  Elapsed times and time limits are milliseconds (the code divides by 60000 to get minutes). A tool
  input is a JSON value; its fingerprint is the value with the keys of all objects sorted, of which
  the code keeps the JSON text. Texts are only compared, so the value stands for its text. Reasons
  are constructors that carry the numbers they show.
\<close>

section \<open>Fingerprints\<close>

datatype json =
    JNull
  | JBool bool
  | JNum int
  | JStr string
  | JArr "json list"
  | JObj "(string \<times> json) list"

fun stable_sort :: "json \<Rightarrow> json" where
  "stable_sort (JArr xs) = JArr (map stable_sort xs)"
| "stable_sort (JObj kvs) = JObj (sort_key fst (map (\<lambda>(k, v). (k, stable_sort v)) kvs))"
| "stable_sort v = v"

text \<open>Equal up to the order of keys, at any depth.\<close>

inductive same_json :: "json \<Rightarrow> json \<Rightarrow> bool" where
  same_refl: "same_json v v"
| same_arr: "list_all2 same_json xs ys \<Longrightarrow> same_json (JArr xs) (JArr ys)"
| same_obj: "list_all2 (\<lambda>p q. fst p = fst q \<and> same_json (snd p) (snd q)) kvs kvs' \<Longrightarrow>
    mset kvs' = mset kvs'' \<Longrightarrow> distinct (map fst kvs) \<Longrightarrow> same_json (JObj kvs) (JObj kvs'')"

section \<open>The monitor\<close>

record stall_thresholds =
  th_soft :: nat
  th_hard :: nat
  th_errors :: nat
  th_calls :: nat
  th_budget :: rat

definition default_thresholds :: stall_thresholds where
  "default_thresholds = \<lparr>th_soft = 10 * 60000, th_hard = 25 * 60000, th_errors = 3, th_calls = 3, th_budget = 1 / 5\<rparr>"

record windowed_call =
  wc_tool :: string
  wc_input :: json
  wc_error :: "string option"
  wc_patch :: "string option"

record progress_monitor =
  pm_thresholds :: stall_thresholds
  pm_changed :: "string list"
  pm_artifacts :: "string list"
  pm_remaining :: "string list"
  pm_last_failures :: int
  pm_delta :: int
  pm_iteration :: nat
  pm_last_call :: "(string \<times> json) option"
  pm_repeated :: nat
  pm_errors :: nat
  pm_last_error :: "string option"
  pm_last_progress :: nat
  pm_pending :: bool
  pm_window :: "windowed_call list"
  pm_hashes :: "(string, string list) jsmap"

definition new_monitor :: "stall_thresholds \<Rightarrow> progress_monitor" where
  "new_monitor t = \<lparr>pm_thresholds = t, pm_changed = [], pm_artifacts = [], pm_remaining = [], pm_last_failures = 0,
     pm_delta = 0, pm_iteration = 0, pm_last_call = None, pm_repeated = 0, pm_errors = 0, pm_last_error = None,
     pm_last_progress = 0, pm_pending = False, pm_window = [], pm_hashes = []\<rparr>"

definition mark_progress :: "progress_monitor \<Rightarrow> progress_monitor" where
  "mark_progress m = m\<lparr>pm_pending := True\<rparr>"

definition record_transition :: "node_transition \<Rightarrow> progress_monitor \<Rightarrow> progress_monitor" where
  "record_transition t m =
     (if t = TCompleted \<or> t = TFailed \<or> t = TCancelled \<or> t = TUnblocked then mark_progress m else m)"

definition tick :: "progress_monitor \<Rightarrow> progress_monitor" where
  "tick m = m\<lparr>pm_iteration := Suc (pm_iteration m)\<rparr>"

definition set_acceptance :: "string list \<Rightarrow> progress_monitor \<Rightarrow> progress_monitor" where
  "set_acceptance items m = m\<lparr>pm_remaining := items\<rparr>"

definition satisfy_criterion :: "string \<Rightarrow> progress_monitor \<Rightarrow> progress_monitor" where
  "satisfy_criterion c m =
     (let m' = m\<lparr>pm_remaining := filter (\<lambda>x. x \<noteq> c) (pm_remaining m)\<rparr>
      in if length (pm_remaining m') < length (pm_remaining m) then mark_progress m' else m')"

record tool_outcome =
  to_is_error :: bool
  to_content :: string

definition window_size :: nat where
  "window_size = 8"

text \<open>A repeated call, and a repeated error: the same first 200 characters of the message.\<close>

definition note_repeat :: "string \<Rightarrow> json \<Rightarrow> progress_monitor \<Rightarrow> progress_monitor" where
  "note_repeat tool fp m =
     m\<lparr>pm_repeated := (if pm_last_call m = Some (tool, fp) then Suc (pm_repeated m) else 0),
       pm_last_call := Some (tool, fp)\<rparr>"

definition error_fingerprint :: "tool_outcome \<Rightarrow> string option" where
  "error_fingerprint r = (if to_is_error r then Some (take 200 (to_content r)) else None)"

definition note_error :: "tool_outcome \<Rightarrow> progress_monitor \<Rightarrow> progress_monitor" where
  "note_error r m = (case error_fingerprint r of
      None \<Rightarrow> m\<lparr>pm_errors := 0, pm_last_error := None\<rparr>
    | Some fp \<Rightarrow> if pm_last_error m = Some fp then m\<lparr>pm_errors := Suc (pm_errors m)\<rparr>
               else m\<lparr>pm_errors := 1, pm_last_error := Some fp\<rparr>)"

definition input_path :: "json \<Rightarrow> string" where
  "input_path v = (case v of
      JObj kvs \<Rightarrow> (case map_of kvs ''file_path'' of Some (JStr p) \<Rightarrow> p | _ \<Rightarrow> [])
    | _ \<Rightarrow> [])"

definition is_edit_tool :: "string \<Rightarrow> bool" where
  "is_edit_tool t \<longleftrightarrow> t = ''Edit'' \<or> t = ''Write'' \<or> t = ''NotebookEdit''"

text \<open>A successful edit: a file changed for the first time, or changed to bytes not seen before.\<close>

definition note_change :: "string \<Rightarrow> json \<Rightarrow> tool_outcome \<Rightarrow> string option \<Rightarrow> progress_monitor \<Rightarrow> progress_monitor" where
  "note_change tool input r patch m =
     (let path = input_path input; hash = (if patch = Some [] then None else patch) in
      if to_is_error r \<or> \<not> is_edit_tool tool \<or> path = [] then m
      else if path \<notin> set (pm_changed m)
      then mark_progress (m\<lparr>pm_changed := pm_changed m @ [path],
             pm_hashes := (case hash of None \<Rightarrow> pm_hashes m | Some h \<Rightarrow> jm_set path [h] (pm_hashes m))\<rparr>)
      else (case hash of None \<Rightarrow> m | Some h \<Rightarrow>
             let seen = default_to (jm_get (pm_hashes m) path) [] in
             if h \<in> set seen then m
             else mark_progress (m\<lparr>pm_hashes := jm_set path (seen @ [h]) (pm_hashes m)\<rparr>)))"

definition push_window :: "windowed_call \<Rightarrow> windowed_call list \<Rightarrow> windowed_call list" where
  "push_window w ws = drop (Suc (length ws) - window_size) (ws @ [w])"

definition record_tool_call ::
  "string \<Rightarrow> json \<Rightarrow> tool_outcome \<Rightarrow> string option \<Rightarrow> progress_monitor \<Rightarrow> progress_monitor" where
  "record_tool_call tool input r patch m =
     (let fp = stable_sort input;
          m' = note_change tool input r patch (note_error r (note_repeat tool fp m))
      in m'\<lparr>pm_window := push_window \<lparr>wc_tool = tool, wc_input = fp, wc_error = error_fingerprint r,
                 wc_patch = patch\<rparr> (pm_window m')\<rparr>)"

definition record_failures :: "int \<Rightarrow> progress_monitor \<Rightarrow> progress_monitor" where
  "record_failures n m =
     (let d = n - pm_last_failures m; m1 = m\<lparr>pm_delta := d\<rparr>; m2 = (if d < 0 then mark_progress m1 else m1)
      in m2\<lparr>pm_last_failures := n\<rparr>)"

definition record_artifact :: "string \<Rightarrow> progress_monitor \<Rightarrow> progress_monitor" where
  "record_artifact a m =
     (if a \<in> set (pm_artifacts m) then m else mark_progress (m\<lparr>pm_artifacts := pm_artifacts m @ [a]\<rparr>))"

record progress_snapshot =
  sn_iteration :: nat
  sn_changed :: "string list"
  sn_delta :: int
  sn_artifacts :: "string list"
  sn_repeated :: nat
  sn_errors :: nat
  sn_since :: nat
  sn_remaining :: "string list"

definition snapshot_progress :: "nat \<Rightarrow> progress_monitor \<Rightarrow> progress_snapshot \<times> progress_monitor" where
  "snapshot_progress elapsed m =
     (let m' = (if pm_pending m then m\<lparr>pm_last_progress := elapsed, pm_pending := False\<rparr> else m)
      in (\<lparr>sn_iteration = pm_iteration m', sn_changed = pm_changed m', sn_delta = pm_delta m',
           sn_artifacts = pm_artifacts m', sn_repeated = pm_repeated m', sn_errors = pm_errors m',
           sn_since = elapsed - pm_last_progress m', sn_remaining = pm_remaining m'\<rparr>, m'))"

definition detect_abab :: "progress_monitor \<Rightarrow> bool" where
  "detect_abab m =
     (if length (pm_window m) < 4 then False
      else let last4 = drop (length (pm_window m) - 4) (pm_window m);
               a = wc_input (last4 ! 0); b = wc_input (last4 ! 1); got = map wc_input last4
           in if a = b then False
              else if [a, b, a, b] = got then True
              else if [b, a, b, a] = got then True
              else False)"

datatype stall_reason =
    IdenticalErrors nat
  | AlternatingCalls
  | BudgetRemaining int
  | NoProgressFor nat
  | IdenticalCalls nat

datatype stall_verdict =
    Progressing
  | SoftStall stall_reason
  | HardStall stall_reason
  | RepeatedFailure stall_reason
  | BudgetPressure stall_reason
  | StallBlocked stall_reason

definition minutes :: "nat \<Rightarrow> nat" where
  "minutes ms = (ms + 30000) div 60000"

definition detect_stall :: "nat \<Rightarrow> rat \<Rightarrow> progress_monitor \<Rightarrow> stall_verdict \<times> progress_monitor" where
  "detect_stall elapsed budget m =
     (let t = pm_thresholds m; (snap, m') = snapshot_progress elapsed m
      in (if pm_errors m' \<ge> th_errors t then RepeatedFailure (IdenticalErrors (pm_errors m'))
          else if detect_abab m' then RepeatedFailure AlternatingCalls
          else if budget < th_budget t then BudgetPressure (BudgetRemaining \<lfloor>budget * 100 + 1 / 2\<rfloor>)
          else if sn_since snap \<ge> th_hard t then HardStall (NoProgressFor (minutes (sn_since snap)))
          else if sn_since snap \<ge> th_soft t then SoftStall (NoProgressFor (minutes (sn_since snap)))
          else if pm_repeated m' \<ge> th_calls t then SoftStall (IdenticalCalls (pm_repeated m'))
          else Progressing, m'))"

section \<open>The critic\<close>

record critic_signals =
  cs_snapshot :: progress_snapshot
  cs_claiming :: bool
  cs_core :: bool
  cs_changed :: nat
  cs_unresolved :: nat
  cs_remaining :: nat

datatype critic_reason =
    CriticFailures nat
  | CriticNoProgress nat
  | CriticScope nat
  | CriticCore
  | CriticUnmet nat
  | CriticRegression
  | CriticUnresolved nat
  | CriticNoChanges

definition critic_reasons :: "critic_signals \<Rightarrow> critic_reason list" where
  "critic_reasons s = (let n = cs_snapshot s in
     (if sn_errors n \<ge> 3 then [CriticFailures (sn_errors n)] else []) @
     (if sn_since n \<ge> 10 * 60000 then [CriticNoProgress (minutes (sn_since n))] else []) @
     (if cs_changed s > 20 then [CriticScope (cs_changed s)] else []) @
     (if cs_core s \<and> sn_iteration n > 2 then [CriticCore] else []) @
     (if cs_claiming s then
        (if cs_remaining s > 0 then [CriticUnmet (cs_remaining s)] else []) @
        (if sn_delta n > 0 then [CriticRegression] else []) @
        (if cs_unresolved s > 0 then [CriticUnresolved (cs_unresolved s)] else []) @
        (if cs_changed s = 0 \<and> cs_remaining s > 0 then [CriticNoChanges] else [])
      else []))"

definition should_invoke_critic :: "critic_signals \<Rightarrow> critic_reason list option" where
  "should_invoke_critic s = (if critic_reasons s = [] then None else Some (critic_reasons s))"

section \<open>Histories\<close>

datatype monitor_op =
    MTick
  | MCriteria "string list"
  | MSatisfy string
  | MCall string json tool_outcome "string option"
  | MFailures int
  | MArtifact string
  | MTransition node_transition
  | MStall nat rat

fun monitor_step :: "monitor_op \<Rightarrow> progress_monitor \<Rightarrow> progress_monitor" where
  "monitor_step MTick m = tick m"
| "monitor_step (MCriteria cs) m = set_acceptance cs m"
| "monitor_step (MSatisfy c) m = satisfy_criterion c m"
| "monitor_step (MCall tool input r patch) m = record_tool_call tool input r patch m"
| "monitor_step (MFailures n) m = record_failures n m"
| "monitor_step (MArtifact a) m = record_artifact a m"
| "monitor_step (MTransition t) m = record_transition t m"
| "monitor_step (MStall e b) m = snd (detect_stall e b m)"

text \<open>The calls of a history: tool and fingerprint, error prefix, and the paths edited.\<close>

fun calls_of :: "monitor_op list \<Rightarrow> (string \<times> json) list" where
  "calls_of [] = []"
| "calls_of (MCall tool input r patch # xs) = (tool, stable_sort input) # calls_of xs"
| "calls_of (_ # xs) = calls_of xs"

fun errors_of :: "monitor_op list \<Rightarrow> string option list" where
  "errors_of [] = []"
| "errors_of (MCall tool input r patch # xs) = error_fingerprint r # errors_of xs"
| "errors_of (_ # xs) = errors_of xs"

definition edits_path :: "string \<Rightarrow> json \<Rightarrow> tool_outcome \<Rightarrow> bool" where
  "edits_path tool input r \<longleftrightarrow> \<not> to_is_error r \<and> is_edit_tool tool \<and> input_path input \<noteq> []"

fun paths_of :: "monitor_op list \<Rightarrow> string list" where
  "paths_of [] = []"
| "paths_of (MCall tool input r patch # xs) =
     (if edits_path tool input r then input_path input # paths_of xs else paths_of xs)"
| "paths_of (_ # xs) = paths_of xs"

lemma of_append [simp]:
  "calls_of (xs @ ys) = calls_of xs @ calls_of ys" "errors_of (xs @ ys) = errors_of xs @ errors_of ys"
  "paths_of (xs @ ys) = paths_of xs @ paths_of ys"
  by (induction xs rule: calls_of.induct) simp_all

text \<open>How often the last element of a list occurs at its end.\<close>

fun final_run :: "'a list \<Rightarrow> nat" where
  "final_run xs = (case rev xs of [] \<Rightarrow> 0 | x # ys \<Rightarrow> Suc (length (takeWhile (\<lambda>y. y = x) ys)))"

declare final_run.simps [simp del]

lemma final_run_Nil [simp]: "final_run [] = 0"
  by (simp add: final_run.simps)

lemma final_run_snoc:
  "final_run (xs @ [x]) = (if xs \<noteq> [] \<and> last xs = x then Suc (final_run xs) else 1)"
proof (cases xs rule: rev_cases)
  case (snoc ys y)
  then show ?thesis by (simp add: final_run.simps)
qed (simp add: final_run.simps)

lemma final_run_pos: "xs \<noteq> [] \<Longrightarrow> 0 < final_run xs"
  by (cases xs rule: rev_cases) (simp_all add: final_run_snoc)

definition last_of :: "'a list \<Rightarrow> 'a option" where
  "last_of xs = (if xs = [] then None else Some (last xs))"

lemma last_of_simps [simp]: "last_of [] = None" "last_of (xs @ [x]) = Some x"
  by (simp_all add: last_of_def)

definition error_run :: "string option list \<Rightarrow> nat" where
  "error_run es = (case last_of es of Some (Some _) \<Rightarrow> final_run es | _ \<Rightarrow> 0)"

lemma error_run_snoc:
  "error_run (es @ [e]) =
     (if e = None then 0 else if last_of es = Some e then Suc (error_run es) else 1)"
  by (cases e) (auto simp: error_run_def final_run_snoc last_of_def)

text \<open>What the state of the monitor says about the history.\<close>

definition tells :: "monitor_op list \<Rightarrow> progress_monitor \<Rightarrow> bool" where
  "tells ops m \<longleftrightarrow>
     pm_last_call m = last_of (calls_of ops) \<and> pm_repeated m = final_run (calls_of ops) - 1 \<and>
     pm_last_error m = (case last_of (errors_of ops) of Some e \<Rightarrow> e | None \<Rightarrow> None) \<and>
     pm_errors m = error_run (errors_of ops) \<and>
     map wc_input (pm_window m) = drop (length (calls_of ops) - window_size) (map snd (calls_of ops)) \<and>
     set (pm_changed m) = set (paths_of ops)"

lemma note_simps [simp]:
  "pm_last_call (note_repeat tool fp m) = Some (tool, fp)"
  "pm_repeated (note_repeat tool fp m) = (if pm_last_call m = Some (tool, fp) then Suc (pm_repeated m) else 0)"
  "pm_last_error (note_repeat tool fp m) = pm_last_error m" "pm_errors (note_repeat tool fp m) = pm_errors m"
  "pm_window (note_repeat tool fp m) = pm_window m" "pm_changed (note_repeat tool fp m) = pm_changed m"
  "pm_pending (note_repeat tool fp m) = pm_pending m"
  "pm_last_call (note_error r m) = pm_last_call m" "pm_repeated (note_error r m) = pm_repeated m"
  "pm_last_error (note_error r m) = error_fingerprint r"
  "pm_errors (note_error r m) = (if error_fingerprint r = None then 0
     else if pm_last_error m = error_fingerprint r then Suc (pm_errors m) else 1)"
  "pm_window (note_error r m) = pm_window m" "pm_changed (note_error r m) = pm_changed m"
  "pm_pending (note_error r m) = pm_pending m"
  by (auto simp: note_repeat_def note_error_def split: option.split)

lemma note_change_simps [simp]:
  "pm_last_call (note_change tool input r patch m) = pm_last_call m"
  "pm_repeated (note_change tool input r patch m) = pm_repeated m"
  "pm_last_error (note_change tool input r patch m) = pm_last_error m"
  "pm_errors (note_change tool input r patch m) = pm_errors m"
  "pm_window (note_change tool input r patch m) = pm_window m"
  "set (pm_changed (note_change tool input r patch m)) =
     (if edits_path tool input r then insert (input_path input) (set (pm_changed m)) else set (pm_changed m))"
  "pm_pending (note_change tool input r None m) \<longleftrightarrow> pm_pending m \<or>
     edits_path tool input r \<and> input_path input \<notin> set (pm_changed m)"
  by (auto simp: note_change_def mark_progress_def edits_path_def Let_def split: option.split)

lemma push_window_drop:
  "map wc_input ws = drop (length cs - window_size) cs \<Longrightarrow> wc_input w = c \<Longrightarrow>
     map wc_input (push_window w ws) = drop (Suc (length cs) - window_size) (cs @ [c])"
proof -
  assume ws: "map wc_input ws = drop (length cs - window_size) cs" and c: "wc_input w = c"
  then have len: "length ws = min (length cs) window_size" by (metis length_map length_drop diff_diff_cancel min_def nat_le_linear diff_is_0_eq minus_nat.diff_0)
  have "map wc_input (push_window w ws) = drop (Suc (length ws) - window_size) (drop (length cs - window_size) cs @ [c])"
    by (simp only: push_window_def drop_map [symmetric] map_append list.map ws c)
  also have "\<dots> = drop (Suc (length cs) - window_size) (cs @ [c])"
  proof (cases "length cs \<le> window_size")
    case True
    with len show ?thesis by simp
  next
    case False
    then have "length ws = window_size" "Suc (length cs) - window_size = Suc (length cs - window_size)"
      using len by auto
    with False show ?thesis by (simp add: window_size_def)
  qed
  finally show ?thesis .
qed

lemma tells_call:
  assumes "tells ops m"
  shows "tells (ops @ [MCall tool input r patch]) (record_tool_call tool input r patch m)"
proof -
  have win: "map wc_input (pm_window (record_tool_call tool input r patch m)) =
      drop (Suc (length (calls_of ops)) - window_size) (map snd (calls_of ops) @ [stable_sort input])"
    using push_window_drop [of "pm_window m" "map snd (calls_of ops)"] assms
    by (simp add: record_tool_call_def Let_def tells_def)
  have rep: "pm_repeated (record_tool_call tool input r patch m) =
      final_run (calls_of ops @ [(tool, stable_sort input)]) - 1"
  proof -
    have "pm_repeated (record_tool_call tool input r patch m) =
        (if last_of (calls_of ops) = Some (tool, stable_sort input) then Suc (final_run (calls_of ops) - 1) else 0)"
      using assms by (simp add: record_tool_call_def Let_def tells_def)
    then show ?thesis
      using final_run_pos [of "calls_of ops"] by (auto simp: final_run_snoc last_of_def)
  qed
  have err: "pm_errors (record_tool_call tool input r patch m) = error_run (errors_of ops @ [error_fingerprint r])"
  proof -
    have old: "pm_errors m = error_run (errors_of ops)"
      "pm_last_error m = (case last_of (errors_of ops) of Some e \<Rightarrow> e | None \<Rightarrow> None)"
      using assms by (simp_all add: tells_def)
    have "pm_errors (record_tool_call tool input r patch m) = (if error_fingerprint r = None then 0
        else if pm_last_error m = error_fingerprint r then Suc (pm_errors m) else 1)"
      by (simp add: record_tool_call_def Let_def)
    then show ?thesis
      unfolding old error_run_snoc by (auto split: option.splits)
  qed
  show ?thesis
    unfolding tells_def of_append calls_of.simps errors_of.simps paths_of.simps
  proof (intro conjI)
    show "pm_repeated (record_tool_call tool input r patch m) =
      final_run (calls_of ops @ [(tool, stable_sort input)]) - 1" by (rule rep)
    show "pm_errors (record_tool_call tool input r patch m) = error_run (errors_of ops @ [error_fingerprint r])"
      by (rule err)
  qed (use assms win in \<open>auto simp: record_tool_call_def Let_def tells_def\<close>)
qed

lemma tells_step: "tells ops m \<Longrightarrow> tells (ops @ [x]) (monitor_step x m)"
  using tells_call
  by (cases x) (auto simp: tells_def tick_def set_acceptance_def satisfy_criterion_def record_failures_def
      record_artifact_def record_transition_def mark_progress_def detect_stall_def snapshot_progress_def Let_def)

lemma monitor_tells: "tells ops (fold monitor_step ops (new_monitor t))"
proof (induction ops rule: rev_induct)
  case Nil
  then show ?case by (simp add: tells_def new_monitor_def error_run_def)
next
  case (snoc x ops)
  then show ?case by (simp add: tells_step)
qed

lemma abab_window:
  assumes "map wc_input ws = drop (length cs - window_size) cs"
  shows "detect_abab (m\<lparr>pm_window := ws\<rparr>) \<longleftrightarrow> (\<exists>pre a b. a \<noteq> b \<and> cs = pre @ [a, b, a, b])"
proof (cases "length cs < 4")
  case True
  then have "length ws < 4" using arg_cong [OF assms, of length] by simp
  with True show ?thesis by (auto simp: detect_abab_def)
next
  case False
  then have ws: "4 \<le> length ws" using arg_cong [OF assms, of length] by (auto simp: window_size_def)
  have "map wc_input (drop (length ws - 4) ws) = drop (length cs - 4) cs"
  proof -
    have "length ws = min (length cs) 8"
      using arg_cong [OF assms, of length] by (simp add: window_size_def min_def split: if_splits)
    then have "length ws - 4 + (length cs - 8) = length cs - 4" using False by auto
    then show ?thesis using assms by (simp add: drop_map [symmetric] window_size_def)
  qed
  moreover obtain a b c d where abcd: "drop (length cs - 4) cs = [a, b, c, d]"
  proof -
    have "length (drop (length cs - 4) cs) = Suc (Suc (Suc (Suc 0)))" using False by simp
    then obtain a b c d where "drop (length cs - 4) cs = [a, b, c, d]"
      by (auto simp only: length_Suc_conv length_0_conv)
    then show thesis by (rule that)
  qed
  ultimately have got: "map wc_input (drop (length ws - 4) ws) = [a, b, c, d]" by simp
  then obtain p q r u where l: "drop (length ws - 4) ws = [p, q, r, u]"
    and v: "wc_input p = a" "wc_input q = b" "wc_input r = c" "wc_input u = d"
    by (auto simp: map_eq_Cons_conv)
  have cs: "cs = take (length cs - 4) cs @ [a, b, c, d]"
    using append_take_drop_id [of "length cs - 4" cs] abcd by simp
  have "detect_abab (m\<lparr>pm_window := ws\<rparr>) \<longleftrightarrow> a \<noteq> b \<and> c = a \<and> d = b"
    using ws v by (auto simp: detect_abab_def Let_def l simp del: nth_drop)
  also have "\<dots> \<longleftrightarrow> (\<exists>pre x y. x \<noteq> y \<and> cs = pre @ [x, y, x, y])"
  proof
    assume "a \<noteq> b \<and> c = a \<and> d = b"
    with cs show "\<exists>pre x y. x \<noteq> y \<and> cs = pre @ [x, y, x, y]" by metis
  next
    assume "\<exists>pre x y. x \<noteq> y \<and> cs = pre @ [x, y, x, y]"
    then obtain pre x y where "x \<noteq> y" "cs = pre @ [x, y, x, y]" by blast
    then show "a \<noteq> b \<and> c = a \<and> d = b" using abcd by auto
  qed
  finally show ?thesis .
qed

section \<open>Quiet stretches\<close>

text \<open>
  Operations that can never be progress: reading, searching and running commands, failing edits,
  and the bookkeeping of the loop itself.
\<close>

fun quiet :: "monitor_op \<Rightarrow> bool" where
  "quiet MTick = True"
| "quiet (MCriteria _) = True"
| "quiet (MCall tool input r _) = (\<not> edits_path tool input r)"
| "quiet (MTransition t) = (t = TStarted \<or> t = TVerifying \<or> t = TBlocked)"
| "quiet (MStall _ _) = True"
| "quiet _ = False"

fun before :: "nat \<Rightarrow> monitor_op \<Rightarrow> bool" where
  "before e (MStall e' _) = (e' \<le> e)"
| "before e _ = True"

lemma note_change_frame [simp]:
  "\<not> edits_path tool input r \<Longrightarrow> note_change tool input r patch m = m"
  "pm_last_progress (note_change tool input r patch m) = pm_last_progress m"
  "pm_thresholds (note_change tool input r patch m) = pm_thresholds m"
  "pm_last_progress (note_error r m) = pm_last_progress m" "pm_thresholds (note_error r m) = pm_thresholds m"
  "pm_last_progress (note_repeat tool fp m) = pm_last_progress m"
  "pm_thresholds (note_repeat tool fp m) = pm_thresholds m"
  by (auto simp: note_change_def note_error_def note_repeat_def edits_path_def mark_progress_def Let_def
      split: option.splits)

lemmas monitor_defs = tick_def set_acceptance_def satisfy_criterion_def record_failures_def
  record_artifact_def record_transition_def mark_progress_def record_tool_call_def Let_def

lemma monitor_frame:
  "pm_thresholds (monitor_step x m) = pm_thresholds m"
  "before e0 x \<Longrightarrow> pm_last_progress m \<le> e0 \<Longrightarrow> pm_last_progress (monitor_step x m) \<le> e0"
  by (cases x; simp add: monitor_defs detect_stall_def snapshot_progress_def)+

lemma quiet_frame:
  assumes "quiet x" "\<not> pm_pending m"
  shows "\<not> pm_pending (monitor_step x m) \<and> pm_last_progress (monitor_step x m) = pm_last_progress m"
  using assms by (cases x) (auto simp: monitor_defs detect_stall_def snapshot_progress_def)

lemma monitor_run_frame:
  "pm_thresholds (fold monitor_step ops m) = pm_thresholds m"
  "list_all (before e0) ops \<Longrightarrow> pm_last_progress m \<le> e0 \<Longrightarrow> pm_last_progress (fold monitor_step ops m) \<le> e0"
  by (induction ops arbitrary: m) (simp_all add: monitor_frame)

lemma quiet_run:
  "list_all quiet ops \<Longrightarrow> \<not> pm_pending m \<Longrightarrow>
     \<not> pm_pending (fold monitor_step ops m) \<and> pm_last_progress (fold monitor_step ops m) = pm_last_progress m"
proof (induction ops arbitrary: m)
  case (Cons x ops)
  with quiet_frame [of x m] show ?case by simp
qed simp

lemma progressing_time:
  assumes "fst (detect_stall e b m) = Progressing" "\<not> pm_pending m"
  shows "e < pm_last_progress m + th_soft (pm_thresholds m)"
  using assms by (auto simp: detect_stall_def snapshot_progress_def Let_def split: if_splits)

section \<open>Properties\<close>

text \<open>
  (C31) Loops are detected exactly: after any history, an alternating pattern is reported iff the last
  four calls have the inputs A, B, A, B with A different from B; the error counter is the length of
  the final run of failures with the same first 200 characters, and the repeat counter one less
  than the final run of identical calls. The window never holds more than eight calls.
\<close>

theorem loops_are_detected_exactly:
  fixes ops :: "monitor_op list" and t :: stall_thresholds
  defines "m \<equiv> fold monitor_step ops (new_monitor t)"
  shows "(detect_abab m \<longleftrightarrow> (\<exists>pre a b. a \<noteq> b \<and> map snd (calls_of ops) = pre @ [a, b, a, b])) \<and>
    pm_errors m = error_run (errors_of ops) \<and> pm_repeated m = final_run (calls_of ops) - 1 \<and>
    length (pm_window m) \<le> 8"
proof -
  have told: "tells ops m" unfolding m_def by (rule monitor_tells)
  then have w: "map wc_input (pm_window m) = drop (length (map snd (calls_of ops)) - window_size) (map snd (calls_of ops))"
    by (simp add: tells_def)
  from arg_cong [OF w, of length] have "length (pm_window m) \<le> 8" by (simp add: window_size_def)
  with told abab_window [OF w, of m] show ?thesis by (simp add: tells_def)
qed

text \<open>
  Silence is noticed: once the loop has asked for a verdict, a stretch of reads, searches and
  failing commands that lasts for the soft limit, counted from that moment, is never reported as
  progressing, whatever happened before and whatever the budget.
\<close>

theorem silence_is_noticed:
  assumes "list_all (before e0) ops" and "list_all quiet ops'" and "e0 + th_soft t \<le> e"
  shows "fst (detect_stall e b (fold monitor_step (ops @ MStall e0 b0 # ops') (new_monitor t))) \<noteq> Progressing"
proof
  let ?m0 = "fold monitor_step ops (new_monitor t)"
  let ?m1 = "snd (detect_stall e0 b0 ?m0)" and ?m2 = "fold monitor_step (ops @ MStall e0 b0 # ops') (new_monitor t)"
  assume p: "fst (detect_stall e b ?m2) = Progressing"
  have "pm_last_progress ?m0 \<le> e0"
    by (rule monitor_run_frame(2) [OF assms(1)]) (simp add: new_monitor_def)
  then have m1: "\<not> pm_pending ?m1" "pm_last_progress ?m1 \<le> e0"
    by (simp_all add: detect_stall_def snapshot_progress_def Let_def)
  have m2: "?m2 = fold monitor_step ops' ?m1" by simp
  from quiet_run [OF assms(2) m1(1)] have q: "\<not> pm_pending ?m2" "pm_last_progress ?m2 \<le> e0"
    using m1(2) unfolding m2 by simp_all
  have "pm_thresholds ?m2 = t" by (simp only: monitor_run_frame(1)) (simp add: new_monitor_def)
  with progressing_time [OF p q(1)] q(2) assms(3) show False by simp
qed

theorem silence_is_noticed_witness:
  "fst (detect_stall 660000 1 (fold monitor_step ([MTransition TCompleted] @ MStall 60000 1 #
     [MTick, MCall ''Read'' (JObj [(''file_path'', JStr ''a.ts'')]) \<lparr>to_is_error = False, to_content = []\<rparr> None])
     (new_monitor default_thresholds))) \<noteq> Progressing"
  by (rule silence_is_noticed) (simp_all add: default_thresholds_def edits_path_def is_edit_tool_def)

text \<open>
  A file counts once: without a content hash, which is how the tool executor reports calls, a
  tool call marks progress iff it is a successful edit of a file that no earlier call of the run
  edited. Further edits of the same file never reset the stall timer.
\<close>

theorem edits_count_once_per_file:
  fixes ops :: "monitor_op list" and t :: stall_thresholds
  defines "m \<equiv> fold monitor_step ops (new_monitor t)"
  shows "pm_pending (record_tool_call tool input r None m) \<longleftrightarrow>
    pm_pending m \<or> edits_path tool input r \<and> input_path input \<notin> set (paths_of ops)"
  using monitor_tells [of ops t] by (simp add: record_tool_call_def Let_def tells_def m_def)

text \<open>
  Fingerprints ignore the order of object keys at every depth, so the same call written
  differently is recognised as a repetition.
\<close>

theorem fingerprint_ignores_key_order:
  assumes "same_json v w"
  shows "stable_sort v = stable_sort w"
  using assms
proof (induction rule: same_json.induct)
  case (same_arr xs ys)
  then have "map stable_sort xs = map stable_sort ys" by (auto simp: list_all2_conv_all_nth intro: nth_equalityI)
  then show ?case by simp
next
  case (same_obj kvs kvs' kvs'')
  let ?f = "\<lambda>(k, v). (k :: string, stable_sort v)"
  have eq: "map ?f kvs = map ?f kvs'"
    using same_obj.IH by (auto simp: list_all2_conv_all_nth split_beta intro: nth_equalityI)
  have "sort_key fst (map ?f kvs'') = sort_key fst (map ?f kvs)"
  proof (rule sort_key_inj_key_eq)
    show "mset (map ?f kvs'') = mset (sort_key fst (map ?f kvs))"
      using same_obj.hyps by (simp add: eq)
    have "map fst (map ?f kvs) = map fst kvs" by (simp add: split_beta comp_def)
    then have "distinct (map fst (map ?f kvs))" using same_obj.hyps by (simp only:)
    then have "inj_on fst (set (map ?f kvs))" by (simp only: distinct_map)
    moreover have "set (map ?f kvs'') = set (map ?f kvs)"
      using mset_eq_setD [OF same_obj.hyps(1)] unfolding eq set_map by simp
    ultimately show "inj_on fst (set (map ?f kvs''))" by simp
    show "sorted (map fst (sort_key fst (map ?f kvs)))" by simp
  qed
  then show ?case by simp
qed simp

theorem fingerprint_ignores_key_order_witness:
  "stable_sort (JObj [(''b'', JNum 1), (''a'', JNull)]) = stable_sort (JObj [(''a'', JNull), (''b'', JNum 1)])"
proof (rule fingerprint_ignores_key_order)
  show "same_json (JObj [(''b'', JNum 1), (''a'', JNull)]) (JObj [(''a'', JNull), (''b'', JNum 1)])"
    by (rule same_obj [where kvs' = "[(''b'', JNum 1), (''a'', JNull)]"])
      (simp_all add: same_refl)
qed

end
