(* ===== verification/JsRegex.thy ===== *)
theory JsRegex
  imports Prelude
begin

text \<open>
  The part of JavaScript's regular expressions the permission code uses: characters and classes,
  sequence, alternatives, \<open>*\<close> and what is made of it, the anchors \<open>^\<close> and \<open>$\<close> (without the \<open>m\<close>
  flag), \<open>\\b\<close> and the look-aheads.

  A position is the character before it and the text after it. \<open>rx_ends\<close> lists the ends of the
  matches at a position in the order the backtracking matcher tries them; \<open>rx_rel\<close> is the
  declarative meaning, and \<open>rx_lang\<close> the language of an expression without anchors.
\<close>

type_synonym text_pos = "char option \<times> string"

datatype rx =
    ROne
  | RChr "char \<Rightarrow> bool"
  | RSeq rx rx
  | RAlt rx rx
  | RStar rx
  | RBos
  | REos
  | RWordB
  | RAhead bool rx

section \<open>Characters\<close>

definition line_end :: "char \<Rightarrow> bool" where
  "line_end c = (c = CHR 0x0A \<or> c = CHR 0x0D)"

text \<open>\<open>.\<close> without the \<open>s\<close> flag.\<close>

definition dot :: "char \<Rightarrow> bool" where
  "dot c = (\<not> line_end c)"

definition char_between :: "char \<Rightarrow> char \<Rightarrow> char \<Rightarrow> bool" where
  "char_between a b c = ((of_char a :: nat) \<le> of_char c \<and> (of_char c :: nat) \<le> of_char b)"

definition is_letter :: "char \<Rightarrow> bool" where
  "is_letter c = (char_between (CHR ''a'') (CHR ''z'') c \<or> char_between (CHR ''A'') (CHR ''Z'') c)"

definition is_digit :: "char \<Rightarrow> bool" where
  "is_digit c = char_between (CHR ''0'') (CHR ''9'') c"

definition word_char :: "char \<Rightarrow> bool" where
  "word_char c = (is_letter c \<or> is_digit c \<or> c = CHR ''_'')"

text \<open>The same tests on the bits of a character, for evaluation.\<close>

lemma is_space_bits [code]:
  "is_space (Char b0 b1 b2 b3 b4 b5 b6 b7) =
     ((\<not> b0 \<and> \<not> b1 \<and> \<not> b2 \<and> \<not> b3 \<and> \<not> b4 \<and> b5 \<and> \<not> b6) \<or>
      (b3 \<and> \<not> b4 \<and> \<not> b5 \<and> \<not> b6 \<and> \<not> b7 \<and> (b0 \<or> b1 \<or> b2) \<and> \<not> (b1 \<and> b2)))"
  by (cases b0; cases b1; cases b2; cases b3; cases b4; cases b5; cases b6; cases b7)
    (simp_all add: is_space_def)

lemma is_digit_bits [code]:
  "is_digit (Char b0 b1 b2 b3 b4 b5 b6 b7) =
     (b4 \<and> b5 \<and> \<not> b6 \<and> \<not> b7 \<and> \<not> (b3 \<and> (b1 \<or> b2)))"
  by (cases b0; cases b1; cases b2; cases b3; cases b4; cases b5; cases b6; cases b7)
    (simp_all add: is_digit_def char_between_def)

lemma is_letter_bits [code]:
  "is_letter (Char b0 b1 b2 b3 b4 b5 b6 b7) =
     (b6 \<and> \<not> b7 \<and> (b0 \<or> b1 \<or> b2 \<or> b3 \<or> b4) \<and> \<not> (b4 \<and> b3 \<and> (b2 \<or> (b0 \<and> b1))))"
  by (cases b0; cases b1; cases b2; cases b3; cases b4; cases b5; cases b6; cases b7)
    (simp_all add: is_letter_def char_between_def)

text \<open>Lower case, on the characters below 256.\<close>

definition lower_char :: "char \<Rightarrow> char" where
  "lower_char c =
     (let n = (of_char c :: nat)
      in if (65 \<le> n \<and> n \<le> 90) \<or> (192 \<le> n \<and> n \<le> 222 \<and> n \<noteq> 215) then char_of (n + 32) else c)"

lemma lower_char_bits [code]:
  "lower_char (Char b0 b1 b2 b3 b4 b5 b6 b7) =
     Char b0 b1 b2 b3 b4
       (b5 \<or> (b6 \<and> (if b7 then \<not> (b0 \<and> b1 \<and> b2 \<and> b4)
                    else (b0 \<or> b1 \<or> b2 \<or> b3 \<or> b4) \<and> \<not> (b4 \<and> b3 \<and> (b2 \<or> (b0 \<and> b1))))))
       b6 b7"
  by (cases b0; cases b1; cases b2; cases b3; cases b4; cases b5; cases b6; cases b7)
    (simp_all add: lower_char_def char_of_def bit_simps)

definition to_lower :: "string \<Rightarrow> string" where
  "to_lower s = map lower_char s"

section \<open>The matcher\<close>

function star_ends :: "(text_pos \<Rightarrow> text_pos list) \<Rightarrow> text_pos \<Rightarrow> text_pos list" where
  "star_ends f p =
     concat (map (star_ends f) (filter (\<lambda>q. length (snd q) < length (snd p)) (f p))) @ [p]"
  by pat_completeness auto
termination
  by (relation "measure (\<lambda>(f, p). length (snd p))") auto

declare star_ends.simps [simp del]

definition at_word_boundary :: "text_pos \<Rightarrow> bool" where
  "at_word_boundary p =
     ((case fst p of None \<Rightarrow> False | Some c \<Rightarrow> word_char c)
       \<noteq> (case snd p of [] \<Rightarrow> False | c # cs \<Rightarrow> word_char c))"

fun rx_ends :: "rx \<Rightarrow> text_pos \<Rightarrow> text_pos list" where
  "rx_ends ROne p = [p]"
| "rx_ends (RChr P) p =
     (case snd p of [] \<Rightarrow> [] | c # cs \<Rightarrow> if P c then [(Some c, cs)] else [])"
| "rx_ends (RSeq r1 r2) p = concat (map (rx_ends r2) (rx_ends r1 p))"
| "rx_ends (RAlt r1 r2) p = rx_ends r1 p @ rx_ends r2 p"
| "rx_ends (RStar r) p = star_ends (rx_ends r) p"
| "rx_ends RBos p = (if fst p = None then [p] else [])"
| "rx_ends REos p = (if snd p = [] then [p] else [])"
| "rx_ends RWordB p = (if at_word_boundary p then [p] else [])"
| "rx_ends (RAhead b r) p = (if (rx_ends r p \<noteq> []) = b then [p] else [])"

fun positions_from :: "char option \<Rightarrow> string \<Rightarrow> text_pos list" where
  "positions_from b [] = [(b, [])]"
| "positions_from b (c # cs) = (b, c # cs) # positions_from (Some c) cs"

text \<open>\<open>RegExp.test\<close>.\<close>

definition rx_test :: "rx \<Rightarrow> string \<Rightarrow> bool" where
  "rx_test r s = list_ex (\<lambda>p. rx_ends r p \<noteq> []) (positions_from None s)"

section \<open>Derived expressions\<close>

fun rx_seq :: "rx list \<Rightarrow> rx" where
  "rx_seq [] = ROne"
| "rx_seq [r] = r"
| "rx_seq (r # q # rs) = RSeq r (rx_seq (q # rs))"

fun rx_alt :: "rx list \<Rightarrow> rx" where
  "rx_alt [] = RChr (\<lambda>_. False)"
| "rx_alt [r] = r"
| "rx_alt (r # q # rs) = RAlt r (rx_alt (q # rs))"

definition rx_opt :: "rx \<Rightarrow> rx" where
  "rx_opt r = RAlt r ROne"

definition rx_plus :: "rx \<Rightarrow> rx" where
  "rx_plus r = RSeq r (RStar r)"

primrec rx_lit :: "string \<Rightarrow> rx" where
  "rx_lit [] = ROne"
| "rx_lit (c # cs) = RSeq (RChr (\<lambda>x. x = c)) (rx_lit cs)"

text \<open>A literal under the \<open>i\<close> flag; the literals are ASCII.\<close>

primrec rx_lit_i :: "string \<Rightarrow> rx" where
  "rx_lit_i [] = ROne"
| "rx_lit_i (c # cs) = RSeq (RChr (\<lambda>x. lower_char x = lower_char c)) (rx_lit_i cs)"

definition rx_any :: rx where
  "rx_any = RStar (RChr dot)"

definition rx_spaces :: rx where
  "rx_spaces = rx_plus (RChr is_space)"

definition rx_spaces0 :: rx where
  "rx_spaces0 = RStar (RChr is_space)"

section \<open>Meaning\<close>

definition move_by :: "text_pos \<Rightarrow> string \<Rightarrow> text_pos \<Rightarrow> bool" where
  "move_by p w q = (snd p = w @ snd q \<and> fst q = (if w = [] then fst p else Some (last w)))"

primrec rx_rel :: "rx \<Rightarrow> text_pos rel" where
  "rx_rel ROne = Id"
| "rx_rel (RChr P) = {(p, q). \<exists>c. P c \<and> move_by p [c] q}"
| "rx_rel (RSeq r1 r2) = rx_rel r1 O rx_rel r2"
| "rx_rel (RAlt r1 r2) = rx_rel r1 \<union> rx_rel r2"
| "rx_rel (RStar r) = (rx_rel r)\<^sup>*"
| "rx_rel RBos = {(p, q). p = q \<and> fst p = None}"
| "rx_rel REos = {(p, q). p = q \<and> snd p = []}"
| "rx_rel RWordB = {(p, q). p = q \<and> at_word_boundary p}"
| "rx_rel (RAhead b r) = {(p, q). p = q \<and> (p \<in> Domain (rx_rel r)) = b}"

lemma move_by_refl [simp]: "move_by p [] q \<longleftrightarrow> q = p"
  by (auto simp: move_by_def prod_eq_iff)

lemma move_by_trans: "move_by p v q \<Longrightarrow> move_by q w r \<Longrightarrow> move_by p (v @ w) r"
  by (auto simp: move_by_def)

lemma move_by_length: "move_by p w q \<Longrightarrow> length (snd p) = length w + length (snd q)"
  by (simp add: move_by_def)

lemma move_by_split: "move_by p (v @ w) r \<Longrightarrow> \<exists>q. move_by p v q \<and> move_by q w r"
  by (rule exI [of _ "(if v = [] then fst p else Some (last v), w @ snd r)"])
    (auto simp: move_by_def)

lemma steps_moves:
  assumes "(p, q) \<in> R\<^sup>*" and "\<And>p q. (p, q) \<in> R \<Longrightarrow> \<exists>w. move_by p w q"
  shows "\<exists>w. move_by p w q"
  using assms(1)
proof (induction rule: rtrancl_induct)
  case base
  show ?case by (rule exI [of _ "[]"]) simp
next
  case (step q q')
  from step.IH assms(2) [OF step.hyps(2)] show ?case by (blast intro: move_by_trans)
qed

lemma move_by_append: "move_by p (v @ w) r \<longleftrightarrow> (\<exists>q. move_by p v q \<and> move_by q w r)"
  using move_by_split move_by_trans by blast

lemma rx_rel_moves: "(p, q) \<in> rx_rel r \<Longrightarrow> \<exists>w. move_by p w q"
proof (induction r arbitrary: p q)
  case (RSeq r1 r2)
  then show ?case by (simp add: relcomp_unfold) (blast intro: move_by_trans)
next
  case (RAlt r1 r2)
  then show ?case by (simp add: Un_def) blast
next
  case (RStar r)
  from RStar.prems have "(p, q) \<in> (rx_rel r)\<^sup>*" by simp
  then show ?case by (rule steps_moves) (rule RStar.IH)
next
  case (RChr P)
  then show ?case by (simp add: Bex_def) blast
qed (simp_all, (rule exI [of _ "[]"], simp)+)

lemma rx_rel_progress:
  assumes "(p, q) \<in> rx_rel r"
  shows "q = p \<or> length (snd q) < length (snd p)"
proof -
  from rx_rel_moves [OF assms] obtain w where w: "move_by p w q" by blast
  show ?thesis
  proof (cases w)
    case Nil
    with w show ?thesis by simp
  next
    case (Cons c cs)
    with move_by_length [OF w] show ?thesis by simp
  qed
qed

lemma star_ends_iff:
  "q \<in> set (star_ends f p) \<longleftrightarrow>
     q = p \<or> (\<exists>p'\<in>set (f p). length (snd p') < length (snd p) \<and> q \<in> set (star_ends f p'))"
  by (subst star_ends.simps) auto

lemma star_ends_sound:
  "q \<in> set (star_ends f p) \<Longrightarrow> (\<And>p. set (f p) = R `` {p}) \<Longrightarrow> (p, q) \<in> R\<^sup>*"
proof (induction f p rule: star_ends.induct)
  case (1 f p)
  from "1.prems"(1) consider "q = p"
    | p' where "p' \<in> set (f p)" "length (snd p') < length (snd p)" "q \<in> set (star_ends f p')"
    by (subst (asm) star_ends_iff) blast
  then show ?case
  proof cases
    case 2
    then have "(p', q) \<in> R\<^sup>*" by (intro "1.IH" "1.prems") simp
    moreover from 2 "1.prems"(2) [of p] have "(p, p') \<in> R" by auto
    ultimately show ?thesis by (rule converse_rtrancl_into_rtrancl [rotated])
  qed simp
qed

lemma star_ends_complete:
  assumes "(p, q) \<in> R\<^sup>*" and f: "\<And>p. set (f p) = R `` {p}"
    and progress: "\<And>p q. (p, q) \<in> R \<Longrightarrow> q = p \<or> length (snd q) < length (snd p)"
  shows "q \<in> set (star_ends f p)"
proof -
  from assms(1) have "(p, q) \<in> (R - Id)\<^sup>*" by (simp add: rtrancl_r_diff_Id)
  then show ?thesis
  proof (induction rule: converse_rtrancl_induct)
    case base
    show ?case by (subst star_ends_iff) simp
  next
    case (step a b)
    from step.hyps(1) f [of a] progress [of a b]
    have "b \<in> set (f a)" "length (snd b) < length (snd a)" by auto
    with step.IH show ?case by (subst star_ends_iff) blast
  qed
qed

lemma rx_ends_correct: "set (rx_ends r p) = rx_rel r `` {p}"
proof (induction r arbitrary: p)
  case (RStar r)
  have "q \<in> set (star_ends (rx_ends r) p) \<longleftrightarrow> (p, q) \<in> (rx_rel r)\<^sup>*" for q
    by (rule iffI, erule star_ends_sound, rule RStar.IH, erule star_ends_complete, rule RStar.IH,
        rule rx_rel_progress)
  then show ?case by (simp add: set_eq_iff del: split_paired_All)
next
  case (RChr P)
  show ?case by (cases p; cases "snd p") (auto simp: move_by_def)
next
  case (RAhead b r)
  have "rx_ends r p \<noteq> [] \<longleftrightarrow> p \<in> Domain (rx_rel r)"
    using RAhead.IH [of p] by (metis Domain.simps Image_singleton_iff equals0D last_in_set set_empty)
  then show ?case by auto
next
  case (RSeq r1 r2)
  then show ?case by (simp add: relcomp_Image) auto
qed auto

lemma positions_from_iff:
  "p \<in> set (positions_from b s) \<longleftrightarrow> (\<exists>w. move_by (b, s) w p)"
proof (induction b s rule: positions_from.induct)
  case (1 b)
  then show ?case by (auto simp: move_by_def prod_eq_iff)
next
  case (2 b c cs)
  have "(\<exists>w. move_by (b, c # cs) w p) \<longleftrightarrow> p = (b, c # cs) \<or> (\<exists>w. move_by (Some c, cs) w p)"
  proof (intro iffI; (elim exE disjE)?)
    fix w assume m: "move_by (b, c # cs) w p"
    show "p = (b, c # cs) \<or> (\<exists>w. move_by (Some c, cs) w p)"
    proof (cases w)
      case Nil
      with m show ?thesis by simp
    next
      case (Cons d w')
      with m have "move_by (Some c, cs) w' p" by (auto simp: move_by_def)
      then show ?thesis by blast
    qed
  next
    assume "p = (b, c # cs)"
    then have "move_by (b, c # cs) [] p" by simp
    then show "\<exists>w. move_by (b, c # cs) w p" by blast
  next
    fix w assume "move_by (Some c, cs) w p"
    then have "move_by (b, c # cs) (c # w) p" by (auto simp: move_by_def)
    then show "\<exists>w. move_by (b, c # cs) w p" by blast
  qed
  with 2 show ?case by simp
qed

lemma rx_test_iff:
  "rx_test r s \<longleftrightarrow> (\<exists>w p. move_by (None, s) w p \<and> p \<in> Domain (rx_rel r))"
proof -
  have "rx_ends r p \<noteq> [] \<longleftrightarrow> p \<in> Domain (rx_rel r)" for p
    using rx_ends_correct [of r p] by (metis Domain.simps Image_singleton_iff equals0D last_in_set set_empty)
  then have "rx_test r s \<longleftrightarrow> (\<exists>p\<in>set (positions_from None s). p \<in> Domain (rx_rel r))"
    by (simp add: rx_test_def list_ex_iff)
  also have "\<dots> \<longleftrightarrow> (\<exists>p w. move_by (None, s) w p \<and> p \<in> Domain (rx_rel r))"
    by (simp only: Bex_def positions_from_iff) blast
  finally show ?thesis by blast
qed

section \<open>Languages\<close>

text \<open>Without anchors and look-arounds a match depends only on the text it covers.\<close>

fun rx_plain :: "rx \<Rightarrow> bool" where
  "rx_plain (RSeq r1 r2) = (rx_plain r1 \<and> rx_plain r2)"
| "rx_plain (RAlt r1 r2) = (rx_plain r1 \<and> rx_plain r2)"
| "rx_plain (RStar r) = rx_plain r"
| "rx_plain ROne = True"
| "rx_plain (RChr P) = True"
| "rx_plain RBos = False"
| "rx_plain REos = False"
| "rx_plain RWordB = False"
| "rx_plain (RAhead b r) = False"

fun rx_lang :: "rx \<Rightarrow> string set" where
  "rx_lang (RSeq r1 r2) = {v @ w | v w. v \<in> rx_lang r1 \<and> w \<in> rx_lang r2}"
| "rx_lang (RAlt r1 r2) = rx_lang r1 \<union> rx_lang r2"
| "rx_lang (RStar r) = concat ` lists (rx_lang r)"
| "rx_lang (RChr P) = {[c] | c. P c}"
| "rx_lang ROne = {[]}"
| "rx_lang _ = {}"

lemma star_moves:
  assumes "\<And>p q. (p, q) \<in> R \<longleftrightarrow> (\<exists>w\<in>L. move_by p w q)"
  shows "(p, q) \<in> R\<^sup>* \<longleftrightarrow> (\<exists>w\<in>concat ` lists L. move_by p w q)"
proof
  assume "(p, q) \<in> R\<^sup>*"
  then show "\<exists>w\<in>concat ` lists L. move_by p w q"
  proof (induction rule: converse_rtrancl_induct)
    case base
    show ?case by (rule bexI [of _ "[]"]) (auto intro: image_eqI [of _ _ "[]"])
  next
    case (step a b)
    then obtain v ws where "v \<in> L" "move_by a v b" "ws \<in> lists L" "move_by b (concat ws) q"
      using assms by blast
    then have "move_by a (concat (v # ws)) q" "v # ws \<in> lists L"
      by (auto intro: move_by_trans)
    then show ?case by blast
  qed
next
  assume "\<exists>w\<in>concat ` lists L. move_by p w q"
  then obtain ws where "ws \<in> lists L" "move_by p (concat ws) q" by blast
  then show "(p, q) \<in> R\<^sup>*"
  proof (induction ws arbitrary: p)
    case Nil
    then show ?case by simp
  next
    case (Cons w ws)
    then obtain p' where "move_by p w p'" "move_by p' (concat ws) q"
      using move_by_split [of p w "concat ws" q] by auto
    with Cons have "(p, p') \<in> R" "(p', q) \<in> R\<^sup>*" using assms by auto
    then show ?case by (rule converse_rtrancl_into_rtrancl)
  qed
qed

lemma rx_rel_lang: "rx_plain r \<Longrightarrow> (p, q) \<in> rx_rel r \<longleftrightarrow> (\<exists>w\<in>rx_lang r. move_by p w q)"
proof (induction r arbitrary: p q)
  case (RStar r)
  then show ?case by (simp only: rx_rel.simps rx_lang.simps rx_plain.simps) (rule star_moves, blast)
next
  case (RSeq r1 r2)
  then have 1: "(p, q) \<in> rx_rel r1 \<longleftrightarrow> (\<exists>w\<in>rx_lang r1. move_by p w q)"
    and 2: "(p, q) \<in> rx_rel r2 \<longleftrightarrow> (\<exists>w\<in>rx_lang r2. move_by p w q)" for p q by simp_all
  have "(p, q) \<in> rx_rel (RSeq r1 r2) \<longleftrightarrow>
      (\<exists>p' v w. v \<in> rx_lang r1 \<and> w \<in> rx_lang r2 \<and> move_by p v p' \<and> move_by p' w q)"
    by (simp add: relcomp_unfold 1 2 del: split_paired_Ex) blast
  also have "\<dots> \<longleftrightarrow> (\<exists>v w. v \<in> rx_lang r1 \<and> w \<in> rx_lang r2 \<and> move_by p (v @ w) q)"
    unfolding move_by_append by blast
  also have "\<dots> \<longleftrightarrow> (\<exists>u\<in>rx_lang (RSeq r1 r2). move_by p u q)"
    unfolding rx_lang.simps by blast
  finally show ?case .
qed auto

definition rx_whole :: "rx \<Rightarrow> rx" where
  "rx_whole r = RSeq RBos (RSeq r REos)"

lemma rx_test_whole:
  assumes "rx_plain r"
  shows "rx_test (rx_whole r) s \<longleftrightarrow> s \<in> rx_lang r"
proof -
  have start: "move_by (None, s) w p \<and> fst p = None \<longleftrightarrow> w = [] \<and> p = (None, s)" for w p
    by (auto simp: move_by_def prod_eq_iff)
  have "p \<in> Domain (rx_rel (rx_whole r)) \<longleftrightarrow> fst p = None \<and> (\<exists>q. (p, q) \<in> rx_rel r \<and> snd q = [])" for p
    by (auto simp: rx_whole_def relcomp_unfold Domain_iff)
  then have "rx_test (rx_whole r) s \<longleftrightarrow> (\<exists>q. ((None, s), q) \<in> rx_rel r \<and> snd q = [])"
    using start by (metis rx_test_iff)
  also have "\<dots> \<longleftrightarrow> s \<in> rx_lang r"
    by (auto simp: rx_rel_lang [OF assms] move_by_def)
  finally show ?thesis .
qed

lemma lang_lit: "rx_lang (rx_lit w) = {w}"
  by (induction w) auto

lemma plain_lit [simp]: "rx_plain (rx_lit w)"
  by (induction w) auto

lemma lang_chr_seq:
  "v \<in> rx_lang (RSeq (RChr P) r) \<longleftrightarrow> (\<exists>c v'. v = c # v' \<and> P c \<and> v' \<in> rx_lang r)"
proof -
  have "v \<in> rx_lang (RSeq (RChr P) r) \<longleftrightarrow> (\<exists>a w. v = a @ w \<and> (\<exists>c. a = [c] \<and> P c) \<and> w \<in> rx_lang r)"
    by simp
  also have "\<dots> \<longleftrightarrow> (\<exists>c w. v = [c] @ w \<and> P c \<and> w \<in> rx_lang r)" by blast
  finally show ?thesis by simp
qed

lemma concat_singletons: "concat ` lists {[c] | c. P c} = {w. list_all P w}"
proof (intro set_eqI iffI)
  fix w assume "w \<in> concat ` lists {[c] | c. P c}"
  then obtain ws where "w = concat ws" "ws \<in> lists {[c] | c. P c}" by blast
  then show "w \<in> {w. list_all P w}"
    by (induction ws arbitrary: w) auto
next
  fix w assume "w \<in> {w. list_all P w}"
  then have "map (\<lambda>c. [c]) w \<in> lists {[c] | c. P c}" by (auto simp: list_all_iff)
  then show "w \<in> concat ` lists {[c] | c. P c}"
    by (rule image_eqI [rotated]) (induction w; simp)
qed

lemma lang_star_chr: "rx_lang (RStar (RChr P)) = {w. list_all P w}"
  by (simp add: concat_singletons)

lemma rx_test_plain:
  assumes "rx_plain r"
  shows "rx_test r s \<longleftrightarrow> (\<exists>a w b. s = a @ w @ b \<and> w \<in> rx_lang r)"
proof -
  have "rx_test r s \<longleftrightarrow> (\<exists>a p w q. move_by (None, s) a p \<and> w \<in> rx_lang r \<and> move_by p w q)"
    unfolding rx_test_iff Domain_iff rx_rel_lang [OF assms] by blast
  also have "\<dots> \<longleftrightarrow> (\<exists>a w q. move_by (None, s) (a @ w) q \<and> w \<in> rx_lang r)"
    unfolding move_by_append by blast
  also have "\<dots> \<longleftrightarrow> (\<exists>a w b. s = a @ w @ b \<and> w \<in> rx_lang r)"
  proof
    assume "\<exists>a w q. move_by (None, s) (a @ w) q \<and> w \<in> rx_lang r"
    then show "\<exists>a w b. s = a @ w @ b \<and> w \<in> rx_lang r" by (auto simp: move_by_def)
  next
    assume "\<exists>a w b. s = a @ w @ b \<and> w \<in> rx_lang r"
    then obtain a w b where "s = (a @ w) @ b" "w \<in> rx_lang r" by auto
    then have "move_by (None, s) (a @ w) (if a @ w = [] then None else Some (last (a @ w)), b)"
      by (simp add: move_by_def)
    with \<open>w \<in> rx_lang r\<close> show "\<exists>a w q. move_by (None, s) (a @ w) q \<and> w \<in> rx_lang r" by blast
  qed
  finally show ?thesis .
qed

lemma rx_test_alt: "rx_test (RAlt r1 r2) s \<longleftrightarrow> rx_test r1 s \<or> rx_test r2 s"
  by (auto simp: rx_test_def list_ex_iff)

lemma is_prefix_iff: "is_prefix w s \<longleftrightarrow> (\<exists>b. s = w @ b)"
  by (induction w s rule: is_prefix.induct) auto

lemma js_includes_iff: "js_includes s w \<longleftrightarrow> (\<exists>a b. s = a @ w @ b)"
proof (induction s)
  case Nil
  then show ?case by auto
next
  case (Cons c s)
  have "(\<exists>a b. c # s = a @ w @ b) \<longleftrightarrow> (\<exists>b. c # s = w @ b) \<or> (\<exists>a b. s = a @ w @ b)"
    by (metis append_Cons append_Nil neq_Nil_conv list.inject)
  with Cons show ?case by (simp add: is_prefix_iff del: is_prefix.simps)
qed

lemma rx_test_lit: "rx_test (rx_lit w) s \<longleftrightarrow> js_includes s w"
  by (simp add: rx_test_plain lang_lit js_includes_iff)

end
