(* ===== verification/Glob.thy ===== *)
theory Glob
  imports JsRegex
begin

text \<open>
  The glob matcher \<open>src/src/utils/globMatch.ts\<close>: brace expansion, the translation of a pattern into a
  regular expression, and the match.

  The translation yields the expression itself instead of its text. It is \<open>None\<close> where the code throws
  (a class with a range out of order) and in two corners of the text form that are not modelled: a
  class that contains a backslash, and a brace group that expansion leaves alone (empty, or with a line
  break beside it) whose options contain characters that are active in a regular expression.
\<close>

section \<open>Brace expansion\<close>

definition no_line_end :: "string \<Rightarrow> bool" where
  "no_line_end s = list_all dot s"

definition brace :: "char \<Rightarrow> bool" where
  "brace c = (c = CHR ''{'' \<or> c = CHR ''}'')"

text \<open>
  The match of the expression in \<open>expandBraces\<close>: the first group with a non-empty content without
  braces, with no line break before or after it. \<open>pre\<close> is the text already passed.
\<close>

fun find_group :: "string \<Rightarrow> string \<Rightarrow> (string \<times> string \<times> string) option" where
  "find_group pre [] = None"
| "find_group pre (c # cs) =
     (let options = takeWhile (\<lambda>x. \<not> brace x) cs;
          after = dropWhile (\<lambda>x. \<not> brace x) cs
      in if c = CHR ''{'' \<and> options \<noteq> [] \<and> is_prefix ''}'' after \<and> no_line_end (tl after)
         then Some (pre, options, tl after)
         else if line_end c then None
         else find_group (pre @ [c]) cs)"

lemma find_group_shape:
  "find_group pre s = Some (a, opts, b) \<Longrightarrow>
     pre @ s = a @ ''{'' @ opts @ ''}'' @ b \<and> CHR ''{'' \<notin> set opts"
proof (induction pre s rule: find_group.induct)
  case (1 pre)
  then show ?case by simp
next
  case (2 pre c cs)
  let ?o = "takeWhile (\<lambda>x. \<not> brace x) cs" and ?r = "dropWhile (\<lambda>x. \<not> brace x) cs"
  show ?case
  proof (cases "c = CHR ''{'' \<and> ?o \<noteq> [] \<and> is_prefix ''}'' ?r \<and> no_line_end (tl ?r)")
    case True
    then have eq: "a = pre" "opts = ?o" "b = tl ?r" using "2.prems" by (simp_all add: Let_def)
    from True obtain r where r: "?r = CHR ''}'' # r" by (cases ?r) auto
    have "cs = ?o @ ?r" by simp
    then have cs: "cs = opts @ ''}'' @ b" using eq(2,3) r by simp
    have "CHR ''{'' \<notin> set opts" unfolding eq(2) by (auto dest: set_takeWhileD simp: brace_def)
    moreover from True have "c = CHR ''{''" by blast
    ultimately show ?thesis unfolding eq(1) by (subst cs) simp
  next
    case False
    with "2.prems" have f: "\<not> line_end c" "find_group (pre @ [c]) cs = Some (a, opts, b)"
      by (simp_all only: find_group.simps Let_def if_False split: if_splits) simp_all
    from "2.IH" [OF refl refl False f] show ?thesis by simp
  qed
qed

lemma set_trim: "set (js_trim w) \<subseteq> set w"
  unfolding js_trim_def by (metis set_dropWhileD set_rev subsetI)

lemma set_split: "w \<in> set (split_at_char d s) \<Longrightarrow> set w \<subseteq> set s"
  by (induction s arbitrary: w) (fastforce split: list.splits if_splits)+

lemma option_without_brace:
  assumes "find_group [] p = Some (pre, opts, post)"
    and "w \<in> set (map js_trim (split_at_char CHR '','' opts))"
  shows "CHR ''{'' \<notin> set w"
proof -
  from find_group_shape [OF assms(1)] have "CHR ''{'' \<notin> set opts" by simp
  with assms(2) show ?thesis using set_trim set_split by fastforce
qed

definition open_braces :: "string \<Rightarrow> nat" where
  "open_braces p = length (filter (\<lambda>c. c = CHR ''{'') p)"

lemma option_removes_brace:
  assumes "find_group [] p = Some (pre, opts, post)"
    and "w \<in> set (map js_trim (split_at_char CHR '','' opts))"
  shows "open_braces (pre @ w @ post) < open_braces p"
proof -
  have "p = pre @ ''{'' @ opts @ ''}'' @ post" using find_group_shape [OF assms(1)] by simp
  moreover have "open_braces w = 0"
    using option_without_brace [OF assms] by (auto simp: open_braces_def filter_empty_conv)
  ultimately show ?thesis by (simp add: open_braces_def)
qed

function expand_braces :: "string \<Rightarrow> string list" where
  "expand_braces pattern =
     (case find_group [] pattern of
        None \<Rightarrow> [pattern]
      | Some (pre, opts, post) \<Rightarrow>
          concat (map (\<lambda>w. expand_braces (pre @ w @ post)) (map js_trim (split_at_char CHR '','' opts))))"
  by pat_completeness auto
termination
  by (relation "measure open_braces") (simp, simp only: in_measure, rule option_removes_brace, auto)

declare expand_braces.simps [simp del]

section \<open>From a glob to a regular expression\<close>

definition not_slash :: "char \<Rightarrow> bool" where
  "not_slash c = (c \<noteq> CHR ''/'')"

definition skip_slash :: "string \<Rightarrow> string" where
  "skip_slash s = (if is_prefix ''/'' s then tl s else s)"

text \<open>The ranges and single characters of a class; \<open>None\<close> when a range is out of order.\<close>

fun class_items :: "string \<Rightarrow> (char \<times> char) list option" where
  "class_items [] = Some []"
| "class_items [a] = Some [(a, a)]"
| "class_items [a, b] = Some [(a, a), (b, b)]"
| "class_items (a # b # c # s) =
     (if b = CHR ''-''
      then (if char_between a c a then map_option (Cons (a, c)) (class_items s) else None)
      else map_option (Cons (a, a)) (class_items (b # c # s)))"

definition class_chars :: "string \<Rightarrow> (char \<Rightarrow> bool) option" where
  "class_chars cls =
     (let cls = (if is_prefix ''!'' cls then CHR ''^'' # tl cls else cls);
          negated = is_prefix ''^'' cls;
          body = (if negated then tl cls else cls)
      in if CHR 0x5C \<in> set cls then None
         else map_option (\<lambda>items c. list_ex (\<lambda>(a, b). char_between a b c) items \<noteq> negated)
                (class_items body))"

definition active_char :: "char \<Rightarrow> bool" where
  "active_char c = (c = CHR 0x5C \<or> c \<in> set ''^$.*+?()[]{}|'')"

definition plain_option :: "string \<Rightarrow> rx option" where
  "plain_option w = (if list_ex active_char w then None else Some (rx_lit w))"

abbreviation upto_char :: "char \<Rightarrow> string \<Rightarrow> string" where
  "upto_char c s \<equiv> takeWhile (\<lambda>x. x \<noteq> c) s"

abbreviation after_char :: "char \<Rightarrow> string \<Rightarrow> string" where
  "after_char c s \<equiv> tl (dropWhile (\<lambda>x. x \<noteq> c) s)"

lemma length_after_char [simp]: "length (dropWhile P s) - n \<le> length s"
  by (metis length_dropWhile_le diff_le_self order_trans)

lemma length_skip_slash [simp]: "length (skip_slash s) \<le> length s"
  by (simp add: skip_slash_def)

function glob_rx :: "string \<Rightarrow> rx option" where
  "glob_rx [] = Some ROne"
| "glob_rx (c # s) =
     (if c = CHR ''*'' then
        if is_prefix ''*'' s
        then map_option (RSeq rx_any) (glob_rx (skip_slash (tl s)))
        else map_option (RSeq (RStar (RChr not_slash))) (glob_rx s)
      else if c = CHR ''?'' then map_option (RSeq (RChr not_slash)) (glob_rx s)
      else if c = CHR ''['' \<and> CHR '']'' \<in> set s then
        case class_chars (upto_char CHR '']'' s) of
          None \<Rightarrow> None
        | Some P \<Rightarrow> map_option (RSeq (RChr P)) (glob_rx (after_char CHR '']'' s))
      else if c = CHR ''{'' \<and> CHR ''}'' \<in> set s then
        case those (map (plain_option \<circ> js_trim) (split_at_char CHR '','' (upto_char CHR ''}'' s))) of
          None \<Rightarrow> None
        | Some rs \<Rightarrow> map_option (RSeq (rx_alt rs)) (glob_rx (after_char CHR ''}'' s))
      else map_option (RSeq (RChr (\<lambda>x. x = c))) (glob_rx s))"
  by pat_completeness auto
termination
  by (relation "measure length") (auto simp: less_Suc_eq_le intro: order_trans [OF length_skip_slash])

declare glob_rx.simps(2) [simp del]

definition match_single :: "string \<Rightarrow> string \<Rightarrow> bool option" where
  "match_single pattern v = map_option (\<lambda>r. rx_test (rx_whole r) v) (glob_rx pattern)"

fun match_any :: "string list \<Rightarrow> string \<Rightarrow> bool option" where
  "match_any [] v = Some False"
| "match_any (p # ps) v =
     (case match_single p v of
        None \<Rightarrow> None
      | Some True \<Rightarrow> Some True
      | Some False \<Rightarrow> match_any ps v)"

definition glob_match :: "string \<Rightarrow> string \<Rightarrow> bool option" where
  "glob_match pattern v = match_any (expand_braces pattern) v"

text \<open>\<open>isValidGlob\<close> and \<open>extractGlobBase\<close>.\<close>

definition is_valid_glob :: "string \<Rightarrow> bool" where
  "is_valid_glob pattern = list_all (\<lambda>p. glob_rx p \<noteq> None) (expand_braces pattern)"

definition wildcard :: "char \<Rightarrow> bool" where
  "wildcard c = (c \<in> set ''*?[{'')"

definition extract_glob_base :: "string \<Rightarrow> string \<times> string" where
  "extract_glob_base pattern =
     (if \<not> list_ex wildcard pattern then (pattern, [])
      else (let front = takeWhile (\<lambda>c. \<not> wildcard c) pattern
            in if CHR ''/'' \<notin> set front then ([], pattern)
               else (let base = rev (after_char CHR ''/'' (rev front))
                     in (base, drop (Suc (length base)) pattern))))"

section \<open>What a pattern means\<close>

text \<open>The texts a pattern without braces accepts, stated on the pattern itself.\<close>

inductive globs :: "string \<Rightarrow> string \<Rightarrow> bool" where
  globs_end: "globs [] []"
| globs_any: "no_line_end w \<Longrightarrow> globs (skip_slash p) v \<Longrightarrow> globs (''**'' @ p) (w @ v)"
| globs_segment: "list_all not_slash w \<Longrightarrow> \<not> is_prefix ''*'' p \<Longrightarrow> globs p v \<Longrightarrow>
    globs (CHR ''*'' # p) (w @ v)"
| globs_one: "not_slash c \<Longrightarrow> globs p v \<Longrightarrow> globs (CHR ''?'' # p) (c # v)"
| globs_class: "CHR '']'' \<in> set p \<Longrightarrow> class_chars (upto_char CHR '']'' p) = Some P \<Longrightarrow> P c \<Longrightarrow>
    globs (after_char CHR '']'' p) v \<Longrightarrow> globs (CHR ''['' # p) (c # v)"
| globs_bracket: "CHR '']'' \<notin> set p \<Longrightarrow> globs p v \<Longrightarrow> globs (CHR ''['' # p) (CHR ''['' # v)"
| globs_char: "\<not> wildcard c \<Longrightarrow> globs p v \<Longrightarrow> globs (c # p) (c # v)"

inductive_simps globs_nil [simp]: "globs [] v"
inductive_simps globs_cons: "globs (c # p) v"

lemma prefix_one: "is_prefix [c] p \<longleftrightarrow> (\<exists>q. p = c # q)"
  by (cases p) auto

lemma globs_double:
  "globs (CHR ''*'' # CHR ''*'' # p) v \<longleftrightarrow>
     (\<exists>w v'. v = w @ v' \<and> no_line_end w \<and> globs (skip_slash p) v')"
  by (subst globs_cons) (auto simp: wildcard_def)

lemma globs_star:
  "\<not> is_prefix ''*'' p \<Longrightarrow> globs (CHR ''*'' # p) v \<longleftrightarrow>
     (\<exists>w v'. v = w @ v' \<and> list_all not_slash w \<and> globs p v')"
  by (subst globs_cons) (auto simp: wildcard_def)

lemma globs_question:
  "globs (CHR ''?'' # p) v \<longleftrightarrow> (\<exists>c v'. v = c # v' \<and> not_slash c \<and> globs p v')"
  by (subst globs_cons) (auto simp: wildcard_def)

lemma globs_open:
  "globs (CHR ''['' # p) v \<longleftrightarrow>
     (if CHR '']'' \<in> set p
      then (\<exists>P c v'. class_chars (upto_char CHR '']'' p) = Some P \<and> v = c # v' \<and> P c \<and>
              globs (after_char CHR '']'' p) v')
      else (\<exists>v'. v = CHR ''['' # v' \<and> globs p v'))"
  by (subst globs_cons) (auto simp: wildcard_def)

lemma globs_plain:
  "\<not> wildcard c \<Longrightarrow> globs (c # p) v \<longleftrightarrow> (\<exists>v'. v = c # v' \<and> globs p v')"
  by (subst globs_cons) (auto simp: wildcard_def)

lemmas globs_simps = globs_double globs_star globs_question globs_open globs_plain

lemma plain_any [simp]: "rx_plain rx_any"
  by (simp add: rx_any_def)

lemma lang_any: "rx_lang rx_any = {w. no_line_end w}"
  by (simp add: rx_any_def lang_star_chr no_line_end_def del: rx_lang.simps)

lemma set_skip_slash: "set (skip_slash p) \<subseteq> set p"
  by (cases p) (auto simp: skip_slash_def)

lemma set_after_char: "set (after_char c p) \<subseteq> set p"
  by (metis list.set_sel(2) set_dropWhileD subsetI tl_Nil)

lemma glob_rx_correct:
  "CHR ''{'' \<notin> set p \<Longrightarrow> glob_rx p = Some r \<Longrightarrow>
     rx_plain r \<and> (\<forall>v. v \<in> rx_lang r \<longleftrightarrow> globs p v)"
proof (induction p arbitrary: r rule: glob_rx.induct)
  case 1
  then show ?case by simp
next
  case (2 c s)
  have nb: "c \<noteq> CHR ''{''" "CHR ''{'' \<notin> set s" using "2.prems"(1) by auto
  consider (double) "c = CHR ''*''" "is_prefix ''*'' s" | (star) "c = CHR ''*''" "\<not> is_prefix ''*'' s"
    | (one) "c = CHR ''?''" | (cls) "c = CHR ''[''" "CHR '']'' \<in> set s"
    | (bracket) "c = CHR ''[''" "CHR '']'' \<notin> set s" | (lit) "\<not> wildcard c"
    using nb by (auto simp: wildcard_def)
  then show ?case
  proof cases
    case double
    then obtain t where t: "s = CHR ''*'' # t" by (auto simp: prefix_one)
    with "2.prems"(2) double obtain q where q: "glob_rx (skip_slash t) = Some q" "r = RSeq rx_any q"
      by (auto simp: glob_rx.simps(2))
    have "CHR ''{'' \<notin> set (skip_slash t)" using nb(2) t set_skip_slash [of t] by auto
    with "2.IH"(1) [OF double, of q] t q(1)
    have ih: "rx_plain q \<and> (\<forall>v. v \<in> rx_lang q \<longleftrightarrow> globs (skip_slash t) v)" by simp
    then show ?thesis using double(1) q(2) t by (auto simp: globs_double lang_any)
  next
    case star
    with "2.prems"(2) obtain q where q: "glob_rx s = Some q" "r = RSeq (RStar (RChr not_slash)) q"
      by (auto simp: glob_rx.simps(2))
    with "2.IH"(2) [OF star nb(2)]
    have ih: "rx_plain q \<and> (\<forall>v. v \<in> rx_lang q \<longleftrightarrow> globs s v)" by simp
    then show ?thesis using star q(2)
      by (auto simp: globs_star lang_star_chr simp del: rx_lang.simps(3))
  next
    case one
    with "2.prems"(2) obtain q where q: "glob_rx s = Some q" "r = RSeq (RChr not_slash) q"
      by (auto simp: glob_rx.simps(2))
    have "c \<noteq> CHR ''*''" using one by simp
    with "2.IH"(3) [OF _ one nb(2) q(1)]
    have ih: "rx_plain q \<and> (\<forall>v. v \<in> rx_lang q \<longleftrightarrow> globs s v)" by simp
    then show ?thesis using one q(2) by (simp add: lang_chr_seq globs_question del: rx_lang.simps(1))
  next
    case cls
    with "2.prems"(2) obtain P q where q: "class_chars (upto_char CHR '']'' s) = Some P"
      "glob_rx (after_char CHR '']'' s) = Some q" "r = RSeq (RChr P) q"
      by (auto simp: glob_rx.simps(2) split: option.splits)
    have "CHR ''{'' \<notin> set (after_char CHR '']'' s)" using nb(2) set_after_char [of "CHR '']''" s] by blast
    then have ih: "rx_plain q \<and> (\<forall>v. v \<in> rx_lang q \<longleftrightarrow> globs (after_char CHR '']'' s) v)"
      using "2.IH"(4) [OF _ _ _ q(1), of q] cls q(2) by simp
    then show ?thesis using cls q(1,3) by (simp add: lang_chr_seq globs_open del: rx_lang.simps(1))
  next
    case bracket
    with "2.prems"(2) obtain q where q: "glob_rx s = Some q" "r = RSeq (RChr (\<lambda>x. x = c)) q"
      by (auto simp: glob_rx.simps(2))
    have "rx_plain q \<and> (\<forall>v. v \<in> rx_lang q \<longleftrightarrow> globs s v)"
      by (rule "2.IH"(6)) (use bracket nb q in auto)
    then show ?thesis using bracket q(2) by (simp add: lang_chr_seq globs_open del: rx_lang.simps(1))
  next
    case lit
    with "2.prems"(2) nb(1) obtain q where q: "glob_rx s = Some q" "r = RSeq (RChr (\<lambda>x. x = c)) q"
      by (auto simp: glob_rx.simps(2) wildcard_def)
    have "rx_plain q \<and> (\<forall>v. v \<in> rx_lang q \<longleftrightarrow> globs s v)"
      by (rule "2.IH"(6)) (use lit nb q in \<open>auto simp: wildcard_def\<close>)
    then show ?thesis using lit q(2) by (simp add: lang_chr_seq globs_plain del: rx_lang.simps(1))
  qed
qed

lemma match_single_correct:
  assumes "CHR ''{'' \<notin> set p" and "glob_rx p \<noteq> None"
  shows "match_single p v = Some (globs p v)"
proof -
  from assms(2) obtain r where r: "glob_rx p = Some r" by blast
  from glob_rx_correct [OF assms(1) r] show ?thesis
    by (simp add: match_single_def r rx_test_whole)
qed

definition simple_glob :: "string \<Rightarrow> bool" where
  "simple_glob p = (CHR ''{'' \<notin> set p \<and> glob_rx p \<noteq> None)"

lemma match_any_correct:
  "list_all simple_glob ps \<Longrightarrow> match_any ps v = Some (\<exists>p\<in>set ps. globs p v)"
  by (induction ps) (auto simp: simple_glob_def match_single_correct split: bool.splits)

lemma glob_match_correct:
  "list_all simple_glob (expand_braces p) \<Longrightarrow>
     glob_match p v = Some (\<exists>q\<in>set (expand_braces p). globs q v)"
  unfolding glob_match_def by (rule match_any_correct)

end
