(* ===== verification/RiskClassifier.thy ===== *)
theory RiskClassifier
  imports JsRegex "HOL-Library.List_Lexorder"
begin

text \<open>
  The risk of a shell command: \<open>src/src/core/riskClassifier.ts\<close>. The patterns are written as
  expressions of \<open>JsRegex\<close>, in the order of the source. Splitting a line at separators also eats the
  spaces around them; every piece is trimmed right afterwards, so the pieces are taken with their
  spaces here.
\<close>

datatype risk_level = RSafe | RNeedsApproval | RDangerous

fun risk_rank :: "risk_level \<Rightarrow> nat" where
  "risk_rank RSafe = 0"
| "risk_rank RNeedsApproval = 1"
| "risk_rank RDangerous = 2"

lemma risk_rank_inj: "risk_rank a = risk_rank b \<longleftrightarrow> a = b"
  by (cases a; cases b) simp_all

instantiation risk_level :: linorder
begin

definition less_eq_risk_level :: "risk_level \<Rightarrow> risk_level \<Rightarrow> bool" where
  "less_eq_risk_level a b = (risk_rank a \<le> risk_rank b)"

definition less_risk_level :: "risk_level \<Rightarrow> risk_level \<Rightarrow> bool" where
  "less_risk_level a b = (risk_rank a < risk_rank b)"

instance
  by standard (auto simp: less_eq_risk_level_def less_risk_level_def risk_rank_inj)

end

lemma risk_bounds [simp]: "RSafe \<le> a" "a \<le> RDangerous"
  by (cases a; simp add: less_eq_risk_level_def)+

section \<open>The dangerous patterns\<close>

abbreviation sp :: rx where
  "sp \<equiv> RChr is_space"

abbreviation letters :: rx where
  "letters \<equiv> RStar (RChr is_letter)"

abbreviation octal_digits :: rx where
  "octal_digits \<equiv> RStar (RChr (char_between (CHR ''0'') (CHR ''7'')))"

definition one_of :: "string list \<Rightarrow> rx" where
  "one_of ws = rx_alt (map rx_lit ws)"

definition one_of_i :: "string list \<Rightarrow> rx" where
  "one_of_i ws = rx_alt (map rx_lit_i ws)"

definition one_char :: "string \<Rightarrow> rx" where
  "one_char cs = RChr (\<lambda>c. c \<in> set cs)"

text \<open>\<open>\\bgit\\s+\<close> followed by a subcommand.\<close>

definition git_sub :: "string \<Rightarrow> rx list" where
  "git_sub w = [RWordB, rx_lit ''git'', rx_spaces, rx_lit w]"

definition file_patterns :: "rx list" where
  "file_patterns =
     [rx_seq [RWordB, rx_lit ''rm'', RWordB,
        RAhead True (RSeq rx_any (RAlt
          (rx_seq [sp, rx_lit ''-'', letters, rx_lit ''r'', letters, RWordB])
          (rx_seq [sp, rx_lit ''--recursive'', RWordB])))],
      rx_seq [RWordB, rx_lit ''rm'', rx_spaces, rx_any, rx_lit ''--no-preserve-root''],
      rx_seq [RWordB, rx_lit ''dd'', rx_spaces, rx_any, rx_lit ''of=/dev/''],
      rx_seq [RWordB, rx_lit ''mkfs.''],
      rx_seq [rx_lit ''>'', rx_spaces0, rx_lit ''/dev/'', one_of [''sd'', ''nvme'', ''hd'', ''vd'']]]"

definition system_patterns :: "rx list" where
  "system_patterns =
     [rx_seq [RWordB, one_of [''shutdown'', ''reboot'', ''halt'', ''poweroff''], RWordB],
      rx_seq [RWordB, rx_lit ''init'', rx_spaces, one_char ''06'', RWordB],
      rx_seq [rx_lit '':()'', rx_spaces0, rx_lit ''{'', rx_spaces0, rx_lit '':|:&'', rx_spaces0,
        rx_lit ''};:''],
      rx_seq [rx_alt [RBos, rx_plus (one_char '';&|''), rx_lit ''`'', rx_lit ''$(''], rx_spaces0,
        one_of [''sudo'', ''su''], RWordB],
      rx_seq [RWordB, rx_lit ''chmod'', rx_spaces, rx_opt (RSeq (rx_lit ''-R'') rx_spaces), octal_digits,
        rx_lit ''7'', octal_digits, rx_spaces, rx_lit ''/''],
      rx_seq [RWordB, rx_lit ''chown'', rx_spaces, rx_lit ''-R'', rx_spaces, rx_any, rx_spaces,
        rx_lit ''/'']]"

definition git_patterns :: "rx list" where
  "git_patterns =
     [rx_seq (git_sub ''push'' @ [rx_spaces, rx_any, rx_lit ''--force'', rx_any, RWordB,
        one_of [''main'', ''master''], RWordB]),
      rx_seq (git_sub ''reset'' @ [rx_spaces, rx_lit ''--hard'']),
      rx_seq (git_sub ''clean'' @ [rx_spaces, rx_lit ''-'', letters, one_char ''fd'']),
      rx_seq (git_sub ''checkout'' @ [rx_spaces, rx_lit ''.'']),
      rx_seq (git_sub ''restore'' @ [rx_spaces, rx_lit ''.'']),
      rx_seq (git_sub ''stash'' @ [rx_spaces, one_of [''drop'', ''clear''], RWordB]),
      rx_seq (git_sub ''branch'' @ [rx_spaces, rx_lit ''-D'', RWordB]),
      rx_seq (git_sub ''commit'' @ [rx_spaces, rx_lit ''--amend'']),
      rx_seq [RWordB, rx_lit ''git'', rx_spaces, rx_any, rx_lit ''--no-verify'']]"

definition data_patterns :: "rx list" where
  "data_patterns =
     [rx_seq [RWordB, one_of_i [''DROP'', ''TRUNCATE''], rx_spaces,
        one_of_i [''TABLE'', ''DATABASE'', ''SCHEMA'', ''INDEX''], RWordB],
      rx_seq [RWordB, rx_lit_i ''DELETE'', rx_spaces, rx_lit_i ''FROM'', RWordB,
        RAhead True (rx_seq [rx_any, RStar (RChr (\<lambda>c. c \<noteq> CHR '';'')), REos]),
        RAhead False (rx_seq [rx_any, RWordB, rx_lit_i ''WHERE'', RWordB])],
      rx_seq [RWordB, rx_lit ''kubectl'', rx_spaces, rx_lit ''delete'', RWordB],
      rx_seq [RWordB, rx_lit ''terraform'', rx_spaces, rx_lit ''destroy'', RWordB]]"

definition dangerous_patterns :: "rx list" where
  "dangerous_patterns = file_patterns @ system_patterns @ git_patterns @ data_patterns"

definition matches_danger :: "string \<Rightarrow> bool" where
  "matches_danger s = list_ex (\<lambda>r. rx_test r s) dangerous_patterns"

section \<open>Segments\<close>

definition safe_prefixes :: "string list" where
  "safe_prefixes =
     [''ls'', ''cat'', ''head'', ''tail'', ''grep'', ''rg'', ''find'', ''fd'', ''pwd'', ''whoami'',
      ''echo'', ''wc'', ''file'', ''stat'', ''du'', ''df'', ''date'', ''uname'', ''hostname'',
      ''env'', ''printenv'', ''id'', ''which'', ''type'', ''readlink'', ''basename'',
      ''dirname'', ''realpath'', ''test'', ''true'', ''false'', ''tree'',
      ''node'', ''npx'', ''npm'', ''pnpm'', ''yarn'', ''bun'', ''deno'', ''python'', ''python3'',
      ''tsc'', ''eslint'', ''prettier'', ''vitest'', ''jest'', ''cargo'', ''go'', ''rustc'',
      ''git'']"

definition safe_git_subcommands :: "string list" where
  "safe_git_subcommands =
     [''status'', ''log'', ''diff'', ''show'', ''branch'', ''tag'', ''remote'',
      ''describe'', ''rev-parse'', ''ls-files'', ''ls-tree'', ''cat-file'',
      ''shortlog'', ''blame'', ''stash'', ''config'']"

text \<open>\<open>split(/\\s+/)\<close>.\<close>

function split_spaces :: "string \<Rightarrow> string list" where
  "split_spaces s =
     (let w = takeWhile (\<lambda>c. \<not> is_space c) s;
          r = dropWhile (\<lambda>c. \<not> is_space c) s
      in if r = [] then [w] else w # split_spaces (dropWhile is_space r))"
  by pat_completeness auto
termination
proof (relation "measure length")
  fix s :: string and w r
  assume r: "r = dropWhile (\<lambda>c. \<not> is_space c) s" "r \<noteq> []"
  then obtain c t where "r = c # t" "is_space c" by (metis hd_dropWhile list.exhaust_sel)
  then have "length (dropWhile is_space r) < length r"
    by (simp add: length_dropWhile_le less_Suc_eq_le)
  also have "\<dots> \<le> length s" unfolding r(1) by (rule length_dropWhile_le)
  finally show "(dropWhile is_space r, s) \<in> measure length" by simp
qed simp

declare split_spaces.simps [simp del]

definition extract_first_word :: "string \<Rightarrow> string" where
  "extract_first_word segment =
     (let stripped = js_trim segment in if stripped = [] then [] else hd (split_spaces stripped))"

definition substitution_pattern :: rx where
  "substitution_pattern =
     rx_alt [rx_lit ''$('', rx_lit ''`'', RSeq (rx_lit '';'') sp, rx_lit ''&&'', rx_lit ''||'',
       RSeq (rx_lit ''-exec'') RWordB]"

fun git_level :: "string list \<Rightarrow> risk_level" where
  "git_level [] = RSafe"
| "git_level (token # tokens) =
     (if \<not> is_prefix ''-'' token
      then (if token \<in> set safe_git_subcommands then RSafe else RNeedsApproval)
      else git_level tokens)"

definition classify_git :: "string \<Rightarrow> risk_level" where
  "classify_git segment = git_level (tl (split_spaces segment))"

definition classify_segment :: "string \<Rightarrow> risk_level" where
  "classify_segment segment =
     (let first_word = extract_first_word segment
      in if matches_danger segment then RDangerous
         else if first_word = [] then RNeedsApproval
         else if first_word \<in> set safe_prefixes
         then (if first_word = ''git'' then classify_git segment
               else if rx_test substitution_pattern segment then RNeedsApproval
               else RSafe)
         else RNeedsApproval)"

text \<open>The pieces between \<open>||\<close>, \<open>&&\<close>, \<open>;\<close>, \<open>|\<close> and \<open>&\<close>; the longer separators come first.\<close>

definition separator :: "char \<Rightarrow> bool" where
  "separator c = (c \<in> set '';|&'')"

fun split_separators :: "string \<Rightarrow> string list" where
  "split_separators [] = [[]]"
| "split_separators [c] = (if separator c then [[], []] else [[c]])"
| "split_separators (c # d # s) =
     (if c = d \<and> (c = CHR ''|'' \<or> c = CHR ''&'') then [] # split_separators s
      else if separator c then [] # split_separators (d # s)
      else (case split_separators (d # s) of [] \<Rightarrow> [[c]] | w # ws \<Rightarrow> (c # w) # ws))"

definition env_start :: "char \<Rightarrow> bool" where
  "env_start c = (char_between (CHR ''A'') (CHR ''Z'') c \<or> c = CHR ''_'')"

definition env_char :: "char \<Rightarrow> bool" where
  "env_char c = (env_start c \<or> is_digit c)"

text \<open>
  \<open>replace(/^[A-Z_][A-Z0-9_]*=\\S+\\s+/, '')\<close>: a leading assignment with the spaces after it.
\<close>

definition strip_env :: "string \<Rightarrow> string" where
  "strip_env s =
     (let rest = dropWhile env_char s;
          val = dropWhile (\<lambda>c. \<not> is_space c) (tl rest)
      in if s \<noteq> [] \<and> env_start (hd s) \<and> is_prefix ''='' rest \<and>
            tl rest \<noteq> [] \<and> \<not> is_space (hd (tl rest)) \<and> val \<noteq> []
         then dropWhile is_space val else s)"

definition line_segments :: "string \<Rightarrow> string list" where
  "line_segments line =
     map strip_env (filter (\<lambda>w. w \<noteq> []) (map js_trim (split_separators line)))"

definition command_segments :: "string \<Rightarrow> string list" where
  "command_segments command =
     concat (map line_segments (split_at_char (CHR 0x0A) (js_trim command)))"

text \<open>The loop: the first dangerous segment returns, any other unsafe one is remembered.\<close>

fun classify_loop :: "risk_level \<Rightarrow> string list \<Rightarrow> risk_level" where
  "classify_loop worst [] = worst"
| "classify_loop worst (seg # segs) =
     (case classify_segment seg of
        RDangerous \<Rightarrow> RDangerous
      | RNeedsApproval \<Rightarrow> classify_loop RNeedsApproval segs
      | RSafe \<Rightarrow> classify_loop worst segs)"

definition classify_command_risk :: "string \<Rightarrow> risk_level" where
  "classify_command_risk command =
     (if js_trim command = [] then RNeedsApproval
      else if matches_danger command then RDangerous
      else classify_loop RSafe (command_segments command))"

section \<open>What the levels mean\<close>

lemma fold_max_bound: "w \<le> fold max xs (w :: 'a :: linorder)"
  by (induction xs arbitrary: w) (auto intro: order_trans [OF max.cobounded2])

lemma classify_loop_max:
  "w \<le> RNeedsApproval \<Longrightarrow> classify_loop w segs = fold max (map classify_segment segs) w"
proof (induction segs arbitrary: w)
  case Nil
  then show ?case by simp
next
  case (Cons seg segs)
  show ?case
  proof (cases "classify_segment seg")
    case RSafe
    with Cons show ?thesis by (simp add: max_absorb2)
  next
    case RNeedsApproval
    with Cons show ?thesis by (simp add: max_absorb1)
  next
    case RDangerous
    have "RDangerous \<le> fold max (map classify_segment segs) RDangerous" by (rule fold_max_bound)
    then have "fold max (map classify_segment segs) RDangerous = RDangerous"
      by (simp add: order_antisym)
    with RDangerous show ?thesis by (simp add: max_absorb1)
  qed
qed

text \<open>
  The early returns and the running worst level compute the worst level of all parts: a command
  is as risky as its riskiest segment, and dangerous as soon as the whole text matches a pattern,
  also across segments and lines.
\<close>

theorem risk_is_worst_part:
  "classify_command_risk command =
     (if js_trim command = [] then RNeedsApproval
      else max (if matches_danger command then RDangerous else RSafe)
             (fold max (map classify_segment (command_segments command)) RSafe))"
  by (simp add: classify_command_risk_def classify_loop_max max_absorb1 max_absorb2)

lemma fold_max_le: "fold max xs w \<le> (b :: 'a :: linorder) \<longleftrightarrow> w \<le> b \<and> list_all (\<lambda>x. x \<le> b) xs"
  by (induction xs arbitrary: w) auto

lemma safe_iff:
  "classify_command_risk command = RSafe \<longleftrightarrow>
     js_trim command \<noteq> [] \<and> \<not> matches_danger command \<and>
     list_all (\<lambda>seg. classify_segment seg = RSafe) (command_segments command)"
proof -
  have le: "a \<le> RSafe \<longleftrightarrow> a = RSafe" for a by (cases a) (simp_all add: less_eq_risk_level_def)
  have "classify_loop RSafe (command_segments command) \<le> RSafe \<longleftrightarrow>
      list_all (\<lambda>seg. classify_segment seg = RSafe) (command_segments command)"
    unfolding classify_loop_max [OF risk_bounds(1)] fold_max_le by (simp add: list.pred_map comp_def le)
  then show ?thesis by (auto simp: classify_command_risk_def le)
qed

definition substitutes :: "string \<Rightarrow> bool" where
  "substitutes s = (js_includes s ''$('' \<or> js_includes s ''`'')"

lemma safe_segment:
  assumes "classify_segment seg = RSafe"
  shows "\<not> matches_danger seg" "extract_first_word seg \<in> set safe_prefixes"
    "extract_first_word seg \<noteq> ''git'' \<Longrightarrow> \<not> rx_test substitution_pattern seg"
    "extract_first_word seg = ''git'' \<Longrightarrow> classify_git seg = RSafe"
  using assms by (simp_all add: classify_segment_def Let_def split: if_splits)

lemma substitution_detected: "substitutes s \<Longrightarrow> rx_test substitution_pattern s"
  by (auto simp only: substitutes_def substitution_pattern_def rx_alt.simps rx_test_alt rx_test_lit)

lemma safe_segment_substitutes_nothing:
  "classify_segment seg = RSafe \<Longrightarrow> extract_first_word seg \<noteq> ''git'' \<Longrightarrow> \<not> substitutes seg"
  using safe_segment(3) substitution_detected by blast

text \<open>
  A command is classified safe only if every segment of it starts with a known program, matches
  no dangerous pattern, and, unless it is a git command, substitutes no output of another command. For
  git the substitution check is skipped: a git command that reads what a substitution prints is safe.
\<close>

theorem safe_commands_are_known:
  "classify_command_risk command = RSafe \<Longrightarrow>
     \<not> matches_danger command \<and>
     list_all (\<lambda>seg. extract_first_word seg \<in> set safe_prefixes \<and> \<not> matches_danger seg \<and>
       (if extract_first_word seg = ''git'' then classify_git seg = RSafe else \<not> substitutes seg))
       (command_segments command)"
  using safe_segment safe_segment_substitutes_nothing
  by (auto simp add: safe_iff list_all_iff)

lemma safe_commands_are_known_witness:
  "\<not> matches_danger ''CI=1 npm test | head'' \<and>
   list_all (\<lambda>seg. extract_first_word seg \<in> set safe_prefixes \<and> \<not> matches_danger seg \<and>
     (if extract_first_word seg = ''git'' then classify_git seg = RSafe else \<not> substitutes seg))
     (command_segments ''CI=1 npm test | head'')"
  by (rule safe_commands_are_known) code_simp

lemma git_substitution_is_safe: "classify_command_risk ''git log $(curl x)'' = RSafe"
  by code_simp

end
