(* ===== verification/Permissions.thy ===== *)
theory Permissions
  imports Glob RiskClassifier Progress
begin

text \<open>
  Permission rules and modes: the glob rules, host executables and session approvals of
  \<open>src/src/core/permissionRules.ts\<close>, and the modes, wildcard rules and manager of
  \<open>src/src/core/permissionSystem.ts\<close>.

  A tool input is the object the model sent, as JSON. An evaluation is \<open>None\<close> where the code throws (a
  pattern that does not compile, a prefix rule on a value that is no string). Reasons are texts that are only
  shown; the dashes in those of the host rules are hyphens here. The text forms of rules, modes and
  results are not modelled.
\<close>

type_synonym tool_input = "(string, json) jsmap"

datatype permission = DAllow | DAsk | DDeny

section \<open>Strictness\<close>

fun strictness :: "permission \<Rightarrow> nat" where
  "strictness DDeny = 3"
| "strictness DAsk = 2"
| "strictness DAllow = 1"

lemma strictness_inj: "strictness a = strictness b \<longleftrightarrow> a = b"
  by (cases a; cases b) simp_all

instantiation permission :: linorder
begin

definition less_eq_permission :: "permission \<Rightarrow> permission \<Rightarrow> bool" where
  "less_eq_permission a b = (strictness a \<le> strictness b)"

definition less_permission :: "permission \<Rightarrow> permission \<Rightarrow> bool" where
  "less_permission a b = (strictness a < strictness b)"

instance
  by standard (auto simp: less_eq_permission_def less_permission_def strictness_inj)

end

record strictest_input =
  si_default :: "permission option"
  si_glob :: "permission option"
  si_host :: "permission option"
  si_mode :: "permission option"

fun stricter :: "permission option \<Rightarrow> permission \<Rightarrow> permission" where
  "stricter None winner = winner"
| "stricter (Some v) winner = (if strictness v > strictness winner then v else winner)"

definition strictest_wins :: "strictest_input \<Rightarrow> permission" where
  "strictest_wins i = fold stricter [si_default i, si_glob i, si_host i, si_mode i] DAllow"

section \<open>Glob rules\<close>

record glob_rule =
  gr_id :: string
  gr_tool :: string
  gr_pattern :: string
  gr_decision :: permission
  gr_reason :: "string option"
  gr_priority :: int

record host_rule =
  hr_name :: string
  hr_paths :: "string list option"
  hr_decision :: permission
  hr_reason :: "string option"

record permission_config =
  pc_default :: permission
  pc_rules :: "glob_rule list"
  pc_hosts :: "host_rule list option"

record permission_result =
  pe_decision :: permission
  pe_reason :: string
  pe_matched :: "glob_rule option"

definition glob_rule_of ::
  "string \<Rightarrow> string \<Rightarrow> string \<Rightarrow> permission \<Rightarrow> string \<Rightarrow> int \<Rightarrow> glob_rule" where
  "glob_rule_of i tool pat d reason prio =
     \<lparr>gr_id = i, gr_tool = tool, gr_pattern = pat, gr_decision = d, gr_reason = Some reason,
      gr_priority = prio\<rparr>"

definition host_rule_of :: "string \<Rightarrow> permission \<Rightarrow> string \<Rightarrow> host_rule" where
  "host_rule_of name d reason = \<lparr>hr_name = name, hr_paths = None, hr_decision = d, hr_reason = Some reason\<rparr>"

definition default_permission_config :: permission_config where
  "default_permission_config =
     \<lparr>pc_default = DAsk,
      pc_rules =
       [glob_rule_of ''read-all'' ''Read'' ''**'' DAllow ''Read access'' 10,
        glob_rule_of ''glob-all'' ''Glob'' ''**'' DAllow ''Search access'' 10,
        glob_rule_of ''grep-all'' ''Grep'' ''**'' DAllow ''Search access'' 10,
        glob_rule_of ''bash-safe'' ''Bash''
          ''{ls,cat,pwd,echo,git status,git log,git diff,git show}*'' DAllow
          ''Safe read-only commands'' 5,
        glob_rule_of ''deny-rm-rf'' ''Bash'' ''rm -rf **'' DDeny ''Prevent recursive delete'' 100,
        glob_rule_of ''deny-force-push'' ''Bash'' ''git push --force**'' DDeny ''Prevent force push'' 100,
        glob_rule_of ''deny-sudo'' ''Bash'' ''sudo **'' DDeny ''Prevent privilege escalation'' 100,
        glob_rule_of ''deny-chmod-777'' ''Bash'' ''chmod 777 **'' DDeny ''Insecure permissions'' 100,
        glob_rule_of ''protect-env'' ''Write'' ''**/.env*'' DDeny ''Protect environment files'' 50,
        glob_rule_of ''protect-keys'' ''Write'' ''**/*{key,pem,p12,jks,keystore}*'' DDeny
          ''Protect key files'' 50],
      pc_hosts = Some
       [host_rule_of ''rm'' DDeny ''rm forbidden - use safe_file_remove tool instead'',
        host_rule_of ''sudo'' DDeny ''sudo forbidden - never grant elevation to the model'',
        host_rule_of ''chmod'' DAsk ''changing file modes requires explicit approval'',
        host_rule_of ''curl'' DAsk ''network access requires explicit approval'',
        host_rule_of ''wget'' DAsk ''network access requires explicit approval'']\<rparr>"

text \<open>The tool field: a star, a name, a list in braces or a list without.\<close>

definition comma_list :: "string \<Rightarrow> string list" where
  "comma_list s = map js_trim (split_at_char CHR '','' s)"

definition matches_tool :: "string \<Rightarrow> string \<Rightarrow> bool" where
  "matches_tool rule_tool tool =
     (let inner = butlast (tl rule_tool)
      in if rule_tool = ''*'' then True
         else if rule_tool = tool then True
         else if is_prefix ''{'' rule_tool \<and> last rule_tool = CHR ''}'' \<and>
                 inner \<noteq> [] \<and> no_line_end inner
         then tool \<in> set (comma_list inner)
         else if CHR '','' \<in> set rule_tool then tool \<in> set (comma_list rule_tool)
         else False)"

definition forward_slashes :: "string \<Rightarrow> string" where
  "forward_slashes v = map (\<lambda>c. if c = CHR 0x5C then CHR ''/'' else c) v"

definition matches_pattern :: "string \<Rightarrow> string \<Rightarrow> bool option" where
  "matches_pattern pattern v = glob_match pattern (forward_slashes v)"

definition rule_order :: "glob_rule list \<Rightarrow> glob_rule list" where
  "rule_order rules = sort_key (\<lambda>r. - gr_priority r) rules"

fun first_match :: "string \<Rightarrow> string \<Rightarrow> glob_rule list \<Rightarrow> glob_rule option option" where
  "first_match tool arg [] = Some None"
| "first_match tool arg (r # rs) =
     (if \<not> matches_tool (gr_tool r) tool then first_match tool arg rs
      else (case matches_pattern (gr_pattern r) arg of
              None \<Rightarrow> None
            | Some True \<Rightarrow> Some (Some r)
            | Some False \<Rightarrow> first_match tool arg rs))"

definition evaluate_permission ::
  "string \<Rightarrow> string \<Rightarrow> permission_config \<Rightarrow> permission_result option" where
  "evaluate_permission tool arg config =
     (case first_match tool arg (rule_order (pc_rules config)) of
        None \<Rightarrow> None
      | Some (Some r) \<Rightarrow> Some \<lparr>pe_decision = gr_decision r,
          pe_reason = default_to (gr_reason r) (''Rule \"'' @ gr_id r @ ''\" matched''), pe_matched = Some r\<rparr>
      | Some None \<Rightarrow> Some \<lparr>pe_decision = pc_default config,
          pe_reason = ''No matching rule, using default'', pe_matched = None\<rparr>)"

section \<open>Editing the rules\<close>

text \<open>\<open>fresh\<close> is the generated id.\<close>

definition add_glob_rule ::
  "string \<Rightarrow> string option \<Rightarrow> int option \<Rightarrow> glob_rule \<Rightarrow> permission_config \<Rightarrow> permission_config" where
  "add_glob_rule fresh i prio r config =
     config\<lparr>pc_rules := pc_rules config @ [r\<lparr>gr_id := default_to i fresh, gr_priority := default_to prio 0\<rparr>]\<rparr>"

definition remove_glob_rule :: "permission_config \<Rightarrow> string \<Rightarrow> permission_config" where
  "remove_glob_rule config i = config\<lparr>pc_rules := filter (\<lambda>r. gr_id r \<noteq> i) (pc_rules config)\<rparr>"

record rule_updates =
  ru_id :: "string option"
  ru_tool :: "string option"
  ru_pattern :: "string option"
  ru_decision :: "permission option"
  ru_reason :: "string option option"
  ru_priority :: "int option"

definition apply_updates :: "rule_updates \<Rightarrow> glob_rule \<Rightarrow> glob_rule" where
  "apply_updates u r =
     \<lparr>gr_id = default_to (ru_id u) (gr_id r), gr_tool = default_to (ru_tool u) (gr_tool r),
      gr_pattern = default_to (ru_pattern u) (gr_pattern r),
      gr_decision = default_to (ru_decision u) (gr_decision r),
      gr_reason = default_to (ru_reason u) (gr_reason r),
      gr_priority = default_to (ru_priority u) (gr_priority r)\<rparr>"

definition update_glob_rule :: "permission_config \<Rightarrow> string \<Rightarrow> rule_updates \<Rightarrow> permission_config" where
  "update_glob_rule config i u =
     config\<lparr>pc_rules := map (\<lambda>r. if gr_id r = i then apply_updates u r else r) (pc_rules config)\<rparr>"

definition find_glob_rule :: "permission_config \<Rightarrow> string \<Rightarrow> glob_rule option" where
  "find_glob_rule config i = find (\<lambda>r. gr_id r = i) (pc_rules config)"

definition create_quick_config ::
  "permission \<Rightarrow> (string \<times> string \<times> permission) list \<Rightarrow> permission_config" where
  "create_quick_config d rules =
     \<lparr>pc_default = d,
      pc_rules = map (\<lambda>(i, tool, pat, dec). \<lparr>gr_id = ''custom_'' @ show_nat i, gr_tool = tool,
        gr_pattern = pat, gr_decision = dec, gr_reason = None, gr_priority = 0\<rparr>)
        (enumerate 0 rules),
      pc_hosts = None\<rparr>"

section \<open>Session approvals\<close>

record session_approval =
  sa_tool :: string
  sa_pattern :: string
  sa_session_only :: bool
  sa_timestamp :: int

definition approve ::
  "int \<Rightarrow> string \<Rightarrow> string \<Rightarrow> bool \<Rightarrow> session_approval list \<Rightarrow> session_approval list" where
  "approve now tool pat session_only cache =
     cache @ [\<lparr>sa_tool = tool, sa_pattern = pat, sa_session_only = session_only, sa_timestamp = now\<rparr>]"

fun is_approved :: "session_approval list \<Rightarrow> string \<Rightarrow> string \<Rightarrow> bool option" where
  "is_approved [] tool arg = Some False"
| "is_approved (a # as) tool arg =
     (if sa_tool a \<noteq> tool then is_approved as tool arg
      else (case matches_pattern (sa_pattern a) arg of
              None \<Rightarrow> None
            | Some True \<Rightarrow> Some True
            | Some False \<Rightarrow> is_approved as tool arg))"

definition clear_approvals :: "session_approval list \<Rightarrow> session_approval list" where
  "clear_approvals cache = []"

section \<open>Inputs and shell commands\<close>

definition primary_arg_fields :: "string list" where
  "primary_arg_fields =
     [''command'', ''file_path'', ''filepath'', ''path'', ''pattern'', ''query'', ''notebook_path'', ''url'']"

fun first_text :: "tool_input \<Rightarrow> string list \<Rightarrow> string" where
  "first_text input [] = []"
| "first_text input (f # fs) =
     (case jm_get input f of
        Some (JStr v) \<Rightarrow> if length v > 0 then v else first_text input fs
      | _ \<Rightarrow> first_text input fs)"

definition extract_primary_arg :: "tool_input \<Rightarrow> string" where
  "extract_primary_arg input = first_text input primary_arg_fields"

definition evaluate_default_glob_rule :: "string \<Rightarrow> tool_input \<Rightarrow> permission_result option" where
  "evaluate_default_glob_rule tool input =
     evaluate_permission tool (extract_primary_arg input) default_permission_config"

fun host_match :: "string \<Rightarrow> string \<Rightarrow> host_rule list \<Rightarrow> host_rule option" where
  "host_match token base [] = None"
| "host_match token base (r # rs) =
     (if hr_name r \<noteq> base then host_match token base rs
      else (case hr_paths r of
              Some (p # ps) \<Rightarrow> if token \<in> set (p # ps) then Some r else host_match token base rs
            | _ \<Rightarrow> Some r))"

definition evaluate_host_executable :: "string \<Rightarrow> permission_config \<Rightarrow> host_rule option" where
  "evaluate_host_executable command config =
     (let token = hd (split_spaces (js_trim command));
          base = last (split_at_char CHR ''/'' token)
      in case pc_hosts config of None \<Rightarrow> None | Some rules \<Rightarrow> host_match token base rules)"

definition evaluate_bash_policy :: "tool_input \<Rightarrow> permission_config \<Rightarrow> permission_result option" where
  "evaluate_bash_policy input config =
     (let arg = extract_primary_arg input; host = evaluate_host_executable arg config
      in case evaluate_permission ''Bash'' arg config of
           None \<Rightarrow> None
         | Some glob \<Rightarrow>
             (let winner = strictest_wins \<lparr>si_default = Some (pc_default config),
                    si_glob = Some (pe_decision glob), si_host = map_option hr_decision host,
                    si_mode = None\<rparr>;
                  reasons = (case pe_matched glob of None \<Rightarrow> [] | Some r \<Rightarrow> [''glob:'' @ gr_id r]) @
                    (case host of None \<Rightarrow> [] | Some r \<Rightarrow> [''host_executable:'' @ hr_name r])
              in Some \<lparr>pe_decision = winner,
                   pe_reason = (if reasons \<noteq> [] then join_with ''; '' reasons
                                else ''no rules matched - using strictest default''),
                   pe_matched = (if host \<noteq> None then None else pe_matched glob)\<rparr>))"

section \<open>Modes\<close>

datatype permission_mode =
    ModeDefault
  | ModeAcceptEdits
  | ModePlan
  | ModeAuto
  | ModeBypass
  | ModeDontAsk
  | ModeBubble

datatype permission_profile = ProfileSafe | ProfileStandard | ProfileAutonomous

fun profile_mode :: "permission_profile \<Rightarrow> permission_mode" where
  "profile_mode ProfileSafe = ModeDefault"
| "profile_mode ProfileStandard = ModeAcceptEdits"
| "profile_mode ProfileAutonomous = ModeAuto"

definition resolve_permission_mode ::
  "permission_profile option \<Rightarrow> permission_mode option \<Rightarrow> permission_mode" where
  "resolve_permission_mode profile legacy =
     (case profile of
        Some p \<Rightarrow> profile_mode p
      | None \<Rightarrow> default_to legacy (profile_mode ProfileStandard))"

definition cycle_order :: "permission_mode list" where
  "cycle_order = [ModeDefault, ModeAcceptEdits, ModePlan, ModeAuto, ModeBypass, ModeDontAsk, ModeBubble]"

fun index_of :: "'a \<Rightarrow> 'a list \<Rightarrow> nat option" where
  "index_of x [] = None"
| "index_of x (y # ys) = (if y = x then Some 0 else map_option Suc (index_of x ys))"

definition get_next_permission_mode :: "permission_mode \<Rightarrow> permission_mode" where
  "get_next_permission_mode current =
     (case index_of current cycle_order of
        None \<Rightarrow> ModeDefault
      | Some i \<Rightarrow> cycle_order ! ((i + 1) mod length cycle_order))"

fun mode_name :: "permission_mode \<Rightarrow> string" where
  "mode_name ModeDefault = ''default''"
| "mode_name ModeAcceptEdits = ''acceptEdits''"
| "mode_name ModePlan = ''plan''"
| "mode_name ModeAuto = ''auto''"
| "mode_name ModeBypass = ''bypassPermissions''"
| "mode_name ModeDontAsk = ''dontAsk''"
| "mode_name ModeBubble = ''bubble''"

definition is_valid_permission_mode :: "string \<Rightarrow> bool" where
  "is_valid_permission_mode v = (v \<in> set (map mode_name cycle_order))"

definition is_sandbox_mode :: "permission_mode \<Rightarrow> bool" where
  "is_sandbox_mode m = (m = ModeBubble)"

definition is_bypass_mode :: "permission_mode \<Rightarrow> bool" where
  "is_bypass_mode m = (m = ModeBypass \<or> m = ModeDontAsk)"

definition plan_mode_tools :: "string list" where
  "plan_mode_tools = [''Read'', ''Glob'', ''Grep'', ''WebFetch'', ''WebSearch'', ''ExitPlanMode'']"

definition accept_edits_tools :: "string list" where
  "accept_edits_tools = [''Read'', ''Write'', ''Edit'', ''NotebookEdit'', ''Glob'', ''Grep'']"

definition get_mode_behavior :: "permission_mode \<Rightarrow> string \<Rightarrow> bool \<Rightarrow> permission" where
  "get_mode_behavior mode tool dangerous =
     (if is_bypass_mode mode then DAllow
      else if mode = ModeBubble then DAllow
      else if mode = ModePlan then (if tool \<in> set plan_mode_tools then DAllow else DDeny)
      else if mode = ModeAuto then (if dangerous then DAsk else DAllow)
      else if mode = ModeAcceptEdits then
        (if tool \<in> set accept_edits_tools then DAllow else if dangerous then DAsk else DAllow)
      else if dangerous then DAsk else DAllow)"

section \<open>Wildcard rules\<close>

datatype rule_source = SourceBuiltin | SourceUser | SourceProject

record permission_rule =
  pr_tool :: string
  pr_content :: string
  pr_behavior :: permission
  pr_source :: rule_source

text \<open>\<open>String(v)\<close>, which \<open>RegExp.test\<close> applies to a value that is no string.\<close>

fun js_string :: "json \<Rightarrow> string" where
  "js_string JNull = ''null''"
| "js_string (JBool b) = (if b then ''true'' else ''false'')"
| "js_string (JNum n) = show_int n"
| "js_string (JStr t) = t"
| "js_string (JArr vs) = join_with '','' (map (\<lambda>v. case v of JNull \<Rightarrow> [] | _ \<Rightarrow> js_string v) vs)"
| "js_string (JObj kvs) = ''[object Object]''"

fun wildcard_rx :: "string \<Rightarrow> rx" where
  "wildcard_rx [] = ROne"
| "wildcard_rx (c # cs) =
     RSeq (if c = CHR ''*'' then RStar (RChr (\<lambda>_. True)) else RChr (\<lambda>x. x = c)) (wildcard_rx cs)"

text \<open>The trailing argument of a rule with one star is optional.\<close>

definition rule_rx :: "string \<Rightarrow> rx" where
  "rule_rx content =
     (if ends_with content '' *'' \<and> count_list content CHR ''*'' = 1
      then RSeq (wildcard_rx (take (length content - 2) content))
             (rx_opt (RSeq (rx_lit '' '') (RStar (RChr (\<lambda>_. True)))))
      else wildcard_rx content)"

definition match_rule :: "string \<Rightarrow> json \<Rightarrow> bool option" where
  "match_rule content command =
     (if ends_with content '':*''
      then (case command of
              JStr c \<Rightarrow> Some (is_prefix (take (length content - 2) content) c)
            | _ \<Rightarrow> None)
      else if CHR ''*'' \<in> set content
      then Some (rx_test (rx_whole (rule_rx content)) (js_string command))
      else Some (command = JStr content))"

text \<open>\<open>a ?? b\<close> on fields of the input: \<open>null\<close> and absent fields are passed over.\<close>

fun first_present :: "tool_input \<Rightarrow> string list \<Rightarrow> json" where
  "first_present input [] = JStr []"
| "first_present input (f # fs) =
     (case jm_get input f of None \<Rightarrow> first_present input fs | Some JNull \<Rightarrow> first_present input fs
      | Some v \<Rightarrow> v)"

definition command_field :: "tool_input \<Rightarrow> json" where
  "command_field input = first_present input [''command'', ''file_path'', ''notebook_path'', ''pattern'']"

fun find_rule_for :: "permission_rule list \<Rightarrow> string \<Rightarrow> json \<Rightarrow> permission_rule option option" where
  "find_rule_for [] tool command = Some None"
| "find_rule_for (r # rs) tool command =
     (if pr_tool r \<noteq> tool then find_rule_for rs tool command
      else (case match_rule (pr_content r) command of
              None \<Rightarrow> None
            | Some True \<Rightarrow> Some (Some r)
            | Some False \<Rightarrow> find_rule_for rs tool command))"

definition check_rules :: "permission_rule list \<Rightarrow> string \<Rightarrow> tool_input \<Rightarrow> permission_rule option option" where
  "check_rules rules tool input = find_rule_for rules tool (command_field input)"

section \<open>The manager\<close>

record permission_manager =
  mg_mode :: permission_mode
  mg_rules :: "permission_rule list"

definition new_manager :: permission_manager where
  "new_manager = \<lparr>mg_mode = ModeDefault, mg_rules = []\<rparr>"

definition set_mode :: "permission_mode \<Rightarrow> permission_manager \<Rightarrow> permission_manager" where
  "set_mode mode m = m\<lparr>mg_mode := mode\<rparr>"

definition cycle_mode :: "permission_manager \<Rightarrow> permission_manager" where
  "cycle_mode m = m\<lparr>mg_mode := get_next_permission_mode (mg_mode m)\<rparr>"

definition same_rule :: "permission_rule \<Rightarrow> permission_rule \<Rightarrow> bool" where
  "same_rule a b = (pr_tool a = pr_tool b \<and> pr_content a = pr_content b \<and> pr_behavior a = pr_behavior b)"

definition add_rule :: "permission_rule \<Rightarrow> permission_manager \<Rightarrow> permission_manager" where
  "add_rule r m =
     (if list_ex (\<lambda>existing. same_rule existing r) (mg_rules m) then m
      else m\<lparr>mg_rules := mg_rules m @ [r]\<rparr>)"

text \<open>\<open>splice(index, 1)\<close>: a negative index counts from the end, and is at least the start.\<close>

definition splice_start :: "int \<Rightarrow> nat \<Rightarrow> nat" where
  "splice_start i n = (if i < 0 then nat (max (int n + i) 0) else nat i)"

definition remove_rule :: "int \<Rightarrow> permission_manager \<Rightarrow> permission_manager" where
  "remove_rule i m =
     (let k = splice_start i (length (mg_rules m))
      in m\<lparr>mg_rules := take k (mg_rules m) @ drop (Suc k) (mg_rules m)\<rparr>)"

definition check_permission :: "permission_manager \<Rightarrow> string \<Rightarrow> tool_input \<Rightarrow> bool \<Rightarrow> permission option" where
  "check_permission m tool input dangerous =
     (case check_rules (mg_rules m) tool input of
        None \<Rightarrow> None
      | Some (Some r) \<Rightarrow> Some (pr_behavior r)
      | Some None \<Rightarrow> Some (get_mode_behavior (mg_mode m) tool dangerous))"

definition clone_manager :: "permission_manager \<Rightarrow> permission_manager" where
  "clone_manager m = fold add_rule (mg_rules m) (set_mode (mg_mode m) new_manager)"

section \<open>Strictness is the order of the decisions\<close>

definition decisions_of :: "strictest_input \<Rightarrow> permission list" where
  "decisions_of i = concat (map (\<lambda>d. case d of None \<Rightarrow> [] | Some v \<Rightarrow> [v])
     [si_default i, si_glob i, si_host i, si_mode i])"

lemma stricter_max: "stricter d w = fold max (case d of None \<Rightarrow> [] | Some v \<Rightarrow> [v]) w"
  by (cases d) (auto simp: max_def less_eq_permission_def strictness_inj)

text \<open>
  The aggregation takes the strictest decision of its sources, in the order allow, ask, deny; a
  source without a decision does not count, and no source at all means allow.
\<close>

theorem strictest_is_maximum:
  "strictest_wins i = Max (set (DAllow # decisions_of i))"
proof -
  have "fold stricter ds w = fold max (concat (map (\<lambda>d. case d of None \<Rightarrow> [] | Some v \<Rightarrow> [v]) ds)) w"
    for ds w
    by (induction ds arbitrary: w) (simp_all add: stricter_max)
  then show ?thesis unfolding strictest_wins_def decisions_of_def Max.set_eq_fold by blast
qed

section \<open>Which rule decides\<close>

definition rule_applies :: "string \<Rightarrow> string \<Rightarrow> glob_rule \<Rightarrow> bool" where
  "rule_applies tool arg r =
     (matches_tool (gr_tool r) tool \<and> matches_pattern (gr_pattern r) arg = Some True)"

lemma first_match_split:
  "first_match tool arg rs = Some (Some r) \<Longrightarrow>
     \<exists>before after. rs = before @ r # after \<and> rule_applies tool arg r \<and>
       list_all (\<lambda>q. \<not> rule_applies tool arg q) before"
proof (induction rs)
  case Nil
  then show ?case by simp
next
  case (Cons q rs)
  show ?case
  proof (cases "rule_applies tool arg q")
    case True
    with Cons.prems have "r = q" by (simp add: rule_applies_def)
    with True show ?thesis by (intro exI [of _ "[]"] exI [of _ rs]) simp
  next
    case False
    with Cons.prems have "first_match tool arg rs = Some (Some r)"
      by (auto simp: rule_applies_def split: if_splits option.splits bool.splits)
    with Cons.IH obtain pre post where "rs = pre @ r # post" "rule_applies tool arg r"
        "list_all (\<lambda>q. \<not> rule_applies tool arg q) pre" by blast
    with False show ?thesis by (intro exI [of _ "q # pre"] exI [of _ post]) simp
  qed
qed

lemma first_match_none:
  "first_match tool arg rs = Some None \<Longrightarrow> list_all (\<lambda>q. \<not> rule_applies tool arg q) rs"
  by (induction rs) (auto simp: rule_applies_def split: if_splits option.splits bool.splits)

lemma rule_order_set [simp]: "set (rule_order rules) = set rules"
  by (simp add: rule_order_def)

lemma rule_order_sorted: "sorted (map (\<lambda>r. - gr_priority r) (rule_order rules))"
  by (simp add: rule_order_def)

lemma rule_order_stable:
  "filter (\<lambda>r. gr_priority r = p) (rule_order rules) = filter (\<lambda>r. gr_priority r = p) rules"
  unfolding rule_order_def using sort_key_stable [of "\<lambda>r. - gr_priority r" "- p" rules] by simp

definition decides :: "string \<Rightarrow> string \<Rightarrow> glob_rule list \<Rightarrow> glob_rule \<Rightarrow> bool" where
  "decides tool arg rules r =
     (r \<in> set rules \<and> rule_applies tool arg r \<and>
      list_all (\<lambda>q. \<not> (rule_applies tool arg q \<and> gr_priority q > gr_priority r)) rules \<and>
      hd (filter (\<lambda>q. rule_applies tool arg q \<and> gr_priority q = gr_priority r) rules) = r)"

lemma first_match_decides:
  assumes "first_match tool arg (rule_order rules) = Some (Some r)"
  shows "decides tool arg rules r"
proof -
  from first_match_split [OF assms] obtain pre post where
    split: "rule_order rules = pre @ r # post" and applies: "rule_applies tool arg r"
    and pre: "list_all (\<lambda>q. \<not> rule_applies tool arg q) pre" by blast
  have "\<forall>q\<in>set post. gr_priority q \<le> gr_priority r"
    using rule_order_sorted [of rules] by (auto simp: split sorted_append)
  moreover have "set rules = set pre \<union> {r} \<union> set post"
    using rule_order_set [of rules] by (simp add: split)
  ultimately have top: "list_all (\<lambda>q. \<not> (rule_applies tool arg q \<and> gr_priority q > gr_priority r)) rules"
    using pre by (auto simp: list_all_iff not_less)
  have "filter (\<lambda>q. rule_applies tool arg q \<and> gr_priority q = gr_priority r) rules =
      filter (rule_applies tool arg) (filter (\<lambda>q. gr_priority q = gr_priority r) rules)"
    by (simp add: conj_commute)
  also have "\<dots> = filter (rule_applies tool arg)
      (filter (\<lambda>q. gr_priority q = gr_priority r) (pre @ r # post))"
    unfolding split [symmetric] rule_order_stable ..
  also have "\<dots> = r # filter (rule_applies tool arg) (filter (\<lambda>q. gr_priority q = gr_priority r) post)"
    using pre applies by (simp add: list_all_iff filter_empty_conv)
  finally have "hd (filter (\<lambda>q. rule_applies tool arg q \<and> gr_priority q = gr_priority r) rules) = r"
    by simp
  moreover have "r \<in> set rules" unfolding rule_order_set [of rules, symmetric] by (simp add: split)
  ultimately show ?thesis using applies top by (simp add: decides_def)
qed

text \<open>
  (C35) The decision is that of the applicable rule with the highest priority, and of the first one in
  the list among those; the default decision is taken exactly when no rule applies.
\<close>

theorem highest_priority_rule_decides:
  "evaluate_permission tool arg config = Some res \<Longrightarrow>
     (case pe_matched res of
        Some r \<Rightarrow> decides tool arg (pc_rules config) r \<and> pe_decision res = gr_decision r
      | None \<Rightarrow> list_all (\<lambda>r. \<not> rule_applies tool arg r) (pc_rules config) \<and>
                pe_decision res = pc_default config)"
proof (cases "first_match tool arg (rule_order (pc_rules config))")
  case None
  moreover assume "evaluate_permission tool arg config = Some res"
  ultimately show ?thesis by (simp add: evaluate_permission_def)
next
  case (Some found)
  assume res: "evaluate_permission tool arg config = Some res"
  show ?thesis
  proof (cases found)
    case None
    with Some res have "list_all (\<lambda>r. \<not> rule_applies tool arg r) (rule_order (pc_rules config))"
      by (simp add: first_match_none)
    with None Some res show ?thesis by (auto simp: evaluate_permission_def list_all_iff)
  next
    case (Some r)
    with \<open>first_match _ _ _ = Some found\<close> have "decides tool arg (pc_rules config) r"
      by (intro first_match_decides) simp
    with Some \<open>first_match _ _ _ = Some found\<close> res show ?thesis
      by (auto simp: evaluate_permission_def)
  qed
qed

lemma highest_priority_rule_decides_witness:
  "case pe_matched (the (evaluate_permission ''Write'' ''x/.env'' default_permission_config)) of
     Some r \<Rightarrow> decides ''Write'' ''x/.env'' (pc_rules default_permission_config) r \<and>
       pe_decision (the (evaluate_permission ''Write'' ''x/.env'' default_permission_config)) = gr_decision r
   | None \<Rightarrow> list_all (\<lambda>r. \<not> rule_applies ''Write'' ''x/.env'' r) (pc_rules default_permission_config) \<and>
       pe_decision (the (evaluate_permission ''Write'' ''x/.env'' default_permission_config)) =
         pc_default default_permission_config"
  by (rule highest_priority_rule_decides) code_simp

section \<open>What the default rules mean for shell commands\<close>

lemma globs_literal:
  "list_all (\<lambda>c. \<not> wildcard c) w \<Longrightarrow> globs (w @ p) v \<longleftrightarrow> (\<exists>v'. v = w @ v' \<and> globs p v')"
  by (induction w arbitrary: v) (auto simp: globs_plain)

lemma globs_rest: "globs ''**'' v \<longleftrightarrow> no_line_end v"
  by (simp add: globs_double skip_slash_def)

lemma globs_last_segment: "globs ''*'' v \<longleftrightarrow> list_all not_slash v"
  by (simp add: globs_star)

text \<open>A text that starts with \<open>w\<close> and goes on with characters of one kind.\<close>

definition starts_then :: "(char \<Rightarrow> bool) \<Rightarrow> string \<Rightarrow> string \<Rightarrow> bool" where
  "starts_then P w v = (is_prefix w v \<and> list_all P (drop (length w) v))"

lemma starts_then_iff: "starts_then P w v \<longleftrightarrow> (\<exists>v'. v = w @ v' \<and> list_all P v')"
  by (auto simp: starts_then_def is_prefix_iff)

lemma pattern_literal_rest:
  assumes "list_all (\<lambda>c. \<not> wildcard c) w" "expand_braces (w @ ''**'') = [w @ ''**'']"
    "list_all simple_glob [w @ ''**'']"
  shows "glob_match (w @ ''**'') v = Some (starts_then dot w v)"
  using glob_match_correct [of "w @ ''**''" v] assms
  by (simp add: globs_literal globs_rest starts_then_iff no_line_end_def)

definition safe_shell_starts :: "string list" where
  "safe_shell_starts =
     [''ls'', ''cat'', ''pwd'', ''echo'', ''git status'', ''git log'', ''git diff'', ''git show'']"

definition denied_shell_starts :: "string list" where
  "denied_shell_starts = [''rm -rf '', ''git push --force'', ''sudo '', ''chmod 777 '']"

lemma safe_shell_pattern:
  "glob_match ''{ls,cat,pwd,echo,git status,git log,git diff,git show}*'' v =
     Some (list_ex (\<lambda>w. starts_then not_slash w v) safe_shell_starts)"
proof -
  let ?p = "''{ls,cat,pwd,echo,git status,git log,git diff,git show}*''"
  have e: "expand_braces ?p = map (\<lambda>w. w @ ''*'') safe_shell_starts" by code_simp
  have "list_all simple_glob (expand_braces ?p)" by code_simp
  then have "glob_match ?p v = Some (\<exists>q\<in>set (expand_braces ?p). globs q v)" by (rule glob_match_correct)
  also have "(\<exists>q\<in>set (expand_braces ?p). globs q v) \<longleftrightarrow> (\<exists>w\<in>set safe_shell_starts. globs (w @ ''*'') v)"
    unfolding e by simp
  also have "\<dots> \<longleftrightarrow> (\<exists>w\<in>set safe_shell_starts. starts_then not_slash w v)"
  proof (rule bex_cong [OF refl])
    fix w assume "w \<in> set safe_shell_starts"
    moreover have "list_all (list_all (\<lambda>c. \<not> wildcard c)) safe_shell_starts" by code_simp
    ultimately have "list_all (\<lambda>c. \<not> wildcard c) w" by (simp add: list_all_iff)
    then show "globs (w @ ''*'') v = starts_then not_slash w v"
      by (simp add: globs_literal globs_last_segment starts_then_iff)
  qed
  finally show ?thesis by (simp add: list_ex_iff)
qed

lemma first_match_for_tool:
  "first_match tool arg rs = first_match tool arg (filter (\<lambda>r. matches_tool (gr_tool r) tool) rs)"
  by (induction rs) (simp_all cong: option.case_cong bool.case_cong)

abbreviation shell_deny_rules :: "glob_rule list" where
  "shell_deny_rules \<equiv>
     [glob_rule_of ''deny-rm-rf'' ''Bash'' ''rm -rf **'' DDeny ''Prevent recursive delete'' 100,
      glob_rule_of ''deny-force-push'' ''Bash'' ''git push --force**'' DDeny ''Prevent force push'' 100,
      glob_rule_of ''deny-sudo'' ''Bash'' ''sudo **'' DDeny ''Prevent privilege escalation'' 100,
      glob_rule_of ''deny-chmod-777'' ''Bash'' ''chmod 777 **'' DDeny ''Insecure permissions'' 100]"

lemma shell_rules:
  "filter (\<lambda>r. matches_tool (gr_tool r) ''Bash'') (rule_order (pc_rules default_permission_config)) =
     shell_deny_rules @
     [glob_rule_of ''bash-safe'' ''Bash'' ''{ls,cat,pwd,echo,git status,git log,git diff,git show}*''
        DAllow ''Safe read-only commands'' 5]"
  by code_simp

lemma first_deny:
  "list_all (\<lambda>r. matches_tool (gr_tool r) tool \<and> gr_decision r = DDeny) rs \<Longrightarrow>
     list_all2 (\<lambda>r w. matches_pattern (gr_pattern r) arg = Some (starts_then dot w v)) rs ws \<Longrightarrow>
     map_option (map_option gr_decision) (first_match tool arg (rs @ qs)) =
       (if list_ex (\<lambda>w. starts_then dot w v) ws then Some (Some DDeny)
        else map_option (map_option gr_decision) (first_match tool arg qs))"
proof (induction rs arbitrary: ws)
  case Nil
  then show ?case by simp
next
  case (Cons r rs)
  then obtain w ws' where ws: "ws = w # ws'" by (auto simp: list_all2_Cons1)
  with Cons have "map_option (map_option gr_decision) (first_match tool arg (rs @ qs)) =
       (if list_ex (\<lambda>w. starts_then dot w v) ws' then Some (Some DDeny)
        else map_option (map_option gr_decision) (first_match tool arg qs))" by simp
  with Cons.prems(1) show ?case
    using Cons.prems(2) ws by (cases "starts_then dot w v") simp_all
qed

lemma denied_start_pattern:
  assumes "w \<in> set denied_shell_starts"
  shows "glob_match (w @ ''**'') v = Some (starts_then dot w v)"
proof -
  have "list_all (\<lambda>w. list_all (\<lambda>c. \<not> wildcard c) w \<and> expand_braces (w @ ''**'') = [w @ ''**''] \<and>
      list_all simple_glob [w @ ''**'']) denied_shell_starts" by code_simp
  with assms show ?thesis unfolding list_all_iff
    by (blast intro: pattern_literal_rest [unfolded list_all_iff])
qed

lemma shell_deny_patterns:
  "list_all2 (\<lambda>r w. matches_pattern (gr_pattern r) arg = Some (starts_then dot w (forward_slashes arg)))
     shell_deny_rules denied_shell_starts"
  using denied_start_pattern [of "''rm -rf ''"] denied_start_pattern [of "''git push --force''"]
    denied_start_pattern [of "''sudo ''"] denied_start_pattern [of "''chmod 777 ''"]
  by (simp add: denied_shell_starts_def glob_rule_of_def matches_pattern_def)

text \<open>
  (C32) What the built-in rules say about a shell command, completely: it is denied when it starts with
  a denied start and has no line break after it, otherwise allowed without a question when it starts
  with a safe start and has no slash (or backslash) after it, and otherwise left to the mode.
\<close>

theorem default_shell_policy:
  "map_option pe_decision (evaluate_permission ''Bash'' command default_permission_config) =
     Some (let v = forward_slashes command
           in if list_ex (\<lambda>w. starts_then dot w v) denied_shell_starts then DDeny
              else if list_ex (\<lambda>w. starts_then not_slash w v) safe_shell_starts then DAllow
              else DAsk)"
proof -
  let ?v = "forward_slashes command"
  let ?safe = "glob_rule_of ''bash-safe'' ''Bash''
    ''{ls,cat,pwd,echo,git status,git log,git diff,git show}*'' DAllow ''Safe read-only commands'' 5"
  have "list_all (\<lambda>r. matches_tool (gr_tool r) ''Bash'' \<and> gr_decision r = DDeny) shell_deny_rules"
    by code_simp
  from first_deny [OF this shell_deny_patterns]
  have m: "map_option (map_option gr_decision)
        (first_match ''Bash'' command (rule_order (pc_rules default_permission_config))) =
      (if list_ex (\<lambda>w. starts_then dot w ?v) denied_shell_starts then Some (Some DDeny)
       else map_option (map_option gr_decision) (first_match ''Bash'' command [?safe]))"
    unfolding first_match_for_tool [of _ _ "rule_order _"] shell_rules by blast
  have "matches_tool (gr_tool ?safe) ''Bash''" by code_simp
  then have "first_match ''Bash'' command [?safe] =
      Some (if list_ex (\<lambda>w. starts_then not_slash w ?v) safe_shell_starts then Some ?safe else None)"
    by (simp add: matches_pattern_def glob_rule_of_def safe_shell_pattern)
  with m show ?thesis
    by (auto simp: evaluate_permission_def glob_rule_of_def default_permission_config_def Let_def
        split: if_splits option.splits)
qed

lemma forward_slashes_lines: "no_line_end (forward_slashes v) \<longleftrightarrow> no_line_end v"
  by (induction v) (auto simp: forward_slashes_def no_line_end_def dot_def line_end_def)

lemma starts_then_dot_lines:
  "no_line_end w \<Longrightarrow> starts_then dot w v \<Longrightarrow> no_line_end v"
  by (auto simp: starts_then_iff no_line_end_def)

text \<open>
  The built-in deny rules for the shell never fire on a command of several lines: \<open>**\<close> does not
  match a line break. \<open>rm -rf /\<close> followed by one more line is not denied.
\<close>

theorem deny_rules_need_one_line:
  "\<not> no_line_end command \<Longrightarrow>
     map_option pe_decision (evaluate_permission ''Bash'' command default_permission_config) \<noteq> Some DDeny"
proof
  assume lines: "\<not> no_line_end command"
    and "map_option pe_decision (evaluate_permission ''Bash'' command default_permission_config) = Some DDeny"
  then have "list_ex (\<lambda>w. starts_then dot w (forward_slashes command)) denied_shell_starts"
    by (auto simp: default_shell_policy Let_def split: if_splits)
  then obtain w where "w \<in> set denied_shell_starts" "starts_then dot w (forward_slashes command)"
    by (auto simp: list_ex_iff)
  moreover have "list_all no_line_end denied_shell_starts" by code_simp
  ultimately have "no_line_end (forward_slashes command)"
    by (auto simp: list_all_iff intro: starts_then_dot_lines)
  with lines show False by (simp add: forward_slashes_lines)
qed

lemma deny_rules_need_one_line_witness:
  "map_option pe_decision
     (evaluate_permission ''Bash'' (''rm -rf /'' @ new_line @ ''ls'') default_permission_config) \<noteq> Some DDeny"
  by (rule deny_rules_need_one_line) code_simp

lemma chained_command_is_allowed:
  "map_option pe_decision (evaluate_permission ''Bash'' ''ls; rm -r src'' default_permission_config) = Some DAllow"
  by (simp only: default_shell_policy) code_simp

section \<open>Wildcard rules and modes\<close>

lemma wildcard_plain: "rx_plain (wildcard_rx w)"
  by (induction w) auto

lemma wildcard_literal: "CHR ''*'' \<notin> set w \<Longrightarrow> rx_lang (wildcard_rx w) = {w}"
proof (induction w)
  case Nil
  then show ?case by simp
next
  case (Cons c w)
  then have "wildcard_rx (c # w) = RSeq (RChr (\<lambda>x. x = c)) (wildcard_rx w)" "rx_lang (wildcard_rx w) = {w}"
    by auto
  then show ?case by (simp only: set_eq_iff lang_chr_seq) auto
qed

lemma lang_everything: "rx_lang (RStar (RChr (\<lambda>_. True))) = UNIV"
  by (simp add: lang_star_chr list_all_iff del: rx_lang.simps)

text \<open>
  A rule with one star at the end, as \<open>git *\<close>, covers exactly the bare command and the command
  followed by a space and any text at all, also text that starts another command.
\<close>

theorem prefix_rule_covers:
  "CHR ''*'' \<notin> set w \<Longrightarrow>
     match_rule (w @ '' *'') (JStr command) = Some (command = w \<or> is_prefix (w @ '' '') command)"
proof -
  assume w: "CHR ''*'' \<notin> set w"
  let ?tail = "rx_opt (RSeq (rx_lit '' '') (RStar (RChr (\<lambda>_. True))))"
  have tail: "rx_lang ?tail = insert [] {'' '' @ u | u. True}"
    by (simp add: rx_opt_def lang_lit lang_everything del: rx_lang.simps(3) rx_lit.simps)
  have "ends_with (w @ '' *'') '' *''" "\<not> ends_with (w @ '' *'') '':*''" "CHR ''*'' \<in> set (w @ '' *'')"
    by (simp_all add: ends_with_def)
  moreover have "count_list (w @ '' *'') CHR ''*'' = 1" using w by (simp add: count_list_0_iff)
  ultimately have "match_rule (w @ '' *'') (JStr command) =
      Some (rx_test (rx_whole (RSeq (wildcard_rx w) ?tail)) command)"
    by (simp add: match_rule_def rule_rx_def)
  also have "rx_test (rx_whole (RSeq (wildcard_rx w) ?tail)) command \<longleftrightarrow>
      command \<in> rx_lang (RSeq (wildcard_rx w) ?tail)"
    by (rule rx_test_whole) (simp add: wildcard_plain rx_opt_def)
  also have "\<dots> \<longleftrightarrow> command = w \<or> is_prefix (w @ '' '') command"
    unfolding rx_lang.simps wildcard_literal [OF w] tail by (auto simp: is_prefix_iff)
  finally show ?thesis .
qed

lemma prefix_rule_covers_witness:
  "match_rule (''git'' @ '' *'') (JStr ''git status; rm -r src'') =
     Some (''git status; rm -r src'' = ''git'' \<or> is_prefix (''git'' @ '' '') ''git status; rm -r src'')"
  by (rule prefix_rule_covers) simp

lemma next_modes:
  "get_next_permission_mode ModeDefault = ModeAcceptEdits"
  "get_next_permission_mode ModeAcceptEdits = ModePlan"
  "get_next_permission_mode ModePlan = ModeAuto"
  "get_next_permission_mode ModeAuto = ModeBypass"
  "get_next_permission_mode ModeBypass = ModeDontAsk"
  "get_next_permission_mode ModeDontAsk = ModeBubble"
  "get_next_permission_mode ModeBubble = ModeDefault"
  by (simp_all add: get_next_permission_mode_def cycle_order_def)

text \<open>The header names a cycle of five modes; it has seven.\<close>

lemma cycle_returns: "(get_next_permission_mode ^^ 7) m = m"
  by (cases m) (simp_all add: next_modes numeral_eq_Suc)

lemma cycle_is_not_five: "(get_next_permission_mode ^^ 5) ModeDefault = ModeDontAsk"
  by (simp add: next_modes numeral_eq_Suc)

section \<open>The manager over a history\<close>

datatype manager_op =
    MgSetMode permission_mode
  | MgCycle
  | MgAdd permission_rule
  | MgRemove int

fun manager_step :: "manager_op \<Rightarrow> permission_manager \<Rightarrow> permission_manager" where
  "manager_step (MgSetMode mode) m = set_mode mode m"
| "manager_step MgCycle m = cycle_mode m"
| "manager_step (MgAdd r) m = add_rule r m"
| "manager_step (MgRemove i) m = remove_rule i m"

definition rule_key :: "permission_rule \<Rightarrow> string \<times> string \<times> permission" where
  "rule_key r = (pr_tool r, pr_content r, pr_behavior r)"

definition manager_ok :: "permission_manager \<Rightarrow> bool" where
  "manager_ok m = distinct (map rule_key (mg_rules m))"

lemma same_rule_key: "same_rule a b \<longleftrightarrow> rule_key a = rule_key b"
  by (auto simp: same_rule_def rule_key_def)

lemma add_rule_fresh:
  "rule_key r \<notin> rule_key ` set (mg_rules m) \<Longrightarrow> add_rule r m = m\<lparr>mg_rules := mg_rules m @ [r]\<rparr>"
  by (auto simp: add_rule_def list_ex_iff same_rule_key image_iff)

lemma manager_step_ok: "manager_ok m \<Longrightarrow> manager_ok (manager_step x m)"
proof (cases x)
  case (MgAdd r)
  assume "manager_ok m"
  with MgAdd show ?thesis
    by (auto simp: manager_ok_def add_rule_def list_ex_iff same_rule_key)
next
  case (MgRemove i)
  assume ok: "manager_ok m"
  have "distinct (map rule_key (take k rs @ drop (Suc k) rs))" if "distinct (map rule_key rs)" for k rs
  proof -
    have "distinct (take k (map rule_key rs) @ drop (Suc k) (map rule_key rs))"
      using that set_take_disj_set_drop_if_distinct [of "map rule_key rs" k "Suc k"]
      by (simp only: distinct_append distinct_take distinct_drop)
    then show ?thesis by (simp add: take_map drop_map)
  qed
  with ok MgRemove show ?thesis by (simp add: manager_ok_def remove_rule_def Let_def)
qed (simp_all add: manager_ok_def set_mode_def cycle_mode_def)

interpretation manager: invariant_system manager_step manager_ok
  by unfold_locales (rule manager_step_ok)

lemma fold_add_rule:
  "distinct (map rule_key (mg_rules m @ rs)) \<Longrightarrow>
     fold add_rule rs m = m\<lparr>mg_rules := mg_rules m @ rs\<rparr>"
proof (induction rs arbitrary: m)
  case Nil
  then show ?case by simp
next
  case (Cons r rs)
  then have "add_rule r m = m\<lparr>mg_rules := mg_rules m @ [r]\<rparr>" by (intro add_rule_fresh) auto
  with Cons show ?case by simp
qed

text \<open>
  After any history of changes a manager holds no rule twice, so the clone a sub-agent gets, which
  re-adds the rules one by one through the duplicate check, has the same mode and the same rules in the same
  order.
\<close>

theorem clone_is_faithful:
  "let m = fold manager_step history new_manager
   in clone_manager m = m \<and> distinct (map rule_key (mg_rules m))"
proof -
  let ?m = "fold manager_step history new_manager"
  have ok: "manager_ok ?m" by (rule manager.run_inv) (simp add: manager_ok_def new_manager_def)
  then have "clone_manager ?m = ?m"
    by (simp add: clone_manager_def fold_add_rule set_mode_def new_manager_def manager_ok_def)
  with ok show ?thesis by (simp add: manager_ok_def Let_def)
qed

end
