(* ===== verification/ToolAccess.thy ===== *)
theory ToolAccess
  imports JsRegex Completion
begin

text \<open>
  Which tools a model sees and which it may run: the registry \<open>src/src/core/toolRuntime/toolRegistry.ts\<close>,
  the filter for sub-agents \<open>src/src/core/agentToolFilter.ts\<close>, the two layers of
  \<open>src/src/core/toolRuntime/toolPolicy.ts\<close>, and deferred tools (\<open>src/src/core/toolSearch.ts\<close>).

  A tool is its name, the name in its definition, and the flags of its metadata that are read here; a
  definition is its name. Warnings of the registry are the names that collided.
\<close>

record tool_entry =
  tl_name :: string
  tl_definition :: string
  tl_read_only :: bool
  tl_should_defer :: bool
  tl_always_load :: bool

definition lookup_tool :: "tool_entry list \<Rightarrow> string \<Rightarrow> tool_entry option" where
  "lookup_tool tools name = find (\<lambda>t. tl_name t = name) tools"

definition get_tool_definitions :: "tool_entry list \<Rightarrow> string list" where
  "get_tool_definitions tools = map tl_definition tools"

section \<open>The registry\<close>

record tool_registry =
  tg_tools :: "(string, tool_entry) jsmap"
  tg_discovered :: "string list"
  tg_warnings :: "string list"

definition new_registry :: tool_registry where
  "new_registry = \<lparr>tg_tools = [], tg_discovered = [], tg_warnings = []\<rparr>"

definition register_tool :: "tool_entry \<Rightarrow> tool_registry \<Rightarrow> tool_registry" where
  "register_tool t g =
     (if jm_has (tg_tools g) (tl_name t) then g\<lparr>tg_warnings := tg_warnings g @ [tl_name t]\<rparr>
      else g\<lparr>tg_tools := jm_set (tl_name t) t (tg_tools g)\<rparr>)"

definition register_many :: "tool_entry list \<Rightarrow> tool_registry \<Rightarrow> tool_registry" where
  "register_many tools g = fold register_tool tools g"

definition reset_registry :: "tool_entry list \<Rightarrow> tool_entry list \<Rightarrow> tool_registry \<Rightarrow> tool_registry" where
  "reset_registry base modules g = register_many modules (register_many base (g\<lparr>tg_tools := []\<rparr>))"

definition registry_get :: "tool_registry \<Rightarrow> string \<Rightarrow> tool_entry option" where
  "registry_get g name = jm_get (tg_tools g) name"

definition registry_get_all :: "tool_registry \<Rightarrow> tool_entry list" where
  "registry_get_all g = jm_values (tg_tools g)"

definition tool_registry_size :: "tool_registry \<Rightarrow> nat" where
  "tool_registry_size g = length (tg_tools g)"

definition mark_discovered :: "string \<Rightarrow> tool_registry \<Rightarrow> tool_registry" where
  "mark_discovered name g = g\<lparr>tg_discovered := List.insert name (tg_discovered g)\<rparr>"

definition clear_discovered :: "tool_registry \<Rightarrow> tool_registry" where
  "clear_discovered g = g\<lparr>tg_discovered := []\<rparr>"

section \<open>Deferred tools\<close>

definition core_tools :: "string list" where
  "core_tools =
     [''Bash'', ''Read'', ''Write'', ''Edit'', ''Glob'', ''Grep'',
      ''TodoWrite'', ''WebFetch'', ''WebSearch'', ''Agent'',
      ''EnterPlanMode'', ''ExitPlanMode'', ''AskUserQuestion'',
      ''NotebookEdit'', ''load_skill'', ''TaskCreate'', ''TaskGet'',
      ''TaskList'', ''TaskUpdate'', ''TaskStop'', ''TaskPlan'',
      ''Worktree'', ''EnterWorktree'', ''ExitWorktree'', ''ListWorktrees'',
      ''TmuxSession'', ''ShellSession'', ''Sleep'', ''Snip'',
      ''Diagnostics'', ''ListMcpResources'', ''ReadMcpResource'', ''Goal'',
      ''VerifyPlanExecution'', ''search_extra_tools'', ''ClaudeCode'']"

definition is_core_tool :: "string \<Rightarrow> bool" where
  "is_core_tool name = (name \<in> set core_tools)"

definition is_deferred_tool :: "tool_entry \<Rightarrow> bool" where
  "is_deferred_tool t =
     (if tl_always_load t then False
      else if \<not> tl_should_defer t then False
      else if is_core_tool (tl_name t) then False
      else True)"

section \<open>Sub-agents\<close>

definition sub_agent_disallowed_tools :: "string list" where
  "sub_agent_disallowed_tools = [''Agent'', ''EnterPlanMode'', ''ExitPlanMode'', ''VerifyPlanExecution'']"

definition filter_tools_for_sub_agent ::
  "string list \<Rightarrow> string list option \<Rightarrow> string list option \<Rightarrow> string list" where
  "filter_tools_for_sub_agent names allowlist denylist =
     (let result1 = (case allowlist of
            None \<Rightarrow> names
          | Some ns \<Rightarrow> filter (\<lambda>n. to_lower n \<in> set (map to_lower ns) \<or> is_prefix ''mcp__'' n) names);
          result2 = filter (\<lambda>n. n \<notin> set sub_agent_disallowed_tools) result1
      in (case denylist of
            None \<Rightarrow> result2
          | Some ns \<Rightarrow> filter (\<lambda>n. to_lower n \<notin> set (map to_lower ns)) result2))"

record agent_lists =
  ag_tools :: "string list option"
  ag_disallowed :: "string list option"

section \<open>The policy\<close>

definition legacy_plan_mode_tools :: "string list" where
  "legacy_plan_mode_tools = [''Read'', ''Glob'', ''Grep'', ''WebFetch'', ''WebSearch'', ''ExitPlanMode'']"

definition search_extra_tools_name :: string where
  "search_extra_tools_name = ''search_extra_tools''"

definition plan_allows :: "tool_entry option \<Rightarrow> string \<Rightarrow> bool" where
  "plan_allows t name =
     ((case t of None \<Rightarrow> False | Some t \<Rightarrow> tl_read_only t) \<or> name \<in> set legacy_plan_mode_tools)"

definition read_only_task :: "task_kind option \<Rightarrow> bool" where
  "read_only_task kind = (kind = Some Informational \<or> kind = Some Analysis)"

definition get_exposed_definitions ::
  "agent_lists option \<Rightarrow> tool_entry list \<Rightarrow> bool \<Rightarrow> string list option \<Rightarrow> task_kind option \<Rightarrow>
   string list option \<Rightarrow> string list" where
  "get_exposed_definitions agent tools plan excluded kind discovered =
     (let defs0 = get_tool_definitions tools;
          defs1 = (case agent of
              None \<Rightarrow> defs0
            | Some a \<Rightarrow> filter (\<lambda>n. n \<in> set (filter_tools_for_sub_agent defs0 (ag_tools a) (ag_disallowed a)))
                defs0);
          defs2 = (if plan then filter (\<lambda>n. plan_allows (lookup_tool tools n) n) defs1 else defs1);
          defs3 = (if read_only_task kind
                   then filter (\<lambda>n. case lookup_tool tools n of None \<Rightarrow> False | Some t \<Rightarrow> tl_read_only t) defs2
                   else defs2);
          defs4 = (case excluded of None \<Rightarrow> defs3 | Some ns \<Rightarrow> filter (\<lambda>n. n \<notin> set ns) defs3)
      in filter (\<lambda>n. case lookup_tool tools n of
             None \<Rightarrow> True
           | Some t \<Rightarrow>
               if n = search_extra_tools_name then True
               else if tl_always_load t then True
               else if \<not> is_deferred_tool t then True
               else (case discovered of None \<Rightarrow> False | Some ds \<Rightarrow> n \<in> set ds)) defs4)"

datatype policy_error =
    NotInPlanMode string
  | NotForReadOnlyTask string task_kind
  | NotInExecutionProfile string
  | NotForThisAgent string

text \<open>\<open>None\<close> is the permission to run, as the \<open>null\<close> of the code.\<close>

definition check_execution_allowed ::
  "agent_lists option \<Rightarrow> tool_entry list \<Rightarrow> string \<Rightarrow> bool \<Rightarrow> string list option \<Rightarrow> task_kind option \<Rightarrow>
   policy_error option" where
  "check_execution_allowed agent tools name plan excluded kind =
     (let tool = lookup_tool tools name
      in if plan \<and> (tool = None \<or> \<not> plan_allows tool name) then Some (NotInPlanMode name)
         else if read_only_task kind \<and> (case tool of None \<Rightarrow> True | Some t \<Rightarrow> \<not> tl_read_only t)
         then Some (NotForReadOnlyTask name (the kind))
         else if (case excluded of None \<Rightarrow> False | Some ns \<Rightarrow> name \<in> set ns)
         then Some (NotInExecutionProfile name)
         else (case agent of
             None \<Rightarrow> None
           | Some a \<Rightarrow>
               if name \<notin> set (filter_tools_for_sub_agent (map tl_name tools) (ag_tools a) (ag_disallowed a))
               then Some (NotForThisAgent name) else None))"

section \<open>The registry keeps the first tool of a name\<close>

lemma lookup_tool_nil [simp]: "lookup_tool [] name = None"
  by (simp add: lookup_tool_def)

lemma lookup_tool_cons: "lookup_tool (t # ts) name = (if tl_name t = name then Some t else lookup_tool ts name)"
  by (simp add: lookup_tool_def)

lemma lookup_tool_append:
  "lookup_tool (ts @ us) name = or_else (lookup_tool ts name) (lookup_tool us name)"
  by (induction ts) (auto simp: lookup_tool_cons or_else_def)

lemma lookup_tool_SomeD: "lookup_tool ts name = Some t \<Longrightarrow> t \<in> set ts \<and> tl_name t = name"
  by (auto simp: lookup_tool_def find_Some_iff)

lemma lookup_tool_None: "lookup_tool ts name = None \<longleftrightarrow> name \<notin> tl_name ` set ts"
  by (auto simp: lookup_tool_def find_None_iff)

definition tools_ok :: "tool_registry \<Rightarrow> bool" where
  "tools_ok g = (jm_wf (tg_tools g) \<and> list_all (\<lambda>(k, t). tl_name t = k) (tg_tools g))"

lemma register_tool_ok: "tools_ok g \<Longrightarrow> tools_ok (register_tool t g)"
  by (auto simp: tools_ok_def register_tool_def jm_set_fresh map_of_eq_None_iff list_all_iff)

lemma registry_get_all_find:
  assumes "tools_ok g"
  shows "lookup_tool (registry_get_all g) name = registry_get g name"
proof -
  have "list_all (\<lambda>(k, t). tl_name t = k) m \<Longrightarrow> lookup_tool (map snd m) name = map_of m name" for m
    by (induction m) (auto simp: lookup_tool_cons)
  with assms show ?thesis by (simp add: tools_ok_def registry_get_all_def registry_get_def)
qed

lemma register_tool_get:
  "jm_get (tg_tools (register_tool t g)) name =
     or_else (jm_get (tg_tools g) name) (lookup_tool [t] name)"
  by (auto simp: register_tool_def lookup_tool_cons or_else_def split: option.splits)

lemma register_many_get:
  "jm_get (tg_tools (register_many ts g)) name =
     or_else (jm_get (tg_tools g) name) (lookup_tool ts name)"
  by (induction ts arbitrary: g)
    (auto simp: register_many_def register_tool_get lookup_tool_cons or_else_def split: option.splits)

lemma register_many_ok: "tools_ok g \<Longrightarrow> tools_ok (register_many ts g)"
  by (induction ts arbitrary: g) (auto simp: register_many_def intro: register_tool_ok)

lemma register_many_discovered: "tg_discovered (register_many ts g) = tg_discovered g"
  by (induction ts arbitrary: g) (auto simp: register_many_def register_tool_def)

datatype registry_step_op =
    RgRegister tool_entry
  | RgReset "tool_entry list" "tool_entry list"
  | RgMark string
  | RgClear

fun tool_registry_step :: "registry_step_op \<Rightarrow> tool_registry \<Rightarrow> tool_registry" where
  "tool_registry_step (RgRegister t) g = register_tool t g"
| "tool_registry_step (RgReset base modules) g = reset_registry base modules g"
| "tool_registry_step (RgMark name) g = mark_discovered name g"
| "tool_registry_step RgClear g = clear_discovered g"

lemma tool_registry_step_ok: "tools_ok g \<Longrightarrow> tools_ok (tool_registry_step x g)"
proof (cases x)
  case (RgReset base modules)
  assume "tools_ok g"
  have "tools_ok (g\<lparr>tg_tools := []\<rparr>)" by (simp add: tools_ok_def)
  with RgReset show ?thesis by (simp add: reset_registry_def register_many_ok)
next
  case (RgRegister t)
  assume "tools_ok g"
  with RgRegister show ?thesis by (simp add: register_tool_ok)
qed (auto simp: mark_discovered_def clear_discovered_def tools_ok_def)

interpretation tool_registry: invariant_system tool_registry_step tools_ok
  by unfold_locales (rule tool_registry_step_ok)

text \<open>
  After any history of the registry a reset leaves exactly the first tool of each name, base tools
  before module tools, so no module can replace a base tool; looking a tool up in the registry and in
  the list of all tools is the same; and what the model has discovered is kept.
\<close>

theorem reset_keeps_first_tools:
  "let g = reset_registry base modules (fold tool_registry_step history new_registry)
   in registry_get g name = lookup_tool (base @ modules) name \<and>
      lookup_tool (registry_get_all g) name = registry_get g name \<and>
      tg_discovered g = tg_discovered (fold tool_registry_step history new_registry)"
proof -
  let ?old = "fold tool_registry_step history new_registry"
  let ?g = "reset_registry base modules ?old"
  have "tools_ok ?old" by (rule tool_registry.run_inv) (simp add: tools_ok_def new_registry_def)
  from tool_registry_step_ok [OF this, of "RgReset base modules"] have "tools_ok ?g" by simp
  moreover have "registry_get ?g name = lookup_tool (base @ modules) name"
    by (simp add: registry_get_def reset_registry_def register_many_get lookup_tool_append)
  moreover have "tg_discovered ?g = tg_discovered ?old"
    by (simp add: reset_registry_def register_many_discovered)
  ultimately show ?thesis by (simp add: Let_def registry_get_all_find)
qed

section \<open>Seeing and running\<close>

text \<open>A deferred tool the model has not found yet.\<close>

definition hidden_deferred :: "tool_entry list \<Rightarrow> string list option \<Rightarrow> string \<Rightarrow> bool" where
  "hidden_deferred tools discovered name =
     (case lookup_tool tools name of
        None \<Rightarrow> False
      | Some t \<Rightarrow> is_deferred_tool t \<and> name \<noteq> search_extra_tools_name \<and>
          (case discovered of None \<Rightarrow> True | Some ds \<Rightarrow> name \<notin> set ds))"

definition names_agree :: "tool_entry list \<Rightarrow> bool" where
  "names_agree tools = list_all (\<lambda>t. tl_definition t = tl_name t) tools"

definition agent_allows :: "agent_lists option \<Rightarrow> string list \<Rightarrow> string \<Rightarrow> bool" where
  "agent_allows agent names name =
     (case agent of
        None \<Rightarrow> True
      | Some a \<Rightarrow> name \<in> set (filter_tools_for_sub_agent names (ag_tools a) (ag_disallowed a)))"

definition excludes :: "string list option \<Rightarrow> string \<Rightarrow> bool" where
  "excludes excluded name = (case excluded of None \<Rightarrow> False | Some ns \<Rightarrow> name \<in> set ns)"

lemma runnable_iff:
  "check_execution_allowed agent tools name plan excluded kind = None \<longleftrightarrow>
     (plan \<longrightarrow> lookup_tool tools name \<noteq> None \<and> plan_allows (lookup_tool tools name) name) \<and>
     (read_only_task kind \<longrightarrow> (case lookup_tool tools name of None \<Rightarrow> False | Some t \<Rightarrow> tl_read_only t)) \<and>
     \<not> excludes excluded name \<and> agent_allows agent (map tl_name tools) name"
  by (cases "lookup_tool tools name"; cases agent; cases excluded)
    (simp_all add: check_execution_allowed_def agent_allows_def excludes_def Let_def)

lemma shown_iff:
  "name \<in> set (get_exposed_definitions agent tools plan excluded kind discovered) \<longleftrightarrow>
     name \<in> set (get_tool_definitions tools) \<and> agent_allows agent (get_tool_definitions tools) name \<and>
     (plan \<longrightarrow> plan_allows (lookup_tool tools name) name) \<and>
     (read_only_task kind \<longrightarrow> (case lookup_tool tools name of None \<Rightarrow> False | Some t \<Rightarrow> tl_read_only t)) \<and>
     \<not> excludes excluded name \<and> \<not> hidden_deferred tools discovered name"
proof -
  define e where "e \<longleftrightarrow> name = search_extra_tools_name"
  show ?thesis
    by (cases "lookup_tool tools name"; cases agent; cases excluded; cases discovered; cases e)
      (auto simp: get_exposed_definitions_def agent_allows_def excludes_def hidden_deferred_def
        is_deferred_tool_def Let_def simp flip: e_def)
qed

text \<open>
  (C33) The two layers of the policy agree up to deferral: a tool is shown exactly when it exists,
  may be run under the same circumstances, and is not a deferred tool that was not discovered. So a tool
  that is hidden for plan mode, a read-only task, the execution profile or the agent's lists cannot be run
  either, but a deferred tool can be run without having been shown.
\<close>

theorem shown_iff_runnable:
  "names_agree tools \<Longrightarrow>
     name \<in> set (get_exposed_definitions agent tools plan excluded kind discovered) \<longleftrightarrow>
     name \<in> set (map tl_name tools) \<and>
     check_execution_allowed agent tools name plan excluded kind = None \<and>
     \<not> hidden_deferred tools discovered name"
proof -
  assume "names_agree tools"
  then have "get_tool_definitions tools = map tl_name tools"
    by (simp add: names_agree_def get_tool_definitions_def list_all_iff)
  moreover have "name \<in> set (map tl_name tools) \<Longrightarrow> lookup_tool tools name \<noteq> None"
    by (simp add: lookup_tool_None)
  ultimately show ?thesis unfolding shown_iff runnable_iff by auto
qed

lemma shown_iff_runnable_witness:
  "let tools = [\<lparr>tl_name = ''Bash'', tl_definition = ''Bash'', tl_read_only = False,
                 tl_should_defer = False, tl_always_load = False\<rparr>,
                \<lparr>tl_name = ''x'', tl_definition = ''x'', tl_read_only = True,
                 tl_should_defer = True, tl_always_load = False\<rparr>]
   in ''x'' \<in> set (get_exposed_definitions None tools True None None (Some [''x''])) \<longleftrightarrow>
      ''x'' \<in> set (map tl_name tools) \<and>
      check_execution_allowed None tools ''x'' True None None = None \<and>
      \<not> hidden_deferred tools (Some [''x'']) ''x''"
  unfolding Let_def by (rule shown_iff_runnable) (simp add: names_agree_def)

lemma hidden_tool_is_runnable:
  "let tools = [\<lparr>tl_name = ''x'', tl_definition = ''x'', tl_read_only = True,
                 tl_should_defer = True, tl_always_load = False\<rparr>]
   in ''x'' \<notin> set (get_exposed_definitions None tools False None None None) \<and>
      check_execution_allowed None tools ''x'' False None None = None"
  by code_simp

section \<open>What a sub-agent can never do\<close>

lemma filtered_for_sub_agent:
  "n \<in> set (filter_tools_for_sub_agent names allow deny) \<longleftrightarrow>
     n \<in> set names \<and> n \<notin> set sub_agent_disallowed_tools \<and>
     (case allow of None \<Rightarrow> True
        | Some ns \<Rightarrow> to_lower n \<in> set (map to_lower ns) \<or> is_prefix ''mcp__'' n) \<and>
     (case deny of None \<Rightarrow> True | Some ns \<Rightarrow> to_lower n \<notin> set (map to_lower ns))"
  by (cases allow; cases deny) (auto simp: filter_tools_for_sub_agent_def)

text \<open>
  Whatever lists an agent is configured with, a sub-agent runs only tools of the registry, never
  a tool that starts another agent or changes the plan mode, never one on its own denylist (in any
  spelling), and outside its allowlist only tools of MCP servers.
\<close>

theorem sub_agent_is_confined:
  "check_execution_allowed (Some a) tools name plan excluded kind = None \<Longrightarrow>
     name \<in> set (map tl_name tools) \<and>
     name \<notin> {''Agent'', ''EnterPlanMode'', ''ExitPlanMode'', ''VerifyPlanExecution''} \<and>
     to_lower name \<notin> set (map to_lower (default_to (ag_disallowed a) [])) \<and>
     (to_lower name \<in> set (map to_lower (default_to (ag_tools a) [name])) \<or> is_prefix ''mcp__'' name)"
  by (cases "ag_tools a"; cases "ag_disallowed a")
    (auto simp: runnable_iff agent_allows_def filtered_for_sub_agent sub_agent_disallowed_tools_def)

lemma sub_agent_is_confined_witness:
  "let a = \<lparr>ag_tools = Some [''read'', ''Agent''], ag_disallowed = None\<rparr>;
       tools = [\<lparr>tl_name = ''Read'', tl_definition = ''Read'', tl_read_only = True,
                 tl_should_defer = False, tl_always_load = False\<rparr>]
   in ''Read'' \<in> set (map tl_name tools) \<and>
      ''Read'' \<notin> {''Agent'', ''EnterPlanMode'', ''ExitPlanMode'', ''VerifyPlanExecution''} \<and>
      to_lower ''Read'' \<notin> set (map to_lower (default_to (ag_disallowed a) [])) \<and>
      (to_lower ''Read'' \<in> set (map to_lower (default_to (ag_tools a) [''Read''])) \<or> is_prefix ''mcp__'' ''Read'')"
  unfolding Let_def by (rule sub_agent_is_confined [where plan = True and excluded = None and kind = None]) code_simp

end
