(* ===== verification/ToolExecutor.thy ===== *)
theory ToolExecutor
  imports Permissions ToolAccess ToolScheduler
begin

text \<open>
  One tool call from lookup to result: \<open>src/src/core/toolRuntime/toolExecutor.ts\<close> with the mode gate
  \<open>permissionModeGate.ts\<close>.

  What the call meets is an environment: the registry, the answers of the user, the outcomes of the hooks, what
  the tool returns. The permission manager and the session approvals are read twice, before and after the
  hooks have run; they may have changed in between, so the environment holds them for both looks. A
  computation of the executor yields an error (a refusal, or an exception that escapes) or a value, and
  extends the trace of effects. Hooks and listeners that throw are caught by the code; they are the outcome
  \<open>None\<close>. Dashes in the texts of refusals are hyphens here, and the line that shows the current mode is a
  parameter.
\<close>

section \<open>The mode gate\<close>

datatype mode_gate = GateAllow | GateDeny | GateCheck

definition gate_edit_tools :: "string list" where
  "gate_edit_tools = [''Write'', ''Edit'', ''NotebookEdit'']"

fun gate_by_permission_mode :: "permission_mode \<Rightarrow> string \<Rightarrow> mode_gate" where
  "gate_by_permission_mode ModeBypass tool = GateAllow"
| "gate_by_permission_mode ModeDontAsk tool = GateAllow"
| "gate_by_permission_mode ModeAcceptEdits tool =
     (if tool \<in> set gate_edit_tools then GateAllow else GateCheck)"
| "gate_by_permission_mode ModeDefault tool = GateCheck"
| "gate_by_permission_mode ModePlan tool = GateCheck"
| "gate_by_permission_mode ModeAuto tool = GateCheck"
| "gate_by_permission_mode ModeBubble tool = GateCheck"

section \<open>Environment, effects and errors\<close>

datatype prompt_risk = PromptNeedsApproval | PromptDangerous

record prompt_answer =
  pa_approved :: bool
  pa_feedback :: "string option"

datatype prompt_outcome = Answered prompt_answer | PromptThrows string

record hook_outcome =
  ho_hook :: string
  ho_decision :: permission
  ho_reason :: "string option"
  ho_error :: "string option"
  ho_updated :: "tool_input option"
  ho_context :: "string option"

datatype run_outcome = ToolReturns any_result | ToolThrows string

record exec_env =
  xe_agent :: "agent_lists option"
  xe_registry :: tool_registry
  xe_mode :: permission_mode
  xe_plan :: bool
  xe_excluded :: "string list option"
  xe_kind :: "task_kind option"
  xe_manager :: "bool \<Rightarrow> permission_manager"
  xe_approvals :: "bool \<Rightarrow> session_approval list"
  xe_prompt :: "(nat \<Rightarrow> string \<Rightarrow> tool_input \<Rightarrow> prompt_risk \<Rightarrow> prompt_outcome) option"
  xe_hook_runner :: bool
  xe_pre_hook :: "(string \<Rightarrow> tool_input \<Rightarrow> hook_outcome list option) option"
  xe_post_hook :: "(string \<Rightarrow> string \<Rightarrow> bool \<Rightarrow> (string \<times> string option) list option) option"
  xe_run :: "string \<Rightarrow> tool_input \<Rightarrow> run_outcome"
  xe_spill :: "string \<Rightarrow> string option"
  xe_run_id :: string
  xe_clock :: int
  xe_mode_text :: "permission_mode \<Rightarrow> string"

datatype decision_layer = LayerModeGate | LayerGlobEngine | LayerManager | LayerSession | LayerHook

datatype exec_event =
    EvDecision decision_layer permission tool_input
  | EvPrompt tool_input prompt_risk bool
  | EvPreHook tool_input
  | EvLegacyHook tool_input
  | EvHookContext string string
  | EvStarted tool_input
  | EvExecuted tool_input
  | EvFailureHook string
  | EvPostHook string bool
  | EvLegacyPostHook string bool
  | EvCompleted string bool
  | EvDuplicateCall string
  | EvNotified tool_input string bool

datatype refusal =
    UnknownTool
  | PolicyDenied policy_error
  | ModeDenied
  | GlobDenied string
  | ManagerDenied
  | UserDenied "string option"
  | NoPromptAvailable
  | HookDenied string string
  | HookNoPrompt string
  | HookNotApproved string string
  | UpdatedGlobDenied string
  | UpdatedManagerDenied
  | UpdatedNoPrompt
  | UpdatedUserDenied

datatype exec_error = Refused refusal | Escaped

record registered_result =
  rr_run_id :: string
  rr_call_id :: string
  rr_tool :: string
  rr_original :: string
  rr_exposed :: string
  rr_is_error :: bool
  rr_truncated :: bool
  rr_completed_at :: int

record exec_state =
  xs_trace :: "exec_event list"
  xs_prompts :: nat
  xs_hook_context :: string
  xs_results :: "(string, registered_result) jsmap option"
  xs_working :: working_state
  xs_monitor :: "progress_monitor option"

type_synonym 'a exec = "exec_state \<Rightarrow> (exec_error + 'a) \<times> exec_state"

definition give :: "'a \<Rightarrow> 'a exec" where
  "give a s = (Inr a, s)"

definition stop :: "exec_error \<Rightarrow> 'a exec" where
  "stop e s = (Inl e, s)"

definition and_then :: "'a exec \<Rightarrow> ('a \<Rightarrow> 'b exec) \<Rightarrow> 'b exec" where
  "and_then m f s = (case m s of (Inl e, s') \<Rightarrow> (Inl e, s') | (Inr a, s') \<Rightarrow> f a s')"

definition add_event :: "exec_event \<Rightarrow> exec_state \<Rightarrow> exec_state" where
  "add_event ev s = s\<lparr>xs_trace := xs_trace s @ [ev]\<rparr>"

definition record_event :: "exec_event \<Rightarrow> unit exec" where
  "record_event ev s = (Inr (), add_event ev s)"

text \<open>A value the code computes and that may throw.\<close>

definition may_throw :: "'a option \<Rightarrow> 'a exec" where
  "may_throw x = (case x of None \<Rightarrow> stop Escaped | Some a \<Rightarrow> give a)"

section \<open>The texts of refusals\<close>

definition quoted :: "string \<Rightarrow> string" where
  "quoted t = [CHR 0x22] @ t @ [CHR 0x22]"

fun kind_text :: "task_kind \<Rightarrow> string" where
  "kind_text Informational = ''informational''"
| "kind_text Analysis = ''analysis''"
| "kind_text Mutation = ''mutation''"

fun policy_text :: "policy_error \<Rightarrow> string" where
  "policy_text (NotInPlanMode t) = ''Tool '' @ quoted t @
     '' is not available in plan mode. Only read-only tools are allowed. Output your plan as text.''"
| "policy_text (NotForReadOnlyTask t k) = ''Tool '' @ quoted t @ '' is not available for a read-only '' @
     kind_text k @ '' task. Explicitly request a workspace change to use write or execution tools.''"
| "policy_text (NotInExecutionProfile t) = ''Tool '' @ quoted t @
     '' is not available under the current execution profile. It was hidden to keep this turn lightweight - complete the task without it.''"
| "policy_text (NotForThisAgent t) = ''Tool '' @ quoted t @ '' is not available to this agent.''"

fun refusal_text :: "exec_env \<Rightarrow> string \<Rightarrow> refusal \<Rightarrow> string" where
  "refusal_text env tool UnknownTool = ''Unknown tool: '' @ tool"
| "refusal_text env tool (PolicyDenied e) = policy_text e"
| "refusal_text env tool ModeDenied =
     ''Permission mode '' @ [CHR 0x27] @ mode_name (xe_mode env) @ [CHR 0x27] @ '' denies '' @ tool"
| "refusal_text env tool (GlobDenied reason) = ''Permission rule denied: '' @ reason"
| "refusal_text env tool ManagerDenied = ''Permission denied for '' @ tool @ ''. Current mode: '' @
     xe_mode_text env (mg_mode (xe_manager env False))"
| "refusal_text env tool (UserDenied feedback) =
     (case feedback of
        None \<Rightarrow> ''Permission denied by user for '' @ tool @ ''.''
      | Some t \<Rightarrow> if t = [] then ''Permission denied by user for '' @ tool @ ''.''
          else ''Permission denied by user for '' @ tool @ ''. Feedback: '' @ t)"
| "refusal_text env tool NoPromptAvailable = ''Permission denied for '' @ tool @
     '': this action requires approval, but no permission prompt is available (non-interactive mode). Allow it via a permissions rule in .ovogo/settings.json, or run with a higher permission mode if you accept the risk.''"
| "refusal_text env tool (HookDenied hook reason) =
     ''Tool '' @ quoted tool @ '' denied by hook ('' @ hook @ ''): '' @ reason"
| "refusal_text env tool (HookNoPrompt hook) = ''Tool '' @ quoted tool @
     '' requires approval from hook ('' @ hook @ ''), but no permission prompt is available.''"
| "refusal_text env tool (HookNotApproved hook reason) =
     ''Tool '' @ quoted tool @ '' denied by hook ('' @ hook @ ''): '' @ reason"
| "refusal_text env tool (UpdatedGlobDenied reason) =
     ''Permission rule denied hook-updated input: '' @ reason"
| "refusal_text env tool UpdatedManagerDenied = ''Permission denied for hook-updated '' @ tool @ '' input.''"
| "refusal_text env tool UpdatedNoPrompt = ''Permission denied for hook-updated '' @ tool @
     '': approval is required, but no permission prompt is available.''"
| "refusal_text env tool UpdatedUserDenied =
     ''Permission denied by user for hook-updated '' @ tool @ ''.''"

section \<open>The permission layers\<close>

definition command_is_dangerous :: "string \<Rightarrow> tool_input \<Rightarrow> bool" where
  "command_is_dangerous tool input =
     (tool = ''Bash'' \<and>
      (case jm_get input ''command'' of Some (JStr c) \<Rightarrow> classify_command_risk c = RDangerous | _ \<Rightarrow> False))"

text \<open>\<open>requestPermissionSafe\<close>: a prompt that throws is a denial.\<close>

definition request_permission_safe ::
  "exec_env \<Rightarrow> string \<Rightarrow> tool_input \<Rightarrow> prompt_risk \<Rightarrow> prompt_answer exec" where
  "request_permission_safe env tool input risk s =
     (let answer = (case the (xe_prompt env) (xs_prompts s) tool input risk of
            Answered a \<Rightarrow> a
          | PromptThrows msg \<Rightarrow> \<lparr>pa_approved = False,
              pa_feedback = Some (''permission prompt failed: '' @ msg)\<rparr>)
      in (Inr answer, add_event (EvPrompt input risk (pa_approved answer)) (s\<lparr>xs_prompts := Suc (xs_prompts s)\<rparr>)))"

text \<open>A call that needs the user: refused without a prompt, and when the user does not approve.\<close>

definition need_user ::
  "exec_env \<Rightarrow> string \<Rightarrow> tool_input \<Rightarrow> prompt_risk \<Rightarrow> refusal \<Rightarrow> (string option \<Rightarrow> refusal) \<Rightarrow> unit exec" where
  "need_user env tool input risk no_prompt not_approved =
     (if xe_prompt env = None then stop (Refused no_prompt)
      else and_then (request_permission_safe env tool input risk) (\<lambda>a.
             if pa_approved a then give ()
             else stop (Refused (not_approved (map_option js_trim (pa_feedback a))))))"

text \<open>
  The manager's decision: deny refuses, allow goes on, ask needs the user. The three refusals differ
  between the first check and the check of an updated input.
\<close>

definition ask_manager ::
  "exec_env \<Rightarrow> bool \<Rightarrow> string \<Rightarrow> tool_input \<Rightarrow> refusal \<Rightarrow> refusal \<Rightarrow> (string option \<Rightarrow> refusal) \<Rightarrow> unit exec" where
  "ask_manager env late tool input denied no_prompt not_approved =
     (let dangerous = command_is_dangerous tool input
      in and_then (may_throw (check_permission (xe_manager env late) tool input dangerous)) (\<lambda>d.
           case d of
             DAllow \<Rightarrow> give ()
           | DDeny \<Rightarrow>
               and_then (record_event (EvDecision (if late then LayerHook else LayerManager) DDeny input))
                 (\<lambda>_. stop (Refused denied))
           | DAsk \<Rightarrow>
               and_then (if late then give () else record_event (EvDecision LayerManager DAsk input)) (\<lambda>_.
                 need_user env tool input (if dangerous then PromptDangerous else PromptNeedsApproval)
                   no_prompt not_approved)))"

text \<open>The first look: mode gate, glob rules, session approvals, then the manager.\<close>

definition check_mode_gate :: "exec_env \<Rightarrow> string \<Rightarrow> tool_input \<Rightarrow> mode_gate exec" where
  "check_mode_gate env tool input =
     (let gate = gate_by_permission_mode (xe_mode env) tool
      in case gate of
           GateDeny \<Rightarrow> and_then (record_event (EvDecision LayerModeGate DDeny input))
             (\<lambda>_. stop (Refused ModeDenied))
         | GateAllow \<Rightarrow> and_then (record_event (EvDecision LayerModeGate DAllow input)) (\<lambda>_. give gate)
         | GateCheck \<Rightarrow> give gate)"

definition check_permissions :: "exec_env \<Rightarrow> mode_gate \<Rightarrow> string \<Rightarrow> tool_input \<Rightarrow> unit exec" where
  "check_permissions env gate tool input =
     and_then (may_throw (evaluate_default_glob_rule tool input)) (\<lambda>glob.
       if pe_decision glob = DDeny
       then and_then (record_event (EvDecision LayerGlobEngine DDeny input))
              (\<lambda>_. stop (Refused (GlobDenied (pe_reason glob))))
       else and_then (if pe_decision glob = DAllow then record_event (EvDecision LayerGlobEngine DAllow input)
                      else give ()) (\<lambda>_.
         and_then (may_throw (is_approved (xe_approvals env False) tool (extract_primary_arg input)))
           (\<lambda>approved.
             if pe_decision glob = DAllow \<or> approved
             then (if approved then record_event (EvDecision LayerSession DAllow input) else give ())
             else if gate = GateAllow then give ()
             else ask_manager env False tool input ManagerDenied NoPromptAvailable UserDenied)))"

text \<open>The second look, at an input a hook has changed.\<close>

definition check_updated_input :: "exec_env \<Rightarrow> mode_gate \<Rightarrow> string \<Rightarrow> tool_input \<Rightarrow> unit exec" where
  "check_updated_input env gate tool input =
     and_then (may_throw (evaluate_default_glob_rule tool input)) (\<lambda>glob.
       if pe_decision glob = DDeny
       then and_then (record_event (EvDecision LayerHook DDeny input))
              (\<lambda>_. stop (Refused (UpdatedGlobDenied (pe_reason glob))))
       else and_then (may_throw (is_approved (xe_approvals env True) tool (extract_primary_arg input)))
         (\<lambda>approved.
           if pe_decision glob \<noteq> DAllow \<and> \<not> approved \<and> gate \<noteq> GateAllow
           then ask_manager env True tool input UpdatedManagerDenied UpdatedNoPrompt (\<lambda>_. UpdatedUserDenied)
           else give ()))"

section \<open>Hooks\<close>

definition hook_contexts :: "(string \<times> string option) list \<Rightarrow> (string \<times> string) list" where
  "hook_contexts outcomes =
     concat (map (\<lambda>(hook, c). map (\<lambda>t. (hook, t)) (non_empty c)) outcomes)"

text \<open>The texts of the hooks reach the context of the tool joined, and the message log one by one.\<close>

definition add_hook_contexts :: "(string \<times> string option) list \<Rightarrow> unit exec" where
  "add_hook_contexts outcomes s =
     (let found = hook_contexts outcomes
      in (Inr (),
          s\<lparr>xs_hook_context := xs_hook_context s @ join_with (new_line @ new_line) (map snd found),
            xs_trace := xs_trace s @ map (\<lambda>(hook, t). EvHookContext hook t) found\<rparr>))"

definition hook_ask :: "exec_env \<Rightarrow> string \<Rightarrow> tool_input \<Rightarrow> hook_outcome \<Rightarrow> unit exec" where
  "hook_ask env tool input ask =
     need_user env tool input PromptNeedsApproval (HookNoPrompt (ho_hook ask)) (\<lambda>feedback.
       HookNotApproved (ho_hook ask)
         (default_to (or_else feedback (ho_reason ask)) ''hook asked for approval''))"

definition apply_hook_outcomes ::
  "exec_env \<Rightarrow> mode_gate \<Rightarrow> string \<Rightarrow> tool_input \<Rightarrow> hook_outcome list \<Rightarrow> tool_input exec" where
  "apply_hook_outcomes env gate tool input outcomes =
     (case find (\<lambda>h. ho_decision h = DDeny) outcomes of
        Some deny \<Rightarrow> stop (Refused (HookDenied (ho_hook deny)
          (default_to (or_else (ho_reason deny) (ho_error deny)) (''Denied by hook '' @ ho_hook deny))))
      | None \<Rightarrow>
          and_then (case find (\<lambda>h. ho_decision h = DAsk) outcomes of
              None \<Rightarrow> give ()
            | Some ask \<Rightarrow> hook_ask env tool input ask) (\<lambda>_.
          and_then (case find (\<lambda>h. ho_updated h \<noteq> None) outcomes of
              None \<Rightarrow> give input
            | Some h \<Rightarrow> and_then (check_updated_input env gate tool (the (ho_updated h)))
                (\<lambda>_. give (the (ho_updated h)))) (\<lambda>final.
          and_then (add_hook_contexts (map (\<lambda>h. (ho_hook h, ho_context h)) outcomes)) (\<lambda>_. give final))))"

definition run_pre_hooks :: "exec_env \<Rightarrow> mode_gate \<Rightarrow> string \<Rightarrow> tool_input \<Rightarrow> tool_input exec" where
  "run_pre_hooks env gate tool input =
     (let legacy = (if xe_hook_runner env then record_event (EvLegacyHook input) else give ())
      in case (if xe_hook_runner env then xe_pre_hook env else None) of
           None \<Rightarrow> and_then legacy (\<lambda>_. give input)
         | Some hook \<Rightarrow>
             and_then (record_event (EvPreHook input)) (\<lambda>_.
               case hook tool input of
                 None \<Rightarrow> and_then legacy (\<lambda>_. give input)
               | Some outcomes \<Rightarrow> apply_hook_outcomes env gate tool input outcomes))"

section \<open>The whole call\<close>

definition authorized_input :: "exec_env \<Rightarrow> string \<Rightarrow> tool_input \<Rightarrow> tool_input exec" where
  "authorized_input env tool input =
     (if registry_get (xe_registry env) tool = None then stop (Refused UnknownTool)
      else (case check_execution_allowed (xe_agent env) (registry_get_all (xe_registry env)) tool
                   (xe_plan env) (xe_excluded env) (xe_kind env) of
              Some e \<Rightarrow> stop (Refused (PolicyDenied e))
            | None \<Rightarrow>
                and_then (check_mode_gate env tool input) (\<lambda>gate.
                and_then (check_permissions env gate tool input) (\<lambda>_.
                run_pre_hooks env gate tool input))))"

text \<open>
  \<open>finalize\<close>: one completion event, and the result registered under its call id unless the id is taken.
\<close>

definition finalize ::
  "exec_env \<Rightarrow> string \<Rightarrow> string \<Rightarrow> string \<Rightarrow> string \<Rightarrow> bool \<Rightarrow> exec_state \<Rightarrow> exec_state" where
  "finalize env call tool original exposed is_error s =
     (let s1 = add_event (EvCompleted exposed is_error) s
      in case xs_results s1 of
           None \<Rightarrow> s1
         | Some results \<Rightarrow>
             if call = [] then s1
             else if jm_has results call then add_event (EvDuplicateCall call) s1
             else s1\<lparr>xs_results := Some (jm_set call
                    \<lparr>rr_run_id = xe_run_id env, rr_call_id = call, rr_tool = tool, rr_original = original,
                     rr_exposed = exposed, rr_is_error = is_error, rr_truncated = (exposed \<noteq> original),
                     rr_completed_at = xe_clock env\<rparr> results)\<rparr>)"

definition expose :: "exec_env \<Rightarrow> string \<Rightarrow> string" where
  "expose env text = truncate_tool_result (xe_spill env text) text"

definition refuse :: "exec_env \<Rightarrow> string \<Rightarrow> string \<Rightarrow> refusal \<Rightarrow> exec_state \<Rightarrow> tool_result \<times> exec_state" where
  "refuse env call tool r s =
     (let text = refusal_text env tool r; shown = expose env text
      in (\<lparr>tr_content = shown, tr_is_error = True\<rparr>, finalize env call tool text shown True s))"

fun status_text :: "result_status \<Rightarrow> string" where
  "status_text StSuccess = ''success''"
| "status_text StFailed = ''failed''"
| "status_text StCancelled = ''cancelled''"
| "status_text StTimedOut = ''timed_out''"

definition text_field :: "string \<Rightarrow> tool_input \<Rightarrow> string option" where
  "text_field f input = (case jm_get input f of Some (JStr t) \<Rightarrow> Some t | _ \<Rightarrow> None)"

text \<open>What the working state learns: the fields of the result a structured tool has set, with its text.\<close>

definition tool_event_of :: "string \<Rightarrow> tool_input \<Rightarrow> any_result option \<Rightarrow> string \<Rightarrow> bool \<Rightarrow> tool_event" where
  "tool_event_of tool input raw shown is_error =
     \<lparr>te_tool = tool, te_file_path = text_field ''file_path'' input,
      te_command = text_field ''command'' input, te_is_error = Some is_error, te_content = Some shown,
      te_exit_code = (case raw of Some (Structured q) \<Rightarrow> sr_exit_code q | _ \<Rightarrow> None),
      te_status = (case raw of Some (Structured q) \<Rightarrow> Some (status_text (sr_status q)) | _ \<Rightarrow> None)\<rparr>"

definition run_post_hooks :: "exec_env \<Rightarrow> string \<Rightarrow> string \<Rightarrow> bool \<Rightarrow> exec_state \<Rightarrow> exec_state" where
  "run_post_hooks env tool shown is_error s =
     (if \<not> xe_hook_runner env then s
      else (case xe_post_hook env of
              None \<Rightarrow> add_event (EvLegacyPostHook shown is_error) s
            | Some hook \<Rightarrow>
                snd (add_hook_contexts (default_to (hook tool shown is_error) [])
                       (add_event (EvPostHook shown is_error) s))))"

definition call_tool :: "exec_env \<Rightarrow> string \<Rightarrow> tool_input \<Rightarrow> exec_state \<Rightarrow> tool_result \<times> exec_state" where
  "call_tool env tool input s =
     (let s1 = add_event (EvExecuted input) (add_event (EvStarted input) s)
      in case xe_run env tool input of
           ToolReturns r \<Rightarrow> (to_legacy r, s1)
         | ToolThrows msg \<Rightarrow>
             (\<lparr>tr_content = ''Tool execution error: '' @ msg, tr_is_error = True\<rparr>,
              if xe_hook_runner env then add_event (EvFailureHook msg) s1 else s1))"

definition run_tool ::
  "exec_env \<Rightarrow> string \<Rightarrow> string \<Rightarrow> tool_input \<Rightarrow> exec_state \<Rightarrow> tool_result \<times> exec_state" where
  "run_tool env call tool input s =
     (let raw = (case xe_run env tool input of ToolReturns r \<Rightarrow> Some r | ToolThrows _ \<Rightarrow> None);
          (result, s2) = call_tool env tool input s;
          shown = expose env (tr_content result);
          s3 = run_post_hooks env tool shown (tr_is_error result) s2;
          s4 = finalize env call tool (tr_content result) shown (tr_is_error result) s3;
          s5 = add_event (EvNotified input shown (tr_is_error result)) s4
      in (\<lparr>tr_content = shown, tr_is_error = tr_is_error result\<rparr>,
          s5\<lparr>xs_working := apply_tool_event (tool_event_of tool input raw shown (tr_is_error result))
                (xs_working s5),
             xs_monitor := map_option (record_tool_call tool (JObj input)
                \<lparr>to_is_error = tr_is_error result, to_content = shown\<rparr> None) (xs_monitor s5)\<rparr>))"

text \<open>\<open>execute\<close>; \<open>None\<close> is a promise that rejects.\<close>

definition execute_call ::
  "exec_env \<Rightarrow> string \<Rightarrow> string \<Rightarrow> tool_input \<Rightarrow> exec_state \<Rightarrow> tool_result option \<times> exec_state" where
  "execute_call env call tool input s =
     (case authorized_input env tool input s of
        (Inl Escaped, s') \<Rightarrow> (None, s')
      | (Inl (Refused r), s') \<Rightarrow> (let (result, s2) = refuse env call tool r s' in (Some result, s2))
      | (Inr final, s') \<Rightarrow> (let (result, s2) = run_tool env call tool final s' in (Some result, s2)))"

section \<open>Reasoning about effects\<close>

text \<open>Everything that happens before a tool runs.\<close>

fun before_run :: "exec_event \<Rightarrow> bool" where
  "before_run (EvDecision l d i) = True"
| "before_run (EvPrompt i r b) = True"
| "before_run (EvPreHook i) = True"
| "before_run (EvLegacyHook i) = True"
| "before_run (EvHookContext h t) = True"
| "before_run _ = False"

definition extends_by :: "exec_state \<Rightarrow> exec_event list \<Rightarrow> exec_state \<Rightarrow> bool" where
  "extends_by s es s' \<longleftrightarrow>
     xs_trace s' = xs_trace s @ es \<and> list_all before_run es \<and> xs_results s' = xs_results s \<and>
     xs_working s' = xs_working s \<and> xs_monitor s' = xs_monitor s"

lemma extends_by_trans: "extends_by s es t \<Longrightarrow> extends_by t es' u \<Longrightarrow> extends_by s (es @ es') u"
  by (simp add: extends_by_def)

text \<open>
  \<open>yields m Q\<close>: whatever the state, \<open>m\<close> adds only events of this kind, leaves the results, the
  working state and the monitor alone, and when it gives a value \<open>Q\<close> holds of it and the events.
\<close>

definition yields :: "'a exec \<Rightarrow> ('a \<Rightarrow> exec_event list \<Rightarrow> bool) \<Rightarrow> bool" where
  "yields m Q \<longleftrightarrow>
     (\<forall>s. \<exists>es. extends_by s es (snd (m s)) \<and> (case fst (m s) of Inl e \<Rightarrow> True | Inr a \<Rightarrow> Q a es))"

lemma yields_give: "Q a [] \<Longrightarrow> yields (give a) Q"
  by (auto simp: yields_def give_def extends_by_def)

lemma yields_stop: "yields (stop e) Q"
  by (auto simp: yields_def stop_def extends_by_def)

lemma yields_record: "before_run ev \<Longrightarrow> Q () [ev] \<Longrightarrow> yields (record_event ev) Q"
  by (auto simp: yields_def record_event_def add_event_def extends_by_def)

lemma yields_throw: "(\<And>a. x = Some a \<Longrightarrow> Q a []) \<Longrightarrow> yields (may_throw x) Q"
  by (auto simp: may_throw_def yields_give yields_stop split: option.splits)

lemma yields_then:
  assumes "yields m Q" and "\<And>a es. Q a es \<Longrightarrow> yields (f a) (\<lambda>b es'. R b (es @ es'))"
  shows "yields (and_then m f) R"
  unfolding yields_def
proof
  fix s
  obtain x s1 where m: "m s = (x, s1)" by fastforce
  with assms(1) obtain es where es: "extends_by s es s1" "case x of Inl e \<Rightarrow> True | Inr a \<Rightarrow> Q a es"
    unfolding yields_def by (metis fst_conv snd_conv)
  show "\<exists>es. extends_by s es (snd (and_then m f s)) \<and>
      (case fst (and_then m f s) of Inl e \<Rightarrow> True | Inr a \<Rightarrow> R a es)"
  proof (cases x)
    case (Inl e)
    with m es show ?thesis by (auto simp: and_then_def)
  next
    case (Inr a)
    with es(2) have "yields (f a) (\<lambda>b es'. R b (es @ es'))" by (intro assms(2)) simp
    then obtain es' where "extends_by s1 es' (snd (f a s1))"
        "case fst (f a s1) of Inl e \<Rightarrow> True | Inr b \<Rightarrow> R b (es @ es')"
      unfolding yields_def by blast
    with es(1) m Inr show ?thesis
      by (intro exI [of _ "es @ es'"]) (simp add: and_then_def extends_by_trans)
  qed
qed

lemma yields_mono: "yields m Q \<Longrightarrow> (\<And>a es. Q a es \<Longrightarrow> R a es) \<Longrightarrow> yields m R"
  unfolding yields_def
proof
  fix s
  assume "\<forall>s. \<exists>es. extends_by s es (snd (m s)) \<and> (case fst (m s) of Inl e \<Rightarrow> True | Inr a \<Rightarrow> Q a es)"
    and mono: "\<And>a es. Q a es \<Longrightarrow> R a es"
  then obtain es where "extends_by s es (snd (m s))" "case fst (m s) of Inl e \<Rightarrow> True | Inr a \<Rightarrow> Q a es"
    by blast
  then show "\<exists>es. extends_by s es (snd (m s)) \<and> (case fst (m s) of Inl e \<Rightarrow> True | Inr a \<Rightarrow> R a es)"
    by (intro exI [of _ es]) (cases "fst (m s)", simp_all add: mono)
qed

lemma yields_prompt:
  "(\<And>a. Q a [EvPrompt input risk (pa_approved a)]) \<Longrightarrow>
     yields (request_permission_safe env tool input risk) Q"
  by (auto simp: yields_def request_permission_safe_def add_event_def Let_def extends_by_def)

lemma yields_contexts: "(\<And>es. Q () es) \<Longrightarrow> yields (add_hook_contexts outcomes) Q"
  by (auto simp: yields_def add_hook_contexts_def Let_def list_all_iff extends_by_def)

section \<open>What lets a call run\<close>

text \<open>Some layer has let this very input pass, at the early or the late look.\<close>

definition agreed_to :: "exec_env \<Rightarrow> tool_input \<Rightarrow> exec_event list \<Rightarrow> bool" where
  "agreed_to env input es =
     (xe_prompt env \<noteq> None \<and>
      list_ex (\<lambda>ev. case ev of EvPrompt i r approved \<Rightarrow> i = input \<and> approved | _ \<Rightarrow> False) es)"

definition not_denied_by_rules :: "string \<Rightarrow> tool_input \<Rightarrow> bool" where
  "not_denied_by_rules tool input =
     (case evaluate_default_glob_rule tool input of None \<Rightarrow> False | Some g \<Rightarrow> pe_decision g \<noteq> DDeny)"

definition passes_without_user :: "exec_env \<Rightarrow> bool \<Rightarrow> string \<Rightarrow> tool_input \<Rightarrow> bool" where
  "passes_without_user env late tool input \<longleftrightarrow>
     map_option pe_decision (evaluate_default_glob_rule tool input) = Some DAllow \<or>
     is_approved (xe_approvals env late) tool (extract_primary_arg input) = Some True \<or>
     gate_by_permission_mode (xe_mode env) tool = GateAllow \<or>
     check_permission (xe_manager env late) tool input (command_is_dangerous tool input) = Some DAllow"

definition cleared :: "exec_env \<Rightarrow> bool \<Rightarrow> string \<Rightarrow> tool_input \<Rightarrow> exec_event list \<Rightarrow> bool" where
  "cleared env late tool input es \<longleftrightarrow>
     not_denied_by_rules tool input \<and> (passes_without_user env late tool input \<or> agreed_to env input es)"

lemma agreed_append: "agreed_to env input es \<or> agreed_to env input es' \<Longrightarrow> agreed_to env input (es @ es')"
  by (auto simp: agreed_to_def)

lemma cleared_append: "cleared env late tool input es \<Longrightarrow> cleared env late tool input (es @ es')"
  by (auto simp: cleared_def intro: agreed_append)

lemma cleared_prepend: "cleared env late tool input es' \<Longrightarrow> cleared env late tool input (es @ es')"
  by (auto simp: cleared_def intro: agreed_append)

lemma agreed_prompt:
  "xe_prompt env \<noteq> None \<Longrightarrow> approved \<Longrightarrow> EvPrompt input risk approved \<in> set es \<Longrightarrow> agreed_to env input es"
  by (force simp: agreed_to_def list_ex_iff)

lemma need_user_yields:
  "yields (need_user env tool input risk r2 r3) (\<lambda>_. agreed_to env input)"
proof (cases "xe_prompt env = None")
  case True
  then show ?thesis by (simp add: need_user_def yields_stop)
next
  case False
  have "yields (and_then (request_permission_safe env tool input risk)
      (\<lambda>a. if pa_approved a then give () else stop (Refused (r3 (map_option js_trim (pa_feedback a))))))
      (\<lambda>_. agreed_to env input)"
  proof (rule yields_then [OF yields_prompt [where Q = "\<lambda>a es. es = [EvPrompt input risk (pa_approved a)]"]])
    fix a :: prompt_answer and es
    assume "es = [EvPrompt input risk (pa_approved a)]"
    with False show "yields (if pa_approved a then give () else stop (Refused (r3 (map_option js_trim (pa_feedback a)))))
        (\<lambda>b es'. agreed_to env input (es @ es'))"
      by (cases "pa_approved a") (simp_all add: yields_stop yields_give agreed_prompt)
  qed (rule refl)
  with False show ?thesis by (simp add: need_user_def yields_stop)
qed

lemma yields_then_any:
  "yields m (\<lambda>_ _. True) \<Longrightarrow> (\<And>a es. yields (f a) (\<lambda>b es'. R b (es @ es'))) \<Longrightarrow> yields (and_then m f) R"
  by (rule yields_then)

lemma yields_refusal: "before_run ev \<Longrightarrow> yields (and_then (record_event ev) (\<lambda>_. stop e)) R"
  by (rule yields_then_any) (simp_all add: yields_record yields_stop)

definition manager_passes :: "exec_env \<Rightarrow> bool \<Rightarrow> string \<Rightarrow> tool_input \<Rightarrow> exec_event list \<Rightarrow> bool" where
  "manager_passes env late tool input es \<longleftrightarrow>
     check_permission (xe_manager env late) tool input (command_is_dangerous tool input) = Some DAllow \<or>
     agreed_to env input es"

lemma ask_manager_yields:
  "yields (ask_manager env late tool input r1 r2 r3) (\<lambda>_. manager_passes env late tool input)"
  unfolding ask_manager_def Let_def
proof (rule yields_then [OF yields_throw])
  fix d and es :: "exec_event list"
  let ?user = "need_user env tool input
    (if command_is_dangerous tool input then PromptDangerous else PromptNeedsApproval) r2 r3"
  let ?first = "if late then give () else record_event (EvDecision LayerManager DAsk input)"
  have first: "yields ?first (\<lambda>_ _. True)" by (simp add: yields_give yields_record)
  have user: "yields (and_then ?first (\<lambda>_. ?user)) (\<lambda>_ es'. manager_passes env late tool input (es @ es'))"
    by (rule yields_then_any [OF first], rule yields_mono [OF need_user_yields])
      (simp add: manager_passes_def agreed_append)
  assume "check_permission (xe_manager env late) tool input (command_is_dangerous tool input) = Some d"
  then show "yields (case d of DAllow \<Rightarrow> give () | DAsk \<Rightarrow> and_then ?first (\<lambda>_. ?user)
      | DDeny \<Rightarrow> and_then (record_event (EvDecision (if late then LayerHook else LayerManager) DDeny input))
          (\<lambda>_. stop (Refused r1)))
      (\<lambda>b es'. manager_passes env late tool input (es @ es'))"
  proof (cases d)
    case DAsk
    show ?thesis unfolding DAsk permission.case by (rule user)
  qed (simp_all add: yields_give yields_refusal manager_passes_def)
qed

lemma cleared_iff:
  "evaluate_default_glob_rule tool input = Some g \<Longrightarrow> pe_decision g \<noteq> DDeny \<Longrightarrow>
     cleared env late tool input es \<longleftrightarrow>
       pe_decision g = DAllow \<or> is_approved (xe_approvals env late) tool (extract_primary_arg input) = Some True \<or>
       gate_by_permission_mode (xe_mode env) tool = GateAllow \<or> manager_passes env late tool input es"
  by (auto simp: cleared_def not_denied_by_rules_def passes_without_user_def manager_passes_def)

abbreviation gate_of :: "exec_env \<Rightarrow> string \<Rightarrow> mode_gate" where
  "gate_of env tool \<equiv> gate_by_permission_mode (xe_mode env) tool"

lemma check_permissions_yields:
  "yields (check_permissions env (gate_of env tool) tool input) (\<lambda>_. cleared env False tool input)"
  unfolding check_permissions_def
proof (rule yields_then [OF yields_throw [where Q = "\<lambda>g es. evaluate_default_glob_rule tool input = Some g"]])
  fix g and es :: "exec_event list"
  assume g: "evaluate_default_glob_rule tool input = Some g"
  let ?arg = "extract_primary_arg input"
  let ?choose = "\<lambda>approved. if pe_decision g = DAllow \<or> approved
    then (if approved then record_event (EvDecision LayerSession DAllow input) else give ())
    else if gate_of env tool = GateAllow then give ()
    else ask_manager env False tool input ManagerDenied NoPromptAvailable UserDenied"
  let ?first = "if pe_decision g = DAllow then record_event (EvDecision LayerGlobEngine DAllow input) else give ()"
  have choose: "yields (?choose approved) (\<lambda>_ es'. cleared env False tool input (es @ es1 @ es2 @ es'))"
    if nd: "pe_decision g \<noteq> DDeny" and a: "is_approved (xe_approvals env False) tool ?arg = Some approved"
    for approved es1 es2
    using a ask_manager_yields [of env False tool input ManagerDenied NoPromptAvailable UserDenied]
    by (auto intro!: yields_record yields_give elim!: yields_mono simp: cleared_iff [OF g nd]
        manager_passes_def agreed_append)
  have rest: "yields (and_then ?first (\<lambda>_. and_then (may_throw (is_approved (xe_approvals env False) tool ?arg)) ?choose))
      (\<lambda>_ es'. cleared env False tool input (es @ es'))" if nd: "pe_decision g \<noteq> DDeny"
    by (rule yields_then_any, simp add: yields_record yields_give,
        rule yields_then [OF yields_throw [where Q = "\<lambda>a es. is_approved (xe_approvals env False) tool ?arg = Some a"]],
        assumption, rule choose [OF nd])
  show "yields (if pe_decision g = DDeny
      then and_then (record_event (EvDecision LayerGlobEngine DDeny input)) (\<lambda>_. stop (Refused (GlobDenied (pe_reason g))))
      else and_then ?first (\<lambda>_. and_then (may_throw (is_approved (xe_approvals env False) tool ?arg)) ?choose))
      (\<lambda>_ es'. cleared env False tool input (es @ es'))"
    using rest by (cases "pe_decision g = DDeny") (simp_all only: if_True if_False simp_thms yields_refusal before_run.simps)
qed

lemma check_updated_input_yields:
  "yields (check_updated_input env (gate_of env tool) tool input) (\<lambda>_. cleared env True tool input)"
  unfolding check_updated_input_def
proof (rule yields_then [OF yields_throw [where Q = "\<lambda>g es. evaluate_default_glob_rule tool input = Some g"]])
  fix g and es :: "exec_event list"
  assume g: "evaluate_default_glob_rule tool input = Some g"
  let ?arg = "extract_primary_arg input"
  let ?choose = "\<lambda>approved. if pe_decision g \<noteq> DAllow \<and> \<not> approved \<and> gate_of env tool \<noteq> GateAllow
    then ask_manager env True tool input UpdatedManagerDenied UpdatedNoPrompt (\<lambda>_. UpdatedUserDenied)
    else give ()"
  have choose: "yields (?choose approved) (\<lambda>_ es'. cleared env True tool input (es @ es1 @ es'))"
    if nd: "pe_decision g \<noteq> DDeny" and a: "is_approved (xe_approvals env True) tool ?arg = Some approved"
    for approved es1
    using a ask_manager_yields [of env True tool input UpdatedManagerDenied UpdatedNoPrompt "\<lambda>_. UpdatedUserDenied"]
    by (auto intro!: yields_give elim!: yields_mono simp: cleared_iff [OF g nd] manager_passes_def agreed_append)
  have rest: "yields (and_then (may_throw (is_approved (xe_approvals env True) tool ?arg)) ?choose)
      (\<lambda>_ es'. cleared env True tool input (es @ es'))" if nd: "pe_decision g \<noteq> DDeny"
    by (rule yields_then [OF yields_throw [where Q = "\<lambda>a es. is_approved (xe_approvals env True) tool ?arg = Some a"]],
        assumption, rule choose [OF nd])
  show "yields (if pe_decision g = DDeny
      then and_then (record_event (EvDecision LayerHook DDeny input)) (\<lambda>_. stop (Refused (UpdatedGlobDenied (pe_reason g))))
      else and_then (may_throw (is_approved (xe_approvals env True) tool ?arg)) ?choose)
      (\<lambda>_ es'. cleared env True tool input (es @ es'))"
    using rest by (cases "pe_decision g = DDeny") (simp_all only: if_True if_False simp_thms yields_refusal before_run.simps)
qed

section \<open>Hooks and the input that runs\<close>

definition hook_answers :: "exec_env \<Rightarrow> string \<Rightarrow> tool_input \<Rightarrow> hook_outcome list" where
  "hook_answers env tool input =
     (if \<not> xe_hook_runner env then []
      else (case xe_pre_hook env of None \<Rightarrow> [] | Some hook \<Rightarrow> default_to (hook tool input) []))"

definition changed_input :: "exec_env \<Rightarrow> string \<Rightarrow> tool_input \<Rightarrow> tool_input option" where
  "changed_input env tool input =
     (case find (\<lambda>h. ho_updated h \<noteq> None) (hook_answers env tool input) of
        None \<Rightarrow> None
      | Some h \<Rightarrow> ho_updated h)"

definition hooks_agree :: "exec_env \<Rightarrow> string \<Rightarrow> tool_input \<Rightarrow> exec_event list \<Rightarrow> bool" where
  "hooks_agree env tool input es \<longleftrightarrow>
     list_all (\<lambda>h. ho_decision h \<noteq> DDeny) (hook_answers env tool input) \<and>
     (list_ex (\<lambda>h. ho_decision h = DAsk) (hook_answers env tool input) \<longrightarrow> agreed_to env input es)"

definition late_clearance :: "exec_env \<Rightarrow> string \<Rightarrow> tool_input \<Rightarrow> exec_event list \<Rightarrow> bool" where
  "late_clearance env tool input es \<longleftrightarrow>
     (case changed_input env tool input of None \<Rightarrow> True | Some inp \<Rightarrow> cleared env True tool inp es)"

definition hooks_done :: "exec_env \<Rightarrow> string \<Rightarrow> tool_input \<Rightarrow> tool_input \<Rightarrow> exec_event list \<Rightarrow> bool" where
  "hooks_done env tool input final es \<longleftrightarrow>
     final = default_to (changed_input env tool input) input \<and> hooks_agree env tool input es \<and>
     late_clearance env tool input es"

lemma find_None_all: "find P xs = None \<longleftrightarrow> list_all (\<lambda>x. \<not> P x) xs"
  by (auto simp: find_None_iff list_all_iff)

lemma apply_hook_outcomes_yields:
  assumes os: "hook_answers env tool input = os"
  shows "yields (apply_hook_outcomes env (gate_of env tool) tool input os) (hooks_done env tool input)"
proof (cases "find (\<lambda>h. ho_decision h = DDeny) os")
  case (Some deny)
  then show ?thesis by (simp add: apply_hook_outcomes_def yields_stop)
next
  case None
  let ?ask = "case find (\<lambda>h. ho_decision h = DAsk) os of None \<Rightarrow> give () | Some ask \<Rightarrow> hook_ask env tool input ask"
  let ?agree = "\<lambda>es. list_ex (\<lambda>h. ho_decision h = DAsk) os \<longrightarrow> agreed_to env input es"
  let ?update = "case find (\<lambda>h. ho_updated h \<noteq> None) os of None \<Rightarrow> give input
    | Some h \<Rightarrow> and_then (check_updated_input env (gate_of env tool) tool (the (ho_updated h)))
        (\<lambda>_. give (the (ho_updated h)))"
  let ?updated = "\<lambda>final es. final = default_to (changed_input env tool input) input \<and>
    late_clearance env tool input es"
  have ask: "yields ?ask (\<lambda>_ es. ?agree es)"
  proof (cases "find (\<lambda>h. ho_decision h = DAsk) os")
    case None
    then have "\<not> list_ex (\<lambda>h. ho_decision h = DAsk) os"
      by (simp add: find_None_all list_all_iff list_ex_iff)
    with None show ?thesis by (simp add: yields_give)
  next
    case (Some a)
    then show ?thesis by (auto simp: hook_ask_def intro: yields_mono [OF need_user_yields])
  qed
  have update: "yields ?update ?updated"
  proof (cases "find (\<lambda>h. ho_updated h \<noteq> None) os")
    case None
    then show ?thesis by (simp add: changed_input_def late_clearance_def os yields_give)
  next
    case (Some h)
    then obtain inp where inp: "ho_updated h = Some inp" by (auto simp: find_Some_iff)
    have "changed_input env tool input = Some inp" unfolding changed_input_def os Some by (simp add: inp)
    then have "yields (and_then (check_updated_input env (gate_of env tool) tool inp) (\<lambda>_. give inp)) ?updated"
      by (intro yields_then [OF check_updated_input_yields] yields_give)
        (simp add: late_clearance_def)
    then show ?thesis unfolding Some option.case inp option.sel .
  qed
  have late_append: "late_clearance env tool input es \<Longrightarrow> late_clearance env tool input (es0 @ es @ es1)" for es0 es es1
    by (auto simp: late_clearance_def intro: cleared_append cleared_prepend split: option.splits)
  have "yields (and_then ?ask (\<lambda>_. and_then ?update (\<lambda>final.
      and_then (add_hook_contexts (map (\<lambda>h. (ho_hook h, ho_context h)) os)) (\<lambda>_. give final))))
      (hooks_done env tool input)"
  proof (rule yields_then [OF ask], rule yields_then [OF update], rule yields_then_any [OF yields_contexts],
      simp, rule yields_give)
    fix final and es0 es es1 :: "exec_event list"
    assume "?agree es0" "?updated final es"
    with None show "hooks_done env tool input final (es0 @ es @ es1 @ [])"
      by (auto simp: hooks_done_def hooks_agree_def os find_None_all intro: late_append agreed_append)
  qed
  with None show ?thesis by (simp add: apply_hook_outcomes_def)
qed

lemma run_pre_hooks_yields:
  "yields (run_pre_hooks env (gate_of env tool) tool input) (hooks_done env tool input)"
proof -
  let ?legacy = "if xe_hook_runner env then record_event (EvLegacyHook input) else give ()"
  have legacy: "yields ?legacy (\<lambda>_ _. True)" by (simp add: yields_record yields_give)
  have skip: "yields (and_then ?legacy (\<lambda>_. give input)) (\<lambda>final es. hooks_done env tool input final (es0 @ es))"
    if "hook_answers env tool input = []" for es0
    by (rule yields_then_any [OF legacy], rule yields_give)
      (simp add: hooks_done_def hooks_agree_def late_clearance_def changed_input_def that)
  show ?thesis
  proof (cases "if xe_hook_runner env then xe_pre_hook env else None")
    case None
    then have "hook_answers env tool input = []" by (simp add: hook_answers_def split: if_splits)
    from skip [OF this, of "[]"] None show ?thesis by (simp add: run_pre_hooks_def Let_def)
  next
    case (Some hook)
    then have runner: "xe_hook_runner env" "xe_pre_hook env = Some hook" by (simp_all split: if_splits)
    have "yields (case hook tool input of None \<Rightarrow> and_then ?legacy (\<lambda>_. give input)
        | Some outcomes \<Rightarrow> apply_hook_outcomes env (gate_of env tool) tool input outcomes)
        (\<lambda>final es. hooks_done env tool input final ([EvPreHook input] @ es))"
    proof (cases "hook tool input")
      case None
      then have "hook_answers env tool input = []" using runner by (simp add: hook_answers_def)
      from skip [OF this, of "[EvPreHook input]"] None show ?thesis by simp
    next
      case (Some os)
      then have "hook_answers env tool input = os" using runner by (simp add: hook_answers_def)
      from apply_hook_outcomes_yields [OF this]
      have "yields (apply_hook_outcomes env (gate_of env tool) tool input os)
          (\<lambda>final es. hooks_done env tool input final ([EvPreHook input] @ es))"
        by (rule yields_mono)
          (auto simp: hooks_done_def hooks_agree_def late_clearance_def agreed_to_def cleared_def split: option.splits)
      with Some show ?thesis by simp
    qed
    then show ?thesis unfolding run_pre_hooks_def Let_def Some option.case
      by (intro yields_then [OF yields_record [where Q = "\<lambda>_ es. es = [EvPreHook input]"]]) simp_all
  qed
qed

text \<open>All that was checked when an input is authorized.\<close>

definition authorized :: "exec_env \<Rightarrow> string \<Rightarrow> tool_input \<Rightarrow> tool_input \<Rightarrow> exec_event list \<Rightarrow> bool" where
  "authorized env tool input final es \<longleftrightarrow>
     registry_get (xe_registry env) tool \<noteq> None \<and>
     check_execution_allowed (xe_agent env) (registry_get_all (xe_registry env)) tool
       (xe_plan env) (xe_excluded env) (xe_kind env) = None \<and>
     cleared env False tool input es \<and> hooks_done env tool input final es"

lemma hooks_done_prepend: "hooks_done env tool input final es \<Longrightarrow> hooks_done env tool input final (es0 @ es)"
  by (auto simp: hooks_done_def hooks_agree_def late_clearance_def intro: agreed_append cleared_prepend
      split: option.splits)

lemma check_mode_gate_yields: "yields (check_mode_gate env tool input) (\<lambda>gate _. gate = gate_of env tool)"
proof (cases "gate_of env tool")
  case GateAllow
  have "yields (and_then (record_event (EvDecision LayerModeGate DAllow input)) (\<lambda>_. give GateAllow))
      (\<lambda>gate _. gate = GateAllow)"
    by (rule yields_then_any) (simp_all add: yields_record yields_give)
  with GateAllow show ?thesis by (simp add: check_mode_gate_def)
qed (simp_all add: check_mode_gate_def yields_refusal yields_give)

lemma authorized_input_yields: "yields (authorized_input env tool input) (authorized env tool input)"
proof -
  have "yields (and_then (check_mode_gate env tool input) (\<lambda>gate.
      and_then (check_permissions env gate tool input) (\<lambda>_. run_pre_hooks env gate tool input)))
      (\<lambda>final es. cleared env False tool input es \<and> hooks_done env tool input final es)"
  proof (rule yields_then [OF check_mode_gate_yields], clarify)
    fix es0 :: "exec_event list"
    show "yields (and_then (check_permissions env (gate_of env tool) tool input)
        (\<lambda>_. run_pre_hooks env (gate_of env tool) tool input))
        (\<lambda>final es. cleared env False tool input (es0 @ es) \<and> hooks_done env tool input final (es0 @ es))"
      by (rule yields_then [OF check_permissions_yields], rule yields_mono [OF run_pre_hooks_yields])
        (simp add: cleared_append cleared_prepend hooks_done_prepend)
  qed
  then show ?thesis
    by (auto simp: authorized_input_def authorized_def yields_stop elim: yields_mono split: option.splits)
qed

section \<open>The whole call\<close>

definition new_events :: "exec_state \<Rightarrow> exec_state \<Rightarrow> exec_event list" where
  "new_events s s' = drop (length (xs_trace s)) (xs_trace s')"

fun after_run :: "exec_event \<Rightarrow> bool" where
  "after_run (EvHookContext h t) = True"
| "after_run (EvFailureHook m) = True"
| "after_run (EvPostHook t b) = True"
| "after_run (EvLegacyPostHook t b) = True"
| "after_run (EvDuplicateCall c) = True"
| "after_run (EvNotified i t b) = True"
| "after_run _ = False"

lemma authorized_input_cases:
  obtains (refused) r es s' where "authorized_input env tool input s = (Inl (Refused r), s')" "extends_by s es s'"
  | (escaped) es s' where "authorized_input env tool input s = (Inl Escaped, s')" "extends_by s es s'"
  | (runs) final es s' where "authorized_input env tool input s = (Inr final, s')" "extends_by s es s'"
      "authorized env tool input final es"
proof -
  obtain x s' where run: "authorized_input env tool input s = (x, s')" by fastforce
  from authorized_input_yields [of env tool input] obtain es where es:
    "extends_by s es s'" "case x of Inl e \<Rightarrow> True | Inr a \<Rightarrow> authorized env tool input a es"
    unfolding yields_def by (metis fst_conv snd_conv run)
  show ?thesis
  proof (cases x)
    case (Inl e)
    with run es(1) that(1,2) show ?thesis by (cases e) auto
  next
    case (Inr a)
    with run es that(3) show ?thesis by auto
  qed
qed

lemma finalize_events:
  "\<exists>es. xs_trace (finalize env call tool orig shown err s) = xs_trace s @ EvCompleted shown err # es \<and>
     list_all after_run es"
  by (auto simp: finalize_def add_event_def Let_def split: option.splits)

lemma finalize_keeps:
  "xs_working (finalize env call tool orig shown err s) = xs_working s"
  "xs_monitor (finalize env call tool orig shown err s) = xs_monitor s"
  by (auto simp: finalize_def add_event_def Let_def split: option.splits)

lemma post_hook_events:
  "\<exists>es. xs_trace (run_post_hooks env tool shown err s) = xs_trace s @ es \<and> list_all after_run es"
  "xs_results (run_post_hooks env tool shown err s) = xs_results s"
  by (auto simp: run_post_hooks_def add_hook_contexts_def add_event_def Let_def list_all_iff split: option.splits)

lemma call_tool_events:
  "\<exists>es. xs_trace (snd (call_tool env tool input s)) = xs_trace s @ EvStarted input # EvExecuted input # es \<and>
     list_all after_run es"
  by (auto simp: call_tool_def add_event_def Let_def split: run_outcome.splits)

lemma run_tool_events:
  "\<exists>es1 es2 shown err. xs_trace (snd (run_tool env call tool input s)) =
       xs_trace s @ EvStarted input # EvExecuted input # es1 @ EvCompleted shown err # es2 \<and>
     list_all after_run es1 \<and> list_all after_run es2 \<and>
     fst (run_tool env call tool input s) = \<lparr>tr_content = shown, tr_is_error = err\<rparr>"
proof -
  obtain result s2 where r: "call_tool env tool input s = (result, s2)" by fastforce
  with call_tool_events [of env tool input s] obtain es0 where
    s2: "xs_trace s2 = xs_trace s @ EvStarted input # EvExecuted input # es0" "list_all after_run es0"
    by auto
  let ?shown = "expose env (tr_content result)" and ?err = "tr_is_error result"
  obtain es1 where s3: "xs_trace (run_post_hooks env tool ?shown ?err s2) = xs_trace s2 @ es1" "list_all after_run es1"
    using post_hook_events(1) by blast
  obtain es2 where s4: "xs_trace (finalize env call tool (tr_content result) ?shown ?err
        (run_post_hooks env tool ?shown ?err s2)) =
      xs_trace (run_post_hooks env tool ?shown ?err s2) @ EvCompleted ?shown ?err # es2" "list_all after_run es2"
    using finalize_events by blast
  have "xs_trace (snd (run_tool env call tool input s)) = xs_trace s @ EvStarted input # EvExecuted input #
      (es0 @ es1) @ EvCompleted ?shown ?err # (es2 @ [EvNotified input ?shown ?err])"
    using s2 s3 s4 by (simp add: run_tool_def r add_event_def Let_def)
  moreover have "fst (run_tool env call tool input s) = \<lparr>tr_content = ?shown, tr_is_error = ?err\<rparr>"
    by (simp add: run_tool_def r Let_def)
  ultimately show ?thesis using s2(2) s3(2) s4(2)
    by (intro exI [of _ "es0 @ es1"] exI [of _ "es2 @ [EvNotified input ?shown ?err]"] exI [of _ ?shown]
        exI [of _ ?err]) simp
qed

lemma hooks_done_append: "hooks_done env tool input final es \<Longrightarrow> hooks_done env tool input final (es @ es1)"
  by (auto simp: hooks_done_def hooks_agree_def late_clearance_def intro: agreed_append cleared_append
      split: option.splits)

lemma authorized_append: "authorized env tool input final es \<Longrightarrow> authorized env tool input final (es @ es1)"
  by (auto simp: authorized_def intro: cleared_append hooks_done_append)

text \<open>The three ways a call goes.\<close>

lemma execute_call_cases:
  assumes "execute_call env call tool input s = (out, s')"
  obtains (escaped) "out = None" "list_all before_run (new_events s s')" "xs_results s' = xs_results s"
      "xs_working s' = xs_working s" "xs_monitor s' = xs_monitor s"
  | (refused) r es shown es2 t where "out = Some \<lparr>tr_content = shown, tr_is_error = True\<rparr>"
      "new_events s s' = es @ EvCompleted shown True # es2" "list_all before_run es" "list_all after_run es2"
      "s' = finalize env call tool (refusal_text env tool r) shown True t" "extends_by s es t"
  | (ran) final es es1 shown err es2 t where "out = Some \<lparr>tr_content = shown, tr_is_error = err\<rparr>"
      "new_events s s' = es @ EvStarted final # EvExecuted final # es1 @ EvCompleted shown err # es2"
      "list_all before_run es" "list_all after_run es1" "list_all after_run es2"
      "authorized env tool input final es" "s' = snd (run_tool env call tool final t)" "extends_by s es t"
      "out = Some (fst (run_tool env call tool final t))"
proof (cases rule: authorized_input_cases [of env tool input s])
  case (refused r es t)
  let ?text = "refusal_text env tool r"
  obtain es2 where "xs_trace (finalize env call tool ?text (expose env ?text) True t) =
      xs_trace t @ EvCompleted (expose env ?text) True # es2" "list_all after_run es2"
    using finalize_events by blast
  with refused assms show ?thesis
    by (intro that(2) [of "expose env ?text" es es2 r t])
      (simp_all add: execute_call_def refuse_def Let_def new_events_def extends_by_def)
next
  case (escaped es t)
  with assms show ?thesis
    by (intro that(1)) (simp_all add: execute_call_def new_events_def extends_by_def)
next
  case (runs final es t)
  obtain es1 es2 shown err where "xs_trace (snd (run_tool env call tool final t)) =
       xs_trace t @ EvStarted final # EvExecuted final # es1 @ EvCompleted shown err # es2"
     "list_all after_run es1" "list_all after_run es2"
     "fst (run_tool env call tool final t) = \<lparr>tr_content = shown, tr_is_error = err\<rparr>"
    using run_tool_events by blast
  with runs assms show ?thesis
    by (intro that(3) [of shown err es final es1 es2 t])
      (auto simp: execute_call_def Let_def new_events_def extends_by_def split: prod.splits)
qed

lemma before_run_no_execution: "list_all before_run es \<Longrightarrow> EvExecuted inp \<notin> set es"
  by (auto simp: list_all_iff)

lemma after_run_no_execution: "list_all after_run es \<Longrightarrow> EvExecuted inp \<notin> set es"
  by (auto simp: list_all_iff)

lemma authorized_not_denied:
  "authorized env tool input final es \<Longrightarrow> not_denied_by_rules tool final"
  by (auto simp: authorized_def hooks_done_def late_clearance_def cleared_def default_to_def split: option.splits)

text \<open>
  (C1) An input reaches a tool only if it is the input of the call, or the change of it that the first
  updating hook asked for, the tool is registered and its use allowed by the policy, the original input
  passed the rules and one of mode gate, session approval, manager or user, no hook denied the call and
  the user approved where a hook asked, and a changed input passed the rules and one of the same layers
  again. A denial by the built-in rules holds in every mode.
\<close>

theorem only_authorized_inputs_run:
  "execute_call env call tool input s = (out, s') \<Longrightarrow> EvExecuted final \<in> set (new_events s s') \<Longrightarrow>
     authorized env tool input final (new_events s s') \<and> not_denied_by_rules tool final"
proof -
  assume run: "execute_call env call tool input s = (out, s')"
    and ev: "EvExecuted final \<in> set (new_events s s')"
  from run show ?thesis
  proof (cases rule: execute_call_cases)
    case escaped
    with ev show ?thesis by (simp add: before_run_no_execution)
  next
    case (refused r es shown es2 t)
    with ev show ?thesis by (simp add: before_run_no_execution after_run_no_execution)
  next
    case (ran inp es es1 shown err es2 t)
    with ev have "final = inp" by (simp add: before_run_no_execution after_run_no_execution)
    with ran show ?thesis by (simp add: authorized_append authorized_not_denied)
  qed
qed

text \<open>
  Without a permission prompt nothing runs that needs an approval: what runs is allowed by a
  built-in rule, a session approval, the mode gate or the manager, and no hook asked about the call.
\<close>

theorem headless_fails_closed:
  "execute_call env call tool input s = (out, s') \<Longrightarrow> xe_prompt env = None \<Longrightarrow>
     EvExecuted final \<in> set (new_events s s') \<Longrightarrow>
     passes_without_user env False tool input \<and>
     passes_without_user env (changed_input env tool input \<noteq> None) tool final \<and>
     list_all (\<lambda>h. ho_decision h = DAllow) (hook_answers env tool input)"
proof -
  assume "execute_call env call tool input s = (out, s')" "EvExecuted final \<in> set (new_events s s')"
    and headless: "xe_prompt env = None"
  then have auth: "authorized env tool input final (new_events s s')"
    using only_authorized_inputs_run by blast
  have no_user: "\<not> agreed_to env i es" for i es using headless by (simp add: agreed_to_def)
  from auth no_user have first: "passes_without_user env False tool input"
    by (simp add: authorized_def cleared_def)
  have "passes_without_user env (changed_input env tool input \<noteq> None) tool final"
  proof (cases "changed_input env tool input")
    case None
    with auth first show ?thesis by (simp add: authorized_def hooks_done_def)
  next
    case (Some inp)
    with auth no_user show ?thesis
      by (simp add: authorized_def hooks_done_def late_clearance_def cleared_def)
  qed
  moreover have "list_all (\<lambda>h. ho_decision h = DAllow) (hook_answers env tool input)"
  proof -
    have "d = DAllow" if "d \<noteq> DDeny" "d \<noteq> DAsk" for d using that by (cases d) simp_all
    with auth no_user show ?thesis
      by (fastforce simp: authorized_def hooks_done_def hooks_agree_def list_all_iff list_ex_iff)
  qed
  ultimately show ?thesis using first by blast
qed

definition completions :: "exec_event list \<Rightarrow> (string \<times> bool) list" where
  "completions es = concat (map (\<lambda>ev. case ev of EvCompleted t b \<Rightarrow> [(t, b)] | _ \<Rightarrow> []) es)"

definition executions :: "exec_event list \<Rightarrow> tool_input list" where
  "executions es = concat (map (\<lambda>ev. case ev of EvExecuted i \<Rightarrow> [i] | _ \<Rightarrow> []) es)"

lemma quiet_before: "list_all before_run es \<Longrightarrow> completions es = [] \<and> executions es = []"
  by (induction es) (auto simp: completions_def executions_def split: exec_event.splits)

lemma quiet_after: "list_all after_run es \<Longrightarrow> completions es = [] \<and> executions es = []"
  by (induction es) (auto simp: completions_def executions_def split: exec_event.splits)

lemma completions_append: "completions (xs @ ys) = completions xs @ completions ys"
  by (simp add: completions_def)

lemma executions_append: "executions (xs @ ys) = executions xs @ executions ys"
  by (simp add: executions_def)

lemma completions_cons:
  "completions (ev # es) = (case ev of EvCompleted t b \<Rightarrow> [(t, b)] | _ \<Rightarrow> []) @ completions es"
  by (simp add: completions_def)

lemma executions_cons:
  "executions (ev # es) = (case ev of EvExecuted i \<Rightarrow> [i] | _ \<Rightarrow> []) @ executions es"
  by (simp add: executions_def)

lemmas count_simps = completions_append executions_append completions_cons executions_cons
  quiet_before quiet_after

text \<open>
  Every call that does not end in an exception is answered by exactly one completion, which
  carries the text and error flag of its answer; it runs the tool at most once; and a call that does not
  run its tool changes neither the working state nor the progress monitor.
\<close>

theorem calls_complete_once:
  "let (out, s') = execute_call env call tool input s; es = new_events s s'
   in completions es = (case out of None \<Rightarrow> [] | Some r \<Rightarrow> [(tr_content r, tr_is_error r)]) \<and>
      length (executions es) \<le> 1 \<and>
      (if executions es = [] then xs_working s' = xs_working s \<and> xs_monitor s' = xs_monitor s else True)"
proof -
  obtain out s' where run: "execute_call env call tool input s = (out, s')" by fastforce
  then have "completions (new_events s s') = (case out of None \<Rightarrow> [] | Some r \<Rightarrow> [(tr_content r, tr_is_error r)]) \<and>
      length (executions (new_events s s')) \<le> 1 \<and>
      (if executions (new_events s s') = [] then xs_working s' = xs_working s \<and> xs_monitor s' = xs_monitor s else True)"
  proof (cases rule: execute_call_cases)
    case escaped
    then show ?thesis by (simp add: count_simps)
  next
    case (refused r es shown es2 t)
    have "completions (new_events s s') = [(shown, True)]" "executions (new_events s s') = []"
      by (simp_all add: refused(2,3,4) count_simps)
    moreover have "xs_working s' = xs_working s" "xs_monitor s' = xs_monitor s"
      using refused(5,6) by (simp_all add: finalize_keeps extends_by_def)
    ultimately show ?thesis using refused(1) by simp
  next
    case (ran final es es1 shown err es2 t)
    have "completions (new_events s s') = [(shown, err)]" "executions (new_events s s') = [final]"
      by (simp_all add: ran(2,3,4,5) count_simps)
    then show ?thesis using ran(1) by simp
  qed
  then show ?thesis by (simp add: run Let_def)
qed

section \<open>The registry of results\<close>

lemma finalize_results:
  "xs_results (finalize env call tool orig shown err s) =
     (case xs_results s of
        None \<Rightarrow> None
      | Some m \<Rightarrow> Some (if call = [] \<or> jm_has m call then m
          else jm_set call \<lparr>rr_run_id = xe_run_id env, rr_call_id = call, rr_tool = tool, rr_original = orig,
            rr_exposed = shown, rr_is_error = err, rr_truncated = (shown \<noteq> orig),
            rr_completed_at = xe_clock env\<rparr> m))"
  by (auto simp: finalize_def add_event_def Let_def split: option.splits)

lemma run_tool_results:
  "\<exists>orig. xs_results (snd (run_tool env call tool input s)) =
     xs_results (finalize env call tool orig (tr_content (fst (run_tool env call tool input s)))
       (tr_is_error (fst (run_tool env call tool input s))) s)"
proof -
  obtain result s2 where r: "call_tool env tool input s = (result, s2)" by fastforce
  then have "xs_results s2 = xs_results s"
    by (auto simp: call_tool_def add_event_def Let_def split: run_outcome.splits if_splits)
  then show ?thesis
    by (intro exI [of _ "tr_content result"])
      (simp add: run_tool_def r Let_def finalize_results post_hook_events(2) add_event_def)
qed

text \<open>
  The registry of results keeps the first result of every call id: an id that is registered keeps
  its entry whatever call comes, and an answered call with a new, non-empty id is registered with exactly
  the text and error flag of its answer.
\<close>

theorem first_result_is_kept:
  "let (out, s') = execute_call env call tool input s
   in case (xs_results s, xs_results s') of
        (None, r) \<Rightarrow> r = None
      | (Some m, None) \<Rightarrow> False
      | (Some m, Some m') \<Rightarrow>
          (case jm_get m k of
             Some r \<Rightarrow> jm_get m' k = Some r
           | None \<Rightarrow>
               if k = call \<and> call \<noteq> [] \<and> out \<noteq> None
               then map_option (\<lambda>r. (rr_call_id r, rr_tool r, rr_exposed r, rr_is_error r)) (jm_get m' k) =
                      Some (call, tool, tr_content (the out), tr_is_error (the out))
               else jm_get m' k = None)"
proof -
  obtain out s' where run: "execute_call env call tool input s = (out, s')" by fastforce
  have final: "(out = None \<and> xs_results s' = xs_results s) \<or>
      (\<exists>orig r. out = Some r \<and> xs_results s' =
        xs_results (finalize env call tool orig (tr_content r) (tr_is_error r) s))"
    using run
  proof (cases rule: execute_call_cases)
    case escaped
    then show ?thesis by simp
  next
    case (refused r es shown es2 t)
    then have "xs_results s' = xs_results (finalize env call tool (refusal_text env tool r) shown True s)"
      by (simp add: finalize_results extends_by_def)
    with refused(1) show ?thesis by auto
  next
    case (ran final es es1 shown err es2 t)
    obtain orig where "xs_results s' = xs_results (finalize env call tool orig
        (tr_content (fst (run_tool env call tool final t))) (tr_is_error (fst (run_tool env call tool final t))) t)"
      using run_tool_results [of env call tool final t] ran(7) by auto
    with ran(8,9) show ?thesis by (auto simp: finalize_results extends_by_def)
  qed
  then show ?thesis
    by (auto simp: run Let_def finalize_results split: option.splits)
qed

section \<open>When a call can end in an exception\<close>


















section \<open>Examples\<close>

definition sample_tool :: "string \<Rightarrow> tool_entry" where
  "sample_tool name = \<lparr>tl_name = name, tl_definition = name, tl_read_only = False,
     tl_should_defer = False, tl_always_load = False\<rparr>"

text \<open>A headless session in the default mode; a hook replaces the command \<open>x\<close> by \<open>pwd\<close>.\<close>

definition sample_hook :: "string \<Rightarrow> tool_input \<Rightarrow> hook_outcome list option" where
  "sample_hook tool input =
     Some [\<lparr>ho_hook = ''h'', ho_decision = DAllow, ho_reason = None, ho_error = None,
       ho_updated = Some [(''command'', JStr ''pwd'')], ho_context = Some ''c''\<rparr>]"

definition sample_env :: exec_env where
  "sample_env =
     \<lparr>xe_agent = None, xe_registry = register_tool (sample_tool ''Bash'') new_registry,
      xe_mode = ModeDefault, xe_plan = False, xe_excluded = None, xe_kind = None,
      xe_manager = (\<lambda>_. new_manager), xe_approvals = (\<lambda>_. []), xe_prompt = None,
      xe_hook_runner = True, xe_pre_hook = Some sample_hook, xe_post_hook = None,
      xe_run = (\<lambda>_ _. ToolReturns (Legacy \<lparr>tr_content = ''ok'', tr_is_error = False\<rparr>)),
      xe_spill = (\<lambda>_. None), xe_run_id = ''r'', xe_clock = 0, xe_mode_text = mode_name\<rparr>"

definition sample_state :: exec_state where
  "sample_state = \<lparr>xs_trace = [], xs_prompts = 0, xs_hook_context = [], xs_results = Some [],
     xs_working = empty_working_state ''s'', xs_monitor = None\<rparr>"

definition sample_call_input :: tool_input where
  "sample_call_input = [(''command'', JStr ''x'')]"

lemma sample_runs:
  "EvExecuted [(''command'', JStr ''pwd'')] \<in>
     set (new_events sample_state (snd (execute_call sample_env ''c1'' ''Bash'' sample_call_input sample_state)))"
  by code_simp

lemma only_authorized_inputs_run_witness:
  "let s' = snd (execute_call sample_env ''c1'' ''Bash'' sample_call_input sample_state);
       final = [(''command'', JStr ''pwd'')]
   in authorized sample_env ''Bash'' sample_call_input final (new_events sample_state s') \<and>
      not_denied_by_rules ''Bash'' final"
  unfolding Let_def by (rule only_authorized_inputs_run [OF surjective_pairing sample_runs])

lemma headless_fails_closed_witness:
  "passes_without_user sample_env False ''Bash'' sample_call_input \<and>
   passes_without_user sample_env (changed_input sample_env ''Bash'' sample_call_input \<noteq> None) ''Bash''
     [(''command'', JStr ''pwd'')] \<and>
   list_all (\<lambda>h. ho_decision h = DAllow) (hook_answers sample_env ''Bash'' sample_call_input)"
  by (rule headless_fails_closed [OF surjective_pairing _ sample_runs]) (simp add: sample_env_def)


text \<open>The built-in denial of \<open>rm -rf\<close> is passed by a second line, also in the mode that asks nothing.\<close>

lemma two_line_command_runs_in_bypass_mode:
  "let input = [(''command'', JStr (''rm -rf /'' @ new_line @ ''ls''))];
       env = sample_env\<lparr>xe_mode := ModeBypass, xe_hook_runner := False\<rparr>
   in EvExecuted input \<in> set (new_events sample_state (snd (execute_call env ''c1'' ''Bash'' input sample_state)))"
  by code_simp

end
