(* ===== verification/Conversation.thy ===== *)
theory Conversation
  imports Prelude "HOL-Library.Sublist"
begin

text \<open>
  The message history of a conversation, and the two operations that cut it: the point at which a
  session is forked (\<open>src/src/core/sessionManager.ts\<close>, \<open>computeForkCutPoint\<close>) and the trimming
  between turns (\<open>src/src/ui/historyTrimmer.ts\<close>).

  A provider rejects a history in which a tool result has no call before it, or a call has no
  result after it. \<open>well_paired\<close> is that rule: every assistant message with calls is followed at
  once by exactly the results of these calls. The code keeps two checks of its own
  (\<open>is_prefix_consistent\<close> here, \<open>is_safe_split_boundary\<close> in the theory on compaction); the lemmas
  relate both to the rule. JavaScript sets of call ids are lists without repetition.
\<close>

section \<open>Messages\<close>

datatype role = RoleSystem | RoleUser | RoleAssistant | RoleTool

record issued_call =
  ic_id :: string
  ic_name :: string
  ic_arguments :: string

datatype content_part = TextPart string | ImagePart string

datatype content = Text string | NullContent | Parts "content_part list"

record message =
  mg_role :: role
  mg_content :: content
  mg_calls :: "issued_call list option"
  mg_call_id :: "string option"
  mg_name :: "string option"
  mg_reasoning :: "string option"

definition is_tool :: "message \<Rightarrow> bool" where
  "is_tool m \<longleftrightarrow> mg_role m = RoleTool"

text \<open>The calls of an assistant message; \<open>tool_calls\<close> of any other message is not read.\<close>

definition calls_of :: "message \<Rightarrow> issued_call list" where
  "calls_of m = (if mg_role m = RoleAssistant then default_to (mg_calls m) [] else [])"

definition call_ids :: "message \<Rightarrow> string list" where
  "call_ids m = map ic_id (calls_of m)"

text \<open>The id a tool row answers, when it is neither missing nor empty.\<close>

definition answered_id :: "message \<Rightarrow> string option" where
  "answered_id m = (if is_tool m \<and> mg_call_id m \<noteq> Some [] then mg_call_id m else None)"

definition add_ids :: "string list \<Rightarrow> string list \<Rightarrow> string list" where
  "add_ids new ids = fold List.insert new ids"

section \<open>The fork point\<close>

fun unanswered_from :: "string list \<Rightarrow> message list \<Rightarrow> string list" where
  "unanswered_from pending [] = pending"
| "unanswered_from pending (m # ms) =
     unanswered_from
       (if mg_role m = RoleAssistant \<and> mg_calls m \<noteq> None
        then add_ids (filter (\<lambda>i. i \<noteq> []) (call_ids m)) pending
        else case answered_id m of Some i \<Rightarrow> removeAll i pending | None \<Rightarrow> pending) ms"

definition unanswered_tool_calls :: "message list \<Rightarrow> nat \<Rightarrow> string list" where
  "unanswered_tool_calls msgs point = unanswered_from [] (take point msgs)"

fun consistent_from :: "string list \<Rightarrow> message list \<Rightarrow> bool" where
  "consistent_from issued [] = (issued = [])"
| "consistent_from issued (m # ms) =
     (if calls_of m \<noteq> [] then consistent_from (add_ids (filter (\<lambda>i. i \<noteq> []) (call_ids m)) issued) ms
      else if is_tool m then (case answered_id m of
          None \<Rightarrow> False
        | Some i \<Rightarrow> i \<in> set issued \<and> consistent_from (removeAll i issued) ms)
      else consistent_from issued ms)"

definition is_prefix_consistent :: "message list \<Rightarrow> nat \<Rightarrow> bool" where
  "is_prefix_consistent msgs point = consistent_from [] (take point msgs)"

definition skip_tools :: "message list \<Rightarrow> nat \<Rightarrow> nat" where
  "skip_tools msgs point = point + length (takeWhile is_tool (drop point msgs))"

text \<open>The contiguous tool rows that answer the missing ids, counted from the cut.\<close>

fun answer_run :: "string list \<Rightarrow> message list \<Rightarrow> nat" where
  "answer_run missing [] = 0"
| "answer_run missing (m # ms) =
     (if missing = [] then 0
      else if is_tool m
      then Suc (answer_run (case answered_id m of Some i \<Rightarrow> removeAll i missing | None \<Rightarrow> missing) ms)
      else 0)"

lemma answer_run_le: "answer_run missing ms \<le> length ms"
  by (induction ms arbitrary: missing) auto

function grow_cut :: "message list \<Rightarrow> nat \<Rightarrow> nat" where
  "grow_cut msgs point =
     (let c = skip_tools msgs point;
          pending = unanswered_tool_calls msgs c;
          j = c + answer_run pending (drop c msgs)
      in if pending = [] then c
         else if j = c then c
         else grow_cut msgs j)"
  by pat_completeness auto
termination
proof (relation "measure (\<lambda>(msgs, point). length msgs - point)", goal_cases)
  case (2 msgs point c pending j)
  have "answer_run pending (drop c msgs) \<le> length msgs - c"
    using answer_run_le [of pending "drop c msgs"] by simp
  moreover have "point \<le> c" using 2 by (simp add: skip_tools_def)
  ultimately show ?case using 2 by auto
qed simp

declare grow_cut.simps [simp del]

fun trim_cut :: "message list \<Rightarrow> nat \<Rightarrow> nat" where
  "trim_cut msgs 0 = 0"
| "trim_cut msgs (Suc point) =
     (if is_prefix_consistent msgs (Suc point) then Suc point else trim_cut msgs point)"

definition requested_cut :: "message list \<Rightarrow> int option \<Rightarrow> nat" where
  "requested_cut msgs requested = (case requested of
      None \<Rightarrow> length msgs
    | Some r \<Rightarrow> nat (max 0 (min r (int (length msgs)))))"

definition compute_fork_cut_point :: "message list \<Rightarrow> int option \<Rightarrow> nat" where
  "compute_fork_cut_point msgs requested = trim_cut msgs (grow_cut msgs (requested_cut msgs requested))"

section \<open>Trimming between turns\<close>

definition max_recent_history_messages :: nat where
  "max_recent_history_messages = 120"

definition max_pinned_user_messages :: nat where
  "max_pinned_user_messages = 12"

definition recent_start :: "message list \<Rightarrow> nat" where
  "recent_start msgs =
     (let start = length msgs - max_recent_history_messages
      in if start > 0 then skip_tools msgs start else start)"

text \<open>A user message with a text that is not a conversation summary.\<close>

definition is_pinnable :: "message \<Rightarrow> bool" where
  "is_pinnable m \<longleftrightarrow> mg_role m = RoleUser \<and>
     (case mg_content m of Text s \<Rightarrow> \<not> is_prefix ''[CONVERSATION SUMMARY'' s | _ \<Rightarrow> False)"

definition pinned_indexes :: "message list \<Rightarrow> nat list" where
  "pinned_indexes msgs =
     take max_pinned_user_messages (filter (\<lambda>i. is_pinnable (msgs ! i)) (rev [0..<length msgs]))"

definition kept_indexes :: "message list \<Rightarrow> nat list" where
  "kept_indexes msgs =
     filter (\<lambda>i. recent_start msgs \<le> i \<or> i \<in> set (pinned_indexes msgs)) [0..<length msgs]"

definition is_orphan :: "string list \<Rightarrow> message \<Rightarrow> bool" where
  "is_orphan ids m = (case answered_id m of None \<Rightarrow> False | Some i \<Rightarrow> i \<notin> set ids)"

definition drop_orphans :: "message list \<Rightarrow> message list" where
  "drop_orphans ms = filter (\<lambda>m. \<not> is_orphan (concat (map call_ids ms)) m) ms"

definition trim_history_for_next_turn :: "message list \<Rightarrow> message list" where
  "trim_history_for_next_turn msgs =
     (if length msgs \<le> max_recent_history_messages then msgs
      else drop_orphans (map (\<lambda>i. msgs ! i) (kept_indexes msgs)))"

section \<open>The rule of the provider\<close>

fun paired_from :: "string set \<Rightarrow> message list \<Rightarrow> bool" where
  "paired_from open_ids [] = (open_ids = {})"
| "paired_from open_ids (m # ms) =
     (if is_tool m then (case answered_id m of
          None \<Rightarrow> False
        | Some i \<Rightarrow> i \<in> open_ids \<and> paired_from (open_ids - {i}) ms)
      else open_ids = {} \<and> paired_from (set (call_ids m)) ms)"

definition well_paired :: "message list \<Rightarrow> bool" where
  "well_paired msgs = paired_from {} msgs"

section \<open>Pairing\<close>

definition starts_turn :: "message list \<Rightarrow> bool" where
  "starts_turn ms \<longleftrightarrow> (case ms of [] \<Rightarrow> True | m # _ \<Rightarrow> \<not> is_tool m)"

lemma starts_turn_simps [simp]: "starts_turn []" "starts_turn (m # ms) \<longleftrightarrow> \<not> is_tool m"
  by (simp_all add: starts_turn_def)

lemma starts_turn_dropWhile [simp]: "starts_turn (dropWhile is_tool ms)"
  by (induction ms) auto

lemma paired_append:
  "starts_turn ys \<Longrightarrow> paired_from P (xs @ ys) \<longleftrightarrow> paired_from P xs \<and> paired_from {} ys"
  by (induction xs arbitrary: P) (cases ys; auto split: option.splits)+

lemma well_paired_append:
  "starts_turn ys \<Longrightarrow> well_paired (xs @ ys) \<longleftrightarrow> well_paired xs \<and> well_paired ys"
  by (simp add: well_paired_def paired_append)

lemma well_paired_drop:
  assumes "well_paired ms" and "starts_turn (drop k ms)"
  shows "well_paired (take k ms)" and "well_paired (drop k ms)"
  using assms well_paired_append [of "drop k ms" "take k ms"] by simp_all

lemma starts_turn_append: "starts_turn xs \<Longrightarrow> starts_turn ys \<Longrightarrow> starts_turn (xs @ ys)"
  by (cases xs) auto

lemma well_paired_turns:
  "\<forall>t\<in>set turns. well_paired t \<and> starts_turn t \<Longrightarrow> well_paired (concat turns) \<and> starts_turn (concat turns)"
  by (induction turns) (auto simp: well_paired_append starts_turn_append, simp add: well_paired_def)

text \<open>Messages that issue nothing and answer nothing can stand anywhere between turns.\<close>

definition is_plain :: "message \<Rightarrow> bool" where
  "is_plain m \<longleftrightarrow> \<not> is_tool m \<and> calls_of m = []"

lemma plain_paired: "list_all is_plain ms \<Longrightarrow> well_paired ms"
  by (induction ms) (auto simp: well_paired_def is_plain_def call_ids_def)

lemma plain_starts: "list_all is_plain ms \<Longrightarrow> starts_turn ns \<Longrightarrow> starts_turn (ms @ ns)"
  by (cases ms) (auto simp: is_plain_def)

lemma answered_nonempty: "answered_id m = Some i \<Longrightarrow> i \<noteq> []"
  by (auto simp: answered_id_def split: if_splits)

lemma paired_no_empty_id: "paired_from P ms \<Longrightarrow> [] \<notin> P"
  by (induction ms arbitrary: P)
    (fastforce dest: answered_nonempty split: if_splits option.splits)+

lemma set_add_ids: "set (add_ids new ids) = set new \<union> set ids"
  unfolding add_ids_def by (induction new arbitrary: ids) auto

lemma tool_no_calls: "is_tool m \<Longrightarrow> calls_of m = []"
  by (simp add: is_tool_def calls_of_def)

lemma paired_consistent: "paired_from (set issued) ms \<Longrightarrow> consistent_from issued ms"
proof (induction ms arbitrary: issued)
  case Nil
  then show ?case by simp
next
  case (Cons m ms)
  show ?case
  proof (cases "is_tool m")
    case True
    with Cons obtain i where "answered_id m = Some i" "i \<in> set issued"
      "paired_from (set (removeAll i issued)) ms"
      by (auto split: option.splits)
    with True Cons.IH show ?thesis by (simp add: tool_no_calls)
  next
    case False
    with Cons.prems have paired: "issued = []" "paired_from (set (call_ids m)) ms" by auto
    have filtered: "filter (\<lambda>i. i \<noteq> []) (call_ids m) = call_ids m"
      by (rule filter_True) (use paired_no_empty_id [OF paired(2)] in auto)
    from paired(2) have "consistent_from (add_ids (call_ids m) []) ms"
      by (intro Cons.IH) (simp add: set_add_ids)
    with paired(1) filtered False show ?thesis
      by (cases "calls_of m = []") (simp_all add: call_ids_def add_ids_def)
  qed
qed

lemma paired_answers:
  "paired_from P ms \<Longrightarrow> m \<in> set ms \<Longrightarrow> is_tool m \<Longrightarrow>
     \<exists>i. answered_id m = Some i \<and> (i \<in> P \<or> i \<in> set (concat (map call_ids ms)))"
proof (induction ms arbitrary: P)
  case Nil
  then show ?case by simp
next
  case (Cons n ms)
  consider "m = n" | "m \<in> set ms" "is_tool n" | "m \<in> set ms" "\<not> is_tool n"
    using Cons.prems(2) by auto
  then show ?case
  proof cases
    case 1
    with Cons.prems show ?thesis by (auto split: option.splits)
  next
    case 2
    with Cons.prems obtain i where "paired_from (P - {i}) ms" by (auto split: option.splits)
    from Cons.IH [OF this 2(1) Cons.prems(3)] show ?thesis by auto
  next
    case 3
    with Cons.prems have "paired_from (set (call_ids n)) ms" by simp
    from Cons.IH [OF this 3(1) Cons.prems(3)] show ?thesis by auto
  qed
qed

section \<open>Lemmas on the fork point\<close>

lemma drop_skip_tools: "drop (skip_tools msgs c) msgs = dropWhile is_tool (drop c msgs)"
  by (simp add: skip_tools_def dropWhile_eq_drop add.commute)

lemma skip_tools_le: "c \<le> length msgs \<Longrightarrow> skip_tools msgs c \<le> length msgs"
  using length_takeWhile_le [of is_tool "drop c msgs"] by (simp add: skip_tools_def)

text \<open>
  The rows that could answer a pending call have been skipped already, so the loop that grows the
  cut towards pending answers never makes a second round.
\<close>

lemma grow_is_skip: "grow_cut msgs c = skip_tools msgs c"
proof -
  have "answer_run pending (drop (skip_tools msgs c) msgs) = 0" for pending
    using starts_turn_dropWhile [of "drop c msgs"] unfolding drop_skip_tools
    by (cases "dropWhile is_tool (drop c msgs)") (simp_all only: answer_run.simps starts_turn_simps if_False if_cancel)
  then show ?thesis by (simp add: grow_cut.simps [of msgs c] Let_def)
qed

lemma consistent_zero: "is_prefix_consistent msgs 0"
  by (simp add: is_prefix_consistent_def)

lemma trim_cut_greatest:
  "is_prefix_consistent msgs (trim_cut msgs c) \<and> trim_cut msgs c \<le> c \<and>
   (\<forall>k. k \<le> c \<and> is_prefix_consistent msgs k \<longrightarrow> k \<le> trim_cut msgs c)"
  by (induction c) (auto simp: consistent_zero le_Suc_eq)

lemma requested_cut_le: "requested_cut msgs r \<le> length msgs"
  by (auto simp: requested_cut_def split: option.splits)

lemma paired_fork:
  assumes "well_paired msgs" and "c \<le> length msgs"
  shows "is_prefix_consistent msgs (skip_tools msgs c)"
    and "trim_cut msgs (skip_tools msgs c) = skip_tools msgs c"
proof -
  have "well_paired (take (skip_tools msgs c) msgs)"
    using assms(1) by (rule well_paired_drop) (simp add: drop_skip_tools)
  then show consistent: "is_prefix_consistent msgs (skip_tools msgs c)"
    using paired_consistent [of "[]"] by (simp add: well_paired_def is_prefix_consistent_def)
  then show "trim_cut msgs (skip_tools msgs c) = skip_tools msgs c"
    by (cases "skip_tools msgs c") auto
qed

section \<open>Lemmas on trimming\<close>

lemma recent_start_le: "recent_start msgs \<le> length msgs"
  by (simp add: recent_start_def Let_def skip_tools_le)

lemma recent_starts_turn:
  "length msgs > max_recent_history_messages \<Longrightarrow> starts_turn (drop (recent_start msgs) msgs)"
  by (simp add: recent_start_def Let_def drop_skip_tools)

lemma kept_split:
  "map (\<lambda>i. msgs ! i) (kept_indexes msgs) =
     map (\<lambda>i. msgs ! i) (filter (\<lambda>i. i \<in> set (pinned_indexes msgs)) [0..<recent_start msgs]) @
     drop (recent_start msgs) msgs"
proof -
  let ?r = "recent_start msgs"
  have "[0..<length msgs] = [0..<?r] @ [?r..<length msgs]"
    using recent_start_le [of msgs] by (metis le0 upt_add_eq_append le_add_diff_inverse)
  moreover have "map (\<lambda>i. msgs ! i) [?r..<length msgs] = drop ?r msgs"
    by (rule nth_equalityI) auto
  moreover have "filter (\<lambda>i. ?r \<le> i \<or> i \<in> set (pinned_indexes msgs)) [0..<?r] =
      filter (\<lambda>i. i \<in> set (pinned_indexes msgs)) [0..<?r]"
    by (rule filter_cong) auto
  ultimately show ?thesis by (simp add: kept_indexes_def)
qed

lemma pinned_is_pinnable:
  "i \<in> set (pinned_indexes msgs) \<Longrightarrow> i < length msgs \<and> is_pinnable (msgs ! i)"
  by (auto simp: pinned_indexes_def dest: in_set_takeD)

lemma pinnable_plain: "is_pinnable m \<Longrightarrow> is_plain m"
  by (simp add: is_pinnable_def is_plain_def is_tool_def calls_of_def)

lemma kept_paired:
  assumes "well_paired msgs" and "length msgs > max_recent_history_messages"
  shows "well_paired (map (\<lambda>i. msgs ! i) (kept_indexes msgs))"
proof -
  have "list_all is_plain (map (\<lambda>i. msgs ! i) (filter (\<lambda>i. i \<in> set (pinned_indexes msgs)) is))" for "is"
    by (auto simp: list_all_iff dest: pinned_is_pinnable intro: pinnable_plain)
  moreover have "starts_turn (drop (recent_start msgs) msgs)"
    using assms(2) by (rule recent_starts_turn)
  ultimately show ?thesis
    using well_paired_drop(2) [OF assms(1)] by (simp add: kept_split well_paired_append plain_paired)
qed

lemma no_orphan:
  assumes "well_paired ms"
  shows "drop_orphans ms = ms"
  unfolding drop_orphans_def
proof (rule filter_True, rule ballI)
  fix m assume "m \<in> set ms"
  with assms show "\<not> is_orphan (concat (map call_ids ms)) m"
    using paired_answers [of "{}" ms m]
    by (cases "is_tool m") (auto simp: well_paired_def is_orphan_def answered_id_def split: if_splits)
qed

lemma trim_paired:
  assumes "well_paired msgs"
  shows "trim_history_for_next_turn msgs =
      (if length msgs \<le> max_recent_history_messages then msgs
       else map (\<lambda>i. msgs ! i) (kept_indexes msgs))"
    and "well_paired (trim_history_for_next_turn msgs)"
proof -
  show eq: "trim_history_for_next_turn msgs =
      (if length msgs \<le> max_recent_history_messages then msgs
       else map (\<lambda>i. msgs ! i) (kept_indexes msgs))"
    using no_orphan [OF kept_paired [OF assms]] by (simp add: trim_history_for_next_turn_def not_le)
  show "well_paired (trim_history_for_next_turn msgs)"
    using assms kept_paired [OF assms] by (simp add: eq not_le)
qed

lemma kept_subseq: "subseq (map (\<lambda>i. msgs ! i) (filter P [0..<length msgs])) msgs"
  using subseq_map [OF subseq_filter_left [of P "[0..<length msgs]"], of "\<lambda>i. msgs ! i"]
  by (simp add: map_nth)

lemma trim_subseq: "subseq (trim_history_for_next_turn msgs) msgs"
proof -
  have "subseq (drop_orphans (map (\<lambda>i. msgs ! i) (kept_indexes msgs))) (map (\<lambda>i. msgs ! i) (kept_indexes msgs))"
    unfolding drop_orphans_def by (rule subseq_filter_left)
  moreover have "subseq (map (\<lambda>i. msgs ! i) (kept_indexes msgs)) msgs"
    unfolding kept_indexes_def by (rule kept_subseq)
  ultimately show ?thesis
    unfolding trim_history_for_next_turn_def by (auto intro: subseq_order.order_trans)
qed

lemma length_kept: "length (kept_indexes msgs) \<le> max_recent_history_messages + max_pinned_user_messages"
proof -
  have "length (kept_indexes msgs) = length (map (\<lambda>i. msgs ! i) (kept_indexes msgs))" by simp
  also have "\<dots> \<le> length (filter (\<lambda>i. i \<in> set (pinned_indexes msgs)) [0..<recent_start msgs]) +
      (length msgs - recent_start msgs)"
    by (simp only: kept_split) simp
  also have "length (filter (\<lambda>i. i \<in> set (pinned_indexes msgs)) [0..<recent_start msgs]) \<le>
      card (set (pinned_indexes msgs))"
    by (subst distinct_card [symmetric]) (auto intro!: card_mono)
  also have "card (set (pinned_indexes msgs)) \<le> max_pinned_user_messages"
    by (rule le_trans [OF card_length]) (simp add: pinned_indexes_def)
  also have "length msgs - recent_start msgs \<le> max_recent_history_messages"
    by (simp add: recent_start_def Let_def skip_tools_def)
  finally show ?thesis by simp
qed

lemma length_trim:
  "length (trim_history_for_next_turn msgs) \<le> max_recent_history_messages + max_pinned_user_messages"
proof -
  have "length (drop_orphans ms) \<le> length ms" for ms
    by (simp add: drop_orphans_def)
  from order_trans [OF this] length_kept show ?thesis
    by (simp add: trim_history_for_next_turn_def)
qed


lemma pinnable_no_orphan: "filter is_pinnable (drop_orphans ms) = filter is_pinnable ms"
proof -
  have "is_pinnable m \<Longrightarrow> \<not> is_orphan ids m" for m ids
    by (simp add: is_pinnable_def is_orphan_def answered_id_def is_tool_def)
  then show ?thesis
    by (auto simp: drop_orphans_def intro: filter_cong)
qed

lemma take_filter_prefix:
  "\<forall>x\<in>set (take k xs). P x \<Longrightarrow> take k (filter P xs) = take k xs"
proof -
  assume kept: "\<forall>x\<in>set (take k xs). P x"
  have "filter P xs = take k xs @ filter P (drop k xs)"
    using kept by (metis append_take_drop_id filter_append filter_True)
  then show ?thesis by (cases "k \<le> length xs") (simp_all add: min_def)
qed

lemma pinned_kept:
  "take max_pinned_user_messages (rev (filter is_pinnable (map (\<lambda>i. msgs ! i) (kept_indexes msgs)))) =
   take max_pinned_user_messages (rev (filter is_pinnable msgs))"
proof -
  let ?pins = "filter (\<lambda>i. is_pinnable (msgs ! i)) (rev [0..<length msgs])"
  let ?keep = "\<lambda>i. recent_start msgs \<le> i \<or> i \<in> set (pinned_indexes msgs)"
  have "take max_pinned_user_messages (rev (filter is_pinnable (map (\<lambda>i. msgs ! i) (kept_indexes msgs)))) =
      take max_pinned_user_messages (map (\<lambda>i. msgs ! i) (filter ?keep ?pins))"
    by (simp add: kept_indexes_def filter_map rev_map rev_filter o_def conj_commute)
  also have "\<dots> = map (\<lambda>i. msgs ! i) (take max_pinned_user_messages (filter ?keep ?pins))"
    by (rule take_map)
  also have "take max_pinned_user_messages (filter ?keep ?pins) = take max_pinned_user_messages ?pins"
    by (rule take_filter_prefix) (simp add: pinned_indexes_def)
  also have "map (\<lambda>i. msgs ! i) (take max_pinned_user_messages ?pins) =
      take max_pinned_user_messages (map (\<lambda>i. msgs ! i) ?pins)"
    by (rule take_map [symmetric])
  also have "map (\<lambda>i. msgs ! i) ?pins = rev (filter is_pinnable msgs)"
  proof -
    have "filter is_pinnable msgs = filter is_pinnable (map (\<lambda>i. msgs ! i) [0..<length msgs])"
      by (simp add: map_nth)
    then show ?thesis by (simp add: filter_map rev_map rev_filter o_def)
  qed
  finally show ?thesis .
qed

lemma pinned_after_trim:
  "take max_pinned_user_messages (rev (filter is_pinnable (trim_history_for_next_turn msgs))) =
   take max_pinned_user_messages (rev (filter is_pinnable msgs))"
  by (simp add: trim_history_for_next_turn_def pinnable_no_orphan pinned_kept)

section \<open>Examples\<close>

definition user_message :: "string \<Rightarrow> message" where
  "user_message s = \<lparr>mg_role = RoleUser, mg_content = Text s, mg_calls = None, mg_call_id = None,
     mg_name = None, mg_reasoning = None\<rparr>"

definition system_message :: "string \<Rightarrow> message" where
  "system_message s = \<lparr>mg_role = RoleSystem, mg_content = Text s, mg_calls = None, mg_call_id = None,
     mg_name = None, mg_reasoning = None\<rparr>"

definition calling_message :: "string list \<Rightarrow> message" where
  "calling_message ids = \<lparr>mg_role = RoleAssistant, mg_content = NullContent,
     mg_calls = Some (map (\<lambda>i. \<lparr>ic_id = i, ic_name = ''Read'', ic_arguments = ''{}''\<rparr>) ids),
     mg_call_id = None, mg_name = None, mg_reasoning = None\<rparr>"

definition tool_message :: "string \<Rightarrow> string \<Rightarrow> message" where
  "tool_message i s = \<lparr>mg_role = RoleTool, mg_content = Text s, mg_calls = None, mg_call_id = Some i,
     mg_name = Some ''Read'', mg_reasoning = None\<rparr>"

lemmas message_kinds = user_message_def system_message_def calling_message_def tool_message_def

definition tool_turn :: "message list" where
  "tool_turn = [user_message ''go'', calling_message [''a'', ''b''], tool_message ''a'' ''1'',
     tool_message ''b'' ''2'', user_message ''next'']"

definition aborted_turn :: "message list" where
  "aborted_turn = [user_message ''go'', calling_message [''a'', ''b''], tool_message ''a'' ''1'']"

lemma tool_turn_paired: "well_paired tool_turn"
  by code_simp

section \<open>Properties\<close>

text \<open>
  (C27) The fork point: the prefix copied into a fork answers every call it contains and contains
  no answer without its call, it is the longest such prefix up to the requested point extended over
  the tool rows that follow it, and when the history is well paired nothing is trimmed, so the fork
  contains every requested message and is well paired itself.
\<close>

theorem fork_point_is_greatest:
  "let c = compute_fork_cut_point msgs requested;
       q = skip_tools msgs (requested_cut msgs requested)
   in is_prefix_consistent msgs c \<and> c \<le> q \<and> q \<le> length msgs \<and>
      (\<forall>k. c < k \<and> k \<le> q \<longrightarrow> \<not> is_prefix_consistent msgs k) \<and>
      (well_paired msgs \<longrightarrow> c = q \<and> requested_cut msgs requested \<le> c \<and> well_paired (take c msgs))"
proof -
  let ?q = "skip_tools msgs (requested_cut msgs requested)"
  have c: "compute_fork_cut_point msgs requested = trim_cut msgs ?q"
    by (simp add: compute_fork_cut_point_def grow_is_skip)
  have "well_paired msgs \<Longrightarrow> well_paired (take ?q msgs)"
    by (rule well_paired_drop) (simp_all add: drop_skip_tools)
  moreover have "requested_cut msgs requested \<le> ?q" by (simp add: skip_tools_def)
  ultimately show ?thesis
    using trim_cut_greatest [of msgs ?q] skip_tools_le [OF requested_cut_le]
      paired_fork(2) [OF _ requested_cut_le]
    by (auto simp: c Let_def)
qed

theorem fork_point_is_greatest_witness:
  "compute_fork_cut_point tool_turn (Some 3) = 4 \<and> well_paired (take 4 tool_turn) \<and>
   compute_fork_cut_point aborted_turn None = 1 \<and> \<not> is_prefix_consistent aborted_turn 3"
proof -
  have cuts: "skip_tools tool_turn (requested_cut tool_turn (Some 3)) = 4"
    "skip_tools aborted_turn (requested_cut aborted_turn None) = 3"
    "compute_fork_cut_point aborted_turn None = 1"
    by code_simp+
  have "compute_fork_cut_point tool_turn (Some 3) = 4 \<and> well_paired (take 4 tool_turn)"
    using fork_point_is_greatest [of tool_turn "Some 3"] tool_turn_paired
    unfolding Let_def cuts by metis
  moreover have "\<not> is_prefix_consistent aborted_turn 3"
    using fork_point_is_greatest [of aborted_turn None] unfolding Let_def cuts by simp
  ultimately show ?thesis using cuts by simp
qed

text \<open>
  Trimming between turns: what is sent is a subsequence of the history with at most 132
  messages, the twelve most recent texts of the user stay, and a history in which every call is
  answered stays so.
\<close>

theorem trimmed_history_is_valid:
  "subseq (trim_history_for_next_turn msgs) msgs \<and>
   length (trim_history_for_next_turn msgs) \<le> max_recent_history_messages + max_pinned_user_messages \<and>
   take max_pinned_user_messages (rev (filter is_pinnable (trim_history_for_next_turn msgs))) =
     take max_pinned_user_messages (rev (filter is_pinnable msgs)) \<and>
   (well_paired msgs \<longrightarrow> well_paired (trim_history_for_next_turn msgs))"
  by (simp add: trim_subseq length_trim pinned_after_trim trim_paired(2))

theorem trimmed_history_is_valid_witness:
  "let msgs = concat (replicate 30 tool_turn)
   in well_paired msgs \<and> well_paired (trim_history_for_next_turn msgs) \<and>
      length (trim_history_for_next_turn msgs) < length msgs"
proof -
  have "starts_turn tool_turn" by code_simp
  then have "well_paired (concat (replicate 30 tool_turn))"
    using well_paired_turns [of "replicate 30 tool_turn"] tool_turn_paired by simp
  moreover have "length (concat (replicate 30 tool_turn)) = 150"
    by (simp add: length_concat tool_turn_def sum_list_replicate map_replicate_const)
  ultimately show ?thesis
    using trimmed_history_is_valid [of "concat (replicate 30 tool_turn)"]
    by (simp add: Let_def max_recent_history_messages_def max_pinned_user_messages_def)
qed

end
