(* ===== verification/Compaction.thy ===== *)
theory Compaction
  imports Complex_Main Conversation WorkingState JsRegex
begin

text \<open>
  Compaction of the message history: \<open>src/src/core/compact.ts\<close>, \<open>src/src/core/retryManager.ts\<close>
  (\<open>isRetryableError\<close>), and the budget policy of \<open>src/src/core/context/contextManager.ts\<close>.

  What the model answers to the summarisation prompt, and when the user's abort signal fires, are
  arguments. Token estimates of the source are sums of multiples of 2/7; they are counted here in
  sevenths, and a comparison of a usage ratio with a threshold is one of fractions. The em dash of
  two fixed texts is the character 0x97; like any other beyond ASCII it counts two tokens.
\<close>

section \<open>Token estimates\<close>

definition is_ascii :: "char \<Rightarrow> bool" where
  "is_ascii c \<longleftrightarrow> (of_char c :: nat) \<le> 127"

lemma is_ascii_bits [code]: "is_ascii (Char b0 b1 b2 b3 b4 b5 b6 b7) = (\<not> b7)"
  by (cases b0; cases b1; cases b2; cases b3; cases b4; cases b5; cases b6; cases b7)
    (simp_all add: is_ascii_def)

text \<open>\<open>estimateTextTokens\<close>, times seven.\<close>

fun text_sevenths :: "string \<Rightarrow> nat" where
  "text_sevenths [] = 0"
| "text_sevenths (c # cs) = (if is_ascii c then 2 else 14) + text_sevenths cs"

definition ceil_sevenths :: "nat \<Rightarrow> nat" where
  "ceil_sevenths n = (n + 6) div 7"

definition string_tokens :: "nat \<Rightarrow> nat" where
  "string_tokens len = ceil_sevenths (2 * len)"

fun role_text :: "role \<Rightarrow> string" where
  "role_text RoleSystem = ''system''"
| "role_text RoleUser = ''user''"
| "role_text RoleAssistant = ''assistant''"
| "role_text RoleTool = ''tool''"

definition call_json :: "issued_call \<Rightarrow> string" where
  "call_json c = ''{'' @ json_string ''id'' @ '':'' @ json_string (ic_id c) @ '','' @
     json_string ''type'' @ '':'' @ json_string ''function'' @ '','' @
     json_string ''function'' @ '':{'' @ json_string ''name'' @ '':'' @ json_string (ic_name c) @ '','' @
     json_string ''arguments'' @ '':'' @ json_string (ic_arguments c) @ ''}}''"

definition calls_json :: "issued_call list \<Rightarrow> string" where
  "calls_json cs = ''['' @ join_with '','' (map call_json cs) @ '']''"

definition optional_tokens :: "string option \<Rightarrow> nat" where
  "optional_tokens s = (case s of
      None \<Rightarrow> 0 | Some t \<Rightarrow> if t = [] then 0 else 1 + string_tokens (length t))"

definition content_sevenths :: "content \<Rightarrow> nat" where
  "content_sevenths c = (case c of Text s \<Rightarrow> text_sevenths s | NullContent \<Rightarrow> 7 | Parts _ \<Rightarrow> 0)"

definition message_sevenths :: "message \<Rightarrow> nat" where
  "message_sevenths m =
     content_sevenths (mg_content m) + 7 * (4 + string_tokens (length (role_text (mg_role m)))) +
     (case mg_calls m of None \<Rightarrow> 0 | Some cs \<Rightarrow> text_sevenths (calls_json cs) + 7) +
     7 * optional_tokens (mg_name m) + 7 * optional_tokens (mg_call_id m) + 28"

definition estimate_tokens :: "message list \<Rightarrow> nat" where
  "estimate_tokens msgs = ceil_sevenths (sum_list (map message_sevenths msgs))"

text \<open>The definitions of the tools, each given as its JSON text.\<close>

definition estimate_tool_definition_tokens :: "string list option \<Rightarrow> nat" where
  "estimate_tool_definition_tokens defs = (case defs of
      None \<Rightarrow> 0
    | Some ds \<Rightarrow> if ds = [] then 0 else ceil_sevenths (7 + sum_list (map text_sevenths ds)))"

section \<open>Windows and budgets\<close>

text \<open>A number from the configuration, which may be a fraction or not finite.\<close>

datatype config_number = Finite rat | NotFinite

definition positive_integer :: "config_number option \<Rightarrow> nat option" where
  "positive_integer v = (case v of
      Some (Finite q) \<Rightarrow> if of_int \<lfloor>q\<rfloor> = q \<and> 0 < q then Some (nat \<lfloor>q\<rfloor>) else None
    | _ \<Rightarrow> None)"

definition max_output_tokens_default :: nat where
  "max_output_tokens_default = 8192"

definition model_max_context_tokens :: nat where
  "model_max_context_tokens = 200000"

definition clamp_max_output_tokens :: "config_number option \<Rightarrow> int \<Rightarrow> nat" where
  "clamp_max_output_tokens max_output window =
     (let requested = default_to (positive_integer max_output) max_output_tokens_default
      in if window \<le> 0 then max 1 requested
         else max 1 (min requested (max 1 (nat window div 2))))"

definition effective_input_budget :: "int \<Rightarrow> config_number option \<Rightarrow> int" where
  "effective_input_budget window max_output =
     max 1 (window - int (clamp_max_output_tokens max_output window))"

definition from_start :: "rx list \<Rightarrow> rx" where
  "from_start rs = rx_seq (RBos # rs)"

definition digits :: rx where
  "digits = rx_plus (RChr is_digit)"

definition one_of :: "string list \<Rightarrow> rx" where
  "one_of ws = rx_alt (map rx_lit_i ws)"

text \<open>Each entry of the table: the expression, the length of its source text, and the window.\<close>

definition known_model_context_windows :: "(rx \<times> nat \<times> nat) list" where
  "known_model_context_windows =
    [(from_start [rx_lit_i ''claude-'', one_of [''opus'', ''sonnet'', ''haiku''], rx_opt (rx_lit_i ''-''),
        rx_lit_i ''4''], 32, 200000),
     (from_start [rx_lit_i ''claude-3-7-sonnet''], 18, 200000),
     (from_start [rx_lit_i ''claude-3-5-'', one_of [''sonnet'', ''haiku'']],
        28, 200000),
     (from_start [rx_lit_i ''claude-3-'', one_of [''opus'', ''sonnet'', ''haiku'']],
        31, 200000),
     (from_start [rx_lit_i ''claude-instant''], 15, 100000),
     (from_start [rx_lit_i ''o'', RChr (char_between (CHR ''1'') (CHR ''9'')),
        rx_opt (one_of [''-mini'', ''-nano'']), rx_opt (one_of [''-preview'', ''-pro'']), REos],
        42, 200000),
     (from_start [rx_lit_i ''gpt-5''], 6, 400000),
     (from_start [rx_lit_i ''chatgpt-4o''], 11, 128000),
     (from_start [rx_lit_i ''gpt-4o'', rx_opt (rx_lit_i ''-mini'')],
        17, 128000),
     (from_start [rx_lit_i ''gpt-4-turbo''], 12, 128000),
     (from_start [rx_lit_i ''gpt-4'', rx_opt (rx_lit_i ''-vision''), REos],
        19, 8192),
     (from_start [rx_lit_i ''gpt-4-32k''], 10, 32768),
     (from_start [rx_lit_i ''gpt-3.5-turbo-16k''], 19, 16385),
     (from_start [rx_lit_i ''gpt-3.5-turbo''], 15, 4096),
     (from_start [rx_lit_i ''deepseek-'', one_of [''reasoner'', ''chat'']],
        27, 64000),
     (from_start [rx_lit_i ''qwen'', rx_opt (RSeq (rx_lit_i ''-'') (one_of [''plus'', ''turbo'', ''max'', ''long'']))],
        34, 32768),
     (from_start [rx_lit_i ''llama-3.1'', rx_opt (rx_seq [rx_lit_i ''-'', digits, rx_lit_i ''b''])],
        21, 128000),
     (from_start [rx_lit_i ''llama-3'', rx_opt (RSeq (rx_lit_i ''.'') digits),
        rx_opt (rx_seq [rx_lit_i ''-'', digits, rx_lit_i ''b'']), REos],
        29, 8192)]"

text \<open>Of the entries that match, the first of those with the longest source.\<close>

fun best_match :: "string \<Rightarrow> (rx \<times> nat \<times> nat) list \<Rightarrow> (nat \<times> nat) option \<Rightarrow> (nat \<times> nat) option" where
  "best_match model [] best = best"
| "best_match model ((r, len, window) # entries) best =
     best_match model entries
       (if rx_test r model \<and> (case best of None \<Rightarrow> True | Some (l, _) \<Rightarrow> l < len)
        then Some (len, window) else best)"

definition resolve_context_window :: "string \<Rightarrow> config_number option \<Rightarrow> nat" where
  "resolve_context_window model override =
     (case positive_integer override of
        Some n \<Rightarrow> n
      | None \<Rightarrow>
          (if model = [] then model_max_context_tokens
           else case best_match model known_model_context_windows None of
               Some (_, window) \<Rightarrow> window
             | None \<Rightarrow> model_max_context_tokens))"

section \<open>The split point\<close>

definition keep_recent_messages :: nat where
  "keep_recent_messages = 8"

text \<open>The calls of the leading message are answered before the next message that is no tool row.\<close>

fun all_answered :: "string list \<Rightarrow> message list \<Rightarrow> bool" where
  "all_answered ids [] = (ids = [])"
| "all_answered ids (m # ms) =
     (if is_tool m then (case answered_id m of
          Some i \<Rightarrow> all_answered (removeAll i ids) ms
        | None \<Rightarrow> all_answered ids ms)
      else ids = [])"

definition is_safe_split_boundary :: "message list \<Rightarrow> nat \<Rightarrow> bool" where
  "is_safe_split_boundary msgs idx =
     (if idx \<ge> length msgs then False
      else let m = msgs ! idx
           in if is_tool m then False
              else if calls_of m \<noteq> [] then all_answered (add_ids (call_ids m) []) (drop (Suc idx) msgs)
              else True)"

definition safe_split_point_from :: "message list \<Rightarrow> int \<Rightarrow> nat" where
  "safe_split_point_from msgs start =
     (if start \<le> 0 then 0
      else case find (is_safe_split_boundary msgs) [nat start..<length msgs] of
          Some split \<Rightarrow> split
        | None \<Rightarrow> (case find (is_safe_split_boundary msgs) (rev [1..<length msgs]) of
              Some split \<Rightarrow> split
            | None \<Rightarrow> length msgs))"

definition compute_safe_split_point :: "message list \<Rightarrow> nat" where
  "compute_safe_split_point msgs =
     safe_split_point_from msgs (int (length msgs) - int keep_recent_messages)"

definition tail_preserve_token_budget :: nat where
  "tail_preserve_token_budget = 8000"

text \<open>The loop, with the rounds that its guard leaves.\<close>

fun extend_tail :: "message list \<Rightarrow> nat \<Rightarrow> nat \<Rightarrow> nat \<Rightarrow> nat \<Rightarrow> nat" where
  "extend_tail msgs budget 0 split tail = split"
| "extend_tail msgs budget (Suc rounds) split tail =
     (if split > 1 \<and> tail < budget
      then case find (is_safe_split_boundary msgs) (rev [1..<split]) of
          None \<Rightarrow> split
        | Some prev \<Rightarrow> extend_tail msgs budget rounds prev
            (tail + estimate_tokens (take (split - prev) (drop prev msgs)))
      else split)"

definition extend_tail_to_token_budget :: "message list \<Rightarrow> nat \<Rightarrow> nat \<Rightarrow> nat" where
  "extend_tail_to_token_budget msgs split budget =
     extend_tail msgs budget (length msgs) split (estimate_tokens (drop split msgs))"

definition split_point :: "message list \<Rightarrow> nat" where
  "split_point msgs =
     extend_tail_to_token_budget msgs (compute_safe_split_point msgs) tail_preserve_token_budget"

section \<open>Errors\<close>

record thrown_error =
  th_name :: string
  th_message :: string
  th_status :: "int option"
  th_code :: "string option"

definition is_abort :: "thrown_error \<Rightarrow> bool \<Rightarrow> bool" where
  "is_abort err aborted =
     (let msg = to_lower (th_message err)
      in if aborted then True
         else if th_name err = ''AbortError'' then True
         else if is_prefix ''aborted'' msg \<or> is_prefix ''this operation was aborted'' msg then True
         else js_includes msg ''request was aborted'')"

definition network_codes :: "string list" where
  "network_codes = [''ECONNRESET'', ''ECONNREFUSED'', ''ENOTFOUND'', ''ETIMEDOUT'', ''EAI_AGAIN'',
     ''UND_ERR_CONNECT_TIMEOUT'', ''UND_ERR_SOCKET'']"

definition transient_message :: rx where
  "transient_message = rx_alt
     [rx_seq [rx_lit ''rate'', rx_opt (RChr dot), rx_lit ''limit''], rx_lit ''timeout'',
      rx_lit ''temporarily unavailable'', rx_lit ''overloaded'', rx_lit ''busy'',
      rx_lit ''try again later'', rx_lit ''internal server error'', rx_lit ''bad gateway'',
      rx_lit ''service unavailable'']"

definition is_retryable_error :: "thrown_error \<Rightarrow> bool" where
  "is_retryable_error err =
     (let by_text = (case th_code err of Some c \<Rightarrow> c \<in> set network_codes | None \<Rightarrow> False) \<or>
            rx_test transient_message (to_lower (th_message err))
      in case th_status err of
           Some status \<Rightarrow>
             (if status = 429 \<or> status = 408 \<or> (500 \<le> status \<and> status \<le> 599) then True
              else if 400 \<le> status \<and> status < 500 then False
              else by_text)
         | None \<Rightarrow> by_text)"

section \<open>The summary\<close>

text \<open>The text before and after the first occurrence of a tag, in any case of letters.\<close>

fun split_tag :: "string \<Rightarrow> string \<Rightarrow> (string \<times> string) option" where
  "split_tag tag s =
     (if is_prefix tag (to_lower s) then Some ([], drop (length tag) s)
      else case s of
          [] \<Rightarrow> None
        | c # cs \<Rightarrow> (case split_tag tag cs of None \<Rightarrow> None | Some (a, b) \<Rightarrow> Some (c # a, b)))"

definition between_tags :: "string \<Rightarrow> string \<Rightarrow> string \<Rightarrow> (string \<times> string \<times> string) option" where
  "between_tags opening closing s =
     (case split_tag opening s of
        None \<Rightarrow> None
      | Some (a, r) \<Rightarrow> (case split_tag closing r of None \<Rightarrow> None | Some (m, b) \<Rightarrow> Some (a, m, b)))"

definition extract_summary :: "string \<Rightarrow> string" where
  "extract_summary s =
     (let scratch = (case between_tags ''<analysis>'' ''</analysis>'' s of
            Some (a, _, b) \<Rightarrow> a @ b | None \<Rightarrow> s)
      in case between_tags ''<summary>'' ''</summary>'' s of
           Some (_, m, _) \<Rightarrow> if m \<noteq> [] then js_trim m else js_trim scratch
         | None \<Rightarrow> js_trim scratch)"

definition upper_role :: "role \<Rightarrow> string" where
  "upper_role r = (case r of RoleSystem \<Rightarrow> ''SYSTEM'' | RoleUser \<Rightarrow> ''USER''
     | RoleAssistant \<Rightarrow> ''ASSISTANT'' | RoleTool \<Rightarrow> ''TOOL'')"

text \<open>The arrow of a call line is the character 0x9B.\<close>

definition call_line :: "issued_call \<Rightarrow> string" where
  "call_line c = ''  '' @ [CHR 0x9B, CHR '' ''] @ ic_name c @ ''('' @ take 200 (ic_arguments c) @ '')''"

definition message_parts :: "message \<Rightarrow> string list" where
  "message_parts m =
     (case mg_content m of
        Text s \<Rightarrow> if s \<noteq> [] then [''['' @ upper_role (mg_role m) @ '']: '' @ s] else []
      | _ \<Rightarrow> []) @
     (if calls_of m \<noteq> []
      then [''[ASSISTANT tool calls]:'' @ new_line @ join_with new_line (map call_line (calls_of m))]
      else []) @
     (if is_tool m then (case mg_content m of
         Text s \<Rightarrow> [''[TOOL RESULT: '' @ default_to (mg_name m) ''?'' @ '']: '' @ take 500 s @
            (if length s > 500 then '' ...[truncated]'' else [])]
       | _ \<Rightarrow> []) else [])"

definition serialize_messages :: "message list \<Rightarrow> string" where
  "serialize_messages msgs = join_with (new_line @ new_line) (concat (map message_parts msgs))"

definition summary_prefix :: string where
  "summary_prefix = ''[CONVERSATION SUMMARY '' @ [CHR 0x97] @ '' previous context compacted]'' @
     new_line @ new_line"

section \<open>Compaction by a model\<close>

datatype summary_reply = Replied string | Failed thrown_error

text \<open>
  One attempt: whether the signal has fired when it starts and when the request fails, and what the
  named model answers to the prompt.
\<close>

record summary_attempt =
  sa_aborted_before :: bool
  sa_aborted_after :: bool
  sa_reply :: "string \<Rightarrow> string \<Rightarrow> summary_reply"

record compact_result =
  cr_compacted :: bool
  cr_messages :: "message list"
  cr_summary_tokens :: nat
  cr_original_tokens :: nat
  cr_error :: "string option"
  cr_retryable :: "bool option"

definition not_compacted :: "message list \<Rightarrow> (string \<times> bool) option \<Rightarrow> compact_result" where
  "not_compacted msgs failure = \<lparr>cr_compacted = False, cr_messages = msgs, cr_summary_tokens = 0,
     cr_original_tokens = estimate_tokens msgs, cr_error = map_option fst failure,
     cr_retryable = map_option snd failure\<rparr>"

definition plain_error :: "string \<Rightarrow> thrown_error" where
  "plain_error msg = \<lparr>th_name = ''Error'', th_message = msg, th_status = None, th_code = None\<rparr>"

definition summary_message :: "string \<Rightarrow> message" where
  "summary_message summary = \<lparr>mg_role = RoleSystem, mg_content = Text (summary_prefix @ summary),
     mg_calls = None, mg_call_id = None, mg_name = None, mg_reasoning = None\<rparr>"

definition summary_prompt :: "message list \<Rightarrow> string" where
  "summary_prompt older = ''Please summarize the following conversation:'' @ new_line @ new_line @
     serialize_messages older"

definition maybe_compact ::
  "summary_attempt \<Rightarrow> string \<Rightarrow> message list \<Rightarrow> thrown_error + compact_result" where
  "maybe_compact att model msgs =
     (if sa_aborted_before att
      then Inl (plain_error ''maybeCompact: aborted before summarization request'')
      else let split = split_point msgs;
               recent = drop split msgs;
               older = take split msgs
           in if older = [] \<or> length msgs < keep_recent_messages * 2 then Inr (not_compacted msgs None)
              else case sa_reply att model (summary_prompt older) of
                  Failed err \<Rightarrow>
                    (if is_abort err (sa_aborted_after att) then Inl err
                     else Inr (not_compacted msgs (Some (th_message err, is_retryable_error err))))
                | Replied text \<Rightarrow>
                    (let summary = extract_summary text;
                         compacted = summary_message summary # recent
                     in if summary = []
                        then Inr (not_compacted msgs (Some (''no summary extracted'', False)))
                        else Inr \<lparr>cr_compacted = True, cr_messages = compacted,
                               cr_summary_tokens = estimate_tokens compacted,
                               cr_original_tokens = estimate_tokens msgs,
                               cr_error = None, cr_retryable = None\<rparr>))"

text \<open>With retries and fallback models: attempt \<open>n\<close> of the whole call is \<open>att n\<close>.\<close>

record retry_result =
  rr_result :: compact_result
  rr_attempts :: nat
  rr_model :: string

datatype model_round = RoundThrows thrown_error | RoundDone retry_result | RoundOver "compact_result option" nat

fun retry_model ::
  "(nat \<Rightarrow> summary_attempt) \<Rightarrow> string \<Rightarrow> message list \<Rightarrow> nat \<Rightarrow> compact_result option \<Rightarrow> nat \<Rightarrow> model_round" where
  "retry_model att model msgs 0 prior count = RoundOver prior count"
| "retry_model att model msgs (Suc left) prior count =
     (case maybe_compact (att count) model msgs of
        Inr r \<Rightarrow>
          (if cr_compacted r
           then RoundDone \<lparr>rr_result = r, rr_attempts = Suc count, rr_model = model\<rparr>
           else if cr_retryable r \<noteq> Some True then RoundOver (Some r) (Suc count)
           else retry_model att model msgs left (Some r) (Suc count))
      | Inl err \<Rightarrow>
          (if is_abort err (sa_aborted_before (att count) \<or> sa_aborted_after (att count))
           then RoundThrows err
           else if \<not> is_retryable_error err
           then RoundOver (Some (not_compacted msgs (Some (th_message err, False)))) (Suc count)
           else retry_model att model msgs left
                  (Some (not_compacted msgs (Some (th_message err, True)))) (Suc count)))"

fun retry_models ::
  "(nat \<Rightarrow> summary_attempt) \<Rightarrow> nat \<Rightarrow> string list \<Rightarrow> message list \<Rightarrow> compact_result option \<Rightarrow> nat \<Rightarrow> model_round" where
  "retry_models att max_attempts [] msgs prior count = RoundOver prior count"
| "retry_models att max_attempts (model # models) msgs prior count =
     (case retry_model att model msgs max_attempts prior count of
        RoundOver prior' count' \<Rightarrow> retry_models att max_attempts models msgs prior' count'
      | done_or_thrown \<Rightarrow> done_or_thrown)"

definition maybe_compact_with_retry ::
  "(nat \<Rightarrow> summary_attempt) \<Rightarrow> string \<Rightarrow> message list \<Rightarrow> nat option \<Rightarrow> string list option \<Rightarrow>
     thrown_error + retry_result" where
  "maybe_compact_with_retry att primary msgs max_attempts fallbacks =
     (let ordered = primary # default_to fallbacks []
      in case retry_models att (default_to max_attempts 2) ordered msgs None 0 of
           RoundThrows err \<Rightarrow> Inl err
         | RoundDone r \<Rightarrow> Inr r
         | RoundOver prior count \<Rightarrow> Inr \<lparr>rr_result = default_to prior (not_compacted msgs None),
             rr_attempts = count, rr_model = List.last ordered\<rparr>)"

section \<open>Clearing old tool results\<close>

definition keep_recent_tool_results :: nat where
  "keep_recent_tool_results = 6"

definition cleared_placeholder :: string where
  "cleared_placeholder = ''[Old tool result content cleared '' @ [CHR 0x97] @
     '' re-run the tool if needed]''"

definition compactable_tools :: "string list" where
  "compactable_tools = [''Read'', ''Glob'', ''Grep'', ''WebFetch'', ''WebSearch'', ''Bash'']"

definition is_clearable :: "message \<Rightarrow> bool" where
  "is_clearable m \<longleftrightarrow> is_tool m \<and> default_to (mg_name m) [] \<in> set compactable_tools \<and>
     mg_content m \<noteq> Text cleared_placeholder"

definition tool_result_indices :: "message list \<Rightarrow> nat list" where
  "tool_result_indices msgs = filter (\<lambda>i. is_clearable (msgs ! i)) [0..<length msgs]"

fun clear_results :: "nat list \<Rightarrow> message list \<Rightarrow> nat \<Rightarrow> message list \<times> nat" where
  "clear_results [] msgs cleared = (msgs, cleared)"
| "clear_results (i # is) msgs cleared =
     (case mg_content (msgs ! i) of
        Text s \<Rightarrow>
          (if length s > length cleared_placeholder
           then clear_results is (msgs[i := (msgs ! i)\<lparr>mg_content := Text cleared_placeholder\<rparr>]) (Suc cleared)
           else clear_results is msgs cleared)
      | _ \<Rightarrow> clear_results is msgs cleared)"

record micro_result =
  mr_compacted :: bool
  mr_messages :: "message list"
  mr_tokens_before :: nat
  mr_tokens_after :: nat
  mr_cleared :: nat

definition nothing_cleared :: "message list \<Rightarrow> micro_result" where
  "nothing_cleared msgs = \<lparr>mr_compacted = False, mr_messages = msgs,
     mr_tokens_before = estimate_tokens msgs, mr_tokens_after = estimate_tokens msgs, mr_cleared = 0\<rparr>"

definition micro_compact :: "message list \<Rightarrow> micro_result" where
  "micro_compact msgs =
     (let indices = tool_result_indices msgs
      in if length indices \<le> keep_recent_tool_results then nothing_cleared msgs
         else let (msgs', cleared) =
                    clear_results (take (length indices - keep_recent_tool_results) indices) msgs 0
              in if cleared = 0 then nothing_cleared msgs
                 else \<lparr>mr_compacted = True, mr_messages = msgs',
                        mr_tokens_before = estimate_tokens msgs,
                        mr_tokens_after = estimate_tokens msgs', mr_cleared = cleared\<rparr>)"

definition cache_threshold_ms :: int where
  "cache_threshold_ms = 5 * 60 * 1000"

definition maybe_time_based_micro_compact :: "message list \<Rightarrow> int option \<Rightarrow> int \<Rightarrow> micro_result" where
  "maybe_time_based_micro_compact msgs last_assistant now =
     (case last_assistant of
        None \<Rightarrow> nothing_cleared msgs
      | Some ts \<Rightarrow> if now - ts < cache_threshold_ms then nothing_cleared msgs else micro_compact msgs)"

section \<open>The context manager\<close>

record budget_snapshot =
  bs_run :: "string option"
  bs_window :: nat
  bs_input_tokens :: nat
  bs_input_budget :: int
  bs_usage_ratio :: rat
  bs_remaining :: int
  bs_remaining_ratio :: rat
  bs_failures :: nat
  bs_initialized :: bool

datatype context_event =
    TimeBasedClearing nat
  | PressureClearing nat
  | ContextWarning nat nat
  | CompactStart nat
  | CompactDone nat nat
  | FailureWarning nat
  | SnipLogged nat

record context_manager =
  cm_model :: string
  cm_max_context :: "config_number option"
  cm_max_output :: "config_number option"
  cm_session_dir :: bool
  cm_prompt_tokens :: nat
  cm_last_assistant :: "int option"
  cm_failures :: nat
  cm_suppress_warning :: bool
  cm_warned :: bool
  cm_window :: "nat option"
  cm_pending_snip :: "nat option"
  cm_snapshot :: budget_snapshot
  cm_run :: "string option"
  cm_working_state :: working_state
  cm_events :: "context_event list"

definition context_window :: "context_manager \<Rightarrow> nat" where
  "context_window cm =
     default_to (cm_window cm) (resolve_context_window (cm_model cm) (cm_max_context cm))"

definition on_model_changed :: "string \<Rightarrow> context_manager \<Rightarrow> context_manager" where
  "on_model_changed model cm =
     (if cm_model cm = model then cm else cm\<lparr>cm_model := model, cm_window := None\<rparr>)"

definition begin_turn :: "string \<Rightarrow> context_manager \<Rightarrow> context_manager" where
  "begin_turn system_prompt cm = cm\<lparr>cm_prompt_tokens := string_tokens (length system_prompt) + 20\<rparr>"

definition stamp_assistant_message :: "int \<Rightarrow> context_manager \<Rightarrow> context_manager" where
  "stamp_assistant_message now cm = cm\<lparr>cm_last_assistant := Some now\<rparr>"

definition log_context :: "context_event \<Rightarrow> context_manager \<Rightarrow> context_manager" where
  "log_context ev cm = cm\<lparr>cm_events := cm_events cm @ [ev]\<rparr>"

definition measure_budget :: "string list option \<Rightarrow> message list \<Rightarrow> context_manager \<Rightarrow> context_manager" where
  "measure_budget tool_defs msgs cm =
     (let window = context_window cm;
          total = estimate_tokens msgs + cm_prompt_tokens cm + estimate_tool_definition_tokens tool_defs;
          budget = effective_input_budget (int window) (cm_max_output cm);
          remaining = max 0 (budget - int total)
      in cm\<lparr>cm_window := Some window,
            cm_snapshot := \<lparr>bs_run = cm_run cm, bs_window = window, bs_input_tokens = total,
              bs_input_budget = budget, bs_usage_ratio = of_nat total / of_int budget,
              bs_remaining = remaining,
              bs_remaining_ratio = max 0 (min 1 (of_int remaining / of_int budget)),
              bs_failures = cm_failures cm, bs_initialized = True\<rparr>\<rparr>)"

definition invariant_error :: thrown_error where
  "invariant_error = \<lparr>th_name = ''CompactionInvariantError'', th_message = ''CompactionInvariantError'',
     th_status = None, th_code = None\<rparr>"

definition guarded_compact ::
  "summary_attempt \<Rightarrow> message list \<Rightarrow> context_manager \<Rightarrow> thrown_error + compact_result" where
  "guarded_compact att msgs cm =
     (case maybe_compact att (cm_model cm) msgs of
        Inl err \<Rightarrow> Inl err
      | Inr r \<Rightarrow>
          (case compact_with_invariants (cr_compacted r, r) (Some (cm_working_state cm))
                  (\<lambda>_. Some (cm_working_state cm)) of
             Inl _ \<Rightarrow> Inl invariant_error
           | Inr (_, r') \<Rightarrow> Inr r'))"

definition clear_by_time :: "bool \<Rightarrow> int \<Rightarrow> message list \<times> context_manager \<Rightarrow> message list \<times> context_manager" where
  "clear_by_time should_compact now = (\<lambda>(msgs, cm).
     if should_compact then (msgs, cm)
     else let r = maybe_time_based_micro_compact msgs (cm_last_assistant cm) now
          in (mr_messages r, if mr_compacted r then log_context (TimeBasedClearing (mr_cleared r)) cm else cm))"

definition clear_by_pressure :: "bool \<Rightarrow> message list \<times> context_manager \<Rightarrow> message list \<times> context_manager" where
  "clear_by_pressure wanted = (\<lambda>(msgs, cm).
     if \<not> wanted then (msgs, cm)
     else let r = micro_compact msgs
          in (mr_messages r, if mr_compacted r then log_context (PressureClearing (mr_cleared r)) cm else cm))"

definition count_failure :: "context_manager \<Rightarrow> context_manager" where
  "count_failure cm =
     (let n = Suc (cm_failures cm); cm' = cm\<lparr>cm_failures := n\<rparr>
      in if n \<ge> 3 then log_context (FailureWarning n) cm' else cm')"

definition warn_once :: "budget_snapshot \<Rightarrow> bool \<Rightarrow> context_manager \<Rightarrow> context_manager" where
  "warn_once prev suppressed cm =
     (let pct = bs_usage_ratio prev;
          cm1 = (if pct < 7 / 10 then cm\<lparr>cm_warned := False\<rparr> else cm)
      in if cm_session_dir cm1 \<and> 7 / 10 \<le> pct \<and> \<not> suppressed \<and> \<not> cm_warned cm1
         then (log_context (ContextWarning (bs_input_tokens prev) (bs_window prev)) cm1)\<lparr>cm_warned := True\<rparr>
         else cm1)"

text \<open>What the policy does before it decides on a compaction.\<close>

definition relieve_pressure ::
  "int \<Rightarrow> budget_snapshot \<Rightarrow> message list \<times> context_manager \<Rightarrow> message list \<times> context_manager" where
  "relieve_pressure now prev = (\<lambda>(msgs0, cm0).
     let suppressed = cm_suppress_warning cm0;
         pct = bs_usage_ratio prev;
         should_compact = (85 / 100 \<le> pct);
         (msgs, cm) = clear_by_pressure (1 / 2 \<le> pct \<and> \<not> should_compact)
           (clear_by_time should_compact now (msgs0, cm0\<lparr>cm_suppress_warning := False\<rparr>))
     in (msgs, warn_once prev suppressed cm))"

definition apply_budget_policy ::
  "int \<Rightarrow> summary_attempt \<Rightarrow> string list option \<Rightarrow> budget_snapshot \<Rightarrow> message list \<times> context_manager \<Rightarrow>
     (thrown_error + budget_snapshot) \<times> message list \<times> context_manager" where
  "apply_budget_policy now att tool_defs prev s =
     (let (msgs, cm) = relieve_pressure now prev s
      in if 85 / 100 \<le> bs_usage_ratio prev \<and> cm_failures cm < 3
        then let cm2 = log_context (CompactStart (bs_input_tokens prev)) cm
             in (case guarded_compact att msgs cm2 of
                   Inl err \<Rightarrow>
                     (if th_name err = ''AbortError'' then (Inl err, msgs, cm2)
                      else let cm3 = measure_budget tool_defs msgs (count_failure cm2)
                           in (Inr (cm_snapshot cm3), msgs, cm3))
                 | Inr r \<Rightarrow>
                     (if cr_compacted r
                      then let cm3 = measure_budget tool_defs (cr_messages r)
                             ((log_context (CompactDone (cr_original_tokens r) (cr_summary_tokens r))
                                (cm2\<lparr>cm_warned := False\<rparr>))
                              \<lparr>cm_failures := 0, cm_suppress_warning := True\<rparr>)
                           in (Inr (cm_snapshot cm3), cr_messages r, cm3)
                      else let cm3 = measure_budget tool_defs msgs (count_failure cm2)
                           in (Inr (cm_snapshot cm3), msgs, cm3)))
        else (Inr prev, msgs, cm))"

definition evaluate_budget ::
  "int \<Rightarrow> summary_attempt \<Rightarrow> string list option \<Rightarrow> message list \<times> context_manager \<Rightarrow>
     (thrown_error + budget_snapshot) \<times> message list \<times> context_manager" where
  "evaluate_budget now att tool_defs = (\<lambda>(msgs, cm).
     let cm' = measure_budget tool_defs msgs cm
     in apply_budget_policy now att tool_defs (cm_snapshot cm') (msgs, cm'))"

definition reactive_compact ::
  "summary_attempt \<Rightarrow> message list \<times> context_manager \<Rightarrow> (thrown_error + bool) \<times> message list \<times> context_manager" where
  "reactive_compact att = (\<lambda>(msgs, cm).
     case guarded_compact att msgs cm of
       Inl err \<Rightarrow> (Inl err, msgs, cm)
     | Inr r \<Rightarrow>
         (if cr_compacted r
          then (Inr True, cr_messages r,
            log_context (CompactDone (cr_original_tokens r) (cr_summary_tokens r)) (cm\<lparr>cm_warned := False\<rparr>))
          else (Inr False, msgs, cm)))"

section \<open>Snipping\<close>

text \<open>\<open>Array.prototype.slice\<close> with the negated count: the count 0 gives the whole list.\<close>

definition slice_from_end :: "nat \<Rightarrow> 'a list \<Rightarrow> 'a list" where
  "slice_from_end k xs = (if k = 0 then xs else drop (length xs - k) xs)"

definition snip_boundary :: "nat \<Rightarrow> string option \<Rightarrow> message" where
  "snip_boundary removed reason = \<lparr>mg_role = RoleSystem,
     mg_content = Text (''[runtime snip] '' @ show_nat removed @
       '' older messages were removed to free context space'' @
       (case reason of None \<Rightarrow> [] | Some r \<Rightarrow> if r = [] then [] else '' ('' @ r @ '')'') @
       ''. Continue working from the current context '' @ [CHR 0x97] @
       '' earlier details are no longer available.''),
     mg_calls = None, mg_call_id = None, mg_name = None, mg_reasoning = None\<rparr>"

definition apply_snip ::
  "nat \<Rightarrow> string option \<Rightarrow> message list \<times> context_manager \<Rightarrow> (nat \<times> int) \<times> message list \<times> context_manager" where
  "apply_snip keep reason = (\<lambda>(msgs, cm).
     let removed = length msgs - keep
     in if removed = 0 then ((0, 0), msgs, cm)
        else let msgs' = snip_boundary removed reason # slice_from_end keep msgs
             in ((removed, int (estimate_tokens msgs) - int (estimate_tokens msgs')), msgs',
                 log_context (SnipLogged removed) cm))"

definition queue_snip :: "int \<Rightarrow> context_manager \<Rightarrow> context_manager" where
  "queue_snip keep cm = (if keep \<ge> 0 then cm\<lparr>cm_pending_snip := Some (nat keep)\<rparr> else cm)"

definition consume_queued_snip :: "message list \<times> context_manager \<Rightarrow> message list \<times> context_manager" where
  "consume_queued_snip = (\<lambda>(msgs, cm).
     case cm_pending_snip cm of
       None \<Rightarrow> (msgs, cm)
     | Some keep \<Rightarrow> snd (apply_snip keep (Some ''queued via /snip'') (msgs, cm\<lparr>cm_pending_snip := None\<rparr>)))"

section \<open>Lemmas on the split point\<close>

lemma safe_starts_turn: "is_safe_split_boundary msgs i \<Longrightarrow> i < length msgs \<and> starts_turn (drop i msgs)"
  by (auto simp: is_safe_split_boundary_def Let_def Cons_nth_drop_Suc [symmetric] split: if_splits)

lemma safe_split_point_cases:
  "let s = safe_split_point_from msgs start
   in s \<le> length msgs \<and> (s = 0 \<or> s = length msgs \<or> is_safe_split_boundary msgs s)"
  by (auto simp: safe_split_point_from_def Let_def dest: find_SomeD split: option.splits)

lemma extend_tail_cases:
  "let s = extend_tail msgs budget rounds split tail
   in s = split \<or> s < split \<and> is_safe_split_boundary msgs s"
  by (induction msgs budget rounds split tail rule: extend_tail.induct)
    (fastforce simp: Let_def dest: find_SomeD split: option.splits)+

lemma split_point_cases:
  "let s = split_point msgs
   in s \<le> length msgs \<and> (s = 0 \<or> s = length msgs \<or> is_safe_split_boundary msgs s)"
  using safe_split_point_cases [of msgs "int (length msgs) - int keep_recent_messages"]
    extend_tail_cases [of msgs tail_preserve_token_budget "length msgs" "compute_safe_split_point msgs"
      "estimate_tokens (drop (compute_safe_split_point msgs) msgs)"]
  by (auto simp: split_point_def extend_tail_to_token_budget_def compute_safe_split_point_def Let_def)

lemma split_starts_turn:
  "take (split_point msgs) msgs \<noteq> [] \<Longrightarrow> starts_turn (drop (split_point msgs) msgs)"
  using split_point_cases [of msgs] by (auto simp: Let_def dest: safe_starts_turn)

section \<open>Lemmas on compaction\<close>

lemma summary_message_plain: "is_plain (summary_message summary)"
  by (simp add: summary_message_def is_plain_def is_tool_def calls_of_def)

lemma maybe_compact_cases:
  obtains (Aborted) err where "maybe_compact att model msgs = Inl err"
      "sa_aborted_before att \<or> (\<exists>prompt. sa_reply att model prompt = Failed err \<and> is_abort err (sa_aborted_after att))"
  | (Unchanged) failure where "maybe_compact att model msgs = Inr (not_compacted msgs failure)"
  | (Compacted) r summary where "maybe_compact att model msgs = Inr r" "cr_compacted r" "summary \<noteq> []"
      "take (split_point msgs) msgs \<noteq> []" "2 * keep_recent_messages \<le> length msgs"
      "cr_messages r = summary_message summary # drop (split_point msgs) msgs"
      "\<exists>text. sa_reply att model (summary_prompt (take (split_point msgs) msgs)) = Replied text \<and>
        summary = extract_summary text"
      "cr_summary_tokens r = estimate_tokens (cr_messages r)" "cr_original_tokens r = estimate_tokens msgs"
proof -
  let ?older = "take (split_point msgs) msgs"
  consider "sa_aborted_before att"
    | "\<not> sa_aborted_before att" "?older = [] \<or> length msgs < keep_recent_messages * 2"
    | "\<not> sa_aborted_before att" "?older \<noteq> []" "2 * keep_recent_messages \<le> length msgs"
    by linarith
  then show thesis
  proof cases
    case 1
    then show ?thesis using Aborted by (simp add: maybe_compact_def)
  next
    case 2
    then show ?thesis using Unchanged by (simp add: maybe_compact_def Let_def)
  next
    case 3
    show ?thesis
    proof (cases "sa_reply att model (summary_prompt ?older)")
      case (Replied answer)
      show ?thesis
      proof (cases "extract_summary answer = []")
        case True
        with 3 Replied show ?thesis by (intro Unchanged) (simp add: maybe_compact_def Let_def)
      next
        case False
        let ?msgs' = "summary_message (extract_summary answer) # drop (split_point msgs) msgs"
        let ?r = "\<lparr>cr_compacted = True, cr_messages = ?msgs', cr_summary_tokens = estimate_tokens ?msgs',
          cr_original_tokens = estimate_tokens msgs, cr_error = None, cr_retryable = None\<rparr>"
        from 3 Replied False have "maybe_compact att model msgs = Inr ?r"
          by (simp add: maybe_compact_def Let_def)
        with 3 Replied False show ?thesis
          by (intro Compacted [of ?r "extract_summary answer"]) simp_all
      qed
    next
      case (Failed err)
      show ?thesis
      proof (cases "is_abort err (sa_aborted_after att)")
        case True
        with 3 Failed show ?thesis by (intro Aborted) (auto simp: maybe_compact_def Let_def)
      next
        case False
        with 3 Failed show ?thesis by (intro Unchanged) (simp add: maybe_compact_def Let_def)
      qed
    qed
  qed
qed

lemma not_compacted_simps [simp]:
  "cr_messages (not_compacted msgs failure) = msgs" "cr_compacted (not_compacted msgs failure) = False"
  by (simp_all add: not_compacted_def)

lemma maybe_compact_paired:
  assumes "maybe_compact att model msgs = Inr r" and "well_paired msgs"
  shows "well_paired (cr_messages r)"
proof (cases rule: maybe_compact_cases [of att model msgs])
  case (Compacted r' summary)
  with assms have "starts_turn (drop (split_point msgs) msgs)" "well_paired (drop (split_point msgs) msgs)"
    by (simp_all add: split_starts_turn well_paired_drop(2))
  moreover have "well_paired [summary_message summary]"
    by (rule plain_paired) (simp add: summary_message_plain)
  ultimately show ?thesis
    using Compacted assms well_paired_append [of "drop (split_point msgs) msgs" "[summary_message summary]"]
    by simp
qed (use assms in auto)

text \<open>Before and after are the same working state, so the guard passes whatever the model answers.\<close>

lemma guarded_is_unguarded: "guarded_compact att msgs cm = maybe_compact att (cm_model cm) msgs"
proof -
  have "assert_compaction_invariants ws ws = Inr ()" for ws
    by (simp add: assert_compaction_invariants_def Let_def violations_Nil retains_def missing_from_Nil)
  then show ?thesis
    by (auto simp: guarded_compact_def compact_with_invariants_def split: sum.splits prod.splits bool.splits)
qed

section \<open>Lemmas on clearing\<close>

text \<open>What pairing looks at: everything but the content.\<close>

definition skeleton :: "message \<Rightarrow> message" where
  "skeleton m = m\<lparr>mg_content := NullContent\<rparr>"

definition cleared_message :: "message \<Rightarrow> message" where
  "cleared_message m = m\<lparr>mg_content := Text cleared_placeholder\<rparr>"

definition is_large :: "message \<Rightarrow> bool" where
  "is_large m = (case mg_content m of Text s \<Rightarrow> length s > length cleared_placeholder | _ \<Rightarrow> False)"

lemma skeleton_simps [simp]:
  "is_tool (skeleton m) = is_tool m" "calls_of (skeleton m) = calls_of m"
  "call_ids (skeleton m) = call_ids m" "answered_id (skeleton m) = answered_id m"
  "skeleton (cleared_message m) = skeleton m"
  by (simp_all add: skeleton_def cleared_message_def is_tool_def calls_of_def call_ids_def answered_id_def)

lemma paired_skeleton: "paired_from P (map skeleton ms) = paired_from P ms"
  by (induction ms arbitrary: P) (simp_all split: option.splits)

lemma same_skeleton_paired: "map skeleton ms = map skeleton ns \<Longrightarrow> well_paired ms = well_paired ns"
  by (metis paired_skeleton well_paired_def)

definition clear_at :: "nat list \<Rightarrow> message list \<Rightarrow> message list" where
  "clear_at is msgs = map (\<lambda>j. if j \<in> set is \<and> is_large (msgs ! j) then cleared_message (msgs ! j)
     else msgs ! j) [0..<length msgs]"

lemma clear_results_eq:
  "distinct is \<Longrightarrow> set is \<subseteq> {..<length msgs} \<Longrightarrow>
     clear_results is msgs c = (clear_at is msgs, c + length (filter (\<lambda>i. is_large (msgs ! i)) is))"
proof (induction "is" arbitrary: msgs c)
  case Nil
  show ?case by (simp add: clear_at_def map_nth)
next
  case (Cons i "is")
  show ?case
  proof (cases "is_large (msgs ! i)")
    case True
    let ?msgs = "msgs[i := cleared_message (msgs ! i)]"
    have "clear_results (i # is) msgs c = clear_results is ?msgs (Suc c)"
      using True by (auto simp: is_large_def cleared_message_def split: content.splits)
    also have "\<dots> = (clear_at is ?msgs, Suc c + length (filter (\<lambda>i. is_large (?msgs ! i)) is))"
      using Cons by simp
    also have "clear_at is ?msgs = clear_at (i # is) msgs"
      using Cons.prems True by (auto simp: clear_at_def nth_list_update intro!: map_cong)
    also have "filter (\<lambda>j. is_large (?msgs ! j)) is = filter (\<lambda>j. is_large (msgs ! j)) is"
      using Cons.prems by (intro filter_cong) (auto simp: nth_list_update)
    finally show ?thesis using True by simp
  next
    case False
    then have "clear_results (i # is) msgs c = clear_results is msgs c"
      by (auto simp: is_large_def split: content.splits)
    moreover have "clear_at (i # is) msgs = clear_at is msgs"
      using False by (auto simp: clear_at_def intro!: map_cong)
    ultimately show ?thesis using Cons False by simp
  qed
qed

lemma length_clear_at [simp]: "length (clear_at is msgs) = length msgs"
  by (simp add: clear_at_def)

lemma nth_clear_at:
  "j < length msgs \<Longrightarrow> clear_at is msgs ! j =
     (if j \<in> set is \<and> is_large (msgs ! j) then cleared_message (msgs ! j) else msgs ! j)"
  by (simp add: clear_at_def)

lemma clear_at_skeleton: "map skeleton (clear_at is msgs) = map skeleton msgs"
  by (rule nth_equalityI) (simp_all add: nth_clear_at)

lemma clear_at_none: "filter (\<lambda>i. is_large (msgs ! i)) is = [] \<Longrightarrow> clear_at is msgs = msgs"
  by (rule nth_equalityI) (auto simp: nth_clear_at filter_empty_conv)

definition cleared_indices :: "message list \<Rightarrow> nat list" where
  "cleared_indices msgs = filter (\<lambda>i. is_large (msgs ! i))
     (take (length (tool_result_indices msgs) - keep_recent_tool_results) (tool_result_indices msgs))"

lemma tool_result_indices_bound:
  "distinct (tool_result_indices msgs) \<and> set (tool_result_indices msgs) \<subseteq> {..<length msgs}"
  by (auto simp: tool_result_indices_def)

lemma micro_compact_eq:
  "micro_compact msgs =
     (if cleared_indices msgs = [] then nothing_cleared msgs
      else \<lparr>mr_compacted = True, mr_messages = clear_at (cleared_indices msgs) msgs,
             mr_tokens_before = estimate_tokens msgs,
             mr_tokens_after = estimate_tokens (clear_at (cleared_indices msgs) msgs),
             mr_cleared = length (cleared_indices msgs)\<rparr>)"
proof -
  let ?is = "tool_result_indices msgs"
  let ?old = "take (length ?is - keep_recent_tool_results) ?is"
  have bounds: "distinct ?old" "set ?old \<subseteq> {..<length msgs}"
    using tool_result_indices_bound [of msgs] by (auto dest: in_set_takeD)
  have "clear_at ?old msgs = clear_at (cleared_indices msgs) msgs"
    by (auto simp: clear_at_def cleared_indices_def intro!: map_cong)
  then have clear: "clear_results ?old msgs 0 =
      (clear_at (cleared_indices msgs) msgs, length (cleared_indices msgs))"
    using clear_results_eq [OF bounds, of 0] by (simp add: cleared_indices_def)
  show ?thesis
  proof (cases "length ?is \<le> keep_recent_tool_results")
    case True
    then have "cleared_indices msgs = []" by (simp add: cleared_indices_def)
    with True show ?thesis by (simp add: micro_compact_def Let_def)
  next
    case False
    then show ?thesis by (simp add: micro_compact_def Let_def clear)
  qed
qed

lemma nothing_cleared_simps [simp]:
  "mr_messages (nothing_cleared msgs) = msgs" "mr_compacted (nothing_cleared msgs) = False"
  "mr_cleared (nothing_cleared msgs) = 0"
  by (simp_all add: nothing_cleared_def)

lemma micro_messages: "mr_messages (micro_compact msgs) = clear_at (cleared_indices msgs) msgs"
  by (simp add: micro_compact_eq clear_at_none)

lemma micro_skeleton: "map skeleton (mr_messages (micro_compact msgs)) = map skeleton msgs"
  by (simp add: micro_messages clear_at_skeleton)

lemma time_based_messages:
  "mr_messages (maybe_time_based_micro_compact msgs ts now) = msgs \<or>
   mr_messages (maybe_time_based_micro_compact msgs ts now) = mr_messages (micro_compact msgs)"
  by (simp add: maybe_time_based_micro_compact_def split: option.splits)

lemma placeholder_small: "\<not> is_large (cleared_message m)" "\<not> is_clearable (cleared_message m)"
  by (simp_all add: is_large_def cleared_message_def is_clearable_def)

lemma indices_after_clearing:
  "tool_result_indices (clear_at (cleared_indices msgs) msgs) =
     filter (\<lambda>i. i \<notin> set (cleared_indices msgs)) (tool_result_indices msgs)"
  unfolding tool_result_indices_def length_clear_at filter_filter
proof (rule filter_cong [OF refl])
  fix i assume "i \<in> set [0..<length msgs]"
  then have "i < length msgs" by simp
  moreover have "is_large (msgs ! i)" if "i \<in> set (cleared_indices msgs)"
    using that by (simp add: cleared_indices_def)
  ultimately show "is_clearable (clear_at (cleared_indices msgs) msgs ! i) \<longleftrightarrow>
      is_clearable (msgs ! i) \<and> i \<notin> set (cleared_indices msgs)"
    by (auto simp: nth_clear_at placeholder_small)
qed

lemma micro_idempotent:
  "cleared_indices (mr_messages (micro_compact msgs)) = []"
proof -
  let ?is = "tool_result_indices msgs" and ?k = keep_recent_tool_results
  let ?old = "take (length ?is - ?k) ?is" and ?new = "drop (length ?is - ?k) ?is"
  have split: "?is = ?old @ ?new" by simp
  have disjoint: "set ?old \<inter> set ?new = {}"
    using tool_result_indices_bound [of msgs] split by (metis distinct_append)
  have "filter (\<lambda>i. i \<notin> set (cleared_indices msgs)) ?new = ?new"
    using disjoint by (intro filter_True) (auto simp: cleared_indices_def)
  then have after: "tool_result_indices (mr_messages (micro_compact msgs)) =
      filter (\<lambda>i. i \<notin> set (cleared_indices msgs)) ?old @ ?new"
    unfolding micro_messages indices_after_clearing by (metis append_take_drop_id filter_append)
  have "length ?new \<le> ?k" by simp
  then have "set (take (length (tool_result_indices (mr_messages (micro_compact msgs))) - ?k)
      (tool_result_indices (mr_messages (micro_compact msgs)))) \<subseteq>
      {i \<in> set ?old. i \<notin> set (cleared_indices msgs)}"
    unfolding after
    by (auto simp: take_append dest!: in_set_takeD)
  moreover have "\<not> is_large (mr_messages (micro_compact msgs) ! i)"
    if "i \<in> set ?old" "i \<notin> set (cleared_indices msgs)" for i
  proof -
    have "i < length msgs" using that tool_result_indices_bound [of msgs] by (auto dest: in_set_takeD)
    with that show ?thesis by (auto simp: micro_messages nth_clear_at cleared_indices_def)
  qed
  ultimately show ?thesis
    unfolding cleared_indices_def [of "mr_messages (micro_compact msgs)"] by (auto simp: filter_empty_conv)
qed

section \<open>Lemmas on the policy\<close>

lemma log_context_simps [simp]:
  "cm_failures (log_context ev cm) = cm_failures cm" "cm_model (log_context ev cm) = cm_model cm"
  "cm_window (log_context ev cm) = cm_window cm" "cm_max_context (log_context ev cm) = cm_max_context cm"
  "cm_max_output (log_context ev cm) = cm_max_output cm"
  "cm_prompt_tokens (log_context ev cm) = cm_prompt_tokens cm"
  "cm_run (log_context ev cm) = cm_run cm"
  by (simp_all add: log_context_def)

text \<open>What the measurement depends on.\<close>

definition same_measure :: "context_manager \<Rightarrow> context_manager \<Rightarrow> bool" where
  "same_measure cm cm' \<longleftrightarrow> context_window cm' = context_window cm \<and> cm_max_output cm' = cm_max_output cm \<and>
     cm_prompt_tokens cm' = cm_prompt_tokens cm \<and> cm_model cm' = cm_model cm"

lemma context_window_cong:
  "cm_window cm' = cm_window cm \<Longrightarrow> cm_model cm' = cm_model cm \<Longrightarrow> cm_max_context cm' = cm_max_context cm \<Longrightarrow>
     context_window cm' = context_window cm"
  by (simp add: context_window_def)

lemma measure_budget_simps [simp]:
  "cm_failures (measure_budget defs msgs cm) = cm_failures cm"
  "cm_events (measure_budget defs msgs cm) = cm_events cm"
  by (simp_all add: measure_budget_def Let_def)

lemma measure_same [simp]: "same_measure cm (measure_budget defs msgs cm)"
  by (simp add: same_measure_def measure_budget_def Let_def context_window_def)

lemma same_measure_trans: "same_measure a b \<Longrightarrow> same_measure b c \<Longrightarrow> same_measure a c"
  by (simp add: same_measure_def)

lemma same_measure_ratio:
  "same_measure cm cm' \<Longrightarrow> bs_usage_ratio (cm_snapshot (measure_budget defs msgs cm')) =
     bs_usage_ratio (cm_snapshot (measure_budget defs msgs cm))"
  by (simp add: same_measure_def measure_budget_def Let_def)

definition quiet_step :: "message list \<times> context_manager \<Rightarrow> message list \<times> context_manager \<Rightarrow> bool" where
  "quiet_step s s' \<longleftrightarrow> map skeleton (fst s') = map skeleton (fst s) \<and>
     cm_failures (snd s') = cm_failures (snd s) \<and> same_measure (snd s) (snd s')"

lemma quiet_step_trans: "quiet_step a b \<Longrightarrow> quiet_step b c \<Longrightarrow> quiet_step a c"
  by (auto simp: quiet_step_def intro: same_measure_trans)

lemma log_quiet: "map skeleton msgs' = map skeleton msgs \<Longrightarrow> quiet_step (msgs, cm) (msgs', log_context ev cm)"
  by (simp add: quiet_step_def same_measure_def context_window_def)

lemma clear_by_time_quiet: "quiet_step s (clear_by_time b now s)"
proof (cases s)
  case (Pair msgs cm)
  let ?r = "maybe_time_based_micro_compact msgs (cm_last_assistant cm) now"
  have skel: "map skeleton (mr_messages ?r) = map skeleton msgs"
    using time_based_messages [of msgs "cm_last_assistant cm" now] micro_skeleton [of msgs] by auto
  have "quiet_step (msgs, cm) (mr_messages ?r, cm)"
    using skel by (simp add: quiet_step_def same_measure_def)
  with skel log_quiet [OF skel] show ?thesis
    by (simp add: Pair clear_by_time_def Let_def quiet_step_def same_measure_def)
qed

lemma clear_by_pressure_quiet: "quiet_step s (clear_by_pressure b s)"
proof (cases s)
  case (Pair msgs cm)
  have "quiet_step (msgs, cm) (mr_messages (micro_compact msgs), cm)"
    using micro_skeleton [of msgs] by (simp add: quiet_step_def same_measure_def)
  with log_quiet [OF micro_skeleton [of msgs]] show ?thesis
    by (simp add: Pair clear_by_pressure_def Let_def quiet_step_def same_measure_def)
qed

lemma relieve_quiet: "quiet_step s (relieve_pressure now prev s)"
proof (cases s)
  case (Pair msgs cm)
  let ?b = "(85 / 100 \<le> bs_usage_ratio prev)"
  let ?t = "clear_by_pressure (1 / 2 \<le> bs_usage_ratio prev \<and> \<not> ?b)
    (clear_by_time ?b now (msgs, cm\<lparr>cm_suppress_warning := False\<rparr>))"
  have "quiet_step (msgs, cm) (msgs, cm\<lparr>cm_suppress_warning := False\<rparr>)"
    by (simp add: quiet_step_def same_measure_def context_window_def)
  then have start: "quiet_step s ?t"
    unfolding Pair by (rule quiet_step_trans [OF quiet_step_trans [OF _ clear_by_time_quiet] clear_by_pressure_quiet])
  have warn: "quiet_step (fst ?t, snd ?t) (fst ?t, warn_once prev b (snd ?t))" for b
    by (simp add: quiet_step_def same_measure_def warn_once_def Let_def context_window_def)
  have "relieve_pressure now prev s = (fst ?t, warn_once prev (cm_suppress_warning cm) (snd ?t))"
    by (simp add: Pair relieve_pressure_def Let_def case_prod_beta)
  with quiet_step_trans [OF start] warn show ?thesis by simp
qed

lemma count_failure_simps [simp]:
  "cm_failures (count_failure cm) = Suc (cm_failures cm)" "same_measure cm (count_failure cm)"
  by (simp_all add: count_failure_def Let_def same_measure_def context_window_def)

text \<open>One evaluation: cleared results only, a counted failure, an escaped abort, or a compaction.\<close>

lemma policy_cases:
  obtains (Quiet) s' where "apply_budget_policy now att defs prev s = (Inr prev, s')"
      "quiet_step s s'" "\<not> (85 / 100 \<le> bs_usage_ratio prev \<and> cm_failures (snd s) < 3)"
  | (Escaped) err s' where "apply_budget_policy now att defs prev s = (Inl err, s')" "quiet_step s s'"
      "th_name err = ''AbortError''" "85 / 100 \<le> bs_usage_ratio prev" "cm_failures (snd s) < 3"
      "maybe_compact att (cm_model (snd s')) (fst s') = Inl err"
  | (Counted) snap msgs' cm' where "apply_budget_policy now att defs prev s = (Inr snap, msgs', cm')"
      "map skeleton msgs' = map skeleton (fst s)" "cm_failures cm' = Suc (cm_failures (snd s))"
      "85 / 100 \<le> bs_usage_ratio prev" "cm_failures (snd s) < 3" "same_measure (snd s) cm'"
      "msgs' = fst (relieve_pressure now prev s)"
  | (Done) snap r msgs cm' where
      "apply_budget_policy now att defs prev s = (Inr snap, cr_messages r, cm')"
      "map skeleton msgs = map skeleton (fst s)" "maybe_compact att (cm_model (snd s)) msgs = Inr r"
      "cr_compacted r" "cm_failures cm' = 0" "85 / 100 \<le> bs_usage_ratio prev" "cm_failures (snd s) < 3"
proof -
  obtain msgs cm where s': "relieve_pressure now prev s = (msgs, cm)" by fastforce
  with relieve_quiet [of s now prev] have quiet: "quiet_step s (msgs, cm)" by simp
  then have frame: "map skeleton msgs = map skeleton (fst s)" "cm_failures cm = cm_failures (snd s)"
    "same_measure (snd s) cm" "cm_model cm = cm_model (snd s)"
    by (simp_all add: quiet_step_def same_measure_def)
  let ?cm = "log_context (CompactStart (bs_input_tokens prev)) cm"
  have start: "quiet_step s (msgs, ?cm)"
    using quiet_step_trans [OF quiet log_quiet] by simp
  let ?fail = "measure_budget defs msgs (count_failure ?cm)"
  have "same_measure (snd s) ?cm" using start by (simp add: quiet_step_def)
  from same_measure_trans [OF same_measure_trans [OF this count_failure_simps(2)] measure_same]
  have fail: "cm_failures ?fail = Suc (cm_failures (snd s))" "same_measure (snd s) ?fail"
    using frame by simp_all
  show thesis
  proof (cases "85 / 100 \<le> bs_usage_ratio prev \<and> cm_failures cm < 3")
    case False
    with quiet frame show ?thesis
      by (intro Quiet [of "(msgs, cm)"]) (auto simp: apply_budget_policy_def s')
  next
    case True
    show ?thesis
    proof (cases "maybe_compact att (cm_model cm) msgs")
      case (Inl err)
      show ?thesis
      proof (cases "th_name err = ''AbortError''")
        case abort: True
        show ?thesis
          by (rule Escaped [of err "(msgs, ?cm)"])
            (use True Inl abort frame start in \<open>simp_all add: apply_budget_policy_def s' guarded_is_unguarded Let_def\<close>)
      next
        case False
        show ?thesis
          by (rule Counted [of "cm_snapshot ?fail" msgs ?fail])
            (use True Inl False frame fail in \<open>simp_all add: apply_budget_policy_def s' guarded_is_unguarded Let_def\<close>)
      qed
    next
      case (Inr r)
      let ?done = "measure_budget defs (cr_messages r)
        ((log_context (CompactDone (cr_original_tokens r) (cr_summary_tokens r)) (?cm\<lparr>cm_warned := False\<rparr>))
         \<lparr>cm_failures := 0, cm_suppress_warning := True\<rparr>)"
      show ?thesis
      proof (cases "cr_compacted r")
        case compacted: True
        show ?thesis
          by (rule Done [of "cm_snapshot ?done" r ?done msgs])
            (use True Inr compacted frame in \<open>simp_all add: apply_budget_policy_def s' guarded_is_unguarded Let_def\<close>)
      next
        case False
        show ?thesis
          by (rule Counted [of "cm_snapshot ?fail" msgs ?fail])
            (use True Inr False frame fail in \<open>simp_all add: apply_budget_policy_def s' guarded_is_unguarded Let_def\<close>)
      qed
    qed
  qed
qed

section \<open>A session\<close>

datatype history_op =
    AppendTurn "message list"
  | TrimHistory
  | ForkHistory "int option"
  | EvaluateBudget int summary_attempt "string list option"
  | RecoverOverflow summary_attempt
  | BeginTurn string
  | StampAssistant int
  | ChangeModel string

fun history_step :: "history_op \<Rightarrow> message list \<times> context_manager \<Rightarrow> message list \<times> context_manager" where
  "history_step (AppendTurn ms) s = (fst s @ ms, snd s)"
| "history_step TrimHistory s = (trim_history_for_next_turn (fst s), snd s)"
| "history_step (ForkHistory point) s = (take (compute_fork_cut_point (fst s) point) (fst s), snd s)"
| "history_step (EvaluateBudget now att defs) s = snd (evaluate_budget now att defs s)"
| "history_step (RecoverOverflow att) s = snd (reactive_compact att s)"
| "history_step (BeginTurn prompt) s = (fst s, begin_turn prompt (snd s))"
| "history_step (StampAssistant now) s = (fst s, stamp_assistant_message now (snd s))"
| "history_step (ChangeModel model) s = (fst s, on_model_changed model (snd s))"

text \<open>A turn appends whole exchanges: calls together with their answers.\<close>

definition history_ok :: "history_op \<Rightarrow> bool" where
  "history_ok x = (case x of AppendTurn ms \<Rightarrow> well_paired ms \<and> starts_turn ms | _ \<Rightarrow> True)"

lemma evaluate_paired:
  "well_paired (fst s) \<Longrightarrow> well_paired (fst (snd (evaluate_budget now att defs s)))"
proof -
  assume paired: "well_paired (fst s)"
  let ?cm = "measure_budget defs (fst s) (snd s)" and ?s = "(fst s, measure_budget defs (fst s) (snd s))"
  have eq: "evaluate_budget now att defs s = apply_budget_policy now att defs (cm_snapshot ?cm) ?s"
    by (simp add: evaluate_budget_def Let_def case_prod_beta)
  show ?thesis
  proof (cases rule: policy_cases [of now att defs "cm_snapshot ?cm" ?s])
    case (Done snap r msgs cm')
    with paired have "well_paired msgs" using same_skeleton_paired [of msgs "fst s"] by simp
    with Done maybe_compact_paired [of att _ msgs r] show ?thesis by (simp add: eq)
  next
    case (Quiet s')
    then have "map skeleton (fst s') = map skeleton (fst s)" by (simp add: quiet_step_def)
    from same_skeleton_paired [OF this] paired Quiet(1) show ?thesis by (simp add: eq)
  next
    case (Escaped err s')
    then have "map skeleton (fst s') = map skeleton (fst s)" by (simp add: quiet_step_def)
    from same_skeleton_paired [OF this] paired Escaped(1) show ?thesis by (simp add: eq)
  next
    case (Counted snap msgs' cm')
    then have "map skeleton msgs' = map skeleton (fst s)" by simp
    from same_skeleton_paired [OF this] paired Counted(1) show ?thesis by (simp add: eq)
  qed
qed

lemma evaluate_failures:
  "cm_failures (snd s) \<le> 3 \<Longrightarrow> cm_failures (snd (snd (evaluate_budget now att defs s))) \<le> 3"
  "cm_failures (snd s) = 3 \<Longrightarrow> cm_failures (snd (snd (evaluate_budget now att defs s))) = 3"
proof -
  let ?cm = "measure_budget defs (fst s) (snd s)" and ?s = "(fst s, measure_budget defs (fst s) (snd s))"
  have eq: "evaluate_budget now att defs s = apply_budget_policy now att defs (cm_snapshot ?cm) ?s"
    by (simp add: evaluate_budget_def Let_def case_prod_beta)
  show "cm_failures (snd s) \<le> 3 \<Longrightarrow> cm_failures (snd (snd (evaluate_budget now att defs s))) \<le> 3"
    "cm_failures (snd s) = 3 \<Longrightarrow> cm_failures (snd (snd (evaluate_budget now att defs s))) = 3"
    by (cases rule: policy_cases [of now att defs "cm_snapshot ?cm" ?s]; simp add: eq quiet_step_def)+
qed

lemma reactive_cases:
  "reactive_compact att s = (r, s') \<Longrightarrow> cm_failures (snd s') = cm_failures (snd s) \<and>
     (well_paired (fst s) \<longrightarrow> well_paired (fst s'))"
  by (cases s) (auto simp: reactive_compact_def guarded_is_unguarded maybe_compact_paired
      split: sum.splits if_splits)

lemma reactive_failures: "cm_failures (snd (snd (reactive_compact att s))) = cm_failures (snd s)"
  using reactive_cases [of att s "fst (reactive_compact att s)" "snd (reactive_compact att s)"] by simp

lemma history_step_paired: "history_ok x \<Longrightarrow> well_paired (fst s) \<Longrightarrow> well_paired (fst (history_step x s))"
proof (cases x)
  case (ForkHistory point)
  assume paired: "well_paired (fst s)"
  from paired_fork(2) [OF paired requested_cut_le [of "fst s" point]]
    well_paired_drop(1) [OF paired, of "skip_tools (fst s) (requested_cut (fst s) point)"]
  show ?thesis
    by (simp add: ForkHistory compute_fork_cut_point_def grow_is_skip drop_skip_tools)
next
  case (RecoverOverflow att)
  assume "well_paired (fst s)"
  then show ?thesis
    using reactive_cases [of att s "fst (reactive_compact att s)" "snd (reactive_compact att s)"]
    by (simp add: RecoverOverflow)
qed (auto simp: history_ok_def well_paired_append trim_paired(2) evaluate_paired)

lemma history_step_failures:
  "cm_failures (snd s) \<le> 3 \<Longrightarrow> cm_failures (snd (history_step x s)) \<le> 3"
  "cm_failures (snd s) = 3 \<Longrightarrow> cm_failures (snd (history_step x s)) = 3"
  by (cases x; simp add: evaluate_failures reactive_failures begin_turn_def
      stamp_assistant_message_def on_model_changed_def)+

interpretation sess: guarded_system history_step history_ok "\<lambda>s. well_paired (fst s)"
  by unfold_locales (rule history_step_paired)

interpretation breaker: preserved_relation history_step "\<lambda>s. cm_failures (snd s) \<le> 3"
    "\<lambda>s t. cm_failures (snd s) = 3 \<longrightarrow> cm_failures (snd t) = 3"
  by unfold_locales (auto simp: history_step_failures)

lemma tripped_breaker:
  "cm_failures (snd s) = 3 \<Longrightarrow> evaluate_budget now att defs s = evaluate_budget now att' defs s"
proof -
  assume three: "cm_failures (snd s) = 3"
  have "cm_failures (snd (relieve_pressure now prev (fst s, measure_budget defs (fst s) (snd s)))) = 3" for prev
    using relieve_quiet [of "(fst s, measure_budget defs (fst s) (snd s))" now prev] three
    by (simp add: quiet_step_def)
  then show ?thesis
    by (simp add: evaluate_budget_def apply_budget_policy_def Let_def case_prod_beta)
qed

lemma relieve_full: "85 / 100 \<le> bs_usage_ratio prev \<Longrightarrow> fst (relieve_pressure now prev s) = fst s"
  by (simp add: relieve_pressure_def clear_by_pressure_def clear_by_time_def case_prod_beta Let_def)

definition usage_of :: "string list option \<Rightarrow> message list \<times> context_manager \<Rightarrow> rat" where
  "usage_of defs s = bs_usage_ratio (cm_snapshot (measure_budget defs (fst s) (snd s)))"

lemma cancelled_evaluation:
  assumes "sa_aborted_before att" and "85 / 100 \<le> usage_of defs s" and "cm_failures (snd s) < 3"
  shows "\<exists>snap. fst (evaluate_budget now att defs s) = Inr snap"
    and "fst (history_step (EvaluateBudget now att defs) s) = fst s"
    and "cm_failures (snd (history_step (EvaluateBudget now att defs) s)) = Suc (cm_failures (snd s))"
    and "usage_of defs (history_step (EvaluateBudget now att defs) s) = usage_of defs s"
proof -
  let ?cm = "measure_budget defs (fst s) (snd s)" and ?s = "(fst s, measure_budget defs (fst s) (snd s))"
  have eq: "evaluate_budget now att defs s = apply_budget_policy now att defs (cm_snapshot ?cm) ?s"
    by (simp add: evaluate_budget_def Let_def case_prod_beta)
  have "(\<exists>snap. fst (evaluate_budget now att defs s) = Inr snap) \<and>
      fst (snd (evaluate_budget now att defs s)) = fst s \<and>
      cm_failures (snd (snd (evaluate_budget now att defs s))) = Suc (cm_failures (snd s)) \<and>
      same_measure (snd s) (snd (snd (evaluate_budget now att defs s)))"
  proof (cases rule: policy_cases [of now att defs "cm_snapshot ?cm" ?s])
    case (Quiet s')
    with assms show ?thesis by (simp add: usage_of_def)
  next
    case (Escaped err s')
    with assms(1) show ?thesis by (auto simp: maybe_compact_def plain_error_def)
  next
    case (Counted snap msgs' cm')
    with relieve_full [of "cm_snapshot ?cm" now ?s] show ?thesis
      using same_measure_trans [OF measure_same [of "snd s" defs "fst s"], of cm'] by (simp add: eq)
  next
    case (Done snap r msgs cm')
    with assms(1) show ?thesis by (simp add: maybe_compact_def)
  qed
  then show "\<exists>snap. fst (evaluate_budget now att defs s) = Inr snap"
    "fst (history_step (EvaluateBudget now att defs) s) = fst s"
    "cm_failures (snd (history_step (EvaluateBudget now att defs) s)) = Suc (cm_failures (snd s))"
    "usage_of defs (history_step (EvaluateBudget now att defs) s) = usage_of defs s"
    by (auto simp: usage_of_def same_measure_ratio)
qed

section \<open>Lemmas on windows, retries and snips\<close>

lemma best_match_window:
  "best_match model entries best = Some (len, window) \<Longrightarrow>
     best = Some (len, window) \<or> window \<in> set (map (snd \<circ> snd) entries)"
  by (induction model entries best rule: best_match.induct) (auto split: if_splits)

lemma positive_integer_pos: "positive_integer v = Some n \<Longrightarrow> 1 \<le> n"
  by (auto simp: positive_integer_def le_nat_iff split: option.splits config_number.splits if_splits)

lemma resolve_context_window_pos: "1 \<le> resolve_context_window model override"
proof (cases "positive_integer override")
  case None
  have windows: "list_all (\<lambda>(_, _, w). 1 \<le> w) known_model_context_windows"
    by (simp add: known_model_context_windows_def)
  show ?thesis
  proof (cases "best_match model known_model_context_windows None")
    case (Some b)
    obtain len w where b: "b = (len, w)" by fastforce
    have "w \<in> set (map (snd \<circ> snd) known_model_context_windows)"
      using best_match_window [of model known_model_context_windows None len w] Some b by simp
    with windows have "1 \<le> w" by (auto simp: list_all_iff)
    with None Some b show ?thesis by (simp add: resolve_context_window_def model_max_context_tokens_def)
  qed (simp add: resolve_context_window_def None model_max_context_tokens_def)
qed (use positive_integer_pos in \<open>auto simp: resolve_context_window_def\<close>)

lemma clamp_bounds:
  "1 \<le> clamp_max_output_tokens max_output window"
  "2 \<le> window \<Longrightarrow> clamp_max_output_tokens max_output window \<le> nat window div 2"
  by (auto simp: clamp_max_output_tokens_def Let_def)

lemma retry_model_count:
  "retry_model att model msgs left prior count = RoundOver prior' count' \<Longrightarrow> count' \<le> count + left"
  "retry_model att model msgs left prior count = RoundDone r \<Longrightarrow>
     rr_attempts r \<le> count + left \<and> cr_compacted (rr_result r) \<and>
     maybe_compact (att (rr_attempts r - 1)) model msgs = Inr (rr_result r) \<and> rr_model r = model"
  by (induction att model msgs left prior count rule: retry_model.induct)
    (auto split: sum.splits if_splits)

lemma retry_models_over:
  "retry_models att k models msgs prior count = RoundOver prior' count' \<Longrightarrow> count' \<le> count + k * length models"
proof (induction models arbitrary: prior count)
  case (Cons model models)
  from Cons.prems obtain p c where "retry_model att model msgs k prior count = RoundOver p c"
    and rest: "retry_models att k models msgs p c = RoundOver prior' count'"
    by (cases "retry_model att model msgs k prior count") simp_all
  from Cons.IH [OF rest] retry_model_count(1) [OF this(1)] show ?case by simp
qed simp

lemma retry_models_done:
  "retry_models att k models msgs prior count = RoundDone r \<Longrightarrow>
     rr_attempts r \<le> count + k * length models \<and> rr_model r \<in> set models \<and>
     maybe_compact (att (rr_attempts r - 1)) (rr_model r) msgs = Inr (rr_result r) \<and> cr_compacted (rr_result r)"
proof (induction models arbitrary: prior count)
  case (Cons model models)
  show ?case
  proof (cases "retry_model att model msgs k prior count")
    case (RoundDone r')
    with Cons.prems have "r' = r" by simp
    with retry_model_count(2) [OF RoundDone] show ?thesis by auto
  next
    case (RoundOver p c)
    with Cons.prems have rest: "retry_models att k models msgs p c = RoundDone r" by simp
    from Cons.IH [OF rest] retry_model_count(1) [OF RoundOver] show ?thesis by auto
  qed (use Cons.prems in simp)
qed simp

text \<open>Evaluation of the table: first the tests, then the numbers.\<close>

fun best_of :: "(bool \<times> nat \<times> nat) list \<Rightarrow> (nat \<times> nat) option \<Rightarrow> (nat \<times> nat) option" where
  "best_of [] best = best"
| "best_of ((b, len, window) # entries) best =
     best_of entries
       (if b \<and> (case best of None \<Rightarrow> True | Some (l, _) \<Rightarrow> l < len) then Some (len, window) else best)"

lemma best_match_best_of:
  "map (\<lambda>(r, _). rx_test r model) entries = bs \<Longrightarrow>
     best_match model entries best = best_of (zip bs (map snd entries)) best"
  by (induction entries arbitrary: bs best) auto

definition matching_entries :: "string \<Rightarrow> bool list" where
  "matching_entries model = map (\<lambda>(r, _). rx_test r model) known_model_context_windows"

lemma resolve_by_matching:
  assumes "matching_entries model = bs" and "model \<noteq> []"
  shows "resolve_context_window model None =
    (case best_of (zip bs (map snd known_model_context_windows)) None of
       Some (_, window) \<Rightarrow> window | None \<Rightarrow> model_max_context_tokens)"
  using assms best_match_best_of [of model known_model_context_windows bs None]
  by (simp add: resolve_context_window_def positive_integer_def matching_entries_def)

lemma matching_llama:
  "matching_entries ''llama-3.1-8b'' = [False, False, False, False, False, False, False, False,
     False, False, False, False, False, False, False, False, True, True]"
  unfolding matching_entries_def known_model_context_windows_def list.map prod.case by code_simp

lemma llama_gets_the_small_window: "resolve_context_window ''llama-3.1-8b'' None = 8192"
  by (simp add: resolve_by_matching [OF matching_llama] known_model_context_windows_def)

text \<open>
  A history without any safe boundary (calls that were never all answered) is not left alone: the
  split is its end, and the whole of it is replaced by the summary.
\<close>

definition endless_calls :: "message list" where
  "endless_calls = user_message ''go'' # calling_message [''a'', ''b''] # replicate 16 (tool_message ''a'' ''x'')"

lemma nothing_safe_is_compacted: "split_point endless_calls = length endless_calls"
  by code_simp

section \<open>Examples\<close>

definition sample_manager :: context_manager where
  "sample_manager = \<lparr>cm_model = ''m'', cm_max_context = Some (Finite 20), cm_max_output = Some (Finite 1),
     cm_session_dir = True, cm_prompt_tokens = 20, cm_last_assistant = None, cm_failures = 0,
     cm_suppress_warning = False, cm_warned = False, cm_window = None, cm_pending_snip = None,
     cm_snapshot = \<lparr>bs_run = None, bs_window = 0, bs_input_tokens = 0, bs_input_budget = 0,
       bs_usage_ratio = 0, bs_remaining = 0, bs_remaining_ratio = 0, bs_failures = 0,
       bs_initialized = False\<rparr>,
     cm_run = None, cm_working_state = empty_working_state [], cm_events = []\<rparr>"

definition cancelled_attempt :: summary_attempt where
  "cancelled_attempt = \<lparr>sa_aborted_before = True, sa_aborted_after = True,
     sa_reply = (\<lambda>_ _. Failed (plain_error ''aborted''))\<rparr>"

definition answering_attempt :: summary_attempt where
  "answering_attempt = \<lparr>sa_aborted_before = False, sa_aborted_after = False,
     sa_reply = (\<lambda>_ _. Replied ''x'')\<rparr>"

definition long_session :: "message list" where
  "long_session = concat (replicate 4 tool_turn)"

lemma long_session_paired: "well_paired long_session"
proof -
  have "starts_turn tool_turn" by code_simp
  then show ?thesis
    unfolding long_session_def using well_paired_turns [of "replicate 4 tool_turn"] tool_turn_paired by simp
qed

lemma sample_usage: "85 / 100 \<le> usage_of None ([], sample_manager)"
  by (simp add: usage_of_def measure_budget_def Let_def sample_manager_def context_window_def
      resolve_context_window_def positive_integer_def effective_input_budget_def
      clamp_max_output_tokens_def estimate_tokens_def ceil_sevenths_def
      estimate_tool_definition_tokens_def)

lemma orphan_after_plain: "is_plain b \<Longrightarrow> \<not> well_paired (b # tool_message i s # ms)"
  by (simp add: is_plain_def well_paired_def call_ids_def tool_message_def is_tool_def split: option.splits)

lemma snip_boundary_plain: "is_plain (snip_boundary n reason)"
  by (simp add: is_plain_def snip_boundary_def is_tool_def calls_of_def)

definition keeps_history :: "message list \<Rightarrow> compact_result option \<Rightarrow> bool" where
  "keeps_history msgs prior = (case prior of None \<Rightarrow> True | Some r \<Rightarrow> cr_messages r = msgs \<and> \<not> cr_compacted r)"

lemma uncompacted_keeps:
  "maybe_compact att model msgs = Inr r \<Longrightarrow> \<not> cr_compacted r \<Longrightarrow> keeps_history msgs (Some r)"
  by (cases rule: maybe_compact_cases [of att model msgs]) (auto simp: keeps_history_def)

lemma retry_model_keeps:
  "keeps_history msgs prior \<Longrightarrow> retry_model att model msgs left prior count = RoundOver prior' count' \<Longrightarrow>
     keeps_history msgs prior'"
proof (induction att model msgs left prior count rule: retry_model.induct)
  case (2 att model msgs left prior count)
  then show ?case
    by (auto simp: keeps_history_def [of _ "Some (not_compacted _ _)"] dest: uncompacted_keeps
        split: sum.splits if_splits)
qed simp

lemma retry_models_keep:
  "keeps_history msgs prior \<Longrightarrow> retry_models att k models msgs prior count = RoundOver prior' count' \<Longrightarrow>
     keeps_history msgs prior'"
  by (induction models arbitrary: prior count) (auto dest: retry_model_keeps split: model_round.splits)

section \<open>Properties\<close>

text \<open>
  (C9) In every session the history stays well paired: whatever turns are appended (calls with their
  answers), trimming, forking, clearing of old results, compaction with any answer of the model and at
  any point, and recovery from an overflow leave no call unanswered and no answer without its call.
\<close>

theorem history_stays_paired:
  "well_paired msgs \<Longrightarrow> list_all history_ok ops \<Longrightarrow>
     well_paired (fst (fold history_step ops (msgs, cm)))"
  using sess.guarded_run [of ops "(msgs, cm)"] by simp

theorem history_stays_paired_witness:
  "well_paired (fst (fold history_step
     [AppendTurn tool_turn, RecoverOverflow answering_attempt, ForkHistory (Some 3), TrimHistory]
     (long_session, sample_manager)))"
proof -
  have "starts_turn tool_turn" by code_simp
  then show ?thesis
    by (intro history_stays_paired [OF long_session_paired]) (simp add: history_ok_def tool_turn_paired)
qed


text \<open>
  The circuit breaker: in every session at most three failed compactions are counted; once there
  are three, the count never goes back, and an evaluation of the budget no longer depends on what a
  model would answer.
\<close>

theorem circuit_breaker:
  "cm_failures cm \<le> 3 \<Longrightarrow>
     let s = fold history_step ops (msgs, cm)
     in cm_failures (snd s) \<le> 3 \<and>
        (cm_failures cm = 3 \<longrightarrow> cm_failures (snd s) = 3) \<and>
        (cm_failures (snd s) = 3 \<longrightarrow>
           evaluate_budget now att defs s = evaluate_budget now att' defs s)"
  using breaker.run_inv [of "(msgs, cm)" ops] breaker.run_rel [of "(msgs, cm)" ops]
    tripped_breaker [of "fold history_step ops (msgs, cm)" now att defs att']
  by (simp add: Let_def)

theorem circuit_breaker_witness:
  "let cm = sample_manager\<lparr>cm_failures := 3\<rparr>;
       s = fold history_step [EvaluateBudget 0 answering_attempt None, TrimHistory] (long_session, cm)
   in cm_failures (snd s) = 3 \<and>
      evaluate_budget 0 answering_attempt None s = evaluate_budget 0 cancelled_attempt None s"
  using circuit_breaker [of "sample_manager\<lparr>cm_failures := 3\<rparr>"
      "[EvaluateBudget 0 answering_attempt None, TrimHistory]" long_session 0 answering_attempt None cancelled_attempt]
  by (simp add: Let_def)

text \<open>
  A cancelled compaction is counted as a failed one: when the user has aborted the turn, the
  evaluation of a nearly full context does not report the abort but raises the failure count, so three
  cancelled turns switch automatic compaction off for the rest of the session.
\<close>

theorem cancelled_compactions_trip_the_breaker:
  assumes "sa_aborted_before att" and "85 / 100 \<le> usage_of defs (msgs, cm)" and "cm_failures cm = 0"
  shows "(\<exists>snap. fst (evaluate_budget t1 att defs (msgs, cm)) = Inr snap) \<and>
    (let s = fold history_step [EvaluateBudget t1 att defs, EvaluateBudget t2 att defs,
               EvaluateBudget t3 att defs] (msgs, cm)
     in fst s = msgs \<and> cm_failures (snd s) = 3)"
proof -
  let ?e = "\<lambda>t. history_step (EvaluateBudget t att defs)"
  let ?s1 = "?e t1 (msgs, cm)" let ?s2 = "?e t2 ?s1"
  note first = cancelled_evaluation [of att defs "(msgs, cm)" t1]
  have one: "fst ?s1 = msgs" "cm_failures (snd ?s1) = 1" "85 / 100 \<le> usage_of defs ?s1"
    "\<exists>snap. fst (evaluate_budget t1 att defs (msgs, cm)) = Inr snap"
    using first assms by simp_all
  have two: "fst ?s2 = msgs" "cm_failures (snd ?s2) = 2" "85 / 100 \<le> usage_of defs ?s2"
    using cancelled_evaluation [of att defs ?s1 t2] assms(1) one by simp_all
  have "fst (?e t3 ?s2) = msgs" "cm_failures (snd (?e t3 ?s2)) = 3"
    using cancelled_evaluation [of att defs ?s2 t3] assms(1) two by simp_all
  with one show ?thesis by (simp add: Let_def)
qed

theorem cancelled_compactions_trip_the_breaker_witness:
  "let s = fold history_step [EvaluateBudget 1 cancelled_attempt None, EvaluateBudget 2 cancelled_attempt None,
             EvaluateBudget 3 cancelled_attempt None] ([], sample_manager)
   in cm_failures (snd s) = 3 \<and>
      evaluate_budget 4 answering_attempt None s = evaluate_budget 4 cancelled_attempt None s"
  using cancelled_compactions_trip_the_breaker [OF _ sample_usage, of cancelled_attempt 1 2 3] tripped_breaker
  by (simp add: Let_def cancelled_attempt_def sample_manager_def)

text \<open>
  Clearing old tool results changes nothing but contents: every message keeps its place, role, ids
  and calls, a changed one is a result of a tool that can be run again, outside the newest six and
  longer than the placeholder that replaces it; a second clearing finds nothing to do.
\<close>

theorem clearing_is_conservative:
  "let r = micro_compact msgs; old = tool_result_indices msgs
   in map skeleton (mr_messages r) = map skeleton msgs \<and>
      (\<forall>i. i < length msgs \<longrightarrow> mr_messages r ! i =
         (if i \<in> set (take (length old - 6) old) \<and> is_large (msgs ! i)
          then cleared_message (msgs ! i) else msgs ! i)) \<and>
      mr_cleared r = length (filter (\<lambda>i. is_large (msgs ! i)) (take (length old - 6) old)) \<and>
      micro_compact (mr_messages r) = nothing_cleared (mr_messages r)"
  unfolding Let_def
proof (intro conjI allI impI)
  show "mr_cleared (micro_compact msgs) = length (filter (\<lambda>i. is_large (msgs ! i))
      (take (length (tool_result_indices msgs) - 6) (tool_result_indices msgs)))"
    by (simp add: micro_compact_eq, simp add: cleared_indices_def keep_recent_tool_results_def)
  show "micro_compact (mr_messages (micro_compact msgs)) = nothing_cleared (mr_messages (micro_compact msgs))"
    by (subst micro_compact_eq) (simp add: micro_idempotent)
  show "mr_messages (micro_compact msgs) ! i =
      (if i \<in> set (take (length (tool_result_indices msgs) - 6) (tool_result_indices msgs)) \<and> is_large (msgs ! i)
       then cleared_message (msgs ! i) else msgs ! i)" if "i < length msgs" for i
    using that by (auto simp: micro_messages nth_clear_at cleared_indices_def keep_recent_tool_results_def)
qed (rule micro_skeleton)

theorem clearing_is_conservative_witness:
  "let msgs = replicate 7 (tool_message ''a'' (replicate 62 (CHR ''x'')))
   in mr_messages (micro_compact msgs) ! 0 = cleared_message (msgs ! 0) \<and>
      mr_messages (micro_compact msgs) ! 1 = msgs ! 1"
proof -
  let ?msgs = "replicate 7 (tool_message ''a'' (replicate 62 (CHR ''x'')))"
  have indices: "tool_result_indices ?msgs = [0, 1, 2, 3, 4, 5, 6]" and large: "is_large (?msgs ! 0)"
    by code_simp+
  from clearing_is_conservative [of ?msgs] large show ?thesis
    unfolding Let_def indices by simp
qed

text \<open>
  Snipping to a positive number keeps exactly that many newest messages behind a boundary; snipping
  to 0 removes nothing, although the boundary and the result report all messages as removed. The cut
  is not moved to a safe boundary.
\<close>

theorem snip_keeps_the_newest:
  "let ((removed, freed), msgs', cm') = apply_snip keep reason (msgs, cm)
   in removed = length msgs - keep \<and>
      msgs' = (if length msgs \<le> keep then msgs
               else if keep = 0 then snip_boundary removed reason # msgs
               else snip_boundary removed reason # drop (length msgs - keep) msgs) \<and>
      (keep = 0 \<and> msgs \<noteq> [] \<longrightarrow> length msgs' = Suc removed) \<and>
      \<not> well_paired (fst (snd (apply_snip 2 None (tool_turn, cm))))"
proof -
  have "\<exists>n. fst (snd (apply_snip 2 None (tool_turn, cm))) =
      snip_boundary n None # tool_message ''b'' ''2'' # [user_message ''next'']"
    by (intro exI [of _ 3]) (simp add: apply_snip_def slice_from_end_def tool_turn_def Let_def numeral_3_eq_3)
  then have "\<not> well_paired (fst (snd (apply_snip 2 None (tool_turn, cm))))"
    by (auto simp: orphan_after_plain snip_boundary_plain)
  then show ?thesis
    by (simp add: apply_snip_def slice_from_end_def Let_def)
qed

theorem snip_keeps_the_newest_witness:
  "length (fst (snd (apply_snip 0 None (tool_turn, sample_manager)))) = Suc (length tool_turn)"
proof -
  have "tool_turn \<noteq> []" by (simp add: tool_turn_def)
  then show ?thesis
    using snip_keeps_the_newest [of 0 None tool_turn sample_manager]
    by (simp add: Let_def case_prod_beta)
qed

text \<open>
  Window and budgets: whatever the configuration holds, fractions and values that are not finite
  included, the window is positive, the output reservation is positive and at most half the window, and
  at least half the window stays for the input.
\<close>

theorem budgets_fit_the_window:
  "let window = resolve_context_window model override;
       output = clamp_max_output_tokens max_output (int window);
       input_budget = effective_input_budget (int window) max_output
   in 1 \<le> window \<and> 1 \<le> output \<and> 1 \<le> input_budget \<and>
      (2 \<le> window \<longrightarrow> output \<le> window div 2 \<and> input_budget = int window - int output \<and>
         int window \<le> 2 * input_budget) \<and>
      resolve_context_window model (Some NotFinite) = resolve_context_window model None"
proof -
  let ?w = "resolve_context_window model override"
  let ?o = "clamp_max_output_tokens max_output (int ?w)"
  have "1 \<le> ?w" "1 \<le> ?o" "2 \<le> ?w \<Longrightarrow> ?o \<le> ?w div 2"
    using clamp_bounds(1) [of max_output "int ?w"] clamp_bounds(2) [of "int ?w" max_output]
      resolve_context_window_pos [of model override] by simp_all
  moreover have "2 \<le> ?w \<Longrightarrow> ?o \<le> ?w div 2 \<Longrightarrow>
      max 1 (int ?w - int ?o) = int ?w - int ?o \<and> int ?w \<le> 2 * (int ?w - int ?o)"
    by (auto simp: max_def)
  moreover have "resolve_context_window model (Some NotFinite) = resolve_context_window model None"
    by (simp add: resolve_context_window_def positive_integer_def)
  ultimately show ?thesis
    unfolding Let_def effective_input_budget_def by (intro conjI impI) auto
qed

theorem budgets_fit_the_window_witness:
  "clamp_max_output_tokens None (int (resolve_context_window ''m'' (Some (Finite 8000)))) \<le> 4000"
proof -
  have "resolve_context_window ''m'' (Some (Finite 8000)) = 8000"
    by (simp add: resolve_context_window_def positive_integer_def)
  then show ?thesis
    using budgets_fit_the_window [of "''m''" "Some (Finite 8000)" None] by (simp add: Let_def)
qed

text \<open>
  Compaction with retries asks at most \<open>maxAttempts\<close> times per model; a compacted result is the
  one of the attempt and the model it reports, and any other result leaves the history alone.
\<close>

theorem compaction_retries_are_bounded:
  "case maybe_compact_with_retry att primary msgs max_attempts fallbacks of
     Inl err \<Rightarrow> True
   | Inr r \<Rightarrow>
       rr_attempts r \<le> default_to max_attempts 2 * Suc (length (default_to fallbacks [])) \<and>
       rr_model r \<in> set (primary # default_to fallbacks []) \<and>
       (if cr_compacted (rr_result r)
        then maybe_compact (att (rr_attempts r - 1)) (rr_model r) msgs = Inr (rr_result r)
        else cr_messages (rr_result r) = msgs)"
proof -
  let ?models = "primary # default_to fallbacks []" and ?k = "default_to max_attempts 2"
  show ?thesis
  proof (cases "retry_models att ?k ?models msgs None 0")
    case (RoundThrows err)
    then show ?thesis by (simp add: maybe_compact_with_retry_def del: retry_models.simps)
  next
    case (RoundDone r)
    from retry_models_done [OF this] RoundDone show ?thesis
      by (simp add: maybe_compact_with_retry_def del: retry_models.simps)
  next
    case (RoundOver prior n)
    have "keeps_history msgs prior" "n \<le> ?k * length ?models"
      using retry_models_keep [OF _ RoundOver] retry_models_over [OF RoundOver]
      by (simp_all add: keeps_history_def)
    moreover have "List.last ?models \<in> set ?models" by (rule last_in_set) simp
    ultimately show ?thesis
      unfolding maybe_compact_with_retry_def Let_def RoundOver
      by (cases prior) (simp_all add: keeps_history_def del: last.simps)
  qed
qed

end
