(* ===== verification/Workflow.thy ===== *)
theory Workflow
  imports ToolScheduler Progress JsRegex
begin

text \<open>
  The workflow engine: \<open>src/src/core/workflow.ts\<close>.

  What the world does is an environment: the answers of the runners for slash commands, prompts and
  agents, the events of each shell process, when the abort signal fires, ids and clocks. A shell step
  waits for its process, so a workflow may not return; that is \<open>None\<close>. Files are read elsewhere: a
  workflow arrives as a JSON value.
\<close>

section \<open>Data\<close>

datatype step_type = StepShell | StepSlash | StepPrompt | StepEcho | StepAgent

datatype step_condition = IfSuccess | IfFailure | IfAlways

record workflow_step =
  wp_name :: "string option"
  wp_type :: step_type
  wp_command :: "string option"
  wp_cwd :: "string option"
  wp_timeout_ms :: "int option"
  wp_continue_on_error :: bool
  wp_if :: "step_condition option"
  wp_message :: "string option"
  wp_default :: "string option"
  wp_text :: "string option"
  wp_prompt :: "string option"
  wp_preset :: "string option"
  wp_description :: "string option"

datatype workflow_trigger = TriggerManual | TriggerAuto

record workflow =
  wk_name :: string
  wk_description :: "string option"
  wk_trigger :: workflow_trigger
  wk_tags :: "string list option"
  wk_steps :: "workflow_step list"

record step_result =
  st_name :: string
  st_type :: step_type
  st_success :: bool
  st_output :: string
  st_exit_code :: "int option"
  st_duration :: int
  st_error :: "string option"
  st_value :: "string option"
  st_structured :: "structured_result option"
  st_run_id :: "string option"

datatype workflow_status =
    WfSucceeded | WfSucceededWithWarnings | WfFailed | WfBlocked | WfCancelled

record workflow_run_result =
  wr_name :: string
  wr_success :: bool
  wr_status :: workflow_status
  wr_steps :: "step_result list"
  wr_run_id :: "string option"

fun step_type_text :: "step_type \<Rightarrow> string" where
  "step_type_text StepShell = ''shell''"
| "step_type_text StepSlash = ''slash''"
| "step_type_text StepPrompt = ''prompt''"
| "step_type_text StepEcho = ''echo''"
| "step_type_text StepAgent = ''agent''"

section \<open>Validation\<close>

definition step_types :: "step_type list" where
  "step_types = [StepShell, StepSlash, StepPrompt, StepEcho, StepAgent]"

definition step_type_of :: "string \<Rightarrow> step_type option" where
  "step_type_of s = find (\<lambda>t. step_type_text t = s) step_types"

definition text_of :: "json option \<Rightarrow> string option" where
  "text_of v = (case v of Some (JStr s) \<Rightarrow> Some s | _ \<Rightarrow> None)"

definition number_of :: "json option \<Rightarrow> int option" where
  "number_of v = (case v of Some (JNum n) \<Rightarrow> Some n | _ \<Rightarrow> None)"

definition condition_of :: "json option \<Rightarrow> step_condition option" where
  "condition_of v =
     (case text_of v of
        None \<Rightarrow> None
      | Some s \<Rightarrow>
          if s = ''success'' then Some IfSuccess
          else if s = ''failure'' then Some IfFailure
          else if s = ''always'' then Some IfAlways
          else None)"

definition validate_step :: "json \<Rightarrow> workflow_step option" where
  "validate_step raw =
     (case raw of
        JObj obj \<Rightarrow>
          (case text_of (map_of obj ''type'') of
             None \<Rightarrow> None
           | Some ty \<Rightarrow> (case step_type_of ty of
                 None \<Rightarrow> None
               | Some t \<Rightarrow> Some \<lparr>
                   wp_name = text_of (map_of obj ''name''),
                   wp_type = t,
                   wp_command = text_of (map_of obj ''command''),
                   wp_cwd = text_of (map_of obj ''cwd''),
                   wp_timeout_ms = number_of (map_of obj ''timeoutMs''),
                   wp_continue_on_error = (map_of obj ''continueOnError'' = Some (JBool True)),
                   wp_if = condition_of (map_of obj ''if''),
                   wp_message = text_of (map_of obj ''message''),
                   wp_default = text_of (map_of obj ''default''),
                   wp_text = text_of (map_of obj ''text''),
                   wp_prompt = text_of (map_of obj ''prompt''),
                   wp_preset = text_of (map_of obj ''preset''),
                   wp_description = text_of (map_of obj ''description'')\<rparr>))
      | _ \<Rightarrow> None)"

fun validate_steps :: "json list \<Rightarrow> workflow_step list option" where
  "validate_steps [] = Some []"
| "validate_steps (raw # raws) =
     (case validate_step raw of
        None \<Rightarrow> None
      | Some s \<Rightarrow> (case validate_steps raws of None \<Rightarrow> None | Some ss \<Rightarrow> Some (s # ss)))"

definition validate_workflow :: "json \<Rightarrow> workflow option" where
  "validate_workflow data =
     (case data of
        JObj obj \<Rightarrow>
          (case text_of (map_of obj ''name'') of
             None \<Rightarrow> None
           | Some name \<Rightarrow>
               (if js_trim name = [] then None
                else case map_of obj ''steps'' of
                    Some (JArr raws) \<Rightarrow>
                      (if raws = [] then None
                       else case validate_steps raws of
                           None \<Rightarrow> None
                         | Some steps \<Rightarrow> Some \<lparr>
                             wk_name = name,
                             wk_description = text_of (map_of obj ''description''),
                             wk_trigger = (if map_of obj ''trigger'' = Some (JStr ''auto'') then TriggerAuto
                               else TriggerManual),
                             wk_tags = (case map_of obj ''tags'' of
                                Some (JArr ts) \<Rightarrow> Some (List.map_filter (\<lambda>t. text_of (Some t)) ts)
                              | _ \<Rightarrow> None),
                             wk_steps = steps\<rparr>)
                  | _ \<Rightarrow> None))
      | _ \<Rightarrow> None)"

section \<open>Variables\<close>

datatype substitution_error =
    MalformedInput string
  | UnknownInput string
  | MalformedStep string
  | UnknownStep string "string list"
  | UnknownField string string
  | UnknownNamespace string

text \<open>
  \<open>key in inputs\<close> also holds for the names that every object inherits; their values are then inserted
  as texts.
\<close>

definition native_code :: "string \<Rightarrow> string" where
  "native_code f = ''function '' @ f @ ''() { [native code] }''"

definition inherited_properties :: "(string \<times> string) list" where
  "inherited_properties =
     (''constructor'', native_code ''Object'') # (''__proto__'', ''[object Object]'') #
     map (\<lambda>f. (f, native_code f))
       [''__defineGetter__'', ''__defineSetter__'', ''hasOwnProperty'', ''__lookupGetter__'',
        ''__lookupSetter__'', ''isPrototypeOf'', ''propertyIsEnumerable'', ''toString'', ''valueOf'',
        ''toLocaleString'']"

definition js_property :: "(string, string) jsmap \<Rightarrow> string \<Rightarrow> string option" where
  "js_property m key = or_else (jm_get m key) (map_of inherited_properties key)"

definition bool_text :: "bool \<Rightarrow> string" where
  "bool_text b = (if b then ''true'' else ''false'')"

definition step_field :: "step_result \<Rightarrow> string \<Rightarrow> string option" where
  "step_field s field =
     (if field = ''output'' then Some (st_output s)
      else if field = ''exitCode'' then Some (case st_exit_code s of None \<Rightarrow> [] | Some n \<Rightarrow> show_int n)
      else if field = ''success'' then Some (bool_text (st_success s))
      else if field = ''error'' then Some (default_to (st_error s) [])
      else if field = ''value'' then Some (default_to (st_value s) [])
      else if field = ''durationMs'' then Some (show_int (st_duration s))
      else None)"

definition nth_part :: "string list \<Rightarrow> nat \<Rightarrow> string" where
  "nth_part parts i = (if i < length parts then parts ! i else [])"

definition resolve_reference ::
  "step_result list \<Rightarrow> (string, string) jsmap option \<Rightarrow> string \<Rightarrow> substitution_error + string" where
  "resolve_reference steps inputs path =
     (let parts = split_at_char (CHR ''.'') path; ns = nth_part parts 0
      in if ns = ''inputs''
         then (let key = nth_part parts 1
               in if key = [] then Inl (MalformedInput path)
                  else case js_property (default_to inputs []) key of
                      None \<Rightarrow> Inl (UnknownInput key)
                    | Some v \<Rightarrow> Inr v)
         else if ns = ''steps''
         then (let step_name = nth_part parts 1; field = nth_part parts 2
               in if step_name = [] \<or> field = [] then Inl (MalformedStep path)
                  else case find (\<lambda>s. st_name s = step_name) steps of
                      None \<Rightarrow> Inl (UnknownStep step_name (map st_name steps))
                    | Some s \<Rightarrow> (case step_field s field of
                          None \<Rightarrow> Inl (UnknownField step_name field)
                        | Some v \<Rightarrow> Inr v))
         else Inl (UnknownNamespace ns))"

text \<open>
  One match of the reference expression at the start of the text: the path and what follows it. Word
  characters and spaces exclude each other, so the greedy parts have one way to match.
\<close>

definition path_char :: "char \<Rightarrow> bool" where
  "path_char c \<longleftrightarrow> word_char c \<or> c = CHR ''.''"

definition match_reference :: "string \<Rightarrow> (string \<times> string) option" where
  "match_reference s =
     (if \<not> is_prefix ''${{'' s then None
      else let s1 = dropWhile is_space (drop 3 s);
               path = takeWhile path_char s1;
               s2 = dropWhile is_space (dropWhile path_char s1)
           in if path \<noteq> [] \<and> is_prefix ''}}'' s2 then Some (path, drop 2 s2) else None)"

lemma match_reference_shorter: "match_reference s = Some (path, r) \<Longrightarrow> length r < length s"
proof -
  assume m: "match_reference s = Some (path, r)"
  let ?s1 = "dropWhile is_space (drop 3 s)"
  let ?s2 = "dropWhile is_space (dropWhile path_char ?s1)"
  from m have r: "r = drop 2 ?s2" and p: "is_prefix ''${{'' s"
    by (auto simp: match_reference_def Let_def split: if_splits)
  have "length ?s2 \<le> length (drop 3 s)"
    using length_dropWhile_le le_trans by blast
  moreover have "s \<noteq> []" using p by auto
  ultimately show ?thesis by (cases s) (auto simp: r)
qed

function substitute_from ::
  "(string \<Rightarrow> substitution_error + string) \<Rightarrow> string \<Rightarrow> substitution_error + string" where
  "substitute_from resolve s =
     (case match_reference s of
        Some (path, r) \<Rightarrow>
          (case resolve path of
             Inl e \<Rightarrow> Inl e
           | Inr v \<Rightarrow> (case substitute_from resolve r of Inl e \<Rightarrow> Inl e | Inr t \<Rightarrow> Inr (v @ t)))
      | None \<Rightarrow>
          (case s of
             [] \<Rightarrow> Inr []
           | c # cs \<Rightarrow> (case substitute_from resolve cs of Inl e \<Rightarrow> Inl e | Inr t \<Rightarrow> Inr (c # t))))"
  by pat_completeness auto
termination
  by (relation "measure (\<lambda>(resolve, s). length s)") (auto dest: match_reference_shorter)

declare substitute_from.simps [simp del]

definition substitute_vars ::
  "string \<Rightarrow> step_result list \<Rightarrow> (string, string) jsmap option \<Rightarrow> substitution_error + string" where
  "substitute_vars s steps inputs = substitute_from (resolve_reference steps inputs) s"

section \<open>Shell processes\<close>

datatype shell_event =
    OutData string
  | ErrData string
  | TimeoutFires
  | AbortFires
  | KillTimerFires
  | SpawnError string
  | Closed "int option" "string option"

datatype kill_signal = SigTerm | SigKill

record shell_state =
  sh_out :: string
  sh_err :: string
  sh_timeout_armed :: bool
  sh_kill_armed :: bool
  sh_listening :: bool
  sh_timed_out :: bool
  sh_aborted :: bool
  sh_sent :: "kill_signal list"
  sh_settled :: "structured_result option"

definition stream_cap :: nat where
  "stream_cap = 1024 * 1024"

definition shell_start :: shell_state where
  "shell_start = \<lparr>sh_out = [], sh_err = [], sh_timeout_armed = True, sh_kill_armed = False,
     sh_listening = True, sh_timed_out = False, sh_aborted = False, sh_sent = [], sh_settled = None\<rparr>"

definition shell_result ::
  "result_status \<Rightarrow> string \<Rightarrow> string \<Rightarrow> string \<Rightarrow> int option \<Rightarrow> artifact_ref list \<Rightarrow> bool \<Rightarrow> structured_result" where
  "shell_result status summary out err code artifacts retryable = \<lparr>sr_status = status,
     sr_summary = summary, sr_exit_code = code, sr_stdout = Some out, sr_stderr = Some err,
     sr_artifacts = (if artifacts = [] then None else Some artifacts), sr_retryable = Some retryable,
     sr_content = None\<rparr>"

definition settle :: "structured_result \<Rightarrow> shell_state \<Rightarrow> shell_state" where
  "settle r s = (if sh_settled s \<noteq> None then s
     else s\<lparr>sh_settled := Some r, sh_timeout_armed := False, sh_kill_armed := False, sh_listening := False\<rparr>)"

definition kill_tree :: "kill_signal \<Rightarrow> shell_state \<Rightarrow> shell_state" where
  "kill_tree sig s = s\<lparr>sh_sent := sh_sent s @ [sig]\<rparr>"

definition add_chunk :: "string \<Rightarrow> string \<Rightarrow> string" where
  "add_chunk captured chunk =
     (if length captured < stream_cap then captured @ take (stream_cap - length captured) chunk else captured)"

text \<open>The result on close: the texts, or their previews with artifacts for what was moved out.\<close>

definition routed :: "string \<Rightarrow> string \<Rightarrow> artifact_ref list \<times> string" where
  "routed captured i = (case route_large_output captured i default_large_output_bytes of
      None \<Rightarrow> ([], captured) | Some (a, preview) \<Rightarrow> ([a], preview))"

definition close_result ::
  "string \<Rightarrow> int \<Rightarrow> string \<times> string \<Rightarrow> int option \<Rightarrow> string option \<Rightarrow> shell_state \<Rightarrow> structured_result" where
  "close_result command timeout_ms ids code sig s =
     (let (arts1, out) = routed (sh_out s) (fst ids);
          (arts2, err) = routed (sh_err s) (snd ids);
          artifacts = arts1 @ arts2;
          short = take 200 command;
          exit_code = default_to code 0
      in if sh_aborted s
         then shell_result StCancelled (''Command cancelled by abort signal: '' @ short) out err code artifacts False
         else if sh_timed_out s
         then shell_result StTimedOut (''Command timed out after '' @ show_int timeout_ms @ ''ms: '' @ short)
                out err code artifacts True
         else if exit_code = 0
         then shell_result StSuccess (''Command succeeded: '' @ short) out err (Some 0) artifacts False
         else shell_result StFailed (''Command failed (exit '' @ show_int exit_code @
                (case sig of None \<Rightarrow> [] | Some g \<Rightarrow> if g = [] then [] else '', signal '' @ g) @ ''): '' @ short)
                out err (Some exit_code) artifacts False)"

definition spawn_failure :: "string \<Rightarrow> structured_result" where
  "spawn_failure msg = \<lparr>sr_status = StFailed, sr_summary = ''Failed to spawn: '' @ msg, sr_exit_code = None,
     sr_stdout = None, sr_stderr = Some msg, sr_artifacts = None, sr_retryable = Some False,
     sr_content = None\<rparr>"

text \<open>An event of a timer or of the signal happens only while it is armed.\<close>

fun shell_step :: "string \<Rightarrow> int \<Rightarrow> string \<times> string \<Rightarrow> shell_event \<Rightarrow> shell_state \<Rightarrow> shell_state" where
  "shell_step command ms ids (OutData c) s = s\<lparr>sh_out := add_chunk (sh_out s) c\<rparr>"
| "shell_step command ms ids (ErrData c) s = s\<lparr>sh_err := add_chunk (sh_err s) c\<rparr>"
| "shell_step command ms ids TimeoutFires s =
     (if \<not> sh_timeout_armed s \<or> sh_settled s \<noteq> None then s
      else (kill_tree SigTerm (s\<lparr>sh_timeout_armed := False, sh_timed_out := True\<rparr>))\<lparr>sh_kill_armed := True\<rparr>)"
| "shell_step command ms ids AbortFires s =
     (if \<not> sh_listening s \<or> sh_settled s \<noteq> None then s
      else (kill_tree SigTerm (s\<lparr>sh_listening := False, sh_aborted := True\<rparr>))
             \<lparr>sh_timeout_armed := False, sh_kill_armed := True\<rparr>)"
| "shell_step command ms ids KillTimerFires s =
     (if \<not> sh_kill_armed s then s else kill_tree SigKill (s\<lparr>sh_kill_armed := False\<rparr>))"
| "shell_step command ms ids (SpawnError msg) s = settle (spawn_failure msg) s"
| "shell_step command ms ids (Closed code sig) s =
     (if sh_settled s \<noteq> None then s else settle (close_result command ms ids code sig s) s)"

definition run_shell_async ::
  "string \<Rightarrow> int \<Rightarrow> bool \<Rightarrow> string \<times> string \<Rightarrow> shell_event list \<Rightarrow> structured_result option" where
  "run_shell_async command timeout_ms aborted ids events =
     (if aborted
      then Some \<lparr>sr_status = StCancelled,
             sr_summary = ''Command cancelled before spawn: '' @ take 200 command, sr_exit_code = None,
             sr_stdout = None, sr_stderr = None, sr_artifacts = None, sr_retryable = Some False,
             sr_content = None\<rparr>
      else sh_settled (fold (shell_step command timeout_ms ids) events shell_start))"

section \<open>The environment\<close>

datatype reply = Resolves string | Rejects string

datatype process = ProcessEvents "shell_event list" | ProcessThrows string

text \<open>Everything that happens is indexed by the position of the step.\<close>

record workflow_env =
  we_cwd :: string
  we_process_cwd :: string
  we_parent_run :: "string option"
  we_inputs :: "(string, string) jsmap option"
  we_slash :: "(nat \<Rightarrow> string \<Rightarrow> reply) option"
  we_prompt :: "(nat \<Rightarrow> string \<Rightarrow> string option \<Rightarrow> reply) option"
  we_agent :: "(nat \<Rightarrow> string \<Rightarrow> string \<Rightarrow> string \<Rightarrow> reply) option"
  we_shell :: "nat \<Rightarrow> string \<Rightarrow> string \<Rightarrow> int \<Rightarrow> process"
  we_aborted :: "nat \<Rightarrow> bool"
  we_duration :: "nat \<Rightarrow> int"
  we_uuid :: "nat \<Rightarrow> string"
  we_artifact_ids :: "nat \<Rightarrow> string \<times> string"
  we_now :: "nat \<Rightarrow> int"

fun substitution_text :: "substitution_error \<Rightarrow> string" where
  "substitution_text (MalformedInput p) = ''workflow: malformed input reference: '' @ p"
| "substitution_text (UnknownInput k) = ''workflow: unknown input variable: inputs.'' @ k"
| "substitution_text (MalformedStep p) = ''workflow: malformed step reference: '' @ p"
| "substitution_text (UnknownStep n known) = ''workflow: unknown step reference: steps.'' @ n @ '' (known: '' @
     (if join_with '', '' known = [] then ''none'' else join_with '', '' known) @ '')''"
| "substitution_text (UnknownField n f) = ''workflow: unsupported step field: steps.'' @ n @ ''.'' @ f @
     '' (supported: output, exitCode, success, error, value, durationMs)''"
| "substitution_text (UnknownNamespace ns) = ''workflow: unknown variable namespace: '' @ ns @
     '' (supported: inputs, steps)''"

definition step_name :: "workflow_step \<Rightarrow> string" where
  "step_name s = default_to (wp_name s) (step_type_text (wp_type s))"

text \<open>An optional string that JavaScript counts as true.\<close>

definition truthy :: "string option \<Rightarrow> string option" where
  "truthy s = (case s of None \<Rightarrow> None | Some t \<Rightarrow> if t = [] then None else Some t)"

definition step_cwd :: "workflow_env \<Rightarrow> workflow_step \<Rightarrow> string" where
  "step_cwd env s = (case truthy (wp_cwd s) of
      None \<Rightarrow> we_cwd env | Some d \<Rightarrow> resolve_path (we_process_cwd env) (we_cwd env) d)"

definition step_outcome ::
  "workflow_step \<Rightarrow> bool \<Rightarrow> string \<Rightarrow> int \<Rightarrow> string option \<Rightarrow> step_result" where
  "step_outcome s success output duration err = \<lparr>st_name = step_name s, st_type = wp_type s,
     st_success = success, st_output = output, st_exit_code = None, st_duration = duration,
     st_error = err, st_value = None, st_structured = None, st_run_id = None\<rparr>"

section \<open>Runs of steps\<close>

fun step_run_kind :: "step_type \<Rightarrow> run_kind" where
  "step_run_kind StepShell = KShellTask"
| "step_run_kind StepAgent = KAgent"
| "step_run_kind t = KWorkflow"

definition step_run_input :: "workflow_env \<Rightarrow> workflow_step \<Rightarrow> string \<Rightarrow> string \<Rightarrow> create_run_input" where
  "step_run_input env s workflow_run snapshot =
     (let dir = step_cwd env s
      in \<lparr>ci_run_id = None, ci_parent_run_id = Some workflow_run, ci_kind = step_run_kind (wp_type s),
     ci_goal = take 4000 snapshot, ci_status = Some RPreparing, ci_phase = Some ''step-starting'',
     ci_worker = Some (step_name s), ci_model_profile = None, ci_model_role = None, ci_model_tier = None,
     ci_model = None, ci_provider = None,
     ci_workspace = \<lparr>ws_cwd = dir, ws_worktree_path = None, ws_branch = None\<rparr>,
     ci_acceptance = None, ci_budget = None,
     ci_resources = Some (if wp_type s = StepShell
       then [\<lparr>rc_type = CtDirectory, rc_key = dir, rc_access = AccRead\<rparr>,
             \<lparr>rc_type = CtDirectory, rc_key = dir, rc_access = AccWrite\<rparr>] else []),
     ci_artifacts = None, ci_verification = None, ci_error = None, ci_created_at = None,
     ci_updated_at = None\<rparr>)"

definition phased :: "string \<Rightarrow> transition_patch" where
  "phased p = no_patch\<lparr>tp_phase := Some (Some p)\<rparr>"

text \<open>
  The first half of \<open>withStepRun\<close>: create the child run and start it. Errors of the registry are
  swallowed; the step runs either way.
\<close>

definition open_step_run ::
  "workflow_env \<Rightarrow> nat \<Rightarrow> workflow_step \<Rightarrow> string option \<Rightarrow> string \<Rightarrow> registry option \<Rightarrow>
     string option \<times> registry option" where
  "open_step_run env k s workflow_run snapshot reg =
     (case (reg, truthy workflow_run) of
        (Some r, Some w) \<Rightarrow>
          (case create_run (we_uuid env (Suc k)) (we_now env k) (step_run_input env s w snapshot) r of
             Inl _ \<Rightarrow> (None, reg)
           | Inr (run, r', _) \<Rightarrow>
               (Some (er_run_id run),
                Some (registry_step (OpTransition (er_run_id run) RRunning (phased ''executing'') (we_now env k)) r')))
      | _ \<Rightarrow> (None, reg))"

text \<open>The second half: the terminal status. An undefined list of artifacts is stored as an empty one.\<close>

definition close_step_run ::
  "workflow_env \<Rightarrow> nat \<Rightarrow> string option \<Rightarrow> bool \<Rightarrow> string \<Rightarrow> string option \<Rightarrow> artifact_ref list option option \<Rightarrow>
     registry option \<Rightarrow> registry option" where
  "close_step_run env k run success phase err artifacts reg =
     (case (run, reg) of
        (Some i, Some r) \<Rightarrow>
          Some (registry_step (OpTransition i (if success then RSucceeded else RFailed)
            (no_patch\<lparr>tp_phase := Some (Some phase), tp_error := Some err,
               tp_artifacts := map_option (\<lambda>a. default_to a []) artifacts\<rparr>) (we_now env k)) r)
      | _ \<Rightarrow> reg)"

definition stderr_or_summary :: "structured_result \<Rightarrow> string" where
  "stderr_or_summary r =
     (case truthy (map_option js_trim (truthy (sr_stderr r))) of Some e \<Rightarrow> e | None \<Rightarrow> sr_summary r)"

section \<open>Executing a step\<close>

definition execute_shell_step ::
  "workflow_env \<Rightarrow> nat \<Rightarrow> workflow_step \<Rightarrow> step_result list \<Rightarrow> string option \<Rightarrow> registry option \<Rightarrow>
     (step_result \<times> registry option) option" where
  "execute_shell_step env k s previous workflow_run reg =
     (case truthy (wp_command s) of
        None \<Rightarrow> Some (step_outcome s False [] 0 (Some ''Missing \"command\"''), reg)
      | Some command \<Rightarrow>
          (case substitute_vars command previous (we_inputs env) of
             Inl e \<Rightarrow> Some (step_outcome s False [] (we_duration env k) (Some (substitution_text e)), reg)
           | Inr cmd \<Rightarrow>
               (let dir = step_cwd env s;
                    timeout = default_to (wp_timeout_ms s) 60000;
                    (run, reg1) = open_step_run env k s workflow_run cmd reg
                in case we_shell env k cmd dir timeout of
                     ProcessThrows msg \<Rightarrow>
                       Some ((step_outcome s False [] (we_duration env k) (Some msg))\<lparr>st_run_id := run\<rparr>,
                         close_step_run env k run False ''exception'' (Some (take 1000 msg)) None reg1)
                   | ProcessEvents events \<Rightarrow>
                       (case run_shell_async cmd timeout False (we_artifact_ids env k) events of
                          None \<Rightarrow> None
                        | Some r \<Rightarrow>
                            (let ok = (sr_status r = StSuccess)
                             in Some ((step_outcome s ok (js_trim (default_to (sr_stdout r) [])) (we_duration env k)
                                   (if ok then None else truthy (Some (take 500 (stderr_or_summary r)))))
                                   \<lparr>st_exit_code := sr_exit_code r, st_structured := Some r, st_run_id := run\<rparr>,
                                 close_step_run env k run ok (if ok then ''shell-ok'' else ''shell-failed'')
                                   (if sr_status r = StFailed then Some (stderr_or_summary r) else None)
                                   (Some (sr_artifacts r)) reg1))))))"

definition reply_outcome :: "workflow_env \<Rightarrow> nat \<Rightarrow> workflow_step \<Rightarrow> reply \<Rightarrow> step_result" where
  "reply_outcome env k s r = (case r of
      Resolves t \<Rightarrow> step_outcome s True t (we_duration env k) None
    | Rejects msg \<Rightarrow> step_outcome s False [] (we_duration env k) (Some msg))"

definition with_text ::
  "workflow_env \<Rightarrow> nat \<Rightarrow> workflow_step \<Rightarrow> step_result list \<Rightarrow> string \<Rightarrow> (string \<Rightarrow> step_result) \<Rightarrow> step_result" where
  "with_text env k s previous raw f = (case substitute_vars raw previous (we_inputs env) of
      Inl e \<Rightarrow> step_outcome s False [] (we_duration env k) (Some (substitution_text e))
    | Inr t \<Rightarrow> f t)"

definition execute_slash_step :: "workflow_env \<Rightarrow> nat \<Rightarrow> workflow_step \<Rightarrow> step_result list \<Rightarrow> step_result" where
  "execute_slash_step env k s previous =
     (case truthy (wp_command s) of
        None \<Rightarrow> step_outcome s False [] 0 (Some ''Missing \"command\"'')
      | Some command \<Rightarrow> (case we_slash env of
            None \<Rightarrow> step_outcome s False [] 0 (Some ''No slash runner available'')
          | Some run \<Rightarrow> with_text env k s previous command (\<lambda>t. reply_outcome env k s (run k t))))"

definition execute_prompt_step :: "workflow_env \<Rightarrow> nat \<Rightarrow> workflow_step \<Rightarrow> step_result" where
  "execute_prompt_step env k s =
     (case we_prompt env of
        None \<Rightarrow> step_outcome s False [] 0 (Some ''No prompt handler available'')
      | Some ask \<Rightarrow> (case ask k (default_to (wp_message s) ''Enter value:'') (wp_default s) of
            Resolves v \<Rightarrow> (step_outcome s True v (we_duration env k) None)\<lparr>st_value := Some v\<rparr>
          | Rejects msg \<Rightarrow> step_outcome s False [] (we_duration env k) (Some msg)))"

definition execute_echo_step :: "workflow_env \<Rightarrow> nat \<Rightarrow> workflow_step \<Rightarrow> step_result list \<Rightarrow> step_result" where
  "execute_echo_step env k s previous =
     with_text env k s previous (default_to (wp_text s) [])
       (\<lambda>t. step_outcome s True t (we_duration env k) None)"

definition execute_agent_step :: "workflow_env \<Rightarrow> nat \<Rightarrow> workflow_step \<Rightarrow> step_result list \<Rightarrow> step_result" where
  "execute_agent_step env k s previous =
     (case truthy (wp_prompt s) of
        None \<Rightarrow> step_outcome s False [] 0 (Some ''Missing \"prompt\"'')
      | Some prompt \<Rightarrow> (case we_agent env of
            None \<Rightarrow> step_outcome s False [] 0 (Some ''No agent runner available'')
          | Some run \<Rightarrow> with_text env k s previous prompt
              (\<lambda>t. reply_outcome env k s (run k t (default_to (wp_preset s) ''general-purpose'')
                     (default_to (wp_description s) ''Workflow agent step'')))))"

definition input_snapshot :: "workflow_step \<Rightarrow> string" where
  "input_snapshot s = (case wp_type s of
      StepEcho \<Rightarrow> default_to (wp_text s) []
    | StepPrompt \<Rightarrow> default_to (wp_message s) []
    | StepSlash \<Rightarrow> default_to (wp_command s) []
    | StepAgent \<Rightarrow> default_to (wp_prompt s) []
    | StepShell \<Rightarrow> [])"

definition execute_step ::
  "workflow_env \<Rightarrow> nat \<Rightarrow> workflow_step \<Rightarrow> step_result list \<Rightarrow> string option \<Rightarrow> registry option \<Rightarrow>
     (step_result \<times> registry option) option" where
  "execute_step env k s previous workflow_run reg =
     (if wp_type s = StepShell then execute_shell_step env k s previous workflow_run reg
      else let (run, reg1) = open_step_run env k s workflow_run (input_snapshot s) reg;
               r = (case wp_type s of
                      StepSlash \<Rightarrow> execute_slash_step env k s previous
                    | StepPrompt \<Rightarrow> execute_prompt_step env k s
                    | StepEcho \<Rightarrow> execute_echo_step env k s previous
                    | _ \<Rightarrow> execute_agent_step env k s previous);
               reg2 = close_step_run env k run (st_success r)
                        (if st_success r then ''step-ok'' else ''step-failed'') (st_error r) (Some None) reg1
           in Some (if truthy run \<noteq> None then r\<lparr>st_run_id := run\<rparr> else r, reg2))"

section \<open>Executing a workflow\<close>

record loop_state =
  lp_results :: "step_result list"
  lp_registry :: "registry option"
  lp_last_success :: bool
  lp_hard_failure :: bool
  lp_soft_failure :: bool
  lp_cancelled :: bool

definition skipped :: "workflow_step \<Rightarrow> bool \<Rightarrow> string \<Rightarrow> step_result" where
  "skipped s success why = step_outcome s success why 0 None"

definition condition_blocks :: "workflow_step \<Rightarrow> bool \<Rightarrow> bool" where
  "condition_blocks s last_success \<longleftrightarrow>
     wp_if s = Some IfSuccess \<and> \<not> last_success \<or> wp_if s = Some IfFailure \<and> last_success"

definition move_run :: "string option \<Rightarrow> run_status \<Rightarrow> transition_patch \<Rightarrow> int \<Rightarrow> registry option \<Rightarrow> registry option" where
  "move_run run tgt patch now reg = (case (reg, truthy run) of
      (Some r, Some i) \<Rightarrow> Some (registry_step (OpTransition i tgt patch now) r)
    | _ \<Rightarrow> reg)"

definition push_result :: "step_result \<Rightarrow> loop_state \<Rightarrow> loop_state" where
  "push_result r st = st\<lparr>lp_results := lp_results st @ [r]\<rparr>"

text \<open>The loop over the steps from position \<open>k\<close>; \<open>None\<close> when a step never comes back.\<close>

fun workflow_loop ::
  "workflow_env \<Rightarrow> string option \<Rightarrow> nat \<Rightarrow> workflow_step list \<Rightarrow> loop_state \<Rightarrow> loop_state option" where
  "workflow_loop env run k [] st = Some (st\<lparr>lp_cancelled := lp_cancelled st \<or> we_aborted env k\<rparr>)"
| "workflow_loop env run k (s # ss) st0 =
     (let st = st0\<lparr>lp_cancelled := lp_cancelled st0 \<or> we_aborted env k\<rparr>
      in if lp_cancelled st
         then workflow_loop env run (Suc k) ss (push_result (skipped s False ''[skipped: workflow cancelled]'') st)
         else if condition_blocks s (lp_last_success st)
         then workflow_loop env run (Suc k) ss (push_result (skipped s True ''[skipped: condition not met]'') st)
         else case execute_step env k s (lp_results st) run (lp_registry st) of
             None \<Rightarrow> None
           | Some (r, reg) \<Rightarrow>
               (let reg' = move_run run RRunning (phased (''step:'' @ step_name s)) (we_now env k) reg;
                    st' = (push_result r st)\<lparr>lp_registry := reg', lp_last_success := st_success r\<rparr>
                in if st_success r then workflow_loop env run (Suc k) ss st'
                   else if wp_continue_on_error s
                   then workflow_loop env run (Suc k) ss (st'\<lparr>lp_soft_failure := True\<rparr>)
                   else Some (st'\<lparr>lp_hard_failure := True,
                                 lp_cancelled := lp_cancelled st' \<or> we_aborted env (Suc k)\<rparr>)))"

definition final_status :: "loop_state \<Rightarrow> workflow_status" where
  "final_status st =
     (if lp_cancelled st then WfCancelled
      else if lp_hard_failure st then WfFailed
      else if lp_soft_failure st then WfSucceededWithWarnings
      else WfSucceeded)"

definition workflow_run_input :: "workflow_env \<Rightarrow> workflow \<Rightarrow> create_run_input" where
  "workflow_run_input env w = \<lparr>ci_run_id = None, ci_parent_run_id = we_parent_run env, ci_kind = KWorkflow,
     ci_goal = default_to (wk_description w) (wk_name w), ci_status = None, ci_phase = None,
     ci_worker = Some (wk_name w), ci_model_profile = None, ci_model_role = None, ci_model_tier = None,
     ci_model = None, ci_provider = None,
     ci_workspace = \<lparr>ws_cwd = we_cwd env, ws_worktree_path = None, ws_branch = None\<rparr>,
     ci_acceptance = None, ci_budget = None, ci_resources = None, ci_artifacts = None,
     ci_verification = None, ci_error = None, ci_created_at = None, ci_updated_at = None\<rparr>"

definition open_workflow_run ::
  "workflow_env \<Rightarrow> workflow \<Rightarrow> registry option \<Rightarrow> string option \<times> registry option" where
  "open_workflow_run env w reg =
     (case reg of
        None \<Rightarrow> (None, None)
      | Some r \<Rightarrow> (case create_run (we_uuid env 0) (we_now env 0) (workflow_run_input env w) r of
            Inl _ \<Rightarrow> (None, reg)
          | Inr (run, r', _) \<Rightarrow> (Some (er_run_id run), Some r')))"

fun terminal_run_status :: "workflow_status \<Rightarrow> run_status" where
  "terminal_run_status WfCancelled = RCancelled"
| "terminal_run_status WfFailed = RFailed"
| "terminal_run_status _ = RSucceeded"

definition terminal_patch :: "workflow_status \<Rightarrow> transition_patch" where
  "terminal_patch status = no_patch\<lparr>
     tp_phase := Some (Some (if status = WfSucceededWithWarnings then ''completed-with-warnings'' else ''finalized'')),
     tp_error := Some (if status = WfFailed then Some ''one or more workflow steps failed''
       else if status = WfCancelled then Some ''workflow cancelled before completion'' else None)\<rparr>"

definition execute_workflow ::
  "workflow_env \<Rightarrow> workflow \<Rightarrow> registry option \<Rightarrow> (workflow_run_result \<times> registry option) option" where
  "execute_workflow env w reg =
     (let (run, reg1) = open_workflow_run env w reg;
          reg2 = move_run run RPreparing (phased ''workflow-starting'') (we_now env 0) reg1;
          reg3 = move_run run RRunning (phased ''executing-steps'') (we_now env 0) reg2
      in case workflow_loop env run 0 (wk_steps w) \<lparr>lp_results = [], lp_registry = reg3,
               lp_last_success = True, lp_hard_failure = False, lp_soft_failure = False,
               lp_cancelled = False\<rparr> of
           None \<Rightarrow> None
         | Some st \<Rightarrow>
             (let status = final_status st
              in Some (\<lparr>wr_name = wk_name w,
                    wr_success = (status = WfSucceeded \<or> status = WfSucceededWithWarnings),
                    wr_status = status, wr_steps = lp_results st, wr_run_id = run\<rparr>,
                  move_run run (terminal_run_status status) (terminal_patch status)
                    (we_now env (length (wk_steps w))) (lp_registry st))))"

section \<open>Lemmas on shell processes\<close>

definition ends_process :: "shell_event \<Rightarrow> bool" where
  "ends_process e = (case e of SpawnError _ \<Rightarrow> True | Closed _ _ \<Rightarrow> True | _ \<Rightarrow> False)"

lemma kill_tree_simps [simp]:
  "sh_out (kill_tree g s) = sh_out s" "sh_err (kill_tree g s) = sh_err s"
  "sh_timed_out (kill_tree g s) = sh_timed_out s" "sh_aborted (kill_tree g s) = sh_aborted s"
  "sh_settled (kill_tree g s) = sh_settled s" "sh_listening (kill_tree g s) = sh_listening s"
  "sh_timeout_armed (kill_tree g s) = sh_timeout_armed s"
  by (simp_all add: kill_tree_def)

lemma settled_stays: "sh_settled s = Some r \<Longrightarrow> sh_settled (fold (shell_step c ms ids) es s) = Some r"
proof (induction es arbitrary: s)
  case (Cons e es)
  then have "sh_settled (shell_step c ms ids e s) = Some r" by (cases e) (simp_all add: settle_def)
  then show ?case using Cons.IH by simp
qed simp

text \<open>While the process runs: which of the two ends has been asked for, and what has been captured.\<close>

definition running_state :: "shell_event list \<Rightarrow> shell_state \<Rightarrow> bool" where
  "running_state es s \<longleftrightarrow> sh_settled s = None \<and>
     sh_aborted s = (AbortFires \<in> set es) \<and> sh_listening s = (AbortFires \<notin> set es) \<and>
     (sh_aborted s \<or> sh_timed_out s = (TimeoutFires \<in> set es)) \<and>
     (sh_aborted s \<or> sh_timeout_armed s = (TimeoutFires \<notin> set es)) \<and>
     length (sh_out s) \<le> stream_cap \<and> length (sh_err s) \<le> stream_cap"

lemma length_add_chunk: "length w \<le> stream_cap \<Longrightarrow> length (add_chunk w c) \<le> stream_cap"
  by (auto simp: add_chunk_def min_def)

lemma running_step:
  "running_state es s \<Longrightarrow> \<not> ends_process e \<Longrightarrow> running_state (es @ [e]) (shell_step c ms ids e s)"
  by (cases e) (auto simp: running_state_def ends_process_def length_add_chunk)

lemma running_fold:
  "running_state es s \<Longrightarrow> list_all (\<lambda>e. \<not> ends_process e) fs \<Longrightarrow>
     running_state (es @ fs) (fold (shell_step c ms ids) fs s)"
proof (induction fs arbitrary: es s)
  case (Cons e fs)
  from running_step [OF Cons.prems(1)] Cons.prems(2) Cons.IH [of "es @ [e]"] show ?case by simp
qed simp

lemma running_start: "running_state [] shell_start"
  by (simp add: running_state_def shell_start_def)

lemma shell_runs:
  assumes "list_all (\<lambda>e. \<not> ends_process e) pre"
  shows "running_state pre (fold (shell_step c ms ids) pre shell_start)"
  using running_fold [OF running_start assms] by simp

lemma shell_closes:
  assumes "list_all (\<lambda>e. \<not> ends_process e) pre"
  shows "run_shell_async c ms False ids (pre @ Closed code sig # post) =
    Some (close_result c ms ids code sig (fold (shell_step c ms ids) pre shell_start))"
proof -
  let ?s = "fold (shell_step c ms ids) pre shell_start"
  have "sh_settled ?s = None" using shell_runs [OF assms] by (simp add: running_state_def)
  then have "sh_settled (shell_step c ms ids (Closed code sig) ?s) = Some (close_result c ms ids code sig ?s)"
    by (simp add: settle_def)
  from settled_stays [OF this] show ?thesis by (simp add: run_shell_async_def)
qed

lemma shell_fails_to_spawn:
  assumes "list_all (\<lambda>e. \<not> ends_process e) pre"
  shows "run_shell_async c ms False ids (pre @ SpawnError msg # post) = Some (spawn_failure msg)"
proof -
  let ?s = "fold (shell_step c ms ids) pre shell_start"
  have "sh_settled ?s = None" using shell_runs [OF assms] by (simp add: running_state_def)
  then have "sh_settled (shell_step c ms ids (SpawnError msg) ?s) = Some (spawn_failure msg)"
    by (simp add: settle_def)
  from settled_stays [OF this] show ?thesis by (simp add: run_shell_async_def)
qed

lemma close_result_status:
  "sr_status (close_result c ms ids code sig s) =
     (if sh_aborted s then StCancelled else if sh_timed_out s then StTimedOut
      else if default_to code 0 = 0 then StSuccess else StFailed)"
  by (simp add: close_result_def Let_def case_prod_beta shell_result_def)

lemma shell_settles:
  "run_shell_async c ms aborted ids events \<noteq> None \<longleftrightarrow> aborted \<or> list_ex ends_process events"
proof (cases "aborted \<or> \<not> list_ex ends_process events")
  case True
  then show ?thesis
    using shell_runs [of events c ms ids]
    by (auto simp: run_shell_async_def running_state_def list_ex_iff list_all_iff)
next
  case False
  then obtain pre e post where "events = pre @ e # post" "ends_process e" "\<forall>x\<in>set pre. \<not> ends_process x"
    using split_list_first_prop [of events ends_process] by (auto simp: list_ex_iff)
  with False show ?thesis
    by (cases e) (simp_all add: ends_process_def list_all_iff shell_closes shell_fails_to_spawn)
qed

section \<open>Lemmas on the loop\<close>

lemma step_outcome_simps [simp]:
  "st_name (step_outcome s b out d e) = step_name s" "st_type (step_outcome s b out d e) = wp_type s"
  "st_success (step_outcome s b out d e) = b" "st_run_id (step_outcome s b out d e) = None"
  by (simp_all add: step_outcome_def)

lemma with_text_name:
  "(\<And>t. st_name (f t) = step_name s \<and> st_run_id (f t) = None) \<Longrightarrow>
     st_name (with_text env k s previous raw f) = step_name s \<and>
     st_run_id (with_text env k s previous raw f) = None"
  by (simp add: with_text_def split: sum.splits)

lemma reply_outcome_simps [simp]:
  "st_name (reply_outcome env k s r) = step_name s" "st_run_id (reply_outcome env k s r) = None"
  by (simp_all add: reply_outcome_def split: reply.splits)

lemma plain_step_name:
  "st_name (execute_slash_step env k s previous) = step_name s \<and> st_run_id (execute_slash_step env k s previous) = None"
  "st_name (execute_prompt_step env k s) = step_name s \<and> st_run_id (execute_prompt_step env k s) = None"
  "st_name (execute_echo_step env k s previous) = step_name s \<and> st_run_id (execute_echo_step env k s previous) = None"
  "st_name (execute_agent_step env k s previous) = step_name s \<and> st_run_id (execute_agent_step env k s previous) = None"
  by (auto simp: execute_slash_step_def execute_prompt_step_def execute_echo_step_def
      execute_agent_step_def with_text_name split: option.splits reply.splits)

lemma execute_step_name: "execute_step env k s previous run reg = Some (r, reg') \<Longrightarrow> st_name r = step_name s"
  by (auto simp: execute_step_def execute_shell_step_def Let_def case_prod_beta plain_step_name
      split: if_splits option.splits sum.splits process.splits step_type.splits)

text \<open>
  What the loop reports, from a position without failure: one result per step that was looked at, all
  of them unless a step failed hard, and the flags say which results failed.
\<close>

definition loop_report :: "bool \<Rightarrow> workflow_step list \<Rightarrow> step_result list \<Rightarrow> loop_state \<Rightarrow> bool" where
  "loop_report soft ss rs st \<longleftrightarrow>
     map st_name rs = map step_name (take (length rs) ss) \<and> length rs \<le> length ss \<and>
     (\<not> lp_hard_failure st \<longrightarrow> length rs = length ss) \<and>
     (lp_hard_failure st \<longrightarrow> rs \<noteq> [] \<and> \<not> st_success (last rs) \<and>
        \<not> wp_continue_on_error (ss ! (length rs - 1))) \<and>
     (\<not> lp_cancelled st \<longrightarrow>
        lp_soft_failure st = (soft \<or> (\<exists>i < length rs. \<not> st_success (rs ! i) \<and> wp_continue_on_error (ss ! i))) \<and>
        (\<forall>i < length rs. st_success (rs ! i) \<or> wp_continue_on_error (ss ! i) \<or>
           lp_hard_failure st \<and> Suc i = length rs))"

lemma loop_report_Nil: "\<not> lp_hard_failure st \<Longrightarrow> loop_report (lp_soft_failure st) [] [] st"
  by (simp add: loop_report_def)

lemma loop_report_Cons:
  assumes "loop_report soft' ss rs st" and "st_name r = step_name s"
    and "\<not> lp_cancelled st \<Longrightarrow> (st_success r \<or> wp_continue_on_error s) \<and> soft' = (soft \<or> \<not> st_success r)"
    and "lp_hard_failure st \<Longrightarrow> rs \<noteq> []"
  shows "loop_report soft (s # ss) (r # rs) st"
proof -
  have "\<exists>i < length (r # rs). \<not> st_success ((r # rs) ! i) \<and> wp_continue_on_error ((s # ss) ! i)"
    if "\<not> lp_cancelled st" "\<not> st_success r" using assms(3) [OF that(1)] that(2) by (intro exI [of _ 0]) simp
  with assms show ?thesis
    unfolding loop_report_def
    by (cases rs) (auto simp: All_less_Suc2 Ex_less_Suc2 nth_Cons')
qed

lemma loop_cancelled_stays:
  "workflow_loop env run k ss st = Some st' \<Longrightarrow> lp_cancelled st \<Longrightarrow> lp_cancelled st' \<and> lp_hard_failure st' = lp_hard_failure st"
  by (induction ss arbitrary: k st) (auto simp: Let_def push_result_def)

lemma push_result_simps [simp]:
  "lp_results (push_result r st) = lp_results st @ [r]" "lp_cancelled (push_result r st) = lp_cancelled st"
  "lp_hard_failure (push_result r st) = lp_hard_failure st" "lp_soft_failure (push_result r st) = lp_soft_failure st"
  "lp_registry (push_result r st) = lp_registry st" "lp_last_success (push_result r st) = lp_last_success st"
  by (simp_all add: push_result_def)

lemma skipped_simps [simp]:
  "st_name (skipped s b w) = step_name s" "st_success (skipped s b w) = b" "st_run_id (skipped s b w) = None"
  by (simp_all add: skipped_def)

lemma loop_reports:
  "workflow_loop env run k ss st = Some st' \<Longrightarrow> \<not> lp_hard_failure st \<Longrightarrow>
     \<exists>rs. lp_results st' = lp_results st @ rs \<and> loop_report (lp_soft_failure st) ss rs st'"
proof (induction ss arbitrary: k st)
  case Nil
  then show ?case by (auto simp: loop_report_def)
next
  case (Cons s ss)
  let ?st = "st\<lparr>lp_cancelled := lp_cancelled st \<or> we_aborted env k\<rparr>"
  have hard: "lp_hard_failure st' \<Longrightarrow> loop_report b ss rs st' \<Longrightarrow> rs \<noteq> []" for b rs
    by (simp add: loop_report_def)
  note cons = loop_report_Cons [OF _ _ _ hard]
  consider (cancelled) "lp_cancelled ?st" | (blocked) "\<not> lp_cancelled ?st" "condition_blocks s (lp_last_success st)"
    | (runs) "\<not> lp_cancelled ?st" "\<not> condition_blocks s (lp_last_success st)" by blast
  then show ?case
  proof cases
    case cancelled
    let ?next = "push_result (skipped s False ''[skipped: workflow cancelled]'') ?st"
    from cancelled Cons.prems(1) have step: "workflow_loop env run (Suc k) ss ?next = Some st'"
      by (simp add: Let_def)
    from Cons.IH [OF step] Cons.prems(2) obtain rs where rs: "lp_results st' = lp_results ?next @ rs"
      "loop_report (lp_soft_failure ?next) ss rs st'" by auto
    have "lp_cancelled st'" using loop_cancelled_stays [OF step] cancelled by simp
    with rs have "loop_report (lp_soft_failure st) (s # ss) (skipped s False ''[skipped: workflow cancelled]'' # rs) st'"
      by (intro cons [OF rs(2)]) auto
    with rs(1) show ?thesis by auto
  next
    case blocked
    let ?next = "push_result (skipped s True ''[skipped: condition not met]'') ?st"
    from blocked Cons.prems(1) have step: "workflow_loop env run (Suc k) ss ?next = Some st'"
      by (simp add: Let_def)
    from Cons.IH [OF step] Cons.prems(2) obtain rs where rs: "lp_results st' = lp_results ?next @ rs"
      "loop_report (lp_soft_failure ?next) ss rs st'" by auto
    then have "loop_report (lp_soft_failure st) (s # ss) (skipped s True ''[skipped: condition not met]'' # rs) st'"
      by (intro cons [OF rs(2)]) auto
    with rs(1) show ?thesis by auto
  next
    case runs
    with Cons.prems(1) obtain r reg where ex: "execute_step env k s (lp_results st) run (lp_registry st) = Some (r, reg)"
      by (auto simp: Let_def split: option.splits)
    from execute_step_name [OF ex] have name: "st_name r = step_name s" .
    let ?reg = "move_run run RRunning (phased (''step:'' @ step_name s)) (we_now env k) reg"
    let ?next = "(push_result r ?st)\<lparr>lp_registry := ?reg, lp_last_success := st_success r\<rparr>"
    consider (ok) "st_success r" | (soft) "\<not> st_success r" "wp_continue_on_error s"
      | (hardly) "\<not> st_success r" "\<not> wp_continue_on_error s" by blast
    then show ?thesis
    proof cases
      case ok
      with runs ex Cons.prems(1) have step: "workflow_loop env run (Suc k) ss ?next = Some st'"
        by (simp add: Let_def)
      from Cons.IH [OF step] Cons.prems(2) obtain rs where rs: "lp_results st' = lp_results ?next @ rs"
        "loop_report (lp_soft_failure ?next) ss rs st'" by auto
      then have "loop_report (lp_soft_failure st) (s # ss) (r # rs) st'"
        by (intro cons [OF rs(2)]) (use ok name in auto)
      with rs(1) show ?thesis by auto
    next
      case soft
      let ?nexts = "?next\<lparr>lp_soft_failure := True\<rparr>"
      from soft runs ex Cons.prems(1) have step: "workflow_loop env run (Suc k) ss ?nexts = Some st'"
        by (simp add: Let_def)
      from Cons.IH [OF step] Cons.prems(2) obtain rs where rs: "lp_results st' = lp_results ?nexts @ rs"
        "loop_report (lp_soft_failure ?nexts) ss rs st'" by auto
      then have "loop_report (lp_soft_failure st) (s # ss) (r # rs) st'"
        by (intro cons [OF rs(2)]) (use soft name in auto)
      with rs(1) show ?thesis by auto
    next
      case hardly
      with runs ex Cons.prems have "st' = ?next\<lparr>lp_hard_failure := True,
          lp_cancelled := lp_cancelled ?next \<or> we_aborted env (Suc k)\<rparr>"
        by (simp add: Let_def)
      with hardly name show ?thesis by (intro exI [of _ "[r]"]) (simp add: loop_report_def)
    qed
  qed
qed

lemma loop_not_cancelled:
  "workflow_loop env run k ss st = Some st' \<Longrightarrow> \<not> lp_cancelled st \<Longrightarrow>
     (\<And>j. k \<le> j \<Longrightarrow> j \<le> k + length ss \<Longrightarrow> \<not> we_aborted env j) \<Longrightarrow> \<not> lp_cancelled st'"
proof (induction ss arbitrary: k st)
  case Nil
  then show ?case by auto
next
  case (Cons s ss)
  have now: "\<not> we_aborted env k" "\<not> we_aborted env (Suc k)" using Cons.prems(3) by simp_all
  have later: "lp_cancelled st1" if "workflow_loop env run (Suc k) ss st1 = Some st'" "lp_cancelled st'" for st1
    using Cons.IH [OF that(1)] Cons.prems(3) that(2) by fastforce
  show ?case
  proof
    assume "lp_cancelled st'"
    note later = later [OF _ this]
    from Cons.prems(1,2) now \<open>lp_cancelled st'\<close> show False
      by (auto simp: Let_def split: if_splits option.splits dest!: later)
  qed
qed

section \<open>Lemmas on the runs of a workflow\<close>

lemma move_of_transition:
  assumes "jm_get g i = Some run" and "can_transition (er_status run) tgt"
  shows "\<exists>run'. jm_get (registry_step (OpTransition i tgt p now) g) = (jm_get g)(i \<mapsto> run') \<and>
    er_status run' = tgt \<and> er_kind run' = er_kind run \<and> er_parent_run_id run' = er_parent_run_id run"
  by (intro exI [of _ "(apply_transition_patch p run)\<lparr>er_status := tgt, er_updated_at := now\<rparr>"])
    (simp add: assms registry_step_def transition_run_def Let_def)

lemma truthy_Some: "i \<noteq> [] \<Longrightarrow> truthy (Some i) = Some i"
  by (simp add: truthy_def)

lemma move_run_None [simp]: "move_run run tgt p now None = None"
  by (simp add: move_run_def)

lemma open_step_fresh:
  assumes "\<not> jm_has g (we_uuid env (Suc k))" and "w \<noteq> []"
  shows "\<exists>g' run. open_step_run env k s (Some w) snapshot (Some g) = (Some (we_uuid env (Suc k)), Some g') \<and>
    jm_get g' = (jm_get g)(we_uuid env (Suc k) \<mapsto> run) \<and> er_status run = RRunning \<and>
    er_parent_run_id run = Some w"
proof -
  let ?u = "we_uuid env (Suc k)" and ?i = "step_run_input env s w snapshot"
  let ?g = "jm_set ?u (run_of_input ?u (we_now env k) ?i) g"
  have "create_run ?u (we_now env k) ?i g = Inr (run_of_input ?u (we_now env k) ?i, ?g,
      \<lparr>re_kind = EmitCreate, re_run = run_of_input ?u (we_now env k) ?i, re_from = None, re_to = None\<rparr>)"
    using assms(1) by (simp add: create_run_def Let_def step_run_input_def)
  moreover have "\<exists>run'. jm_get (registry_step (OpTransition ?u RRunning (phased ''executing'') (we_now env k)) ?g) =
      (jm_get ?g)(?u \<mapsto> run') \<and> er_status run' = RRunning \<and>
      er_kind run' = er_kind (run_of_input ?u (we_now env k) ?i) \<and>
      er_parent_run_id run' = er_parent_run_id (run_of_input ?u (we_now env k) ?i)"
    by (rule move_of_transition) (simp_all add: step_run_input_def Let_def table_steps)
  ultimately show ?thesis
    using assms(2) by (auto simp: open_step_run_def truthy_Some run_of_input_def step_run_input_def Let_def)
qed

lemma close_step_moves:
  assumes "jm_get g i = Some run" and "er_status run = RRunning"
  shows "\<exists>g' run'. close_step_run env k (Some i) b phase err arts (Some g) = Some g' \<and>
    jm_get g' = (jm_get g)(i \<mapsto> run') \<and> er_status run' = (if b then RSucceeded else RFailed) \<and>
    er_parent_run_id run' = er_parent_run_id run"
proof -
  have "can_transition (er_status run) (if b then RSucceeded else RFailed)"
    by (simp add: assms(2) status_defs)
  from move_of_transition [OF assms(1) this, of "no_patch\<lparr>tp_phase := Some (Some phase), tp_error := Some err,
      tp_artifacts := map_option (\<lambda>a. default_to a []) arts\<rparr>" "we_now env k"]
  show ?thesis by (auto simp: close_step_run_def)
qed

text \<open>What one executed step leaves in the registry: nothing, or one finished child run.\<close>

definition step_left :: "string \<Rightarrow> string \<Rightarrow> step_result \<Rightarrow> registry \<Rightarrow> registry \<Rightarrow> bool" where
  "step_left w u r g g' \<longleftrightarrow>
     st_run_id r = None \<and> g' = g \<or>
     st_run_id r = Some u \<and>
       (\<exists>run. jm_get g' = (jm_get g)(u \<mapsto> run) \<and> er_parent_run_id run = Some w \<and>
          er_status run = (if st_success r then RSucceeded else RFailed))"

lemma open_close:
  assumes "\<not> jm_has g (we_uuid env (Suc k))" and "w \<noteq> []"
    and "open_step_run env k s (Some w) snapshot (Some g) = (run, reg1)"
    and "close_step_run env k run b phase err arts reg1 = reg2"
    and "st_run_id r = run" and "st_success r = b"
  shows "\<exists>g'. reg2 = Some g' \<and> step_left w (we_uuid env (Suc k)) r g g'"
proof -
  obtain g1 run1 where g1: "run = Some (we_uuid env (Suc k))" "reg1 = Some g1"
    "jm_get g1 = (jm_get g)(we_uuid env (Suc k) \<mapsto> run1)" "er_status run1 = RRunning"
    "er_parent_run_id run1 = Some w"
    using open_step_fresh [OF assms(1,2), of s snapshot] assms(3) by auto
  obtain g2 run2 where "reg2 = Some g2" "jm_get g2 = (jm_get g1)(we_uuid env (Suc k) \<mapsto> run2)"
    "er_status run2 = (if b then RSucceeded else RFailed)" "er_parent_run_id run2 = Some w"
    using close_step_moves [of g1 "we_uuid env (Suc k)" run1 env k b phase err arts] g1 assms(4) by auto
  with g1 assms(5,6) show ?thesis by (auto simp: step_left_def)
qed

lemma execute_step_leaves:
  assumes ex: "execute_step env k s previous (Some w) (Some g) = Some (r, reg')"
    and fresh: "\<not> jm_has g (we_uuid env (Suc k))" and w: "w \<noteq> []" and u: "we_uuid env (Suc k) \<noteq> []"
  shows "\<exists>g'. reg' = Some g' \<and> step_left w (we_uuid env (Suc k)) r g g'"
proof (cases "wp_type s = StepShell")
  case False
  let ?r = "case wp_type s of StepSlash \<Rightarrow> execute_slash_step env k s previous
      | StepPrompt \<Rightarrow> execute_prompt_step env k s | StepEcho \<Rightarrow> execute_echo_step env k s previous
      | _ \<Rightarrow> execute_agent_step env k s previous"
  obtain run reg1 where opened: "open_step_run env k s (Some w) (input_snapshot s) (Some g) = (run, reg1)"
    by fastforce
  have run: "run = Some (we_uuid env (Suc k))"
    using open_step_fresh [OF fresh w, of s "input_snapshot s"] opened by auto
  from ex False opened run u have r: "r = ?r\<lparr>st_run_id := run\<rparr>"
    "reg' = close_step_run env k run (st_success ?r) (if st_success ?r then ''step-ok'' else ''step-failed'')
       (st_error ?r) (Some None) reg1"
    by (simp_all add: execute_step_def Let_def truthy_Some)
  from open_close [OF fresh w opened r(2) [symmetric], of r] r(1) show ?thesis by simp
next
  case True
  with ex have ex: "execute_shell_step env k s previous (Some w) (Some g) = Some (r, reg')"
    by (simp add: execute_step_def)
  show ?thesis
  proof (cases "truthy (wp_command s)")
    case None
    with ex show ?thesis by (auto simp: execute_shell_step_def step_left_def)
  next
    case (Some command)
    show ?thesis
    proof (cases "substitute_vars command previous (we_inputs env)")
      case (Inl e)
      with ex Some show ?thesis by (auto simp: execute_shell_step_def step_left_def)
    next
      case (Inr cmd)
      obtain run reg1 where opened: "open_step_run env k s (Some w) cmd (Some g) = (run, reg1)" by fastforce
      show ?thesis
      proof (cases "we_shell env k cmd (step_cwd env s) (default_to (wp_timeout_ms s) 60000)")
        case (ProcessThrows msg)
        with ex Some Inr opened have
          "r = (step_outcome s False [] (we_duration env k) (Some msg))\<lparr>st_run_id := run\<rparr>"
          "close_step_run env k run False ''exception'' (Some (take 1000 msg)) None reg1 = reg'"
          by (simp_all add: execute_shell_step_def Let_def)
        with open_close [OF fresh w opened this(2), of r] show ?thesis by simp
      next
        case (ProcessEvents events)
        with ex Some Inr opened obtain q where
          q: "run_shell_async cmd (default_to (wp_timeout_ms s) 60000) False (we_artifact_ids env k) events = Some q"
          by (auto simp: execute_shell_step_def Let_def split: option.splits)
        let ?ok = "sr_status q = StSuccess"
        from ex Some Inr opened ProcessEvents q have
          "st_run_id r = run" "st_success r = ?ok"
          "close_step_run env k run ?ok (if ?ok then ''shell-ok'' else ''shell-failed'')
             (if sr_status q = StFailed then Some (stderr_or_summary q) else None) (Some (sr_artifacts q)) reg1 = reg'"
          by (auto simp: execute_shell_step_def Let_def)
        from open_close [OF fresh w opened this(3) this(1,2)] show ?thesis .
      qed
    qed
  qed
qed

text \<open>Distinct, non-empty ids for the workflow and its \<open>n\<close> steps, as random ids are.\<close>

definition ids_ok :: "workflow_env \<Rightarrow> nat \<Rightarrow> bool" where
  "ids_ok env n \<longleftrightarrow> distinct (map (we_uuid env) [0..<Suc n]) \<and> list_all (\<lambda>i. we_uuid env i \<noteq> []) [0..<Suc n]"

lemma ids_okD:
  assumes "ids_ok env n" and "i \<le> n" and "j \<le> n"
  shows "we_uuid env i \<noteq> []" and "we_uuid env i = we_uuid env j \<longleftrightarrow> i = j"
proof -
  from assms(1) have "inj_on (we_uuid env) {0..<Suc n}" and set: "\<forall>x\<in>{0..<Suc n}. we_uuid env x \<noteq> []"
    unfolding ids_ok_def distinct_map list_all_iff set_upt by blast+
  have mem: "i \<in> {0..<Suc n}" "j \<in> {0..<Suc n}" using assms(2,3) by auto
  with \<open>inj_on (we_uuid env) {0..<Suc n}\<close> show "we_uuid env i = we_uuid env j \<longleftrightarrow> i = j"
    by (rule inj_on_eq_iff)
  from set mem show "we_uuid env i \<noteq> []" by blast
qed

text \<open>The finished child run of a result.\<close>

definition child_recorded :: "workflow_env \<Rightarrow> nat \<Rightarrow> step_result \<Rightarrow> registry \<Rightarrow> bool" where
  "child_recorded env j r g = (case st_run_id r of
      None \<Rightarrow> True
    | Some i \<Rightarrow> i = we_uuid env (Suc j) \<and> (\<exists>run. jm_get g i = Some run \<and>
        er_parent_run_id run = Some (we_uuid env 0) \<and>
        er_status run = (if st_success r then RSucceeded else RFailed)))"

lemma child_recorded_cong:
  "child_recorded env j r g \<Longrightarrow> jm_get g' (we_uuid env (Suc j)) = jm_get g (we_uuid env (Suc j)) \<Longrightarrow>
     child_recorded env j r g'"
  by (cases "st_success r") (auto simp: child_recorded_def split: option.splits)

definition runs_recorded ::
  "workflow_env \<Rightarrow> nat \<Rightarrow> registry \<Rightarrow> step_result list \<Rightarrow> registry \<Rightarrow> bool" where
  "runs_recorded env n g0 rs g \<longleftrightarrow>
     (\<exists>run. jm_get g (we_uuid env 0) = Some run \<and> er_status run = RRunning \<and> er_kind run = KWorkflow) \<and>
     (\<forall>j < length rs. child_recorded env j (rs ! j) g) \<and>
     (\<forall>j. length rs \<le> j \<and> j < n \<longrightarrow> \<not> jm_has g (we_uuid env (Suc j))) \<and>
     (\<forall>rid. rid \<notin> we_uuid env ` {..n} \<longrightarrow> jm_get g rid = jm_get g0 rid)"

lemma recorded_update:
  assumes rec: "runs_recorded env n g0 rs g" and ids: "ids_ok env n" and k: "length rs < n"
    and left: "step_left (we_uuid env 0) (we_uuid env (Suc (length rs))) r g g1"
    and moved: "move_run (Some (we_uuid env 0)) RRunning patch now (Some g1) = Some g2"
  shows "runs_recorded env n g0 (rs @ [r]) g2"
proof -
  let ?w = "we_uuid env 0" and ?u = "we_uuid env (Suc (length rs))"
  have ne: "?w \<noteq> []" "?u \<noteq> ?w" using ids_okD [OF ids, of 0 0] ids_okD [OF ids, of "Suc (length rs)" 0] k by auto
  from rec obtain run where run: "jm_get g ?w = Some run" "er_status run = RRunning" "er_kind run = KWorkflow"
    by (auto simp: runs_recorded_def)
  with left ne have w1: "jm_get g1 ?w = Some run" by (auto simp: step_left_def)
  from move_of_transition [OF w1, of RRunning patch now] run(2) obtain run' where
    run': "jm_get (registry_step (OpTransition ?w RRunning patch now) g1) = (jm_get g1)(?w \<mapsto> run')"
    "er_status run' = RRunning" "er_kind run' = KWorkflow"
    using run(3) by auto
  have g2: "jm_get g2 = (jm_get g1)(?w \<mapsto> run')"
    using moved run'(1) ne(1) by (auto simp: move_run_def truthy_Some)
  have kept: "jm_get g2 rid = jm_get g rid" if "rid \<noteq> ?w" "rid \<noteq> ?u" for rid
    using left that by (auto simp: g2 step_left_def)
  have old: "jm_get g2 (we_uuid env (Suc j)) = jm_get g (we_uuid env (Suc j))"
    if "j < n" "j \<noteq> length rs" for j
    by (rule kept) (use ids_okD(2) [OF ids, of "Suc j" 0] ids_okD(2) [OF ids, of "Suc j" "Suc (length rs)"] that k
      in simp_all)
  have new: "child_recorded env (length rs) r g2"
    using left g2 ne by (auto simp: step_left_def child_recorded_def)
  have "child_recorded env j ((rs @ [r]) ! j) g2" if "j < Suc (length rs)" for j
  proof (cases "j = length rs")
    case False
    with that have "j < length rs" by simp
    with rec have "child_recorded env j (rs ! j) g" by (simp add: runs_recorded_def)
    moreover have "jm_get g2 (we_uuid env (Suc j)) = jm_get g (we_uuid env (Suc j))"
      using old [of j] \<open>j < length rs\<close> k by simp
    ultimately have "child_recorded env j (rs ! j) g2" by (rule child_recorded_cong)
    with \<open>j < length rs\<close> show ?thesis by (simp add: nth_append)
  qed (use new in simp)
  moreover have "\<not> jm_has g2 (we_uuid env (Suc j))" if "Suc (length rs) \<le> j" "j < n" for j
    using rec old [of j] that by (simp add: runs_recorded_def)
  moreover have "jm_get g2 rid = jm_get g0 rid" if "rid \<notin> we_uuid env ` {..n}" for rid
  proof -
    have "rid \<noteq> ?w" "rid \<noteq> ?u" using that k by auto
    with kept rec that show ?thesis by (simp add: runs_recorded_def)
  qed
  ultimately show ?thesis using g2 run' by (simp add: runs_recorded_def)
qed

lemma recorded_skip:
  "runs_recorded env n g0 rs g \<Longrightarrow> st_run_id r = None \<Longrightarrow> runs_recorded env n g0 (rs @ [r]) g"
proof -
  assume rec: "runs_recorded env n g0 rs g" and none: "st_run_id r = None"
  have "child_recorded env j ((rs @ [r]) ! j) g" if "j < Suc (length rs)" for j
  proof (cases "j = length rs")
    case True
    with none show ?thesis by (simp add: child_recorded_def)
  next
    case False
    with that have "j < length rs" by simp
    with rec show ?thesis by (simp add: runs_recorded_def nth_append)
  qed
  with rec show ?thesis unfolding runs_recorded_def by simp
qed

lemma loop_records:
  "workflow_loop env (Some (we_uuid env 0)) (length (lp_results st)) ss st = Some st' \<Longrightarrow>
     n = length (lp_results st) + length ss \<Longrightarrow> ids_ok env n \<Longrightarrow> lp_registry st = Some g \<Longrightarrow>
     runs_recorded env n g0 (lp_results st) g \<Longrightarrow>
     \<exists>g'. lp_registry st' = Some g' \<and> runs_recorded env n g0 (lp_results st') g'"
proof (induction ss arbitrary: st g)
  case Nil
  then show ?case by auto
next
  case (Cons s ss)
  let ?k = "length (lp_results st)"
  let ?st = "st\<lparr>lp_cancelled := lp_cancelled st \<or> we_aborted env ?k\<rparr>"
  have IH: "\<exists>g'. lp_registry st' = Some g' \<and> runs_recorded env n g0 (lp_results st') g'"
    if "workflow_loop env (Some (we_uuid env 0)) (Suc ?k) ss st1 = Some st'"
      "lp_results st1 = lp_results st @ [r]" "lp_registry st1 = Some g1"
      "runs_recorded env n g0 (lp_results st @ [r]) g1" for st1 r g1
    using Cons.IH [of st1 g1] that Cons.prems(2,3) by simp
  consider (cancelled) "lp_cancelled ?st" | (blocked) "\<not> lp_cancelled ?st" "condition_blocks s (lp_last_success st)"
    | (runs) "\<not> lp_cancelled ?st" "\<not> condition_blocks s (lp_last_success st)" by blast
  then show ?case
  proof cases
    case cancelled
    show ?thesis
      by (rule IH [of "push_result (skipped s False ''[skipped: workflow cancelled]'') ?st"
            "skipped s False ''[skipped: workflow cancelled]''" g])
        (use cancelled Cons.prems recorded_skip in \<open>simp_all add: Let_def\<close>)
  next
    case blocked
    show ?thesis
      by (rule IH [of "push_result (skipped s True ''[skipped: condition not met]'') ?st"
            "skipped s True ''[skipped: condition not met]''" g])
        (use blocked Cons.prems recorded_skip in \<open>simp_all add: Let_def\<close>)
  next
    case runs
    let ?w = "we_uuid env 0"
    from runs Cons.prems(1,4) obtain r reg where
      ex: "execute_step env ?k s (lp_results st) (Some ?w) (Some g) = Some (r, reg)"
      by (auto simp: Let_def split: option.splits)
    have k: "?k < n" using Cons.prems(2) by simp
    with Cons.prems(5) have "\<not> jm_has g (we_uuid env (Suc ?k))" by (simp add: runs_recorded_def)
    moreover have "?w \<noteq> []" using ids_okD(1) [OF Cons.prems(3), of 0 0] by simp
    moreover have "we_uuid env (Suc ?k) \<noteq> []" using ids_okD(1) [OF Cons.prems(3), of "Suc ?k" 0] k by simp
    ultimately have fresh: "\<not> jm_has g (we_uuid env (Suc ?k))" "?w \<noteq> []" "we_uuid env (Suc ?k) \<noteq> []" .
    from execute_step_leaves [OF ex fresh] obtain g1 where
      g1: "reg = Some g1" "step_left ?w (we_uuid env (Suc ?k)) r g g1" by auto
    let ?patch = "phased (''step:'' @ step_name s)"
    obtain g2 where g2: "move_run (Some ?w) RRunning ?patch (we_now env ?k) (Some g1) = Some g2"
      using fresh(2) by (simp add: move_run_def truthy_Some)
    have rec: "runs_recorded env n g0 (lp_results st @ [r]) g2"
      by (rule recorded_update [OF Cons.prems(5) Cons.prems(3) k g1(2) g2])
    let ?next = "(push_result r ?st)\<lparr>lp_registry := Some g2, lp_last_success := st_success r\<rparr>"
    consider (ok) "st_success r" | (soft) "\<not> st_success r" "wp_continue_on_error s"
      | (hardly) "\<not> st_success r" "\<not> wp_continue_on_error s" by blast
    then show ?thesis
    proof cases
      case ok
      show ?thesis
        by (rule IH [of ?next r g2]) (use ok runs ex g1(1) g2 rec Cons.prems(1,4) in \<open>simp_all add: Let_def\<close>)
    next
      case soft
      show ?thesis
        by (rule IH [of "?next\<lparr>lp_soft_failure := True\<rparr>" r g2])
          (use soft runs ex g1(1) g2 rec Cons.prems(1,4) in \<open>simp_all add: Let_def\<close>)
    next
      case hardly
      with runs ex g1(1) g2 Cons.prems(1,4) have "st' = ?next\<lparr>lp_hard_failure := True,
          lp_cancelled := lp_cancelled ?next \<or> we_aborted env (Suc ?k)\<rparr>"
        by (simp add: Let_def)
      with rec show ?thesis by simp
    qed
  qed
qed

section \<open>Properties\<close>

text \<open>What the results of the steps say about the workflow.\<close>

definition verdict :: "workflow_step list \<Rightarrow> step_result list \<Rightarrow> workflow_status" where
  "verdict ss rs =
     (if list_ex (\<lambda>(s, r). \<not> st_success r \<and> \<not> wp_continue_on_error s) (zip ss rs) then WfFailed
      else if list_ex (\<lambda>(s, r). \<not> st_success r) (zip ss rs) then WfSucceededWithWarnings
      else WfSucceeded)"

lemma zip_ex: "length rs \<le> length ss \<Longrightarrow>
  list_ex P (zip ss rs) \<longleftrightarrow> (\<exists>i < length rs. P (ss ! i, rs ! i))"
  by (auto simp: list_ex_iff set_zip min_def)

lemma verdict_of_report:
  assumes "loop_report False ss rs st" and "\<not> lp_cancelled st"
  shows "final_status st = verdict ss rs"
proof -
  have short: "length rs \<le> length ss" using assms(1) by (simp add: loop_report_def)
  have hard: "lp_hard_failure st \<longleftrightarrow> (\<exists>i < length rs. \<not> st_success (rs ! i) \<and> \<not> wp_continue_on_error (ss ! i))"
  proof
    assume "lp_hard_failure st"
    with assms(1) have "rs \<noteq> []" "\<not> st_success (last rs)" "\<not> wp_continue_on_error (ss ! (length rs - 1))"
      by (simp_all add: loop_report_def)
    then show "\<exists>i < length rs. \<not> st_success (rs ! i) \<and> \<not> wp_continue_on_error (ss ! i)"
      by (intro exI [of _ "length rs - 1"]) (simp add: last_conv_nth)
  qed (use assms in \<open>auto simp: loop_report_def\<close>)
  have soft: "lp_soft_failure st \<longleftrightarrow> (\<exists>i < length rs. \<not> st_success (rs ! i) \<and> wp_continue_on_error (ss ! i))"
    using assms by (simp add: loop_report_def)
  show ?thesis
    using assms(2) by (auto simp: final_status_def verdict_def zip_ex [OF short] hard soft)
qed

text \<open>
  (C28) The verdict of a workflow follows from its step results. A workflow that returns reports its steps
  in order, under their names; unless it is cancelled its status is \<open>failed\<close> exactly when a step without
  \<open>continueOnError\<close> failed, \<open>succeeded_with_warnings\<close> when only tolerated steps failed, and otherwise
  \<open>succeeded\<close>; it succeeds only with a result for every step; and it is cancelled only if the
  signal had fired at one of the points where the loop looks.
\<close>

theorem workflow_verdict:
  assumes "execute_workflow env w reg = Some (res, reg')"
  shows "map st_name (wr_steps res) = map step_name (take (length (wr_steps res)) (wk_steps w)) \<and>
    (if wr_status res = WfCancelled then list_ex (we_aborted env) [0..<Suc (length (wk_steps w))]
     else wr_status res = verdict (wk_steps w) (wr_steps res)) \<and>
    wr_success res = (wr_status res \<in> {WfSucceeded, WfSucceededWithWarnings}) \<and>
    (wr_success res \<longrightarrow> length (wr_steps res) = length (wk_steps w))"
proof -
  obtain run reg1 where opened: "open_workflow_run env w reg = (run, reg1)" by fastforce
  define reg3 where "reg3 = move_run run RRunning (phased ''executing-steps'') (we_now env 0)
    (move_run run RPreparing (phased ''workflow-starting'') (we_now env 0) reg1)"
  let ?start = "\<lparr>lp_results = [], lp_registry = reg3, lp_last_success = True, lp_hard_failure = False,
    lp_soft_failure = False, lp_cancelled = False\<rparr>"
  from assms opened obtain st where loop: "workflow_loop env run 0 (wk_steps w) ?start = Some st"
    and res: "wr_steps res = lp_results st" "wr_status res = final_status st"
      "wr_success res = (final_status st = WfSucceeded \<or> final_status st = WfSucceededWithWarnings)"
    by (auto simp: execute_workflow_def Let_def reg3_def split: option.splits)
  from loop_reports [OF loop] have report: "loop_report False (wk_steps w) (lp_results st) st" by simp
  have cancelled: "final_status st = WfCancelled \<longleftrightarrow> lp_cancelled st" by (simp add: final_status_def)
  have "list_ex (we_aborted env) [0..<Suc (length (wk_steps w))]" if "lp_cancelled st"
    using loop_not_cancelled [OF loop] that by (force simp: list_ex_iff)
  moreover have "length (lp_results st) = length (wk_steps w)"
    if "final_status st = WfSucceeded \<or> final_status st = WfSucceededWithWarnings"
    using that report by (auto simp: final_status_def loop_report_def split: if_splits)
  ultimately show ?thesis
    using verdict_of_report [OF report] report cancelled by (auto simp: res loop_report_def)
qed

text \<open>Code equations that settle short texts without counting up to the limits.\<close>

lemma add_chunk_short [code]:
  "add_chunk w c = (if int (length w) + int (length c) < 1048576 then w @ c
     else if length w < stream_cap then w @ take (stream_cap - length w) c else w)"
  by (auto simp: add_chunk_def stream_cap_def)

lemma routed_short [code]:
  "routed w i = (if int (length w) \<le> 8192 then ([], w)
     else case route_large_output w i default_large_output_bytes of
         None \<Rightarrow> ([], w) | Some (a, preview) \<Rightarrow> ([a], preview))"
  by (simp add: routed_def route_large_output_def default_large_output_bytes_def)

text \<open>
  An example: an echo, a tolerated shell command that exits with 2, and an echo of its exit code.
\<close>

definition blank_step :: "step_type \<Rightarrow> workflow_step" where
  "blank_step t = \<lparr>wp_name = None, wp_type = t, wp_command = None, wp_cwd = None, wp_timeout_ms = None,
     wp_continue_on_error = False, wp_if = None, wp_message = None, wp_default = None, wp_text = None,
     wp_prompt = None, wp_preset = None, wp_description = None\<rparr>"

definition sample_workflow :: workflow where
  "sample_workflow = \<lparr>wk_name = ''check'', wk_description = None, wk_trigger = TriggerManual, wk_tags = None,
     wk_steps = [(blank_step StepEcho)\<lparr>wp_text := Some ''hi ${{ inputs.who }}''\<rparr>,
       (blank_step StepShell)\<lparr>wp_name := Some ''t'', wp_command := Some ''make'', wp_continue_on_error := True\<rparr>,
       (blank_step StepEcho)\<lparr>wp_text := Some ''exit ${{ steps.t.exitCode }}''\<rparr>]\<rparr>"

definition sample_workflow_env :: workflow_env where
  "sample_workflow_env = \<lparr>we_cwd = ''/repo'', we_process_cwd = ''/'', we_parent_run = None,
     we_inputs = Some [(''who'', ''Ada'')], we_slash = None, we_prompt = None, we_agent = None,
     we_shell = (\<lambda>k cmd dir ms. ProcessEvents [OutData ''no'', Closed (Some 2) None]),
     we_aborted = (\<lambda>k. False), we_duration = (\<lambda>k. 1), we_uuid = (\<lambda>i. replicate (Suc i) (CHR ''u'')),
     we_artifact_ids = (\<lambda>k. (''a'', ''b'')), we_now = int\<rparr>"

definition sample_outputs :: "workflow_run_result \<Rightarrow> (bool \<times> string) list" where
  "sample_outputs res = map (\<lambda>r. (st_success r, st_output r)) (wr_steps res)"

lemma sample_workflow_runs:
  "map_option (\<lambda>(res, reg). (wr_status res, sample_outputs res)) (execute_workflow sample_workflow_env sample_workflow None) =
     Some (WfSucceededWithWarnings, [(True, ''hi Ada''), (False, ''no''), (True, ''exit 2'')])"
  by code_simp


theorem workflow_verdict_witness:
  "\<exists>res reg'. execute_workflow sample_workflow_env sample_workflow None = Some (res, reg') \<and>
    wr_status res = verdict (wk_steps sample_workflow) (wr_steps res) \<and> length (wr_steps res) = 3"
proof -
  obtain res reg' where run: "execute_workflow sample_workflow_env sample_workflow None = Some (res, reg')"
    and out: "wr_status res = WfSucceededWithWarnings" "length (sample_outputs res) = 3"
    using sample_workflow_runs by auto
  from workflow_verdict [OF run] out run show ?thesis by (simp add: sample_outputs_def)
qed

text \<open>
  (C10) With a run registry and fresh distinct ids, a workflow that returns leaves a consistent account:
  its own run ends in the status of the verdict; every step that opened a run left it as a child of the
  workflow's run, succeeded or failed as its result says; and no other run of the registry is touched.
\<close>

theorem workflow_run_agrees:
  assumes run: "execute_workflow env w (Some g) = Some (res, reg')" and n: "n = length (wk_steps w)"
    and ids: "ids_ok env n" and fresh: "list_all (\<lambda>i. \<not> jm_has g (we_uuid env i)) [0..<Suc n]"
  shows "\<exists>g' own. reg' = Some g' \<and> wr_run_id res = Some (we_uuid env 0) \<and>
    jm_get g' (we_uuid env 0) = Some own \<and>
    er_status own = (if wr_success res then RSucceeded
      else if wr_status res = WfCancelled then RCancelled else RFailed) \<and>
    (\<forall>j < length (wr_steps res). child_recorded env j (wr_steps res ! j) g') \<and>
    (\<forall>rid. rid \<notin> we_uuid env ` {..n} \<longrightarrow> jm_get g' rid = jm_get g rid)"
proof -
  let ?w = "we_uuid env 0" and ?i = "workflow_run_input env w" and ?now = "we_now env 0"
  have w: "?w \<noteq> []" using ids_okD(1) [OF ids, of 0 0] by simp
  have none: "\<not> jm_has g (we_uuid env j)" if "j \<le> n" for j
    using fresh that unfolding list_all_iff set_upt by simp
  let ?g1 = "jm_set ?w (run_of_input ?w ?now ?i) g"
  have "create_run ?w ?now ?i g = Inr (run_of_input ?w ?now ?i, ?g1,
      \<lparr>re_kind = EmitCreate, re_run = run_of_input ?w ?now ?i, re_from = None, re_to = None\<rparr>)"
    using none [of 0] by (simp add: create_run_def Let_def workflow_run_input_def)
  then have opened: "open_workflow_run env w (Some g) = (Some ?w, Some ?g1)"
    by (simp add: open_workflow_run_def run_of_input_def)
  have "jm_get ?g1 ?w = Some (run_of_input ?w ?now ?i)" by simp
  from move_of_transition [OF this, of RPreparing "phased ''workflow-starting''" ?now]
  obtain g2 run2 where g2: "move_run (Some ?w) RPreparing (phased ''workflow-starting'') ?now (Some ?g1) = Some g2"
    "jm_get g2 = (jm_get ?g1)(?w \<mapsto> run2)" "er_status run2 = RPreparing" "er_kind run2 = KWorkflow"
    by (auto simp: move_run_def truthy_Some w run_of_input_def workflow_run_input_def status_defs)
  from g2(2) have "jm_get g2 ?w = Some run2" by simp
  from move_of_transition [OF this, of RRunning "phased ''executing-steps''" ?now] g2(3,4)
  obtain g3 run3 where g3: "move_run (Some ?w) RRunning (phased ''executing-steps'') ?now (Some g2) = Some g3"
    "jm_get g3 = (jm_get g2)(?w \<mapsto> run3)" "er_status run3 = RRunning" "er_kind run3 = KWorkflow"
    by (auto simp: move_run_def truthy_Some w status_defs)
  let ?start = "\<lparr>lp_results = [], lp_registry = Some g3, lp_last_success = True, lp_hard_failure = False,
    lp_soft_failure = False, lp_cancelled = False\<rparr>"
  from run opened g2(1) g3(1) n obtain st where loop: "workflow_loop env (Some ?w) 0 (wk_steps w) ?start = Some st"
    and res: "wr_steps res = lp_results st" "wr_status res = final_status st" "wr_run_id res = Some ?w"
      "wr_success res = (final_status st = WfSucceeded \<or> final_status st = WfSucceededWithWarnings)" "reg' = move_run (Some ?w) (terminal_run_status (final_status st)) (terminal_patch (final_status st))
        (we_now env n) (lp_registry st)"
    by (auto simp: execute_workflow_def Let_def split: option.splits)
  have get3: "jm_get g3 rid = (if rid = ?w then Some run3 else jm_get g rid)" for rid
    by (simp add: g3(2) g2(2))
  have "\<not> jm_has g3 (we_uuid env (Suc j))" if "j < n" for j
    using none [of "Suc j"] ids_okD(2) [OF ids, of "Suc j" 0] that by (simp add: get3)
  then have "runs_recorded env n g [] g3"
    using g3(3,4) unfolding runs_recorded_def get3 by auto
  with loop_records [of env ?start "wk_steps w" st n g3 g] loop n ids obtain g4 where
    g4: "lp_registry st = Some g4" "runs_recorded env n g (lp_results st) g4" by auto
  then obtain run4 where run4: "jm_get g4 ?w = Some run4" "er_status run4 = RRunning"
    by (auto simp: runs_recorded_def)
  have "can_transition (er_status run4) (terminal_run_status (final_status st))"
    by (cases "final_status st") (simp_all add: run4(2) status_defs)
  from move_of_transition [OF run4(1) this] obtain g5 own where
    g5: "reg' = Some g5" "jm_get g5 = (jm_get g4)(?w \<mapsto> own)" "er_status own = terminal_run_status (final_status st)"
    by (force simp: res(5) move_run_def truthy_Some w g4(1))
  have blocked: "final_status st \<noteq> WfBlocked" by (simp add: final_status_def)
  have short: "length (lp_results st) \<le> n" using loop_reports [OF loop] by (auto simp: n loop_report_def)
  have "child_recorded env j (lp_results st ! j) g5" if "j < length (lp_results st)" for j
  proof -
    have "we_uuid env (Suc j) \<noteq> ?w" using ids_okD(2) [OF ids, of "Suc j" 0] that short by simp
    then have "jm_get g5 (we_uuid env (Suc j)) = jm_get g4 (we_uuid env (Suc j))" by (simp add: g5(2))
    moreover have "child_recorded env j (lp_results st ! j) g4" using g4(2) that by (simp add: runs_recorded_def)
    ultimately show ?thesis by (rule child_recorded_cong [rotated])
  qed
  moreover have "jm_get g5 rid = jm_get g rid" if "rid \<notin> we_uuid env ` {..n}" for rid
    using g4(2) g5(2) that by (auto simp: runs_recorded_def)
  moreover have "er_status own = (if wr_success res then RSucceeded
      else if wr_status res = WfCancelled then RCancelled else RFailed)"
    using blocked by (cases "final_status st") (simp_all add: g5(3) res(2,4))
  ultimately show ?thesis using g5(1,2) res(1,3) by simp
qed

lemma workflow_verdict_success:
  "execute_workflow env w reg = Some (res, reg') \<Longrightarrow>
     wr_success res = (wr_status res \<in> {WfSucceeded, WfSucceededWithWarnings})"
  by (auto simp: execute_workflow_def Let_def split: option.splits prod.splits)

theorem workflow_run_agrees_witness:
  "\<exists>res g' own. execute_workflow sample_workflow_env sample_workflow (Some []) = Some (res, Some g') \<and>
    jm_get g' ''u'' = Some own \<and> er_status own = RSucceeded"
proof -
  have "map_option (\<lambda>(res, reg). (wr_status res, length (wr_steps res)))
      (execute_workflow sample_workflow_env sample_workflow (Some [])) = Some (WfSucceededWithWarnings, 3)"
    by code_simp
  then obtain res reg' where run: "execute_workflow sample_workflow_env sample_workflow (Some []) = Some (res, reg')"
    and out: "wr_status res = WfSucceededWithWarnings" by auto
  have ids: "ids_ok sample_workflow_env 3" by code_simp
  have u: "we_uuid sample_workflow_env 0 = ''u''" by (simp add: sample_workflow_env_def)
  have "wr_success res" using workflow_verdict_success [OF run] out by simp
  with workflow_run_agrees [OF run _ ids] u run show ?thesis
    by (auto simp: sample_workflow_def list_all_iff)
qed

lemma substitute_match:
  "match_reference s = Some (path, r) \<Longrightarrow> substitute_from f s =
     (case f path of Inl e \<Rightarrow> Inl e | Inr v \<Rightarrow> map_sum id ((@) v) (substitute_from f r))"
  by (subst substitute_from.simps) (simp split: sum.splits)

lemma substitute_char:
  "match_reference (c # cs) = None \<Longrightarrow> substitute_from f (c # cs) = map_sum id ((#) c) (substitute_from f cs)"
  by (subst substitute_from.simps) (simp split: sum.splits)

lemma no_match_across:
  assumes "\<not> is_prefix ''${{'' (c # cs)" and "ref = [] \<or> hd ref = CHR ''$''"
  shows "match_reference (c # cs @ ref) = None"
proof -
  have "\<not> is_prefix ''${{'' (c # cs @ ref)"
    using assms by (cases cs; cases "tl cs"; cases ref) auto
  then show ?thesis by (simp add: match_reference_def)
qed

lemma substitute_plain_prefix:
  assumes "\<not> js_includes pre ''${{''" and "ref = [] \<or> hd ref = CHR ''$''"
  shows "substitute_from f (pre @ ref) = map_sum id ((@) pre) (substitute_from f ref)"
  using assms(1)
proof (induction pre)
  case Nil
  show ?case by (cases "substitute_from f ref") simp_all
next
  case (Cons c cs)
  then have "match_reference (c # cs @ ref) = None" by (intro no_match_across assms(2)) simp
  from substitute_char [OF this, of f] Cons show ?case
    by (cases "substitute_from f ref") simp_all
qed

text \<open>
  Variables are inserted verbatim, once. In a text whose first reference is \<open>inputs.key\<close>, what stands
  before it is copied, the value of the input takes its place without being scanned for references
  itself, and substitution goes on behind it; an unknown key is an error.
\<close>

theorem input_is_inserted_verbatim:
  assumes "\<not> js_includes pre ''${{''" and "key \<noteq> []" and "list_all word_char key"
  shows "substitute_vars (pre @ ''${{ inputs.'' @ key @ '' }}'' @ post) steps inputs =
    (case js_property (default_to inputs []) key of
       None \<Rightarrow> Inl (UnknownInput key)
     | Some v \<Rightarrow> map_sum id (\<lambda>t. pre @ v @ t) (substitute_vars post steps inputs))"
proof -
  let ?ref = "''${{ inputs.'' @ key @ '' }}'' @ post" and ?f = "resolve_reference steps inputs"
  have word: "list_all path_char key" "takeWhile path_char (key @ CHR '' '' # t) = key"
    "dropWhile path_char (key @ CHR '' '' # t) = CHR '' '' # t" for t
    using assms(3) by (induction key) (auto simp: path_char_def word_char_def is_letter_def is_digit_def char_between_def)
  have dot: "CHR ''.'' \<notin> set key"
    using assms(3) by (auto simp: list_all_iff word_char_def is_letter_def is_digit_def char_between_def)
  have path: "path_char c" if "c \<in> set ''inputs.''" for c
    using that by (auto simp: path_char_def word_char_def is_letter_def is_digit_def char_between_def)
  have match: "match_reference ?ref = Some (''inputs.'' @ key, post)"
    using word path by (simp add: match_reference_def Let_def is_space_def)
  have resolve: "?f (''inputs.'' @ key) =
      (case js_property (default_to inputs []) key of None \<Rightarrow> Inl (UnknownInput key) | Some v \<Rightarrow> Inr v)"
    using split_append_sep [of "CHR ''.''" "''inputs''" key] split_plain [OF dot] assms(2)
    by (simp add: resolve_reference_def Let_def nth_part_def)
  have "substitute_from ?f ?ref =
      (case js_property (default_to inputs []) key of
         None \<Rightarrow> Inl (UnknownInput key)
       | Some v \<Rightarrow> map_sum id (\<lambda>t. v @ t) (substitute_from ?f post))"
    unfolding substitute_match [OF match] resolve by (simp split: option.splits sum.splits)
  moreover have "substitute_from ?f (pre @ ?ref) = map_sum id ((@) pre) (substitute_from ?f ?ref)"
    by (rule substitute_plain_prefix [OF assms(1)]) simp
  ultimately show ?thesis
    unfolding substitute_vars_def by (simp only:) (simp add: sum.map_comp comp_def id_def split: option.splits)
qed

theorem input_is_inserted_verbatim_witness:
  "substitute_vars ''a ${{ inputs.who }}!'' [] (Some [(''who'', ''${{ x }}'')]) = Inr ''a ${{ x }}!''"
proof -
  have rest: "substitute_vars ''!'' [] (Some [(''who'', ''${{ x }}'')]) = Inr ''!''" by code_simp
  show ?thesis
    using input_is_inserted_verbatim [of "''a ''" "''who''" "''!''" "[]" "Some [(''who'', ''${{ x }}'')]"] rest
    by (simp add: word_char_def is_letter_def char_between_def js_property_def or_else_def default_to_def)
qed


text \<open>
  What the result of a shell command means. Whatever happened while the process ran, its close
  settles the promise with one classification: cancelled if the signal fired, else timed out if the
  timer fired, else success exactly for exit code 0 or no exit code at all, else failed with that code;
  and neither captured stream is longer than the cap. Events after the close change nothing.
\<close>

theorem shell_result_is_classified:
  assumes "list_all (\<lambda>e. \<not> ends_process e) pre"
  shows "\<exists>r. run_shell_async c ms False ids (pre @ Closed code sig # post) = Some r \<and>
    sr_status r = (if AbortFires \<in> set pre then StCancelled
      else if TimeoutFires \<in> set pre then StTimedOut
      else if code = None \<or> code = Some 0 then StSuccess else StFailed) \<and>
    (sr_status r = StFailed \<longrightarrow> sr_exit_code r = code) \<and>
    length (sh_out (fold (shell_step c ms ids) pre shell_start)) \<le> stream_cap \<and>
    length (sh_err (fold (shell_step c ms ids) pre shell_start)) \<le> stream_cap"
proof -
  let ?s = "fold (shell_step c ms ids) pre shell_start"
  let ?r = "close_result c ms ids code sig ?s"
  from shell_runs [OF assms, of c ms ids] have s: "sh_aborted ?s = (AbortFires \<in> set pre)"
    "sh_aborted ?s \<or> sh_timed_out ?s = (TimeoutFires \<in> set pre)"
    "length (sh_out ?s) \<le> stream_cap" "length (sh_err ?s) \<le> stream_cap"
    unfolding running_state_def by blast+
  have "sr_status ?r = (if AbortFires \<in> set pre then StCancelled
      else if TimeoutFires \<in> set pre then StTimedOut
      else if code = None \<or> code = Some 0 then StSuccess else StFailed)"
    unfolding close_result_status using s(1,2) by (cases code) auto
  moreover have "sr_exit_code ?r = code" if "sr_status ?r = StFailed"
    using that by (cases code) (auto simp: close_result_def Let_def case_prod_beta shell_result_def split: if_splits)
  ultimately show ?thesis using shell_closes [OF assms] s(3,4) by blast
qed

theorem shell_result_is_classified_witness:
  "\<exists>r. run_shell_async ''make'' 60000 False (''a'', ''b'')
      [OutData ''x'', TimeoutFires, AbortFires, KillTimerFires, Closed None (Some ''SIGKILL'')] = Some r \<and>
    sr_status r = StCancelled"
  using shell_result_is_classified [of "[OutData ''x'', TimeoutFires, AbortFires, KillTimerFires]" "''make''" 60000
      "(''a'', ''b'')" None "Some ''SIGKILL''" "[]"]
  by (auto simp: ends_process_def)

text \<open>A workflow returns if each of its processes ends.\<close>

definition processes_end :: "workflow_env \<Rightarrow> bool" where
  "processes_end env \<longleftrightarrow> (\<forall>k cmd dir ms. case we_shell env k cmd dir ms of
      ProcessEvents events \<Rightarrow> list_ex ends_process events | ProcessThrows _ \<Rightarrow> True)"

lemma step_returns:
  assumes "processes_end env"
  shows "execute_step env k s previous run reg \<noteq> None"
proof -
  have settles: "run_shell_async cmd ms False (we_artifact_ids env k) events \<noteq> None"
    if "we_shell env k cmd dir ms = ProcessEvents events" for cmd ms events dir
    using assms that unfolding processes_end_def shell_settles by (metis process.simps(5))
  show ?thesis
    by (auto simp: execute_step_def execute_shell_step_def Let_def case_prod_beta
        split: option.splits sum.splits process.splits dest: settles)
qed

lemma loop_returns: "processes_end env \<Longrightarrow> workflow_loop env run k ss st \<noteq> None"
proof (induction ss arbitrary: k st)
  case (Cons s ss)
  from Cons.prems obtain r reg where "execute_step env k s (lp_results st) run (lp_registry st) = Some (r, reg)"
    using step_returns by fastforce
  with Cons show ?case by (simp add: Let_def)
qed simp

text \<open>
  A workflow comes back: if every shell process that is started closes or fails to spawn at some
  point, the execution of any workflow returns a result, whatever else happens.
\<close>

theorem workflow_returns:
  assumes "processes_end env"
  shows "\<exists>res reg'. execute_workflow env w reg = Some (res, reg')"
proof -
  obtain run reg1 where "open_workflow_run env w reg = (run, reg1)" by fastforce
  then have "execute_workflow env w reg \<noteq> None"
    using loop_returns [OF assms] by (simp add: execute_workflow_def Let_def split: option.splits)
  then show ?thesis by auto
qed

theorem workflow_returns_witness:
  "\<exists>res reg'. execute_workflow sample_workflow_env sample_workflow (Some sample_registry) = Some (res, reg')"
  by (rule workflow_returns) (simp add: processes_end_def sample_workflow_env_def ends_process_def)

section \<open>Workflows as JSON\<close>

definition field :: "string \<Rightarrow> ('a \<Rightarrow> json) \<Rightarrow> 'a option \<Rightarrow> (string \<times> json) list" where
  "field name f v = (case v of None \<Rightarrow> [] | Some x \<Rightarrow> [(name, f x)])"

fun condition_text :: "step_condition \<Rightarrow> string" where
  "condition_text IfSuccess = ''success''"
| "condition_text IfFailure = ''failure''"
| "condition_text IfAlways = ''always''"

definition step_json :: "workflow_step \<Rightarrow> json" where
  "step_json s = JObj (field ''name'' JStr (wp_name s) @ [(''type'', JStr (step_type_text (wp_type s)))] @
     field ''command'' JStr (wp_command s) @ field ''cwd'' JStr (wp_cwd s) @
     field ''timeoutMs'' JNum (wp_timeout_ms s) @ [(''continueOnError'', JBool (wp_continue_on_error s))] @
     field ''if'' (\<lambda>c. JStr (condition_text c)) (wp_if s) @ field ''message'' JStr (wp_message s) @
     field ''default'' JStr (wp_default s) @ field ''text'' JStr (wp_text s) @
     field ''prompt'' JStr (wp_prompt s) @ field ''preset'' JStr (wp_preset s) @
     field ''description'' JStr (wp_description s))"

definition workflow_json :: "workflow \<Rightarrow> json" where
  "workflow_json w = JObj ([(''name'', JStr (wk_name w))] @ field ''description'' JStr (wk_description w) @
     [(''trigger'', JStr (if wk_trigger w = TriggerAuto then ''auto'' else ''manual''))] @
     field ''tags'' (\<lambda>ts. JArr (map JStr ts)) (wk_tags w) @ [(''steps'', JArr (map step_json (wk_steps w)))])"

lemma map_of_field:
  "k \<noteq> name \<Longrightarrow> map_of (field name f v @ xs) k = map_of xs k"
  "map_of xs name = None \<Longrightarrow> map_of (field name f v @ xs) name = map_option f v"
  "map_of (field name f v) k = (if k = name then map_option f v else None)"
  by (cases v; simp add: field_def)+

lemma condition_of_text: "condition_of (Some (JStr (condition_text c))) = Some c"
  by (cases c) (simp_all add: condition_of_def text_of_def)

lemma read_text: "text_of (map_option JStr v) = v"
  by (cases v) (simp_all add: text_of_def)

lemma read_number: "number_of (map_option JNum n) = n"
  by (cases n) (simp_all add: number_of_def)

lemma read_condition: "condition_of (map_option (\<lambda>c. JStr (condition_text c)) i) = i"
  by (cases i) (simp add: condition_of_def text_of_def, simp add: condition_of_text)

lemma read_always: "text_of (Some (JStr t)) = Some t"
  by (simp add: text_of_def)

lemmas read_field = read_text read_number read_condition read_always

lemma step_type_of_text: "step_type_of (step_type_text t) = Some t"
  by (cases t) (simp_all add: step_type_of_def step_types_def)

lemma validate_step_json: "validate_step (step_json s) = Some s"
  by (simp add: validate_step_def step_json_def map_of_field read_field step_type_of_text
      del: map_of_append)

lemma validate_steps_json: "validate_steps (map step_json ss) = Some ss"
  by (induction ss) (simp_all add: validate_step_json)


text \<open>
  Validation loses nothing. A workflow with a name that is not blank and at least one step, written
  as JSON with its undefined fields left out, is read back as the same workflow.
\<close>

theorem workflow_json_roundtrip:
  assumes "js_trim (wk_name w) \<noteq> []" and "wk_steps w \<noteq> []"
  shows "validate_workflow (workflow_json w) = Some w"
proof -
  have tags: "List.map_filter (\<lambda>t. text_of (Some t)) (map JStr ts) = ts" for ts
    by (induction ts) (simp_all add: List.map_filter_simps text_of_def)
  let ?obj = "[(''name'', JStr (wk_name w))] @ field ''description'' JStr (wk_description w) @
     [(''trigger'', JStr (if wk_trigger w = TriggerAuto then ''auto'' else ''manual''))] @
     field ''tags'' (\<lambda>ts. JArr (map JStr ts)) (wk_tags w) @ [(''steps'', JArr (map step_json (wk_steps w)))]"
  have fields: "map_of ?obj ''name'' = Some (JStr (wk_name w))"
    "map_of ?obj ''description'' = map_option JStr (wk_description w)"
    "map_of ?obj ''trigger'' = Some (JStr (if wk_trigger w = TriggerAuto then ''auto'' else ''manual''))"
    "map_of ?obj ''tags'' = map_option (\<lambda>ts. JArr (map JStr ts)) (wk_tags w)"
    "map_of ?obj ''steps'' = Some (JArr (map step_json (wk_steps w)))"
    by (simp_all add: map_of_field del: map_of_append)
  show ?thesis
    unfolding validate_workflow_def workflow_json_def json.case fields read_field
    using assms tags by (cases "wk_trigger w"; cases "wk_tags w") (simp_all add: validate_steps_json)
qed

theorem workflow_json_roundtrip_witness:
  "validate_workflow (workflow_json sample_workflow) = Some sample_workflow"
  by (rule workflow_json_roundtrip) (simp_all add: sample_workflow_def js_trim_def is_space_def)

end
