(* ===== verification/ModelRouter.thy ===== *)
theory ModelRouter
  imports Complex_Main "HOL-Library.Multiset" Prelude JsRegex
begin

text \<open>
  The model router: \<open>src/src/core/model/modelRouter.ts\<close>.

  Profiles with their health and their circuits, probes of half-open circuits under leases, the manual
  override, the routing decision and its fallback chain. The numbers that the source computes as doubles
  are rationals here. A call reads the clock once; random ids are arguments. Listener and sink are the
  traces of what they are told.
\<close>

section \<open>Data\<close>

datatype circuit_phase = CircuitClosed | CircuitOpen | CircuitHalfOpen

datatype probe_outcome = ProbeSuccess | ProbeFailure | ProbeAborted

record probe_lease =
  pl_id :: string
  pl_profile :: string
  pl_model :: string
  pl_acquired_at :: int
  pl_scope :: string

record routing_capabilities =
  rk_reasoning :: rat
  rk_coding :: rat
  rk_context_window :: int
  rk_tool_calling :: rat
  rk_speed :: rat
  rk_cost :: rat

record model_profile =
  mp_id :: string
  mp_provider :: string
  mp_model :: string
  mp_top :: "bool option"
  mp_capabilities :: routing_capabilities
  mp_roles :: "string list"
  mp_available :: bool

datatype repo_stats_state = StatsReady | StatsEmpty | StatsPartial | StatsUnknown

datatype tool_requirement = NeedsNone | NeedsReadOnly | NeedsMixed | NeedsSideEffect

record health_report =
  hr_profile :: string
  hr_fail_rate :: rat
  hr_latency :: rat

record routing_input =
  ri_goal :: string
  ri_repo_files :: "int option"
  ri_repo_state :: "repo_stats_state option"
  ri_files_touched :: "int option"
  ri_failures :: "int option"
  ri_context_ratio :: "rat option"
  ri_budget_remaining :: "rat option"
  ri_role :: "string option"
  ri_architecture :: bool
  ri_health :: "health_report list option"
  ri_tools :: "tool_requirement option"
  ri_public_interface :: bool
  ri_cross_module :: bool
  ri_config_change :: bool
  ri_root_cause :: bool
  ri_impact_files :: "int option"
  ri_graph_scale :: "int option"

record budget_allocation =
  ba_max_input :: "int option"
  ba_max_output :: "int option"
  ba_max_cost :: "rat option"

definition no_allocation :: budget_allocation where
  "no_allocation = \<lparr>ba_max_input = None, ba_max_output = None, ba_max_cost = None\<rparr>"

record routing_decision =
  rd_model :: string
  rd_profile :: string
  rd_reasons :: "string list"
  rd_confidence :: rat
  rd_complexity :: rat
  rd_fallbacks :: "string list"
  rd_allocation :: budget_allocation
  rd_scores :: "(string \<times> rat \<times> string list) list option"

datatype route_application =
    Applied routing_decision string
  | Unchanged routing_decision
  | Unavailable routing_decision

record profile_health =
  ph_calls :: nat
  ph_failures :: nat
  ph_latency :: rat

text \<open>What the listener hears and what the sink is asked, in order.\<close>

datatype router_event =
    OverrideSet string "string option"
  | OverrideCleared
  | DecisionApplied string "string option" "string list"
  | FallbackApplied string string string
  | AllocationApplied budget_allocation
  | SinkUserModel string
  | SinkApply string "budget_allocation option"
  | SinkClear

record model_router =
  mr_profiles :: "model_profile list"
  mr_enabled :: bool
  mr_long_context :: rat
  mr_escalation :: rat
  mr_health :: "(string, profile_health) jsmap"
  mr_last_decision :: "routing_decision option"
  mr_override :: "string option"
  mr_last_applied :: "(string \<times> budget_allocation option) option"
  mr_failures :: nat
  mr_fallbacks :: nat
  mr_probes :: "string list"
  mr_leases :: "(string, probe_lease) jsmap"
  mr_circuits :: "(string, circuit_phase) jsmap"
  mr_opened_at :: "(string, int) jsmap"
  mr_streaks :: "(string, nat) jsmap"
  mr_events :: "router_event list"

definition default_long_context_threshold :: rat where
  "default_long_context_threshold = 4 / 5"

definition default_failure_escalation :: rat where
  "default_failure_escalation = 2"

definition circuit_open_threshold :: nat where
  "circuit_open_threshold = 5"

definition half_open_cooldown_ms :: int where
  "half_open_cooldown_ms = 30000"

definition probe_lease_ttl_ms :: int where
  "probe_lease_ttl_ms = 10 * 60 * 1000"

definition new_router ::
  "model_profile list \<Rightarrow> bool option \<Rightarrow> rat option \<Rightarrow> rat option \<Rightarrow> model_router" where
  "new_router profiles enabled long_context escalation = \<lparr>mr_profiles = profiles,
     mr_enabled = default_to enabled True,
     mr_long_context = default_to long_context default_long_context_threshold,
     mr_escalation = default_to escalation default_failure_escalation,
     mr_health = [], mr_last_decision = None, mr_override = None, mr_last_applied = None,
     mr_failures = 0, mr_fallbacks = 0, mr_probes = [], mr_leases = [], mr_circuits = [],
     mr_opened_at = [], mr_streaks = [], mr_events = []\<rparr>"

definition router_from_single_model :: "string \<Rightarrow> string \<Rightarrow> model_router" where
  "router_from_single_model m provider = new_router
     [\<lparr>mp_id = ''default'', mp_provider = provider, mp_model = m, mp_top = Some True,
       mp_capabilities = \<lparr>rk_reasoning = 4 / 5, rk_coding = 4 / 5, rk_context_window = 128000,
         rk_tool_calling = 4 / 5, rk_speed = 7 / 10, rk_cost = 3 / 5\<rparr>,
       mp_roles = [''main'', ''cheap'', ''long-context'', ''worker''], mp_available = True\<rparr>]
     (Some True) (Some default_long_context_threshold) (Some default_failure_escalation)"

section \<open>Override and application\<close>

definition tell :: "router_event list \<Rightarrow> model_router \<Rightarrow> model_router" where
  "tell es mr = mr\<lparr>mr_events := mr_events mr @ es\<rparr>"

text \<open>An empty name is an error; the text of the exception is \<open>Inl\<close>.\<close>

definition set_model_by_user :: "string \<Rightarrow> model_router \<Rightarrow> string + model_router" where
  "set_model_by_user name mr =
     (let trimmed = js_trim name
      in if trimmed = [] then Inl ''ModelRouter.setModelByUser: empty model/profile id''
         else let profile = find (\<lambda>p. mp_id p = trimmed \<or> mp_model p = trimmed) (mr_profiles mr);
                  m = (case profile of None \<Rightarrow> trimmed | Some p \<Rightarrow> mp_model p)
              in Inr (tell [OverrideSet trimmed (map_option mp_id profile), SinkUserModel m]
                   (mr\<lparr>mr_override := Some m\<rparr>)))"

definition apply_routing_decision ::
  "string \<Rightarrow> budget_allocation option \<Rightarrow> string option \<Rightarrow> string list \<Rightarrow> model_router \<Rightarrow> model_router" where
  "apply_routing_decision name allocation previous reasons mr =
     (let trimmed = js_trim name
      in if trimmed = [] then mr
         else if (case mr_last_applied mr of None \<Rightarrow> False
                  | Some (m, a) \<Rightarrow> m = trimmed \<and> default_to a no_allocation = default_to allocation no_allocation)
         then mr
         else tell ([DecisionApplied trimmed previous reasons, SinkApply trimmed allocation] @
                (case allocation of None \<Rightarrow> []
                 | Some a \<Rightarrow> if ba_max_output a \<noteq> None \<or> ba_max_input a \<noteq> None then [AllocationApplied a] else []))
              (mr\<lparr>mr_last_applied := Some (trimmed, allocation)\<rparr>))"

definition classify_route_application :: "routing_decision \<Rightarrow> string \<Rightarrow> route_application" where
  "classify_route_application d previous =
     (if rd_model d = [] then Unavailable d
      else if previous = rd_model d then Unchanged d
      else Applied d previous)"

definition mark_applied ::
  "string \<Rightarrow> budget_allocation option \<Rightarrow> string \<Rightarrow> string list \<Rightarrow> model_router \<Rightarrow> model_router" where
  "mark_applied m allocation previous reasons mr =
     apply_routing_decision m allocation (Some previous) reasons mr"

definition clear_model_override :: "model_router \<Rightarrow> model_router" where
  "clear_model_override mr =
     (if mr_override mr = None then mr
      else tell [OverrideCleared, SinkClear] (mr\<lparr>mr_override := None\<rparr>))"

definition emit_fallback :: "string \<Rightarrow> string \<Rightarrow> string \<Rightarrow> model_router \<Rightarrow> model_router" where
  "emit_fallback src tgt err mr = tell [FallbackApplied src tgt err]
     (mr\<lparr>mr_failures := Suc (mr_failures mr), mr_fallbacks := Suc (mr_fallbacks mr)\<rparr>)"

definition set_manual_override :: "string option \<Rightarrow> model_router \<Rightarrow> model_router" where
  "set_manual_override name mr = mr\<lparr>mr_override := (case name of None \<Rightarrow> None
     | Some n \<Rightarrow> if js_trim n = [] then None else Some (js_trim n))\<rparr>"

section \<open>Health and circuits\<close>

definition next_health :: "bool \<Rightarrow> rat \<Rightarrow> profile_health option \<Rightarrow> profile_health" where
  "next_health ok latency old =
     (let h = default_to old \<lparr>ph_calls = 0, ph_failures = 0, ph_latency = 0\<rparr>
      in \<lparr>ph_calls = Suc (ph_calls h), ph_failures = (if ok then ph_failures h else Suc (ph_failures h)),
          ph_latency = (if ph_latency h = 0 then latency else 7 / 10 * ph_latency h + 3 / 10 * latency)\<rparr>)"

definition record_call :: "int \<Rightarrow> string \<Rightarrow> bool \<Rightarrow> rat \<Rightarrow> model_router \<Rightarrow> model_router" where
  "record_call now p ok latency mr0 =
     (let mr = mr0\<lparr>mr_health := jm_set p (next_health ok latency (jm_get (mr_health mr0) p)) (mr_health mr0)\<rparr>
      in if ok
         then mr\<lparr>mr_streaks := jm_set p 0 (mr_streaks mr), mr_circuits := jm_set p CircuitClosed (mr_circuits mr)\<rparr>
         else let n = Suc (default_to (jm_get (mr_streaks mr) p) 0);
                  mr1 = mr\<lparr>mr_streaks := jm_set p n (mr_streaks mr)\<rparr>
              in if n \<ge> circuit_open_threshold
                 then mr1\<lparr>mr_circuits := jm_set p CircuitOpen (mr_circuits mr1),
                          mr_opened_at := jm_set p now (mr_opened_at mr1)\<rparr>
                 else mr1)"

text \<open>Reading a circuit turns an open one half-open when its cooldown is over.\<close>

definition profile_circuit_state :: "int \<Rightarrow> string \<Rightarrow> model_router \<Rightarrow> circuit_phase \<times> model_router" where
  "profile_circuit_state now p mr =
     (let state = default_to (jm_get (mr_circuits mr) p) CircuitClosed
      in if state = CircuitOpen \<and> now - default_to (jm_get (mr_opened_at mr) p) 0 \<ge> half_open_cooldown_ms
         then (CircuitHalfOpen, mr\<lparr>mr_circuits := jm_set p CircuitHalfOpen (mr_circuits mr)\<rparr>)
         else (state, mr))"

definition profile_consecutive_failures :: "string \<Rightarrow> model_router \<Rightarrow> nat" where
  "profile_consecutive_failures p mr = default_to (jm_get (mr_streaks mr) p) 0"

definition is_profile_available :: "int \<Rightarrow> string \<Rightarrow> model_router \<Rightarrow> bool \<times> model_router" where
  "is_profile_available now p mr = (let (state, mr') = profile_circuit_state now p mr in (state \<noteq> CircuitOpen, mr'))"

section \<open>Probes\<close>

text \<open>The first lease of the profile, which blocks the probe while it is young and is evicted otherwise.\<close>

definition evict_stale_lease :: "int \<Rightarrow> string \<Rightarrow> model_router \<Rightarrow> model_router option" where
  "evict_stale_lease now p mr =
     (case find (\<lambda>(i, l). pl_profile l = p) (mr_leases mr) of
        None \<Rightarrow> Some mr
      | Some (i, l) \<Rightarrow>
          if now - pl_acquired_at l \<le> probe_lease_ttl_ms then None
          else Some (mr\<lparr>mr_leases := jm_delete i (mr_leases mr), mr_probes := removeAll p (mr_probes mr)\<rparr>))"

definition grant_probe :: "int \<Rightarrow> string \<Rightarrow> string \<Rightarrow> string \<Rightarrow> model_router \<Rightarrow> probe_lease \<times> model_router" where
  "grant_probe now i p scope mr =
     (let l = \<lparr>pl_id = i, pl_profile = p,
            pl_model = (case find (\<lambda>q. mp_id q = p) (mr_profiles mr) of None \<Rightarrow> [] | Some q \<Rightarrow> mp_model q),
            pl_acquired_at = now, pl_scope = scope\<rparr>
      in (l, mr\<lparr>mr_probes := mr_probes mr @ [p], mr_leases := jm_set i l (mr_leases mr)\<rparr>))"

definition try_acquire_probe ::
  "int \<Rightarrow> string \<Rightarrow> string \<Rightarrow> string \<Rightarrow> model_router \<Rightarrow> probe_lease option \<times> model_router" where
  "try_acquire_probe now i p scope mr0 =
     (let (state, mr) = profile_circuit_state now p mr0
      in if state \<noteq> CircuitHalfOpen then (None, mr)
         else if p \<notin> set (mr_probes mr)
         then (let (l, mr') = grant_probe now i p scope mr in (Some l, mr'))
         else case evict_stale_lease now p mr of
             None \<Rightarrow> (None, mr)
           | Some mr1 \<Rightarrow>
               if p \<in> set (mr_probes mr1) then (None, mr1)
               else (let (l, mr') = grant_probe now i p scope mr1 in (Some l, mr')))"

definition finish_probe :: "int \<Rightarrow> probe_lease \<Rightarrow> probe_outcome \<Rightarrow> model_router \<Rightarrow> model_router" where
  "finish_probe now l outcome mr =
     (let p = pl_profile l in
      case jm_get (mr_leases mr) (pl_id l) of
        None \<Rightarrow> mr
      | Some owned \<Rightarrow>
          if pl_profile owned \<noteq> p then mr
          else if p \<notin> set (mr_probes mr) then mr\<lparr>mr_leases := jm_delete (pl_id l) (mr_leases mr)\<rparr>
          else let mr1 = mr\<lparr>mr_probes := removeAll p (mr_probes mr), mr_leases := jm_delete (pl_id l) (mr_leases mr)\<rparr>
               in (case outcome of
                     ProbeSuccess \<Rightarrow> mr1\<lparr>mr_circuits := jm_set p CircuitClosed (mr_circuits mr1),
                                         mr_streaks := jm_set p 0 (mr_streaks mr1)\<rparr>
                   | ProbeFailure \<Rightarrow> mr1\<lparr>mr_circuits := jm_set p CircuitOpen (mr_circuits mr1),
                                         mr_opened_at := jm_set p now (mr_opened_at mr1)\<rparr>
                   | ProbeAborted \<Rightarrow> mr1))"

section \<open>Complexity and scores\<close>

definition round_cents :: "rat \<Rightarrow> rat" where
  "round_cents n = of_int \<lfloor>n * 100 + 1 / 2\<rfloor> / 100"

definition architecture_words :: "string list" where
  "architecture_words = [''architect'', ''refactor'', ''redesign'', ''root cause'', ''design decision'', ''migration'']"

definition debug_words :: "string list" where
  "debug_words = [''debug'', ''fix'', ''investigate'', ''trace'', ''why does'', ''broken'', ''crash'', ''error'']"

definition mentions :: "string \<Rightarrow> string list \<Rightarrow> bool" where
  "mentions goal ws \<longleftrightarrow> list_ex (js_includes goal) ws"

text \<open>The signals of an input: weight and reason code of each.\<close>

definition complexity_signals :: "routing_input \<Rightarrow> (rat \<times> string) list" where
  "complexity_signals ri =
     (let goal = to_lower (ri_goal ri);
          big = (case ri_repo_files ri of None \<Rightarrow> False | Some n \<Rightarrow> n > 500);
          failures = default_to (ri_failures ri) 0
      in (if ri_architecture ri \<or> mentions goal architecture_words then [(7 / 20, ''architecture-signal'')] else []) @
         (if mentions goal debug_words then [(3 / 20, ''debug-signal'')] else []) @
         (if ri_repo_state ri = Some StatsReady \<and> big then [(3 / 20, ''large-repo'')]
          else if ri_repo_state ri = Some StatsPartial \<and> big then [(1 / 20, ''large-repo-partial'')] else []) @
         (if default_to (ri_files_touched ri) 0 > 5 then [(1 / 10, ''many-files'')] else []) @
         (if default_to (ri_impact_files ri) 0 > 5 then [(1 / 10, ''large-impact'')] else []) @
         (if failures > 0 then [(min (1 / 5) (of_int failures / 20), ''failure-escalation'')] else []) @
         (if length (ri_goal ri) > 1200 then [(1 / 10, ''long-goal'')] else []))"

definition estimate_complexity :: "routing_input \<Rightarrow> rat" where
  "estimate_complexity ri = round_cents (min 1 (fold (\<lambda>(w, r) c. c + w) (complexity_signals ri) (3 / 10)))"

definition complexity_reasons :: "routing_input \<Rightarrow> string list" where
  "complexity_reasons ri = map snd (complexity_signals ri)"

definition reasoning_bonus :: "routing_input \<Rightarrow> rat" where
  "reasoning_bonus ri = (if ri_architecture ri then 3 / 20 else 0) + (if ri_root_cause ri then 1 / 10 else 0) +
     (if ri_config_change ri then 1 / 20 else 0) + (if ri_cross_module ri then 1 / 20 else 0) +
     (if ri_public_interface ri then 1 / 20 else 0)"

text \<open>The penalty for failing: from the calls seen here, else from the report of the collector.\<close>

definition health_signals :: "model_router \<Rightarrow> routing_input \<Rightarrow> string \<Rightarrow> (rat \<times> string list) list" where
  "health_signals mr ri p =
     (let known = (case jm_get (mr_health mr) p of
            None \<Rightarrow> None
          | Some h \<Rightarrow> if of_nat (ph_calls h) \<ge> mr_escalation mr then Some h else None)
      in case known of
           Some h \<Rightarrow> (let rate = of_nat (ph_failures h) / of_nat (ph_calls h)
                      in [(- rate * (3 / 5), if rate > 3 / 10 then [''unhealthy:'' @ p] else [])])
         | None \<Rightarrow> (case ri_health ri of
               None \<Rightarrow> []
             | Some rs \<Rightarrow> (case find (\<lambda>r. hr_profile r = p) rs of
                   None \<Rightarrow> []
                 | Some r \<Rightarrow> if hr_fail_rate r > 3 / 10
                     then [(- hr_fail_rate r * (2 / 5), [''health-from-collector:'' @ p])] else [])))"

text \<open>The summands of the score of a profile, each with the reason codes it adds.\<close>

definition score_signals ::
  "model_router \<Rightarrow> routing_input \<Rightarrow> rat \<Rightarrow> model_profile \<Rightarrow> (rat \<times> string list) list" where
  "score_signals mr ri complexity p =
     (let cap = mp_capabilities p
      in [(complexity * (rk_reasoning cap * (3 / 5) + rk_coding cap * (2 / 5)), []),
          ((1 - complexity) * rk_cost cap * (4 / 5), [])] @
         (if default_to (ri_context_ratio ri) 0 > mr_long_context mr \<and> rk_context_window cap \<ge> 200000
          then [(3 / 10, [''long-context-need''])] else []) @
         (if default_to (ri_budget_remaining ri) 1 < 3 / 10
          then [(rk_cost cap * (2 / 5), [''budget-pressure''])] else []) @
         [(rk_tool_calling cap * (3 / 20), [])] @
         (if default_to (ri_tools ri) NeedsMixed = NeedsSideEffect
          then [(rk_tool_calling cap * (1 / 4), [''side-effect-tools''])] else []) @
         (if reasoning_bonus ri > 0
          then [(rk_reasoning cap * reasoning_bonus ri, [''architecture-signal''])] else []) @
         (case ri_role ri of
            None \<Rightarrow> []
          | Some role \<Rightarrow> if role \<noteq> [] \<and> role \<in> set (mp_roles p) then [(1 / 4, [''role:'' @ role])] else []) @
         (if default_to (ri_graph_scale ri) 0 > 5 \<and> rk_context_window cap \<ge> 200000
          then [(1 / 10, [''task-graph-large''])] else []) @
         health_signals mr ri (mp_id p))"

definition score_profile :: "model_router \<Rightarrow> routing_input \<Rightarrow> rat \<Rightarrow> model_profile \<Rightarrow> rat" where
  "score_profile mr ri complexity p = fold (\<lambda>(w, rs) s. s + w) (score_signals mr ri complexity p) 0"

definition score_reasons :: "model_router \<Rightarrow> routing_input \<Rightarrow> rat \<Rightarrow> model_profile \<Rightarrow> string list" where
  "score_reasons mr ri complexity p = concat (map snd (score_signals mr ri complexity p))"

section \<open>Routing\<close>

text \<open>A \<open>Set\<close> of the array: the first occurrence of each text stays.\<close>

fun dedupe_from :: "string list \<Rightarrow> string list \<Rightarrow> string list" where
  "dedupe_from seen [] = []"
| "dedupe_from seen (x # xs) = (if x \<in> set seen then dedupe_from seen xs else x # dedupe_from (x # seen) xs)"

definition dedupe :: "string list \<Rightarrow> string list" where
  "dedupe xs = dedupe_from [] xs"

definition decision_confidence :: "rat list \<Rightarrow> rat" where
  "decision_confidence scores = (case scores of
      a # b # _ \<Rightarrow> round_cents (max (3 / 10) (min (99 / 100) (1 / 2 + (a - b))))
    | _ \<Rightarrow> 9 / 10)"

definition budget_for :: "model_profile \<Rightarrow> routing_input \<Rightarrow> budget_allocation" where
  "budget_for p ri =
     (let w = rk_context_window (mp_capabilities p)
      in \<lparr>ba_max_input = (if w = 0 then None else Some \<lfloor>(of_int w :: rat) * (4 / 5)\<rfloor>),
          ba_max_output = (case ri_budget_remaining ri of None \<Rightarrow> None
            | Some b \<Rightarrow> if b < 3 / 10 then Some 2048 else None),
          ba_max_cost = None\<rparr>)"

definition decide ::
  "string \<Rightarrow> string \<Rightarrow> string list \<Rightarrow> model_profile list \<Rightarrow> rat \<Rightarrow> rat \<Rightarrow> routing_decision" where
  "decide m p reasons available confidence complexity = \<lparr>rd_model = m, rd_profile = p,
     rd_reasons = dedupe reasons, rd_confidence = confidence, rd_complexity = complexity,
     rd_fallbacks = map mp_model (filter (\<lambda>q. mp_model q \<noteq> m) available),
     rd_allocation = no_allocation, rd_scores = None\<rparr>"

text \<open>The profiles that may be called now; looking at a circuit may turn it half-open.\<close>

fun available_from :: "int \<Rightarrow> model_profile list \<Rightarrow> model_router \<Rightarrow> model_profile list \<times> model_router" where
  "available_from now [] mr = ([], mr)"
| "available_from now (p # ps) mr =
     (if mp_available p
      then let (ok, mr1) = is_profile_available now (mp_id p) mr; (qs, mr2) = available_from now ps mr1
           in (if ok then p # qs else qs, mr2)
      else available_from now ps mr)"

definition no_route :: routing_decision where
  "no_route = \<lparr>rd_model = [], rd_profile = [], rd_reasons = [''all-profiles-open''], rd_confidence = 0,
     rd_complexity = 0, rd_fallbacks = [], rd_allocation = no_allocation, rd_scores = None\<rparr>"

definition override_decision :: "string \<Rightarrow> routing_input \<Rightarrow> model_profile list \<Rightarrow> routing_decision" where
  "override_decision name ri available =
     (let hit = (case find (\<lambda>p. mp_model p = name) available of
            Some p \<Rightarrow> Some p | None \<Rightarrow> find (\<lambda>p. mp_id p = name) available)
      in decide (case hit of None \<Rightarrow> name | Some p \<Rightarrow> mp_model p)
           (case hit of None \<Rightarrow> ''manual'' | Some p \<Rightarrow> mp_id p)
           (''manual-override'' # complexity_reasons ri) available 1 (estimate_complexity ri))"

definition ranking :: "model_router \<Rightarrow> routing_input \<Rightarrow> model_profile list \<Rightarrow> model_profile list" where
  "ranking mr ri available = sort_key (\<lambda>p. - score_profile mr ri (estimate_complexity ri) p) available"

definition best_decision :: "model_router \<Rightarrow> routing_input \<Rightarrow> model_profile list \<Rightarrow> routing_decision" where
  "best_decision mr ri available =
     (let c = estimate_complexity ri; ranked = ranking mr ri available; best = hd ranked
      in \<lparr>rd_model = mp_model best, rd_profile = mp_id best,
          rd_reasons = dedupe (complexity_reasons ri @ score_reasons mr ri c best),
          rd_confidence = decision_confidence (map (score_profile mr ri c) ranked),
          rd_complexity = c, rd_fallbacks = map mp_model (tl ranked),
          rd_allocation = budget_for best ri,
          rd_scores = Some (map (\<lambda>p. (mp_id p, score_profile mr ri c p, score_reasons mr ri c p)) ranked)\<rparr>)"

definition route_decision :: "model_router \<Rightarrow> routing_input \<Rightarrow> model_profile list \<Rightarrow> routing_decision" where
  "route_decision mr ri available =
     (case available of
        [] \<Rightarrow> no_route
      | only # others \<Rightarrow>
          (case (if mr_override mr = Some [] then None else mr_override mr) of
             Some name \<Rightarrow> override_decision name ri available
           | None \<Rightarrow>
               if \<not> mr_enabled mr \<or> others = []
               then decide (mp_model only) (mp_id only)
                 ((if \<not> mr_enabled mr then ''routing-disabled'' else ''single-profile'') # complexity_reasons ri)
                 available (9 / 10) (estimate_complexity ri)
               else best_decision mr ri available))"

definition route :: "int \<Rightarrow> routing_input \<Rightarrow> model_router \<Rightarrow> routing_decision \<times> model_router" where
  "route now ri mr0 =
     (let (available, mr) = available_from now (mr_profiles mr0) mr0; d = route_decision mr ri available
      in (d, mr\<lparr>mr_last_decision := Some d\<rparr>))"

fun index_of :: "'a \<Rightarrow> 'a list \<Rightarrow> nat option" where
  "index_of x [] = None"
| "index_of x (y # ys) = (if x = y then Some 0 else map_option Suc (index_of x ys))"

definition next_in_chain :: "string list \<Rightarrow> string \<Rightarrow> string option" where
  "next_in_chain chain failed =
     (let j = (case index_of failed chain of Some i \<Rightarrow> Suc i | None \<Rightarrow> 0)
      in if j < length chain then Some (chain ! j) else None)"

definition next_fallback :: "string \<Rightarrow> model_router \<Rightarrow> string option" where
  "next_fallback failed mr =
     next_in_chain (case mr_last_decision mr of None \<Rightarrow> [] | Some d \<Rightarrow> rd_fallbacks d) failed"


section \<open>Lemmas on circuits\<close>

lemma record_call_other [simp]:
  "q \<noteq> p \<Longrightarrow> jm_get (mr_circuits (record_call now p ok lat mr)) q = jm_get (mr_circuits mr) q"
  "q \<noteq> p \<Longrightarrow> jm_get (mr_opened_at (record_call now p ok lat mr)) q = jm_get (mr_opened_at mr) q"
  "q \<noteq> p \<Longrightarrow> jm_get (mr_streaks (record_call now p ok lat mr)) q = jm_get (mr_streaks mr) q"
  by (simp_all add: record_call_def Let_def)

lemma circuit_read_simps [simp]:
  "mr_profiles (snd (profile_circuit_state now p mr)) = mr_profiles mr"
  "mr_enabled (snd (profile_circuit_state now p mr)) = mr_enabled mr"
  "mr_long_context (snd (profile_circuit_state now p mr)) = mr_long_context mr"
  "mr_escalation (snd (profile_circuit_state now p mr)) = mr_escalation mr"
  "mr_health (snd (profile_circuit_state now p mr)) = mr_health mr"
  "mr_override (snd (profile_circuit_state now p mr)) = mr_override mr"
  "mr_last_decision (snd (profile_circuit_state now p mr)) = mr_last_decision mr"
  "mr_leases (snd (profile_circuit_state now p mr)) = mr_leases mr"
  "mr_probes (snd (profile_circuit_state now p mr)) = mr_probes mr"
  "mr_opened_at (snd (profile_circuit_state now p mr)) = mr_opened_at mr"
  "mr_streaks (snd (profile_circuit_state now p mr)) = mr_streaks mr"
  by (simp_all add: profile_circuit_state_def Let_def)

lemma circuit_read_stable:
  "fst (profile_circuit_state now q (snd (profile_circuit_state now p mr))) = fst (profile_circuit_state now q mr)"
  by (simp add: profile_circuit_state_def Let_def)

definition callable :: "int \<Rightarrow> model_router \<Rightarrow> model_profile list \<Rightarrow> model_profile list" where
  "callable now mr ps =
     filter (\<lambda>p. mp_available p \<and> fst (profile_circuit_state now (mp_id p) mr) \<noteq> CircuitOpen) ps"

lemma callable_read: "callable now (snd (profile_circuit_state now p mr)) ps = callable now mr ps"
  by (simp add: callable_def circuit_read_stable)

lemma callable_simps [simp]:
  "callable now mr [] = []"
  "callable now mr (p # ps) =
     (if mp_available p \<and> fst (profile_circuit_state now (mp_id p) mr) \<noteq> CircuitOpen
      then p # callable now mr ps else callable now mr ps)"
  by (simp_all add: callable_def)

definition same_but_circuits :: "model_router \<Rightarrow> model_router \<Rightarrow> bool" where
  "same_but_circuits mr mr' \<longleftrightarrow> mr\<lparr>mr_circuits := []\<rparr> = mr'\<lparr>mr_circuits := []\<rparr>"

lemma same_but_circuitsD:
  assumes "same_but_circuits mr mr'"
  shows "mr_profiles mr' = mr_profiles mr" "mr_enabled mr' = mr_enabled mr" "mr_override mr' = mr_override mr"
    "mr_long_context mr' = mr_long_context mr" "mr_escalation mr' = mr_escalation mr"
    "mr_health mr' = mr_health mr" "mr_leases mr' = mr_leases mr" "mr_probes mr' = mr_probes mr"
    "mr_opened_at mr' = mr_opened_at mr" "mr_streaks mr' = mr_streaks mr"
  using assms by (cases mr; cases mr'; simp add: same_but_circuits_def)+

lemma available_from_callable:
  "fst (available_from now ps mr) = callable now mr ps \<and> same_but_circuits mr (snd (available_from now ps mr)) \<and>
     (\<forall>q. fst (profile_circuit_state now q (snd (available_from now ps mr))) = fst (profile_circuit_state now q mr))"
proof (induction ps arbitrary: mr)
  case Nil
  then show ?case by (simp add: same_but_circuits_def)
next
  case (Cons p ps)
  let ?mr1 = "snd (profile_circuit_state now (mp_id p) mr)"
  have "same_but_circuits mr ?mr1"
    by (simp add: same_but_circuits_def profile_circuit_state_def Let_def)
  with Cons [of mr] Cons [of ?mr1] show ?case
    by (simp add: is_profile_available_def case_prod_beta Let_def callable_read circuit_read_stable
        same_but_circuits_def)
qed

section \<open>A circuit as a breaker\<close>

text \<open>The abstract breaker of one profile: failures in a row, and when it last opened.\<close>

type_synonym breaker = "nat \<times> int option"

datatype breaker_event = CallWorked | CallFailed int | ProbeWorked | ProbeBroke int

fun breaker_step :: "breaker_event \<Rightarrow> breaker \<Rightarrow> breaker" where
  "breaker_step CallWorked b = (0, None)"
| "breaker_step (CallFailed t) (n, o1) = (Suc n, if Suc n \<ge> circuit_open_threshold then Some t else o1)"
| "breaker_step ProbeWorked b = (0, None)"
| "breaker_step (ProbeBroke t) (n, o1) = (n, Some t)"

definition breaker_phase :: "int \<Rightarrow> breaker \<Rightarrow> circuit_phase" where
  "breaker_phase now b = (case snd b of None \<Rightarrow> CircuitClosed
     | Some t \<Rightarrow> if now - t \<ge> half_open_cooldown_ms then CircuitHalfOpen else CircuitOpen)"

datatype router_op =
    CallRecorded string bool rat
  | CircuitRead string
  | ProbeAsked string string string
  | ProbeFinished probe_lease probe_outcome
  | Routed routing_input
  | UserChose string
  | DecisionTaken string "budget_allocation option" string "string list"
  | OverrideDropped
  | FellBack string string string

fun router_step :: "int \<times> router_op \<Rightarrow> model_router \<Rightarrow> model_router" where
  "router_step (t, CallRecorded p ok lat) mr = record_call t p ok lat mr"
| "router_step (t, CircuitRead p) mr = snd (profile_circuit_state t p mr)"
| "router_step (t, ProbeAsked i p scope) mr = snd (try_acquire_probe t i p scope mr)"
| "router_step (t, ProbeFinished l outcome) mr = finish_probe t l outcome mr"
| "router_step (t, Routed ri) mr = snd (route t ri mr)"
| "router_step (t, UserChose m) mr = (case set_model_by_user m mr of Inl _ \<Rightarrow> mr | Inr mr' \<Rightarrow> mr')"
| "router_step (t, DecisionTaken m a previous reasons) mr = mark_applied m a previous reasons mr"
| "router_step (t, OverrideDropped) mr = clear_model_override mr"
| "router_step (t, FellBack src tgt err) mr = emit_fallback src tgt err mr"

text \<open>Whether the end of a probe counts: the lease is held and its profile is being probed.\<close>

definition lease_counts :: "model_router \<Rightarrow> probe_lease \<Rightarrow> bool" where
  "lease_counts mr l \<longleftrightarrow> (case jm_get (mr_leases mr) (pl_id l) of None \<Rightarrow> False
     | Some owned \<Rightarrow> pl_profile owned = pl_profile l \<and> pl_profile l \<in> set (mr_probes mr))"

fun breaker_events :: "string \<Rightarrow> int \<times> router_op \<Rightarrow> model_router \<Rightarrow> breaker_event list" where
  "breaker_events p (t, CallRecorded q ok lat) mr =
     (if q = p then [if ok then CallWorked else CallFailed t] else [])"
| "breaker_events p (t, ProbeFinished l outcome) mr =
     (if pl_profile l = p \<and> lease_counts mr l
      then (case outcome of ProbeSuccess \<Rightarrow> [ProbeWorked] | ProbeFailure \<Rightarrow> [ProbeBroke t] | ProbeAborted \<Rightarrow> [])
      else [])"
| "breaker_events p (t, op) mr = []"

fun breaker_history :: "string \<Rightarrow> (int \<times> router_op) list \<Rightarrow> model_router \<Rightarrow> breaker_event list" where
  "breaker_history p [] mr = []"
| "breaker_history p (x # xs) mr = breaker_events p x mr @ breaker_history p xs (router_step x mr)"

definition simulates :: "int \<Rightarrow> string \<Rightarrow> model_router \<Rightarrow> breaker \<Rightarrow> bool" where
  "simulates now p mr b \<longleftrightarrow>
     fst b = default_to (jm_get (mr_streaks mr) p) 0 \<and>
     (case default_to (jm_get (mr_circuits mr) p) CircuitClosed of
        CircuitClosed \<Rightarrow> snd b = None
      | CircuitOpen \<Rightarrow> snd b = Some (default_to (jm_get (mr_opened_at mr) p) 0)
      | CircuitHalfOpen \<Rightarrow> (\<exists>t. snd b = Some t \<and> now - t \<ge> half_open_cooldown_ms))"

lemma simulates_phase: "simulates now p mr b \<Longrightarrow> fst (profile_circuit_state now p mr) = breaker_phase now b"
  by (cases "default_to (jm_get (mr_circuits mr) p) CircuitClosed")
    (auto simp: simulates_def profile_circuit_state_def breaker_phase_def Let_def)

lemma simulates_later: "simulates now p mr b \<Longrightarrow> now \<le> t \<Longrightarrow> simulates t p mr b"
  by (auto simp: simulates_def split: circuit_phase.splits)

lemma simulates_read:
  "simulates now p mr b \<Longrightarrow> simulates now p (snd (profile_circuit_state now q mr)) b"
  by (auto simp: simulates_def profile_circuit_state_def Let_def split: circuit_phase.splits)

lemma simulates_cong:
  "simulates now p mr b \<Longrightarrow> mr_streaks mr' = mr_streaks mr \<Longrightarrow> mr_circuits mr' = mr_circuits mr \<Longrightarrow>
     mr_opened_at mr' = mr_opened_at mr \<Longrightarrow> simulates now p mr' b"
  unfolding simulates_def by (simp only: refl)

lemma simulates_available:
  "simulates now p mr b \<Longrightarrow> simulates now p (snd (available_from now ps mr)) b"
proof (induction ps arbitrary: mr)
  case (Cons q ps)
  have "simulates now p (snd (profile_circuit_state now (mp_id q) mr)) b"
    by (rule simulates_read [OF Cons.prems])
  with Cons show ?case by (simp add: is_profile_available_def case_prod_beta Let_def)
qed simp

lemma simulates_acquire:
  assumes "simulates now p mr b"
  shows "simulates now p (snd (try_acquire_probe now i q scope mr)) b"
proof -
  let ?mr1 = "snd (profile_circuit_state now q mr)" and ?mr2 = "snd (try_acquire_probe now i q scope mr)"
  have "mr_streaks ?mr2 = mr_streaks ?mr1 \<and> mr_circuits ?mr2 = mr_circuits ?mr1 \<and> mr_opened_at ?mr2 = mr_opened_at ?mr1"
    by (simp add: try_acquire_probe_def case_prod_beta Let_def grant_probe_def evict_stale_lease_def
        split: option.splits)
  with simulates_cong [OF simulates_read [OF assms, of q]] show ?thesis by blast
qed

lemma simulates_call:
  "simulates now p mr b \<Longrightarrow>
     simulates now p (record_call now q ok lat mr) (fold breaker_step (breaker_events p (now, CallRecorded q ok lat) mr) b)"
  by (cases b; cases "q = p") (auto simp: simulates_def record_call_def Let_def split: circuit_phase.splits)

lemma simulates_finish:
  "simulates now p mr b \<Longrightarrow>
     simulates now p (finish_probe now l outcome mr) (fold breaker_step (breaker_events p (now, ProbeFinished l outcome) mr) b)"
  by (cases b; cases outcome)
    (auto simp: simulates_def finish_probe_def lease_counts_def Let_def split: option.splits circuit_phase.splits)

lemma simulates_step:
  assumes "simulates t p mr b"
  shows "simulates t p (router_step (t, op) mr) (fold breaker_step (breaker_events p (t, op) mr) b)"
proof (cases op)
  case (CallRecorded q ok lat)
  with simulates_call [OF assms, of q ok lat] show ?thesis by simp
next
  case (CircuitRead q)
  with simulates_read [OF assms, of q] show ?thesis by simp
next
  case (ProbeAsked i q scope)
  with simulates_acquire [OF assms] show ?thesis by simp
next
  case (ProbeFinished l outcome)
  with simulates_finish [OF assms, of l outcome] show ?thesis by simp
next
  case (Routed ri)
  with simulates_cong [OF simulates_available [OF assms]] show ?thesis
    by (simp add: route_def case_prod_beta Let_def)
qed (use simulates_cong [OF assms] in
  \<open>simp_all add: set_model_by_user_def mark_applied_def apply_routing_decision_def clear_model_override_def
     emit_fallback_def tell_def Let_def split: sum.splits option.splits\<close>)

lemma simulates_run:
  "simulates t0 p mr b \<Longrightarrow> sorted (t0 # map fst xs) \<Longrightarrow> \<forall>t\<in>set (map fst xs). t \<le> now \<Longrightarrow> t0 \<le> now \<Longrightarrow>
     simulates now p (fold router_step xs mr) (fold breaker_step (breaker_history p xs mr) b)"
proof (induction xs arbitrary: t0 mr b)
  case Nil
  then show ?case by (simp add: simulates_later)
next
  case (Cons x xs)
  obtain t op where x: "x = (t, op)" by fastforce
  have "simulates t p mr b" using simulates_later [OF Cons.prems(1)] Cons.prems(2) x by simp
  from simulates_step [OF this, of op] have
    "simulates t p (router_step x mr) (fold breaker_step (breaker_events p x mr) b)" by (simp add: x)
  from Cons.IH [OF this] Cons.prems(2,3) show ?case by (simp add: x)
qed


section \<open>Lemmas on probes\<close>

text \<open>One lease for each probe, one probe for each profile.\<close>

definition probes_ok :: "model_router \<Rightarrow> bool" where
  "probes_ok mr \<longleftrightarrow> jm_wf (mr_leases mr) \<and> distinct (map (pl_profile \<circ> snd) (mr_leases mr)) \<and>
     set (mr_probes mr) = set (map (pl_profile \<circ> snd) (mr_leases mr)) \<and>
     list_all (\<lambda>(i, l). pl_id l = i) (mr_leases mr)"

lemma probes_ok_cong:
  "probes_ok mr \<Longrightarrow> mr_leases mr' = mr_leases mr \<Longrightarrow> mr_probes mr' = mr_probes mr \<Longrightarrow> probes_ok mr'"
  by (simp add: probes_ok_def)

lemma delete_lease:
  assumes "distinct (map (f \<circ> snd) m)" and "jm_wf m" and "jm_get m i = Some l"
  shows "distinct (map (f \<circ> snd) (jm_delete i m))" and "set (map (f \<circ> snd) (jm_delete i m)) = set (map (f \<circ> snd) m) - {f l}"
proof -
  show "distinct (map (f \<circ> snd) (jm_delete i m))"
    using assms(1) by (simp add: AList.delete_eq distinct_map_filter)
  have mem: "(i, l) \<in> set m" using assms(3) by (rule map_of_SomeD)
  have inj: "inj_on (f \<circ> snd) (set m)" using assms(1) by (simp add: distinct_map)
  have "x = (i, l)" if "x \<in> set m" "fst x = i" for x
    using that mem assms(2) by (metis eq_key_imp_eq_value prod.collapse)
  note only = this
  have "x \<in> set (jm_delete i m) \<longleftrightarrow> x \<in> set m - {(i, l)}" for x
    using only [of x] mem by (cases "fst x = i") (auto simp: AList.delete_eq case_prod_beta)
  then have "set (jm_delete i m) = set m - {(i, l)}" by blast
  then show "set (map (f \<circ> snd) (jm_delete i m)) = set (map (f \<circ> snd) m) - {f l}"
    using inj_on_image_set_diff [OF inj, of "set m" "{(i, l)}"] mem by simp
qed

lemma probes_ok_drop:
  assumes ok: "probes_ok mr" and l: "jm_get (mr_leases mr) i = Some l"
    and "mr_leases mr' = jm_delete i (mr_leases mr)" and "mr_probes mr' = removeAll (pl_profile l) (mr_probes mr)"
  shows "probes_ok mr'"
proof -
  have wf: "jm_wf (mr_leases mr)" "distinct (map (pl_profile \<circ> snd) (mr_leases mr))"
    "set (mr_probes mr) = set (map (pl_profile \<circ> snd) (mr_leases mr))" "list_all (\<lambda>(i, l). pl_id l = i) (mr_leases mr)"
    using ok by (simp_all only: probes_ok_def)
  have "list_all (\<lambda>(i, l). pl_id l = i) (jm_delete i (mr_leases mr))"
    using wf(4) by (auto simp: list_all_iff AList.delete_eq)
  with delete_lease [OF wf(2,1) l] wf show ?thesis
    by (simp add: probes_ok_def assms(3,4) set_removeAll del: set_map list.map_comp)
qed

lemma probes_ok_grant:
  "probes_ok mr \<Longrightarrow> p \<notin> set (mr_probes mr) \<Longrightarrow> \<not> jm_has (mr_leases mr) i \<Longrightarrow>
     probes_ok (snd (grant_probe now i p scope mr))"
  by (auto simp: probes_ok_def grant_probe_def Let_def jm_set_fresh map_of_eq_None_iff)

lemma lease_of_profile:
  assumes "probes_ok mr" and "p \<in> set (mr_probes mr)"
  obtains i l where "find (\<lambda>(i, l). pl_profile l = p) (mr_leases mr) = Some (i, l)"
    "jm_get (mr_leases mr) i = Some l" "pl_profile l = p"
proof -
  from assms obtain x where x: "x \<in> set (mr_leases mr)" "pl_profile (snd x) = p"
    by (auto simp: probes_ok_def)
  then have "find (\<lambda>(i, l). pl_profile l = p) (mr_leases mr) \<noteq> None"
    unfolding find_None_iff case_prod_beta by blast
  then obtain i l where il: "find (\<lambda>(i, l). pl_profile l = p) (mr_leases mr) = Some (i, l)" by auto
  then have "(i, l) \<in> set (mr_leases mr)" "pl_profile l = p"
    by (auto dest: find_SomeD)
  with assms(1) il that show thesis by (simp add: probes_ok_def)
qed

text \<open>What a granted probe implies, and what every request leaves.\<close>

lemma acquire_probe:
  assumes ok: "probes_ok mr" and fresh: "\<not> jm_has (mr_leases mr) i"
    and acq: "try_acquire_probe now i p scope mr = (r, mr')"
  shows "probes_ok mr' \<and> set (jm_keys (mr_leases mr')) \<subseteq> insert i (set (jm_keys (mr_leases mr))) \<and>
    (case r of None \<Rightarrow> True | Some l \<Rightarrow> pl_id l = i \<and> pl_profile l = p \<and>
       fst (profile_circuit_state now p mr) = CircuitHalfOpen \<and>
       list_all (\<lambda>(j, l'). pl_profile l' = p \<longrightarrow> now - pl_acquired_at l' > probe_lease_ttl_ms) (mr_leases mr))"
proof -
  let ?mr1 = "snd (profile_circuit_state now p mr)"
  have ok1: "probes_ok ?mr1" by (rule probes_ok_cong [OF ok]) simp_all
  have keys: "set (jm_keys (mr_leases (snd (grant_probe now i p scope m)))) \<subseteq> insert i (set (jm_keys (mr_leases m)))" for m
    by (auto simp: grant_probe_def Let_def jm_keys_set)
  consider (no) "fst (profile_circuit_state now p mr) \<noteq> CircuitHalfOpen"
    | (free) "fst (profile_circuit_state now p mr) = CircuitHalfOpen" "p \<notin> set (mr_probes mr)"
    | (held) "fst (profile_circuit_state now p mr) = CircuitHalfOpen" "p \<in> set (mr_probes mr)" by blast
  then show ?thesis
  proof cases
    case no
    with acq have "r = None" "mr' = ?mr1" by (simp_all add: try_acquire_probe_def case_prod_beta Let_def)
    with ok1 show ?thesis by auto
  next
    case free
    with acq have r: "r = Some (fst (grant_probe now i p scope ?mr1))" "mr' = snd (grant_probe now i p scope ?mr1)"
      by (auto simp: try_acquire_probe_def case_prod_beta Let_def)
    have "list_all (\<lambda>(j, l'). pl_profile l' \<noteq> p) (mr_leases mr)"
    proof -
      have "p \<notin> (pl_profile \<circ> snd) ` set (mr_leases mr)" using free(2) ok by (simp add: probes_ok_def)
      then show ?thesis by (auto simp: list_all_iff image_iff)
    qed
    then have "list_all (\<lambda>(j, l'). pl_profile l' = p \<longrightarrow> now - pl_acquired_at l' > probe_lease_ttl_ms) (mr_leases mr)"
      by (auto simp: list_all_iff)
    with r free keys [of ?mr1] probes_ok_grant [OF ok1, of p i now scope] fresh show ?thesis
      by (simp add: grant_probe_def Let_def)
  next
    case held
    from lease_of_profile [OF ok held(2)] obtain j l where
      l: "find (\<lambda>(i, l). pl_profile l = p) (mr_leases mr) = Some (j, l)" "jm_get (mr_leases mr) j = Some l"
        "pl_profile l = p" .
    show ?thesis
    proof (cases "now - pl_acquired_at l \<le> probe_lease_ttl_ms")
      case True
      with acq held l ok1 show ?thesis
        by (auto simp: try_acquire_probe_def case_prod_beta Let_def evict_stale_lease_def)
    next
      case False
      let ?mr2 = "?mr1\<lparr>mr_leases := jm_delete j (mr_leases ?mr1), mr_probes := removeAll p (mr_probes ?mr1)\<rparr>"
      from acq held l False have
        r: "r = Some (fst (grant_probe now i p scope ?mr2))" "mr' = snd (grant_probe now i p scope ?mr2)"
        by (auto simp: try_acquire_probe_def case_prod_beta Let_def evict_stale_lease_def)
      have ok2: "probes_ok ?mr2"
        by (rule probes_ok_drop [OF ok1, of j l]) (use l in simp_all)
      have fresh2: "\<not> jm_has (mr_leases ?mr2) i" using fresh by simp
      have "(j', l') = (j, l)" if "(j', l') \<in> set (mr_leases mr)" "pl_profile l' = p" for j' l'
      proof (rule inj_onD)
        show "inj_on (pl_profile \<circ> snd) (set (mr_leases mr))" using ok by (simp add: probes_ok_def distinct_map)
      qed (use that map_of_SomeD [OF l(2)] l(3) in simp_all)
      then have "list_all (\<lambda>(j, l'). pl_profile l' = p \<longrightarrow> now - pl_acquired_at l' > probe_lease_ttl_ms) (mr_leases mr)"
        using False by (fastforce simp: list_all_iff)
      moreover have "set (jm_keys (mr_leases mr')) \<subseteq> insert i (set (jm_keys (mr_leases mr)))"
        using keys [of ?mr2] r(2) by (auto simp: AList.delete_eq)
      ultimately show ?thesis
        using r held probes_ok_grant [OF ok2 _ fresh2, of p now scope] by (simp add: grant_probe_def Let_def)
    qed
  qed
qed

lemma finish_probe_ok:
  assumes "probes_ok mr"
  shows "probes_ok (finish_probe now l outcome mr) \<and>
    set (jm_keys (mr_leases (finish_probe now l outcome mr))) \<subseteq> set (jm_keys (mr_leases mr))"
proof (cases "lease_counts mr l")
  case True
  then obtain owned where owned: "jm_get (mr_leases mr) (pl_id l) = Some owned" "pl_profile owned = pl_profile l"
    "pl_profile l \<in> set (mr_probes mr)"
    by (auto simp: lease_counts_def split: option.splits)
  have "mr_leases (finish_probe now l outcome mr) = jm_delete (pl_id l) (mr_leases mr)"
    "mr_probes (finish_probe now l outcome mr) = removeAll (pl_profile owned) (mr_probes mr)"
    using owned by (cases outcome; simp add: finish_probe_def Let_def)+
  with probes_ok_drop [OF assms owned(1)] show ?thesis by (auto simp: AList.delete_eq)
next
  case False
  have "finish_probe now l outcome mr = mr"
  proof (cases "jm_get (mr_leases mr) (pl_id l)")
    case (Some owned)
    then have "pl_profile owned \<in> set (mr_probes mr)"
      using assms map_of_SomeD [OF Some] by (force simp: probes_ok_def)
    with False Some show ?thesis by (auto simp: finish_probe_def lease_counts_def Let_def)
  qed (simp add: finish_probe_def Let_def)
  with assms show ?thesis by simp
qed

lemma same_probes:
  "mr_leases (snd (route now ri mr)) = mr_leases mr" "mr_probes (snd (route now ri mr)) = mr_probes mr"
  using same_but_circuitsD(7,8) [of mr "snd (available_from now (mr_profiles mr) mr)"]
    available_from_callable [of now "mr_profiles mr" mr]
  by (simp_all add: route_def case_prod_beta Let_def)

fun asked_ids :: "(int \<times> router_op) list \<Rightarrow> string list" where
  "asked_ids [] = []"
| "asked_ids ((t, ProbeAsked i p scope) # xs) = i # asked_ids xs"
| "asked_ids (x # xs) = asked_ids xs"

lemma probes_ok_step:
  assumes "probes_ok mr" and "\<forall>i\<in>set (asked_ids [x]). \<not> jm_has (mr_leases mr) i"
  shows "probes_ok (router_step x mr) \<and>
    set (jm_keys (mr_leases (router_step x mr))) \<subseteq> set (asked_ids [x]) \<union> set (jm_keys (mr_leases mr))"
proof -
  obtain t op where x: "x = (t, op)" by fastforce
  have same: ?thesis if "mr_leases (router_step x mr) = mr_leases mr" "mr_probes (router_step x mr) = mr_probes mr"
    using probes_ok_cong [OF assms(1) that] that by auto
  show ?thesis
  proof (cases op)
    case (CallRecorded p ok lat)
    with same show ?thesis by (simp add: x record_call_def Let_def)
  next
    case (CircuitRead p)
    with same show ?thesis by (simp add: x)
  next
    case (ProbeAsked i p scope)
    obtain r mr' where "try_acquire_probe t i p scope mr = (r, mr')" by fastforce
    with acquire_probe [OF assms(1) _ this] assms(2) ProbeAsked show ?thesis by (simp add: x)
  next
    case (ProbeFinished l outcome)
    with finish_probe_ok [OF assms(1)] show ?thesis by (simp add: x)
  next
    case (Routed ri)
    with same same_probes show ?thesis by (simp add: x)
  next
    case (UserChose m)
    with same show ?thesis by (simp add: x set_model_by_user_def tell_def Let_def)
  next
    case (DecisionTaken m a previous reasons)
    with same show ?thesis by (simp add: x mark_applied_def apply_routing_decision_def tell_def Let_def)
  next
    case OverrideDropped
    with same show ?thesis by (simp add: x clear_model_override_def tell_def)
  next
    case (FellBack src tgt err)
    with same show ?thesis by (simp add: x emit_fallback_def tell_def)
  qed
qed

lemma asked_ids_Cons: "asked_ids (x # xs) = asked_ids [x] @ asked_ids xs"
  by (cases x; cases "snd x") simp_all

lemma probes_ok_run:
  "probes_ok mr \<Longrightarrow> distinct (asked_ids xs) \<Longrightarrow> \<forall>i\<in>set (asked_ids xs). \<not> jm_has (mr_leases mr) i \<Longrightarrow>
     probes_ok (fold router_step xs mr) \<and>
     set (jm_keys (mr_leases (fold router_step xs mr))) \<subseteq> set (asked_ids xs) \<union> set (jm_keys (mr_leases mr))"
proof (induction xs arbitrary: mr)
  case (Cons x xs)
  from Cons.prems(2,3) have d: "distinct (asked_ids xs)" "set (asked_ids [x]) \<inter> set (asked_ids xs) = {}"
    "\<forall>i\<in>set (asked_ids [x]). \<not> jm_has (mr_leases mr) i" "\<forall>i\<in>set (asked_ids xs). \<not> jm_has (mr_leases mr) i"
    by (simp_all add: asked_ids_Cons [of x xs])
  note step = probes_ok_step [OF Cons.prems(1) d(3)]
  have "\<forall>i\<in>set (asked_ids xs). \<not> jm_has (mr_leases (router_step x mr)) i"
    using step d(2,4) by (simp only: jm_keys_iff [symmetric]) blast
  from Cons.IH [OF conjunct1 [OF step] d(1) this] step show ?case
    by (simp only: asked_ids_Cons [of x xs] set_append fold_Cons comp_apply) blast
qed simp

section \<open>Lemmas on decisions\<close>

lemma round_cents_between:
  assumes "of_int i / 100 \<le> x" and "x \<le> of_int j / 100"
  shows "of_int i / 100 \<le> round_cents x" and "round_cents x \<le> of_int j / 100"
proof -
  have "of_int i \<le> x * 100 + 1 / 2" using assms(1) by simp
  then have "i \<le> \<lfloor>x * 100 + 1 / 2\<rfloor>" by (simp add: le_floor_iff)
  then show "of_int i / 100 \<le> round_cents x"
    unfolding round_cents_def by (intro divide_right_mono) simp_all
  have "x * 100 + 1 / 2 < of_int (j + 1)" using assms(2) by simp
  then have "\<lfloor>x * 100 + 1 / 2\<rfloor> < j + 1" by (simp only: floor_less_iff)
  then show "round_cents x \<le> of_int j / 100"
    unfolding round_cents_def by (intro divide_right_mono) simp_all
qed

lemma fold_weights: "fold (\<lambda>(w, r) c. c + w) ws c = c + (\<Sum>(w, r)\<leftarrow>ws. w :: rat)"
  by (induction ws arbitrary: c) auto

lemma complexity_signals_pos: "0 \<le> (\<Sum>(w, r)\<leftarrow>complexity_signals ri. w)"
  by (rule sum_list_nonneg) (auto simp: complexity_signals_def Let_def split: if_splits)

lemma complexity_between: "3 / 10 \<le> estimate_complexity ri \<and> estimate_complexity ri \<le> 1"
proof -
  let ?x = "min 1 (3 / 10 + (\<Sum>(w, r)\<leftarrow>complexity_signals ri. w))"
  have e: "estimate_complexity ri = round_cents ?x" by (simp add: estimate_complexity_def fold_weights)
  have "of_int 30 / 100 \<le> ?x" "?x \<le> of_int 100 / 100" using complexity_signals_pos [of ri] by simp_all
  from round_cents_between [OF this] show ?thesis by (simp add: e)
qed

lemma confidence_between: "3 / 10 \<le> decision_confidence ss \<and> decision_confidence ss \<le> 99 / 100"
proof -
  have "3 / 10 \<le> round_cents (max (3 / 10) (min (99 / 100) x)) \<and>
      round_cents (max (3 / 10) (min (99 / 100) x)) \<le> 99 / 100" for x
  proof -
    let ?x = "max (3 / 10) (min (99 / 100) x)"
    have "of_int 30 / 100 \<le> ?x" "?x \<le> of_int 99 / 100" by simp_all
    from round_cents_between [OF this] show ?thesis by simp
  qed
  then show ?thesis by (simp add: decision_confidence_def split: list.splits)
qed

lemma set_dedupe_from: "set (dedupe_from seen xs) = set xs - set seen \<and> distinct (dedupe_from seen xs)"
  by (induction seen xs rule: dedupe_from.induct) auto

lemma score_cong:
  assumes "same_but_circuits mr mr'"
  shows "score_profile mr' ri c p = score_profile mr ri c p"
  unfolding score_profile_def score_signals_def health_signals_def same_but_circuitsD [OF assms] by (rule refl)

lemma route_unfold:
  "fst (route now ri mr) = route_decision (snd (available_from now (mr_profiles mr) mr)) ri (callable now mr (mr_profiles mr))"
  using available_from_callable [of now "mr_profiles mr" mr] by (simp add: route_def case_prod_beta Let_def)

lemma ranking_facts:
  assumes "xs \<noteq> []"
  shows "mset (ranking mr ri xs) = mset xs" and "sorted (map (\<lambda>p. - score_profile mr ri (estimate_complexity ri) p) (ranking mr ri xs))"
    and "ranking mr ri xs \<noteq> []"
proof -
  show m: "mset (ranking mr ri xs) = mset xs" by (simp add: ranking_def)
  show "sorted (map (\<lambda>p. - score_profile mr ri (estimate_complexity ri) p) (ranking mr ri xs))"
    by (simp add: ranking_def)
  show "ranking mr ri xs \<noteq> []" using m assms by auto
qed

lemma stable_head:
  fixes f :: "'a \<Rightarrow> 'b::linorder"
  assumes "xs \<noteq> []"
  shows "\<exists>pre post. xs = pre @ hd (sort_key f xs) # post \<and> (\<forall>y\<in>set pre. f (hd (sort_key f xs)) < f y)"
proof -
  let ?s = "sort_key f xs" and ?h = "hd (sort_key f xs)"
  have ne: "?s \<noteq> []" using assms by (metis set_empty set_sort)
  have least: "f ?h \<le> f y" if "y \<in> set xs" for y
  proof -
    have "y \<in> set ?s" using that by simp
    then show ?thesis using sorted_sort_key [of f xs] ne by (cases ?s) auto
  qed
  have "filter (\<lambda>y. f y = f ?h) ?s = filter (\<lambda>y. f y = f ?h) xs" by (simp add: sort_key_stable)
  moreover have "?s = ?h # tl ?s" using ne by simp
  ultimately have "filter (\<lambda>y. f y = f ?h) xs = ?h # filter (\<lambda>y. f y = f ?h) (tl ?s)"
    by (metis (mono_tags, lifting) filter.simps(2))
  then obtain pre post where "xs = pre @ ?h # post" "\<forall>y\<in>set pre. f y \<noteq> f ?h"
    by (auto dest: Cons_eq_filterD [OF sym])
  with least show ?thesis by (metis Un_iff antisym_conv2 set_append)
qed

section \<open>Properties\<close>

text \<open>Two profiles and an input for the examples.\<close>

definition sample_profile :: "string \<Rightarrow> rat \<Rightarrow> rat \<Rightarrow> model_profile" where
  "sample_profile i strength cost = \<lparr>mp_id = i, mp_provider = ''openai'', mp_model = i @ ''-model'', mp_top = None,
     mp_capabilities = \<lparr>rk_reasoning = strength, rk_coding = strength, rk_context_window = 128000,
       rk_tool_calling = strength, rk_speed = 1 / 2, rk_cost = cost\<rparr>,
     mp_roles = [''main''], mp_available = True\<rparr>"

definition sample_routing_input :: "string \<Rightarrow> routing_input" where
  "sample_routing_input goal = \<lparr>ri_goal = goal, ri_repo_files = None, ri_repo_state = None, ri_files_touched = None,
     ri_failures = None, ri_context_ratio = None, ri_budget_remaining = None, ri_role = None,
     ri_architecture = False, ri_health = None, ri_tools = None, ri_public_interface = False,
     ri_cross_module = False, ri_config_change = False, ri_root_cause = False, ri_impact_files = None,
     ri_graph_scale = None\<rparr>"

definition sample_router :: model_router where
  "sample_router = new_router [sample_profile ''strong'' (9 / 10) (1 / 10), sample_profile ''cheap'' (1 / 2) 1]
     None None None"

definition five_failures :: "(int \<times> router_op) list" where
  "five_failures = map (\<lambda>t. (t, CallRecorded ''strong'' False 100)) [1, 2, 3, 4, 5]"

text \<open>
  (C11) The circuit of a profile is a breaker of its own. Over any history of calls, probes, readings,
  routings and overrides with rising times, what the router reads for a profile is what the abstract
  breaker says that hears only of that profile: closed, open after the fifth failure in a row or a broken
  probe until the cooldown is over, half-open from then on, and closed again by a call or probe that
  works. No other profile's failures matter.
\<close>

theorem circuit_refines_breaker:
  assumes "sorted (map fst xs)" and "\<forall>t\<in>set (map fst xs). t \<le> now"
  shows "fst (profile_circuit_state now p (fold router_step xs (new_router ps e lc es))) =
    breaker_phase now (fold breaker_step (breaker_history p xs (new_router ps e lc es)) (0, None))"
proof (rule simulates_phase)
  let ?t0 = "case xs of [] \<Rightarrow> now | x # _ \<Rightarrow> fst x"
  have "simulates ?t0 p (new_router ps e lc es) (0, None)" by (simp add: simulates_def new_router_def)
  then show "simulates now p (fold router_step xs (new_router ps e lc es))
      (fold breaker_step (breaker_history p xs (new_router ps e lc es)) (0, None))"
    by (rule simulates_run) (use assms in \<open>cases xs; auto\<close>)+
qed

theorem circuit_refines_breaker_witness:
  "fst (profile_circuit_state 100 ''strong'' (fold router_step five_failures sample_router)) = CircuitOpen \<and>
   fst (profile_circuit_state 100 ''cheap'' (fold router_step five_failures sample_router)) = CircuitClosed \<and>
   fst (profile_circuit_state 30005 ''strong'' (fold router_step five_failures sample_router)) = CircuitHalfOpen"
proof -
  have "sorted (map fst five_failures)" "\<forall>t\<in>set (map fst five_failures). t \<le> 100"
    "\<forall>t\<in>set (map fst five_failures). t \<le> 30005"
    by (simp_all add: five_failures_def)
  note use = circuit_refines_breaker [OF this(1,2)] circuit_refines_breaker [OF this(1,3)]
  show ?thesis
    unfolding sample_router_def use
    by (simp add: five_failures_def breaker_phase_def half_open_cooldown_ms_def circuit_open_threshold_def)
qed

text \<open>
  (C16) Probes are exclusive. Over any history in which lease ids are not reused, each profile has at most
  one lease; and whenever a probe is granted, the circuit is half-open and the lease of the profile, if
  there is one, is older than its time to live. A lease that was evicted or finished no longer counts.
\<close>

theorem probe_is_exclusive:
  assumes "distinct (i # asked_ids xs)"
    and "try_acquire_probe now i p scope (fold router_step xs (new_router ps e lc es)) = (r, mr')"
  shows "probes_ok (fold router_step xs (new_router ps e lc es)) \<and> probes_ok mr' \<and>
    (case r of None \<Rightarrow> True | Some l \<Rightarrow> pl_id l = i \<and> pl_profile l = p \<and>
       fst (profile_circuit_state now p (fold router_step xs (new_router ps e lc es))) = CircuitHalfOpen \<and>
       list_all (\<lambda>(j, l'). pl_profile l' = p \<longrightarrow> now - pl_acquired_at l' > probe_lease_ttl_ms)
         (mr_leases (fold router_step xs (new_router ps e lc es))))"
proof -
  have "probes_ok (new_router ps e lc es)" "mr_leases (new_router ps e lc es) = []"
    by (simp_all add: probes_ok_def new_router_def)
  with probes_ok_run [of "new_router ps e lc es" xs] assms(1)
  have run: "probes_ok (fold router_step xs (new_router ps e lc es))"
    "set (jm_keys (mr_leases (fold router_step xs (new_router ps e lc es)))) \<subseteq> set (asked_ids xs)"
    by simp_all
  then have "i \<notin> set (jm_keys (mr_leases (fold router_step xs (new_router ps e lc es))))" using assms(1) by auto
  then have "\<not> jm_has (mr_leases (fold router_step xs (new_router ps e lc es))) i" by (simp only: jm_keys_iff) simp
  from acquire_probe [OF run(1) this assms(2)] run(1) show ?thesis by blast
qed

theorem probe_is_exclusive_witness:
  "fst (try_acquire_probe 30010 ''b'' ''strong'' []
     (fold router_step (five_failures @ [(30006, ProbeAsked ''a'' ''strong'' [])]) sample_router)) = None \<and>
   probes_ok (fold router_step (five_failures @ [(30006, ProbeAsked ''a'' ''strong'' [])]) sample_router)"
proof -
  let ?xs = "five_failures @ [(30006, ProbeAsked ''a'' ''strong'' [])]"
  have none: "fst (try_acquire_probe 30010 ''b'' ''strong'' [] (fold router_step ?xs sample_router)) = None"
    by (simp add: five_failures_def sample_router_def new_router_def record_call_def try_acquire_probe_def
        profile_circuit_state_def grant_probe_def evict_stale_lease_def circuit_open_threshold_def
        half_open_cooldown_ms_def probe_lease_ttl_ms_def Let_def)
  have "distinct (''b'' # asked_ids ?xs)" by (simp add: five_failures_def)
  moreover obtain r mr' where acq: "try_acquire_probe 30010 ''b'' ''strong'' []
      (fold router_step ?xs (new_router [sample_profile ''strong'' (9 / 10) (1 / 10), sample_profile ''cheap'' (1 / 2) 1]
        None None None)) = (r, mr')" by fastforce
  ultimately have "probes_ok (fold router_step ?xs sample_router)"
    unfolding sample_router_def by (rule conjunct1 [OF probe_is_exclusive])
  with none show ?thesis by (rule conjI)
qed


text \<open>
  (C37) The routing decision. With routing enabled, no override and at least two profiles that can be
  called, the selected profile is one of them, none scores higher, and none before it in the
  configuration scores as high; the fallback chain names the models of all the others, by falling score.
  Profiles that are switched off or whose circuit is open are never selected nor fallen back to.
\<close>

theorem route_picks_the_best:
  assumes "mr_enabled mr" and "mr_override mr = None" and "callable now mr (mr_profiles mr) = a # b # rest"
  shows "\<exists>best pre post chain. callable now mr (mr_profiles mr) = pre @ best # post \<and>
    rd_model (fst (route now ri mr)) = mp_model best \<and> rd_profile (fst (route now ri mr)) = mp_id best \<and>
    list_all (\<lambda>q. score_profile mr ri (estimate_complexity ri) q < score_profile mr ri (estimate_complexity ri) best) pre \<and>
    list_all (\<lambda>q. score_profile mr ri (estimate_complexity ri) q \<le> score_profile mr ri (estimate_complexity ri) best) post \<and>
    rd_fallbacks (fst (route now ri mr)) = map mp_model chain \<and> mset chain = mset (pre @ post) \<and>
    sorted_wrt (\<lambda>x y. score_profile mr ri (estimate_complexity ri) x \<ge> score_profile mr ri (estimate_complexity ri) y) chain"
proof -
  let ?c = "callable now mr (mr_profiles mr)" and ?s = "score_profile mr ri (estimate_complexity ri)"
  let ?mr1 = "snd (available_from now (mr_profiles mr) mr)" and ?f = "\<lambda>p. - score_profile mr ri (estimate_complexity ri) p"
  have same: "same_but_circuits mr ?mr1" using available_from_callable by blast
  have scores: "score_profile ?mr1 ri c p = score_profile mr ri c p" for c p by (rule score_cong [OF same])
  have ranked: "ranking ?mr1 ri ?c = sort_key ?f ?c" by (simp add: ranking_def scores)
  have ne: "?c \<noteq> []" using assms(3) by simp
  have d: "fst (route now ri mr) = best_decision ?mr1 ri ?c"
    unfolding route_unfold route_decision_def assms(3) same_but_circuitsD [OF same] assms(2)
    using assms(1) by simp
  let ?best = "hd (sort_key ?f ?c)" and ?chain = "tl (sort_key ?f ?c)"
  have split: "sort_key ?f ?c = ?best # ?chain" using ne by (metis list.collapse set_empty set_sort)
  obtain pre post where c: "?c = pre @ ?best # post" and first: "\<forall>y\<in>set pre. ?f ?best < ?f y"
    using stable_head [OF ne, of ?f] by blast
  have "mset (?best # ?chain) = mset ?c" by (simp only: split [symmetric] mset_sort)
  then have "mset ?chain = mset (pre @ post)" by (subst (asm) (3) c) simp
  have sorted: "sorted (map ?f (?best # ?chain))" unfolding split [symmetric] by (rule sorted_sort_key)
  then have "sorted_wrt (\<lambda>x y. ?s x \<ge> ?s y) ?chain" by (simp add: sorted_map)
  moreover have "list_all (\<lambda>q. ?s q \<le> ?s ?best) post"
  proof -
    have "set post \<subseteq> set ?chain" using \<open>mset ?chain = mset (pre @ post)\<close> by (metis mset_eq_setD set_append Un_upper2)
    with sorted show ?thesis by (auto simp: list_all_iff)
  qed
  moreover have "list_all (\<lambda>q. ?s q < ?s ?best) pre" using first by (simp add: list_all_iff)
  ultimately show ?thesis
    using c \<open>mset ?chain = mset (pre @ post)\<close>
    by (intro exI [of _ ?best] exI [of _ pre] exI [of _ post] exI [of _ ?chain])
      (simp add: d best_decision_def Let_def ranked)
qed

theorem route_picks_the_best_witness:
  "rd_model (fst (route 0 (sample_routing_input ''list files'') sample_router)) \<in> {''strong-model'', ''cheap-model''}"
proof -
  have "mr_enabled sample_router" "mr_override sample_router = None"
    by (simp_all add: sample_router_def new_router_def)
  moreover have callable: "callable 0 sample_router (mr_profiles sample_router) =
      [sample_profile ''strong'' (9 / 10) (1 / 10), sample_profile ''cheap'' (1 / 2) 1]"
    by (simp add: callable_def sample_router_def new_router_def profile_circuit_state_def sample_profile_def)
  ultimately obtain best pre post where "callable 0 sample_router (mr_profiles sample_router) = pre @ best # post"
    "rd_model (fst (route 0 (sample_routing_input ''list files'') sample_router)) = mp_model best"
    using route_picks_the_best [of sample_router 0 _ _ "[]" "sample_routing_input ''list files''"] by metis
  moreover from this(1) callable have "best \<in> {sample_profile ''strong'' (9 / 10) (1 / 10), sample_profile ''cheap'' (1 / 2) 1}"
    by (metis in_set_conv_decomp list.set(1,2))
  ultimately show ?thesis by (auto simp: sample_profile_def)
qed

fun fallback_walk :: "nat \<Rightarrow> model_router \<Rightarrow> string \<Rightarrow> string list option" where
  "fallback_walk 0 mr failed = None"
| "fallback_walk (Suc n) mr failed =
     (case next_fallback failed mr of
        None \<Rightarrow> Some []
      | Some m \<Rightarrow> (case fallback_walk n mr m of None \<Rightarrow> None | Some ms \<Rightarrow> Some (m # ms)))"

lemma index_of_None: "index_of x xs = None \<longleftrightarrow> x \<notin> set xs"
  by (induction xs) auto

lemma index_of_nth: "distinct xs \<Longrightarrow> i < length xs \<Longrightarrow> index_of (xs ! i) xs = Some i"
proof (induction xs arbitrary: i)
  case (Cons y ys)
  then show ?case by (cases i) (auto simp: nth_mem)
qed simp

lemma available_keeps:
  "mr_override (snd (available_from now ps mr)) = mr_override mr"
  "mr_profiles (snd (available_from now ps mr)) = mr_profiles mr"
  using available_from_callable [of now ps mr] same_but_circuitsD(1,3) by blast+

lemma acquire_keeps:
  "mr_override (snd (try_acquire_probe t i p scope mr)) = mr_override mr"
  "mr_profiles (snd (try_acquire_probe t i p scope mr)) = mr_profiles mr"
  by (simp_all add: try_acquire_probe_def case_prod_beta Let_def grant_probe_def evict_stale_lease_def split: option.splits)

lemma step_keeps_override:
  "op \<noteq> OverrideDropped \<Longrightarrow> \<nexists>n. op = UserChose n \<Longrightarrow>
     mr_override (router_step (t, op) mr) = mr_override mr \<and> mr_profiles (router_step (t, op) mr) = mr_profiles mr"
  by (cases op) (simp_all add: available_keeps acquire_keeps record_call_def finish_probe_def route_def case_prod_beta
      mark_applied_def apply_routing_decision_def emit_fallback_def tell_def Let_def split: option.splits probe_outcome.splits)

text \<open>
  A user's choice of model is final. After it, and after any calls, probes, routings, applied
  decisions and fallbacks, a routing decision names the chosen model (of the profile, if the user named a
  profile), as long as any profile can be called and until the override is dropped or replaced.
\<close>

theorem user_choice_is_sticky:
  assumes chosen: "set_model_by_user name mr = Inr mr1" and m: "mr_override mr1 = Some m" "m \<noteq> []"
    and later: "list_all (\<lambda>(t, op). op \<noteq> OverrideDropped \<and> (\<nexists>n. op = UserChose n)) xs"
    and some: "callable now (fold router_step xs mr1) (mr_profiles mr) \<noteq> []"
    and ids: "list_all (\<lambda>p. mp_id p = m \<longrightarrow> mp_model p = m) (mr_profiles mr)"
  shows "rd_model (fst (route now ri (fold router_step xs mr1))) = m \<and>
    rd_fallbacks (fst (route now ri (fold router_step xs mr1))) =
      filter (\<lambda>n. n \<noteq> m) (map mp_model (callable now (fold router_step xs mr1) (mr_profiles mr)))"
proof -
  let ?mr = "fold router_step xs mr1" and ?a = "callable now (fold router_step xs mr1) (mr_profiles mr)"
  have kept: "mr_override (fold router_step xs mr') = mr_override mr' \<and> mr_profiles (fold router_step xs mr') = mr_profiles mr'" for mr'
    using later by (induction xs arbitrary: mr') (auto simp: step_keeps_override)
  have profiles: "mr_profiles ?mr = mr_profiles mr"
    using chosen kept by (auto simp: set_model_by_user_def Let_def tell_def split: if_splits)
  obtain a rest where a: "?a = a # rest" using some by (cases ?a) auto
  let ?mr2 = "snd (available_from now (mr_profiles ?mr) ?mr)"
  have "mr_override ?mr2 = Some m" using same_but_circuitsD(3) available_from_callable kept m(1) by metis
  then have d: "fst (route now ri ?mr) = override_decision m ri ?a"
    using m(2) by (simp add: route_unfold route_decision_def profiles a)
  have "(case (case find (\<lambda>p. mp_model p = m) ?a of Some p \<Rightarrow> Some p | None \<Rightarrow> find (\<lambda>p. mp_id p = m) ?a) of
      None \<Rightarrow> m | Some p \<Rightarrow> mp_model p) = m"
    using ids by (auto simp: list_all_iff callable_def dest: find_SomeD split: option.splits)
  then show ?thesis by (simp add: d override_decision_def Let_def decide_def filter_map comp_def)
qed

theorem user_choice_is_sticky_witness:
  "rd_model (fst (route 200 (sample_routing_input ''redesign'') (fold router_step
     (map (\<lambda>t. (t, CallRecorded ''cheap'' False 100)) [1, 2, 3, 4, 5] @ [(9, FellBack ''a'' ''b'' ''c'')])
     (case set_model_by_user ''cheap'' sample_router of Inr mr \<Rightarrow> mr)))) = ''cheap-model''"
proof -
  let ?xs = "map (\<lambda>t. (t, CallRecorded ''cheap'' False 100)) [1, 2, 3, 4, 5] @ [(9 :: int, FellBack ''a'' ''b'' ''c'')]"
  let ?mr1 = "case set_model_by_user ''cheap'' sample_router of Inr mr \<Rightarrow> mr"
  have chosen: "set_model_by_user ''cheap'' sample_router = Inr ?mr1" "mr_override ?mr1 = Some ''cheap-model''"
    by (simp_all add: set_model_by_user_def sample_router_def new_router_def sample_profile_def tell_def js_trim_def
        is_space_def Let_def)
  have later: "list_all (\<lambda>(t, op). op \<noteq> OverrideDropped \<and> (\<nexists>n. op = UserChose n)) ?xs" by simp
  have ids: "list_all (\<lambda>p. mp_id p = ''cheap-model'' \<longrightarrow> mp_model p = ''cheap-model'') (mr_profiles sample_router)"
    by (simp add: sample_router_def new_router_def sample_profile_def)
  have "fst (profile_circuit_state 200 ''strong'' (fold router_step ?xs ?mr1)) = CircuitClosed"
    by (simp add: set_model_by_user_def sample_router_def new_router_def sample_profile_def tell_def js_trim_def
        is_space_def Let_def record_call_def emit_fallback_def profile_circuit_state_def circuit_open_threshold_def)
  then have "callable 200 (fold router_step ?xs ?mr1) (mr_profiles sample_router) \<noteq> []"
    by (simp add: callable_def sample_router_def new_router_def sample_profile_def filter_empty_conv)
  from user_choice_is_sticky [OF chosen _ later this ids] show ?thesis by simp
qed

text \<open>
  Falling back visits the chain. If the models of the chain differ and the failed model is not among
  them, asking for the next fallback after each failure names every model of the chain once, in order,
  and then none.
\<close>

theorem fallbacks_visit_the_chain:
  assumes "mr_last_decision mr = Some d" and "distinct (rd_fallbacks d)" and "failed \<notin> set (rd_fallbacks d)"
  shows "fallback_walk (Suc (length (rd_fallbacks d))) mr failed = Some (rd_fallbacks d)"
proof -
  let ?c = "rd_fallbacks d"
  have none: "index_of failed ?c = None" using assms(3) by (simp add: index_of_None)
  have "fallback_walk (Suc (length ?c - k)) mr (if k = 0 then failed else ?c ! (k - 1)) = Some (drop k ?c)"
    if "k \<le> length ?c" for k
    using that
  proof (induction "length ?c - k" arbitrary: k)
    case 0
    then show ?case
      using assms by (auto simp: next_fallback_def next_in_chain_def index_of_nth none Let_def)
  next
    case (Suc n)
    then have k: "k < length ?c" by simp
    have "next_fallback (if k = 0 then failed else ?c ! (k - 1)) mr = Some (?c ! k)"
      using assms k by (auto simp: next_fallback_def next_in_chain_def index_of_nth none Let_def)
    moreover have "fallback_walk (Suc (length ?c - Suc k)) mr (?c ! k) = Some (drop (Suc k) ?c)"
      using Suc.hyps(1) [of "Suc k"] Suc.hyps(2) k by simp
    ultimately show ?case
      using k Cons_nth_drop_Suc [OF k] by (simp add: Suc_diff_Suc)
  qed
  from this [of 0] show ?thesis by simp
qed

theorem fallbacks_visit_the_chain_witness:
  "fallback_walk 3 (sample_router\<lparr>mr_last_decision := Some (no_route\<lparr>rd_fallbacks := [''a'', ''b'']\<rparr>)\<rparr>) ''m'' =
     Some [''a'', ''b'']"
  using fallbacks_visit_the_chain [of "sample_router\<lparr>mr_last_decision := Some (no_route\<lparr>rd_fallbacks := [''a'', ''b'']\<rparr>)\<rparr>"
      "no_route\<lparr>rd_fallbacks := [''a'', ''b'']\<rparr>" "''m''"] by (simp add: numeral_3_eq_3)

text \<open>Two profiles with the same model trap the fallback: it names that model forever.\<close>

lemma repeated_model_traps_fallback:
  assumes "mr_last_decision mr = Some d" and "rd_fallbacks d = [''a'', ''a'', ''b'']"
  shows "fallback_walk n mr ''a'' = None"
proof (induction n)
  case (Suc n)
  have "next_fallback ''a'' mr = Some ''a''" using assms by (simp add: next_fallback_def next_in_chain_def)
  with Suc show ?case by simp
qed simp

text \<open>
  Every decision is within its bounds: complexity between 0.3 and 1, confidence between 0.3 and 1, no
  reason code twice; or no profile can be called and the decision is the one that names no model.
\<close>

theorem route_is_within_bounds:
  shows "fst (route now ri mr) = no_route \<and> callable now mr (mr_profiles mr) = [] \<or>
    callable now mr (mr_profiles mr) \<noteq> [] \<and>
    3 / 10 \<le> rd_complexity (fst (route now ri mr)) \<and> rd_complexity (fst (route now ri mr)) \<le> 1 \<and>
    3 / 10 \<le> rd_confidence (fst (route now ri mr)) \<and> rd_confidence (fst (route now ri mr)) \<le> 1 \<and>
    distinct (rd_reasons (fst (route now ri mr)))"
proof -
  have conf: "decision_confidence ss \<le> 1" for ss using confidence_between [of ss] by simp
  show ?thesis
    using complexity_between [of ri] confidence_between conf set_dedupe_from
    by (auto simp: route_unfold route_decision_def override_decision_def decide_def best_decision_def Let_def dedupe_def
        split: list.splits option.splits)
qed

end
