(* ===== verification/Cron.thy ===== *)
theory Cron
  imports Prelude JsRegex
begin

text \<open>
  Schedules: \<open>src/src/core/cron.ts\<close>.

  The fields of a cron expression, durations, the search for the next run over the calendar of the
  language, and the file of scheduled tasks. \<open>None\<close> is a call that does not return: a range whose step is
  not positive. Instants are milliseconds; the time zone is an offset in minutes that does not change, so
  there are no clock changes. Reading and writing the file succeeds or finds it missing, unreadable or
  broken.
\<close>

section \<open>Numbers and dates of the language\<close>

definition digits_value :: "string \<Rightarrow> int" where
  "digits_value ds = fold (\<lambda>c n. n * 10 + (of_char c - 48)) ds 0"

text \<open>\<open>parseInt(s, 10)\<close>: blanks, a sign, as many digits as there are; \<open>None\<close> is not-a-number.\<close>

definition parse_int :: "string \<Rightarrow> int option" where
  "parse_int s =
     (let t = dropWhile is_space s;
          signed = (case t of [] \<Rightarrow> False | c # _ \<Rightarrow> c = CHR ''-'' \<or> c = CHR ''+'');
          ds = takeWhile is_digit (if signed then tl t else t)
      in if ds = [] then None
         else Some (if signed \<and> hd t = CHR ''-'' then - digits_value ds else digits_value ds))"

definition to_upper :: "string \<Rightarrow> string" where
  "to_upper s = map (\<lambda>c. if char_between (CHR ''a'') (CHR ''z'') c then char_of ((of_char c :: nat) - 32) else c) s"

text \<open>\<open>split\<close> at runs of blanks.\<close>

function blank_parts :: "string \<Rightarrow> string list" where
  "blank_parts s =
     (let r = dropWhile (\<lambda>c. \<not> is_space c) s
      in takeWhile (\<lambda>c. \<not> is_space c) s # (if r = [] then [] else blank_parts (dropWhile is_space r)))"
  by pat_completeness auto
termination
proof (relation "measure length", goal_cases)
  case (2 s x)
  then obtain c cs where r: "x = c # cs" "is_space c"
    by (metis hd_dropWhile list.collapse)
  then have "length (dropWhile is_space x) < length x" by (simp add: le_imp_less_Suc length_dropWhile_le)
  also have "length x \<le> length s" using 2 by (simp add: length_dropWhile_le)
  finally show ?case by simp
qed simp

declare blank_parts.simps [simp del]

text \<open>The calendar: the first day of a year, counted from the first of January 1970.\<close>

definition day_from_year :: "int \<Rightarrow> int" where
  "day_from_year y = 365 * (y - 1970) + (y - 1969) div 4 - (y - 1901) div 100 + (y - 1601) div 400"

definition leap_year :: "int \<Rightarrow> bool" where
  "leap_year y \<longleftrightarrow> y mod 4 = 0 \<and> (y mod 100 \<noteq> 0 \<or> y mod 400 = 0)"

definition year_of_day :: "int \<Rightarrow> int" where
  "year_of_day d =
     (let y = 1970 + 400 * d div 146097
      in if d < day_from_year y then y - 1 else if day_from_year (y + 1) \<le> d then y + 1 else y)"

definition month_lengths :: "bool \<Rightarrow> int list" where
  "month_lengths leap = [31, if leap then 29 else 28, 31, 30, 31, 30, 31, 31, 30, 31, 30, 31]"

fun month_and_date :: "int list \<Rightarrow> int \<Rightarrow> int \<Rightarrow> int \<times> int" where
  "month_and_date [] k w = (k, w + 1)"
| "month_and_date (l # ls) k w = (if w < l then (k, w + 1) else month_and_date ls (k + 1) (w - l))"

definition month_date :: "int \<Rightarrow> int \<times> int" where
  "month_date d = (let y = year_of_day d in month_and_date (month_lengths (leap_year y)) 1 (d - day_from_year y))"

definition week_day :: "int \<Rightarrow> int" where
  "week_day d = (d + 4) mod 7"

section \<open>Cron expressions\<close>

datatype cron_name = CMinute | CHour | CDom | CMonth | CDow

datatype cron_error =
    InvalidStep string cron_name
  | InvalidRange string cron_name
  | StartAfterEnd string cron_name
  | InvalidValue string cron_name
  | ValueOutOfRange cron_name int
  | EveryNeedsDuration
  | WrongFieldCount nat
  | InvalidEvery string
  | DurationNotPositive string
  | NoRunWithinYear

definition month_names :: "(string \<times> int) list" where
  "month_names = [(''JAN'', 1), (''FEB'', 2), (''MAR'', 3), (''APR'', 4), (''MAY'', 5), (''JUN'', 6),
     (''JUL'', 7), (''AUG'', 8), (''SEP'', 9), (''OCT'', 10), (''NOV'', 11), (''DEC'', 12)]"

definition dow_names :: "(string \<times> int) list" where
  "dow_names = [(''SUN'', 0), (''MON'', 1), (''TUE'', 2), (''WED'', 3), (''THU'', 4), (''FRI'', 5), (''SAT'', 6)]"

definition name_value :: "cron_name \<Rightarrow> string \<Rightarrow> int option" where
  "name_value name s = (case name of
      CMonth \<Rightarrow> map_of month_names (to_upper s)
    | CDow \<Rightarrow> map_of dow_names (to_upper s)
    | _ \<Rightarrow> None)"

text \<open>The loop over a range; a step that is not a number ends it after the first value.\<close>

partial_function (option) range_loop :: "int option \<Rightarrow> int \<Rightarrow> int \<Rightarrow> int list option" where
  "range_loop step v stop =
     (if v \<le> stop
      then (case step of
              None \<Rightarrow> Some [v]
            | Some k \<Rightarrow> Option.bind (range_loop step (v + k) stop) (\<lambda>vs. Some (v # vs)))
      else Some [])"

declare range_loop.simps [code]

definition parse_step :: "string list \<Rightarrow> int option" where
  "parse_step pieces = (case tl pieces of [] \<Rightarrow> Some 1 | s # _ \<Rightarrow> if s = [] then Some 1 else parse_int s)"

definition parse_range :: "cron_name \<Rightarrow> string \<Rightarrow> int option \<Rightarrow> (cron_error + int list) option" where
  "parse_range name text step =
     (let ends = split_at_char (CHR ''-'') text; a = ends ! 0; b = ends ! 1;
          start = or_else (parse_int a) (if name = CMonth then map_of month_names (to_upper a) else None);
          stop = or_else (parse_int b) (name_value name b)
      in case (start, stop) of
           (Some x, Some y) \<Rightarrow> if x > y then Some (Inl (StartAfterEnd text name))
                              else map_option Inr (range_loop step x y)
         | _ \<Rightarrow> Some (Inl (InvalidRange text name)))"

definition parse_value :: "cron_name \<Rightarrow> string \<Rightarrow> cron_error + int list" where
  "parse_value name text = (case or_else (parse_int text) (name_value name text) of
      None \<Rightarrow> Inl (InvalidValue text name)
    | Some v \<Rightarrow> Inr [v])"

definition parse_part :: "cron_name \<Rightarrow> string \<Rightarrow> (cron_error + int list) option" where
  "parse_part name part =
     (let pieces = split_at_char (CHR ''/'') part
      in if CHR ''-'' \<in> set (hd pieces) then parse_range name (hd pieces) (parse_step pieces)
         else Some (parse_value name (hd pieces)))"

text \<open>Sequencing of calls that may throw or not return.\<close>

definition then_parse ::
  "('e + 'a) option \<Rightarrow> ('a \<Rightarrow> ('e + 'b) option) \<Rightarrow> ('e + 'b) option" where
  "then_parse m f = Option.bind m (\<lambda>r. case r of Inl e \<Rightarrow> Some (Inl e) | Inr x \<Rightarrow> f x)"

fun parse_parts :: "cron_name \<Rightarrow> string list \<Rightarrow> (cron_error + int list) option" where
  "parse_parts name [] = Some (Inr [])"
| "parse_parts name (p # ps) = then_parse (parse_part name p) (\<lambda>vs.
     then_parse (parse_parts name ps) (\<lambda>ws. Some (Inr (vs @ ws))))"

definition out_of_range :: "cron_name \<Rightarrow> int \<Rightarrow> int \<Rightarrow> int \<Rightarrow> bool" where
  "out_of_range name lo hi v = (if name = CDow then v \<noteq> 7 \<and> (v < 0 \<or> v > 6) else v < lo \<or> v > hi)"

definition check_values :: "cron_name \<Rightarrow> int \<Rightarrow> int \<Rightarrow> int list \<Rightarrow> cron_error + int list" where
  "check_values name lo hi vs = (case find (out_of_range name lo hi) vs of
      Some v \<Rightarrow> Inl (ValueOutOfRange name v)
    | None \<Rightarrow> Inr (sort (remdups vs)))"

definition parse_field :: "string \<Rightarrow> cron_name \<Rightarrow> int \<Rightarrow> int \<Rightarrow> (cron_error + int list) option" where
  "parse_field field name lo hi =
     (if field = ''*'' then Some (Inr [lo..hi])
      else if is_prefix ''*/'' field
      then (case parse_int (drop 2 field) of
              None \<Rightarrow> Some (Inl (InvalidStep field name))
            | Some k \<Rightarrow> if k \<le> 0 then Some (Inl (InvalidStep field name))
                        else Some (Inr (filter (\<lambda>v. (v - lo) mod k = 0) [lo..hi])))
      else then_parse (parse_parts name (split_at_char (CHR '','') field))
             (\<lambda>vs. Some (check_values name lo hi vs)))"

record parsed_cron =
  pc_minute :: "int list"
  pc_hour :: "int list"
  pc_dom :: "int list"
  pc_month :: "int list"
  pc_dow :: "int list"

definition expand_special :: "string \<Rightarrow> string" where
  "expand_special s =
     (if s = ''@hourly'' then ''0 * * * *''
      else if s = ''@daily'' \<or> s = ''@midnight'' then ''0 0 * * *''
      else if s = ''@weekly'' then ''0 0 * * 0''
      else if s = ''@monthly'' then ''0 0 1 * *''
      else if s = ''@yearly'' \<or> s = ''@annually'' then ''0 0 1 1 *''
      else s)"

definition parse_cron :: "string \<Rightarrow> (cron_error + parsed_cron) option" where
  "parse_cron expression =
     (let trimmed = expand_special (js_trim expression); parts = blank_parts trimmed
      in if is_prefix ''@every '' trimmed then Some (Inl EveryNeedsDuration)
         else if length parts \<noteq> 5 then Some (Inl (WrongFieldCount (length parts)))
         else then_parse (parse_field (parts ! 0) CMinute 0 59) (\<lambda>mi.
              then_parse (parse_field (parts ! 1) CHour 0 23) (\<lambda>ho.
              then_parse (parse_field (parts ! 2) CDom 1 31) (\<lambda>dom.
              then_parse (parse_field (parts ! 3) CMonth 1 12) (\<lambda>mo.
              then_parse (parse_field (parts ! 4) CDow 0 6) (\<lambda>dow.
                Some (Inr \<lparr>pc_minute = mi, pc_hour = ho, pc_dom = dom, pc_month = mo, pc_dow = dow\<rparr>)))))))"

section \<open>Durations\<close>

function duration_parts :: "string \<Rightarrow> (int \<times> char) list" where
  "duration_parts [] = []"
| "duration_parts (c # cs) =
     (if is_digit c
      then (case dropWhile is_digit cs of
              [] \<Rightarrow> []
            | u # us \<Rightarrow>
                if lower_char u \<in> set ''hmsd''
                then (digits_value (c # takeWhile is_digit cs), lower_char u) # duration_parts us
                else duration_parts (u # us))
      else duration_parts cs)"
  by pat_completeness auto
termination
proof (relation "measure length", goal_cases)
  case (2 c cs u us)
  have "length (u # us) \<le> length cs" using 2(2) length_dropWhile_le by metis
  then show ?case by simp
next
  case (3 c cs u us)
  have "length (u # us) \<le> length cs" using 3(2) length_dropWhile_le by metis
  then show ?case by simp
qed auto

definition unit_seconds :: "char \<Rightarrow> int" where
  "unit_seconds u = (if u = CHR ''s'' then 1 else if u = CHR ''m'' then 60
     else if u = CHR ''h'' then 3600 else if u = CHR ''d'' then 86400 else 0)"

definition is_every :: "string \<Rightarrow> bool" where
  "is_every s \<longleftrightarrow> to_lower (take 6 s) = ''@every'' \<and> (case drop 6 s of [] \<Rightarrow> False | c # _ \<Rightarrow> is_space c)"

definition parse_every_duration :: "string \<Rightarrow> cron_error + int" where
  "parse_every_duration expr =
     (let trimmed = js_trim expr in
      if \<not> is_every trimmed then Inl (InvalidEvery expr)
      else let text = js_trim (dropWhile is_space (drop 6 trimmed)); parts = duration_parts text;
               total = (if parts \<noteq> [] then sum_list (map (\<lambda>(n, u). n * unit_seconds u) parts)
                        else case parse_int text of None \<Rightarrow> 0 | Some n \<Rightarrow> if n > 0 then n else 0)
           in if total \<le> 0 then Inl (DurationNotPositive expr) else Inr total)"

section \<open>The next run\<close>

definition minute_ms :: int where
  "minute_ms = 60000"

text \<open>The condition of the search, on the count of local minutes.\<close>

definition day_matches :: "parsed_cron \<Rightarrow> int \<Rightarrow> bool" where
  "day_matches pc day =
     (let dom_restricted = (length (pc_dom pc) \<noteq> 31); dow_restricted = (length (pc_dow pc) \<noteq> 7);
          in_dom = (snd (month_date day) \<in> set (pc_dom pc)); in_dow = (week_day day \<in> set (pc_dow pc))
      in if dom_restricted \<and> dow_restricted then in_dom \<or> in_dow
         else if dom_restricted then in_dom
         else if dow_restricted then in_dow
         else True)"

definition cron_matches :: "parsed_cron \<Rightarrow> int \<Rightarrow> bool" where
  "cron_matches pc m \<longleftrightarrow>
     m mod 60 \<in> set (pc_minute pc) \<and> (m div 60) mod 24 \<in> set (pc_hour pc) \<and>
     fst (month_date (m div 1440)) \<in> set (pc_month pc) \<and> day_matches pc (m div 1440)"

definition max_iterations :: int where
  "max_iterations = 366 * 24 * 60"

function search_run :: "parsed_cron \<Rightarrow> int \<Rightarrow> int \<Rightarrow> int option" where
  "search_run pc i m =
     (if i < max_iterations
      then if cron_matches pc m then Some m else search_run pc (i + 1) (m + 1)
      else None)"
  by pat_completeness auto
termination
  by (relation "measure (\<lambda>(pc, i, m). nat (max_iterations - i))") auto

declare search_run.simps [simp del]

definition get_next_run :: "int \<Rightarrow> parsed_cron \<Rightarrow> int \<Rightarrow> cron_error + int" where
  "get_next_run tz pc now =
     (case search_run pc 0 (now div minute_ms + tz + 1) of
        None \<Rightarrow> Inl NoRunWithinYear
      | Some m \<Rightarrow> Inr ((m - tz) * minute_ms))"

section \<open>Scheduled tasks\<close>

record scheduled_task =
  st_id :: string
  st_name :: string
  st_cron :: string
  st_prompt :: string
  st_enabled :: bool
  st_created :: int
  st_last_run :: "int option"
  st_next_run :: "int option"
  st_runs :: nat
  st_last_result :: "string option"

datatype schedule_file = NoSchedules | UnreadableSchedules | BrokenSchedules string | Schedules "scheduled_task list"

text \<open>The file and the copy that is kept of a broken one.\<close>

record schedule_disk =
  sd_file :: schedule_file
  sd_backup :: "string option"

definition load_schedules :: "schedule_disk \<Rightarrow> scheduled_task list \<times> schedule_disk" where
  "load_schedules d = (case sd_file d of
      Schedules ts \<Rightarrow> (ts, d)
    | BrokenSchedules raw \<Rightarrow> ([], d\<lparr>sd_backup := or_else (sd_backup d) (Some raw)\<rparr>)
    | _ \<Rightarrow> ([], d))"

definition save_schedules :: "scheduled_task list \<Rightarrow> schedule_disk \<Rightarrow> schedule_disk" where
  "save_schedules ts d = d\<lparr>sd_file := Schedules ts\<rparr>"

text \<open>The last instant of a \<open>Date\<close>; a later one has no text.\<close>

definition max_time :: int where
  "max_time = 8640000000000000"

text \<open>The next run of an expression; every error leaves none.\<close>

definition next_run_of :: "int \<Rightarrow> int \<Rightarrow> string \<Rightarrow> int option option" where
  "next_run_of tz now cron =
     (if is_prefix ''@every'' cron
      then Some (case parse_every_duration cron of Inl _ \<Rightarrow> None
        | Inr s \<Rightarrow> if now + s * 1000 \<le> max_time then Some (now + s * 1000) else None)
      else map_option (\<lambda>r. case r of
          Inl _ \<Rightarrow> None
        | Inr pc \<Rightarrow> (case get_next_run tz pc now of Inl _ \<Rightarrow> None | Inr t \<Rightarrow> Some t)) (parse_cron cron))"

definition create_task :: "int \<Rightarrow> int \<Rightarrow> string \<Rightarrow> string \<Rightarrow> string \<Rightarrow> string \<Rightarrow> scheduled_task option" where
  "create_task tz now i name cron prompt = map_option (\<lambda>next. \<lparr>st_id = i, st_name = name, st_cron = cron,
     st_prompt = prompt, st_enabled = True, st_created = now, st_last_run = None, st_next_run = next,
     st_runs = 0, st_last_result = None\<rparr>) (next_run_of tz now cron)"

definition add_task :: "scheduled_task \<Rightarrow> schedule_disk \<Rightarrow> schedule_disk" where
  "add_task t d = (let (ts, d') = load_schedules d in save_schedules (ts @ [t]) d')"

definition named :: "string \<Rightarrow> scheduled_task \<Rightarrow> bool" where
  "named x t \<longleftrightarrow> st_id t = x \<or> st_name t = x"

definition remove_task :: "string \<Rightarrow> schedule_disk \<Rightarrow> bool \<times> schedule_disk" where
  "remove_task x d =
     (let (ts, d') = load_schedules d; kept = filter (\<lambda>t. \<not> named x t) ts
      in if length kept = length ts then (False, d') else (True, save_schedules kept d'))"

text \<open>A write to the first task that satisfies a condition.\<close>

fun update_first :: "('a \<Rightarrow> bool) \<Rightarrow> ('a \<Rightarrow> 'a) \<Rightarrow> 'a list \<Rightarrow> 'a list" where
  "update_first P f [] = []"
| "update_first P f (x # xs) = (if P x then f x # xs else x # update_first P f xs)"

definition set_enabled :: "bool \<Rightarrow> string \<Rightarrow> schedule_disk \<Rightarrow> bool \<times> schedule_disk" where
  "set_enabled b x d =
     (let (ts, d') = load_schedules d
      in if find (named x) ts = None then (False, d')
         else (True, save_schedules (update_first (named x) (\<lambda>t. t\<lparr>st_enabled := b\<rparr>) ts) d'))"

definition enable_task :: "string \<Rightarrow> schedule_disk \<Rightarrow> bool \<times> schedule_disk" where
  "enable_task = set_enabled True"

definition disable_task :: "string \<Rightarrow> schedule_disk \<Rightarrow> bool \<times> schedule_disk" where
  "disable_task = set_enabled False"





section \<open>Lemmas on fields\<close>

lemma then_parse_Inr [simp]:
  "then_parse m f = Some (Inr y) \<longleftrightarrow> (\<exists>x. m = Some (Inr x) \<and> f x = Some (Inr y))"
  by (auto simp: then_parse_def bind_eq_Some_conv split: sum.splits) (metis Inl_Inr_False sum.exhaust_sel)

lemma then_parse_None [simp]: "then_parse m f = None \<longleftrightarrow> m = None \<or> (\<exists>x. m = Some (Inr x) \<and> f x = None)"
  by (cases m) (auto simp: then_parse_def split: sum.splits)

text \<open>What a part of a field stands for: the values of a range with its step, or one value.\<close>

definition range_ends :: "cron_name \<Rightarrow> string \<Rightarrow> (int \<times> int) option" where
  "range_ends name text =
     (let ends = split_at_char (CHR ''-'') text
      in case (or_else (parse_int (ends ! 0)) (if name = CMonth then map_of month_names (to_upper (ends ! 0)) else None),
               or_else (parse_int (ends ! 1)) (name_value name (ends ! 1))) of
           (Some x, Some y) \<Rightarrow> if x \<le> y then Some (x, y) else None
         | _ \<Rightarrow> None)"

definition part_denotes :: "cron_name \<Rightarrow> string \<Rightarrow> int \<Rightarrow> bool" where
  "part_denotes name part v =
     (let pieces = split_at_char (CHR ''/'') part
      in if CHR ''-'' \<in> set (hd pieces)
         then (case range_ends name (hd pieces) of
                 None \<Rightarrow> False
               | Some (x, y) \<Rightarrow> (case parse_step pieces of
                     None \<Rightarrow> v = x
                   | Some k \<Rightarrow> x \<le> v \<and> v \<le> y \<and> (v - x) mod k = 0))
         else or_else (parse_int (hd pieces)) (name_value name (hd pieces)) = Some v)"

definition field_denotes :: "string \<Rightarrow> cron_name \<Rightarrow> int \<Rightarrow> int \<Rightarrow> int \<Rightarrow> bool" where
  "field_denotes field name lo hi v =
     (if field = ''*'' then lo \<le> v \<and> v \<le> hi
      else if is_prefix ''*/'' field
      then lo \<le> v \<and> v \<le> hi \<and> (v - lo) mod the (parse_int (drop 2 field)) = 0
      else list_ex (\<lambda>p. part_denotes name p v) (split_at_char (CHR '','') field))"



lemma range_loop_terminates:
  assumes "k > 0"
  shows "\<exists>vs. range_loop (Some k) v stop = Some vs \<and> (v \<le> stop \<longrightarrow> vs \<noteq> []) \<and>
    set vs = {u. v \<le> u \<and> u \<le> stop \<and> (u - v) mod k = 0}"
proof (induction "nat (stop + 1 - v)" arbitrary: v rule: less_induct)
  case less
  show ?case
  proof (cases "v \<le> stop")
    case False
    then show ?thesis by (subst range_loop.simps) auto
  next
    case True
    then have "nat (stop + 1 - (v + k)) < nat (stop + 1 - v)" using assms by simp
    from less [OF this] obtain vs where vs: "range_loop (Some k) (v + k) stop = Some vs"
      "set vs = {u. v + k \<le> u \<and> u \<le> stop \<and> (u - (v + k)) mod k = 0}" by blast
    have shift: "(u - (v + k)) mod k = (u - v) mod k" for u
      by (metis diff_diff_eq mod_diff_right_eq diff_zero mod_self)
    have near: "u = v" if "k dvd u - v" "v \<le> u" "\<not> v + k \<le> u" for u
      using that zdvd_not_zless [of "u - v" k] by (cases "u = v") auto
    have "set (v # vs) = {u. v \<le> u \<and> u \<le> stop \<and> (u - v) mod k = 0}"
      using True assms near by (fastforce simp: vs(2) shift mod_eq_0_iff_dvd)
    then show ?thesis using True vs(1) by (subst range_loop.simps) simp
  qed
qed

lemma range_loop_never_decreases:
  assumes "range_loop step v stop = Some vs"
  shows "(\<exists>k. step = Some k \<and> k \<le> 0) \<longrightarrow> v \<le> stop \<longrightarrow> False"
proof (rule range_loop.raw_induct [where P = "\<lambda>step v stop r. (\<exists>k. step = Some k \<and> k \<le> 0) \<longrightarrow> v \<le> stop \<longrightarrow> False", OF _ assms])
  fix f :: "int option \<Rightarrow> int \<Rightarrow> int \<Rightarrow> int list option" and step v stop vs
  assume IH: "\<And>step v stop r. f step v stop = Some r \<Longrightarrow> (\<exists>k. step = Some k \<and> k \<le> 0) \<longrightarrow> v \<le> stop \<longrightarrow> False"
    and eq: "(if v \<le> stop then case step of None \<Rightarrow> Some [v]
        | Some k \<Rightarrow> Option.bind (f step (v + k) stop) (\<lambda>vs. Some (v # vs)) else Some []) = Some vs"
  show "(\<exists>k. step = Some k \<and> k \<le> 0) \<longrightarrow> v \<le> stop \<longrightarrow> False"
  proof (intro impI)
    assume "\<exists>k. step = Some k \<and> k \<le> 0" and v: "v \<le> stop"
    then obtain k where k: "step = Some k" "k \<le> 0" by blast
    with eq v obtain ws where "f step (v + k) stop = Some ws" by (auto simp: bind_eq_Some_conv)
    from IH [OF this] k v show False by simp
  qed
qed

lemma range_loop_loops: "k \<le> 0 \<Longrightarrow> v \<le> stop \<Longrightarrow> range_loop (Some k) v stop = None"
  using range_loop_never_decreases [of "Some k" v stop] by (cases "range_loop (Some k) v stop") auto

lemma range_loop_once: "v \<le> stop \<Longrightarrow> range_loop None v stop = Some [v]"
  by (subst range_loop.simps) simp

lemma parse_range_cases:
  "parse_range name text step = (case range_ends name text of
     Some (x, y) \<Rightarrow> map_option Inr (range_loop step x y)
   | None \<Rightarrow> Some (Inl (case (or_else (parse_int (split_at_char (CHR ''-'') text ! 0))
         (if name = CMonth then map_of month_names (to_upper (split_at_char (CHR ''-'') text ! 0)) else None),
       or_else (parse_int (split_at_char (CHR ''-'') text ! 1)) (name_value name (split_at_char (CHR ''-'') text ! 1))) of
       (Some _, Some _) \<Rightarrow> StartAfterEnd text name | _ \<Rightarrow> InvalidRange text name)))"
  by (auto simp: parse_range_def range_ends_def Let_def split: option.splits)

lemma range_ends_ordered: "range_ends name text = Some (x, y) \<Longrightarrow> x \<le> y"
  by (auto simp: range_ends_def Let_def split: option.splits if_splits)


lemma parse_part_denotes:
  assumes "parse_part name p = Some (Inr vs)"
  shows "vs \<noteq> [] \<and> (v \<in> set vs \<longleftrightarrow> part_denotes name p v)"
proof -
  let ?pieces = "split_at_char (CHR ''/'') p"
  show ?thesis
  proof (cases "CHR ''-'' \<in> set (hd ?pieces)")
    case True
    with assms obtain x y where xy: "range_ends name (hd ?pieces) = Some (x, y)"
      and loop: "range_loop (parse_step ?pieces) x y = Some vs"
      by (auto simp: parse_part_def Let_def parse_range_cases split: option.splits)
    have le: "x \<le> y" using xy by (rule range_ends_ordered)
    show ?thesis
    proof (cases "parse_step ?pieces")
      case None
      with loop le True xy show ?thesis by (auto simp: range_loop_once part_denotes_def)
    next
      case (Some k)
      have "k > 0" using loop le range_loop_loops [of k x y] Some by (cases "k \<le> 0") auto
      from range_loop_terminates [OF this, of x y] loop le Some
      show ?thesis using True xy by (auto simp: part_denotes_def)
    qed
  next
    case False
    with assms show ?thesis
      by (auto simp: parse_part_def part_denotes_def parse_value_def Let_def split: option.splits)
  qed
qed


lemma parse_parts_denotes:
  "parse_parts name ps = Some (Inr vs) \<Longrightarrow>
     (ps \<noteq> [] \<longrightarrow> vs \<noteq> []) \<and> (v \<in> set vs \<longleftrightarrow> list_ex (\<lambda>p. part_denotes name p v) ps)"
proof (induction ps arbitrary: vs)
  case (Cons p ps)
  then obtain us ws where us: "parse_part name p = Some (Inr us)" and ws: "parse_parts name ps = Some (Inr ws)"
    and vs: "vs = us @ ws"
    by auto
  from parse_part_denotes [OF us, of v] Cons.IH [OF ws] show ?case by (auto simp: vs)
qed simp

text \<open>Every accepted value can be in range; Sunday has a second number.\<close>

definition in_field :: "cron_name \<Rightarrow> int \<Rightarrow> int \<Rightarrow> int \<Rightarrow> bool" where
  "in_field name lo hi v \<longleftrightarrow> lo \<le> v \<and> v \<le> hi \<or> name = CDow \<and> v = 7"

lemma parse_field_sound:
  assumes "parse_field field name lo hi = Some (Inr vs)" and "lo \<le> hi" and "name = CDow \<Longrightarrow> lo = 0 \<and> hi = 6"
  shows "sorted vs" "distinct vs" "vs \<noteq> []" "list_all (in_field name lo hi) vs"
    "v \<in> set vs \<longleftrightarrow> field_denotes field name lo hi v"
proof -
  have "sorted vs \<and> distinct vs \<and> vs \<noteq> [] \<and> list_all (in_field name lo hi) vs \<and>
    (v \<in> set vs \<longleftrightarrow> field_denotes field name lo hi v)"
  proof (cases "field = ''*'' \<or> is_prefix ''*/'' field")
    case True
    have "lo \<in> set (filter (\<lambda>v. (v - lo) mod k = 0) [lo..hi])" for k using assms(2) by simp
    then have "filter (\<lambda>v. (v - lo) mod k = 0) [lo..hi] \<noteq> []" for k by (metis empty_iff empty_set)
    with True assms(1,2) show ?thesis
      by (auto simp: parse_field_def field_denotes_def in_field_def list_all_iff sorted_filter [of id, simplified]
          split: option.splits if_splits)
  next
    case False
    with assms(1) obtain ws where ws: "parse_parts name (split_at_char (CHR '','') field) = Some (Inr ws)"
      and "check_values name lo hi ws = Inr vs" by (auto simp: parse_field_def)
    then have ok: "find (out_of_range name lo hi) ws = None" and vs: "vs = sort (remdups ws)"
      by (auto simp: check_values_def split: option.splits)
    have "in_field name lo hi v" if "v \<in> set ws" for v
      using ok that assms(3) by (cases "name = CDow") (auto simp: find_None_iff out_of_range_def in_field_def)
    moreover have "ws \<noteq> []" using parse_parts_denotes [OF ws] by simp
    then have "vs \<noteq> []" using vs by (metis set_remdups set_sort set_empty)
    ultimately show ?thesis
      using parse_parts_denotes [OF ws, of v] False by (simp add: vs field_denotes_def list_all_iff)
  qed
  then show "sorted vs" "distinct vs" "vs \<noteq> []" "list_all (in_field name lo hi) vs"
    "v \<in> set vs \<longleftrightarrow> field_denotes field name lo hi v" by blast+
qed


section \<open>Lemmas on the calendar\<close>

definition days_in_year :: "int \<Rightarrow> int" where
  "days_in_year y = (if leap_year y then 366 else 365)"

lemma div_bounds: "0 < n \<Longrightarrow> n * (x div n) \<le> x \<and> x < n * (x div n) + n" for x n :: int
  using mult_div_mod_eq [of n x] pos_mod_bound [of n x] pos_mod_sign [of n x] by linarith

lemma div_next: "0 < n \<Longrightarrow> (z + 1) div n = z div n + (if (z + 1) mod n = 0 then 1 else 0)" for z n :: int
proof -
  assume n: "0 < n"
  have m: "0 \<le> z mod n" "z mod n < n" using n by simp_all
  have z: "z + 1 = n * (z div n) + (z mod n + 1)" using mult_div_mod_eq [of n z] by simp
  show ?thesis
  proof (cases "z mod n + 1 = n")
    case True
    then have "z + 1 = n * (z div n + 1) + 0" using z by (simp add: distrib_left)
    then show ?thesis using n int_div_pos_eq [of "z + 1" n "z div n + 1" 0] int_mod_pos_eq [of "z + 1" n "z div n + 1" 0] by simp
  next
    case False
    then show ?thesis using n m int_div_pos_eq [OF z] int_mod_pos_eq [OF z] by simp
  qed
qed

lemma leap_year_dvd: "leap_year y \<longleftrightarrow> 4 dvd y \<and> (\<not> 100 dvd y \<or> 400 dvd y)"
  by (simp add: leap_year_def mod_eq_0_iff_dvd)

lemma div_next_dvd:
  fixes n y z :: int
  assumes "0 < n" and "n dvd z + 1 - y"
  shows "(z + 1) div n = z div n + (if n dvd y then 1 else 0)"
proof -
  have "n dvd z + 1 \<longleftrightarrow> n dvd y" using dvd_add_right_iff [OF assms(2), of y] by simp
  then show ?thesis using div_next [OF assms(1), of z] by (simp add: mod_eq_0_iff_dvd)
qed

lemma year_length: "day_from_year (y + 1) = day_from_year y + days_in_year y"
proof -
  have 4: "(y - 1969 + 1) div 4 = (y - 1969) div 4 + (if 4 dvd y then 1 else 0)"
    and 100: "(y - 1901 + 1) div 100 = (y - 1901) div 100 + (if 100 dvd y then 1 else 0)"
    and 400: "(y - 1601 + 1) div 400 = (y - 1601) div 400 + (if 400 dvd y then 1 else 0)"
    by (rule div_next_dvd; simp)+
  have dvds: "100 dvd y \<Longrightarrow> 4 dvd y" "400 dvd y \<Longrightarrow> 100 dvd y"
    by (rule dvd_trans [rotated], assumption, simp)+
  have same: "y + 1 - 1969 = y - 1969 + 1" "y + 1 - 1901 = y - 1901 + 1" "y + 1 - 1601 = y - 1601 + 1" by simp_all
  define p q r where "p = (4 dvd y)" and "q = (100 dvd y)" and "r = (400 dvd y)"
  show ?thesis
    unfolding day_from_year_def days_in_year_def leap_year_dvd same 4 100 400
    using dvds unfolding p_def [symmetric] q_def [symmetric] r_def [symmetric] by auto
qed

lemma day_from_year_bounds:
  "146097 * (y - 1970) - 1200 \<le> 400 * day_from_year y" "400 * day_from_year y \<le> 146097 * (y - 1970) + 1200"
  using div_bounds [of 4 "y - 1969"] div_bounds [of 100 "y - 1901"] div_bounds [of 400 "y - 1601"]
  by (simp_all add: day_from_year_def)

lemma year_of_day_between:
  "day_from_year (year_of_day d) \<le> d" "d < day_from_year (year_of_day d + 1)"
proof -
  let ?y = "1970 + 400 * d div 146097"
  have q: "146097 * (?y - 1970) \<le> 400 * d" "400 * d < 146097 * (?y - 1970) + 146097"
    using div_bounds [of 146097 "400 * d"] by simp_all
  have "day_from_year (?y - 1) \<le> d" using day_from_year_bounds(2) [of "?y - 1"] q by simp
  moreover have "d < day_from_year (?y + 1 + 1)" using day_from_year_bounds(1) [of "?y + 1 + 1"] q by simp
  ultimately show "day_from_year (year_of_day d) \<le> d" "d < day_from_year (year_of_day d + 1)"
    by (auto simp: year_of_day_def Let_def)
qed

lemma day_from_year_mono: "y \<le> z \<Longrightarrow> day_from_year y \<le> day_from_year z"
proof (induction z rule: int_ge_induct)
  case (step z)
  then show ?case by (simp add: year_length days_in_year_def)
qed simp

lemma year_of_day_unique:
  assumes "day_from_year y \<le> d" and "d < day_from_year (y + 1)"
  shows "year_of_day d = y"
proof (rule ccontr)
  assume "year_of_day d \<noteq> y"
  then consider "year_of_day d + 1 \<le> y" | "y + 1 \<le> year_of_day d" by linarith
  then show False
    using day_from_year_mono [of "year_of_day d + 1" y] day_from_year_mono [of "y + 1" "year_of_day d"]
      year_of_day_between [of d] assms by cases simp_all
qed











section \<open>Lemmas on the next run\<close>

text \<open>An instant at which a schedule fires: a whole minute whose local date and time match.\<close>

definition fires :: "int \<Rightarrow> parsed_cron \<Rightarrow> int \<Rightarrow> bool" where
  "fires tz pc t \<longleftrightarrow> t mod minute_ms = 0 \<and> cron_matches pc (t div minute_ms + tz)"

lemma search_run_finds:
  "i \<le> max_iterations \<Longrightarrow>
   (case search_run pc i m of
      None \<Rightarrow> \<not> (\<exists>k. m \<le> k \<and> k < m + (max_iterations - i) \<and> cron_matches pc k)
    | Some r \<Rightarrow> m \<le> r \<and> r < m + (max_iterations - i) \<and> cron_matches pc r \<and>
        \<not> (\<exists>k. m \<le> k \<and> k < r \<and> cron_matches pc k))"
proof (induction pc i m rule: search_run.induct)
  case (1 pc i m)
  show ?case
  proof (cases "i < max_iterations \<and> \<not> cron_matches pc m")
    case True
    then have step: "search_run pc i m = search_run pc (i + 1) (m + 1)" by (subst search_run.simps) simp
    have "m \<le> k \<and> cron_matches pc k \<longleftrightarrow> m + 1 \<le> k \<and> cron_matches pc k" for k
      using True by (cases "k = m") auto
    with 1 True show ?thesis
      unfolding step by (fastforce split: option.splits)
  next
    case False
    with 1(2) show ?thesis by (subst search_run.simps) auto
  qed
qed

lemma minute_floor: "t mod minute_ms = 0 \<Longrightarrow> now < t \<longleftrightarrow> now div minute_ms + 1 \<le> t div minute_ms"
  using div_bounds [of minute_ms now] mult_div_mod_eq [of minute_ms t] by (auto simp: minute_ms_def)

lemma get_next_run_cases:
  "case get_next_run tz pc now of
     Inr t \<Rightarrow> fires tz pc t \<and> now < t \<and> t \<le> now + 366 * 24 * 60 * minute_ms \<and>
       \<not> (\<exists>u. now < u \<and> u < t \<and> fires tz pc u)
   | Inl e \<Rightarrow> e = NoRunWithinYear \<and>
       \<not> (\<exists>u. now < u \<and> u \<le> now + (366 * 24 * 60 - 1) * minute_ms \<and> fires tz pc u)"
proof -
  let ?m = "now div minute_ms + tz + 1"
  have search: "case search_run pc 0 ?m of
      None \<Rightarrow> \<not> (\<exists>k. ?m \<le> k \<and> k < ?m + max_iterations \<and> cron_matches pc k)
    | Some r \<Rightarrow> ?m \<le> r \<and> r < ?m + max_iterations \<and> cron_matches pc r \<and> \<not> (\<exists>k. ?m \<le> k \<and> k < r \<and> cron_matches pc k)"
    using search_run_finds [where i = 0 and pc = pc and m = ?m, unfolded diff_0_right]
    by (simp add: max_iterations_def [THEN arg_cong [where f = "\<lambda>x. 0 \<le> x"]])
  have fires: "fires tz pc u \<and> now < u \<longleftrightarrow> u mod minute_ms = 0 \<and> cron_matches pc (u div minute_ms + tz) \<and> ?m \<le> u div minute_ms + tz" for u
    using minute_floor [of u now] by (auto simp: fires_def)
  show ?thesis
  proof (cases "search_run pc 0 ?m")
    case None
    have "\<not> (now < u \<and> u \<le> now + (366 * 24 * 60 - 1) * minute_ms \<and> fires tz pc u)" for u
    proof
      assume u: "now < u \<and> u \<le> now + (366 * 24 * 60 - 1) * minute_ms \<and> fires tz pc u"
      then have "u div minute_ms \<le> (now + (366 * 24 * 60 - 1) * minute_ms) div minute_ms"
        by (intro zdiv_mono1) (auto simp: minute_ms_def)
      then have "u div minute_ms + tz < ?m + max_iterations" by (simp add: minute_ms_def max_iterations_def)
      with u fires [of u] search None show False by auto
    qed
    with None show ?thesis by (auto simp: get_next_run_def)
  next
    case (Some r)
    let ?t = "(r - tz) * minute_ms"
    have t: "?t mod minute_ms = 0" "?t div minute_ms = r - tz" by (simp_all add: minute_ms_def)
    from Some search have r: "?m \<le> r" "r < ?m + max_iterations" "cron_matches pc r"
      and least: "\<not> (\<exists>k. ?m \<le> k \<and> k < r \<and> cron_matches pc k)" by simp_all
    have "?t \<le> now + 366 * 24 * 60 * minute_ms"
      using r(2) div_bounds [of minute_ms now] by (simp add: minute_ms_def max_iterations_def)
    moreover have "\<not> (now < u \<and> u < ?t \<and> fires tz pc u)" for u
    proof
      assume u: "now < u \<and> u < ?t \<and> fires tz pc u"
      then have "u div minute_ms < r - tz"
        using mult_div_mod_eq [of minute_ms u] by (auto simp: fires_def minute_ms_def)
      with u fires [of u] least show False by auto
    qed
    moreover have "fires tz pc ?t \<and> now < ?t" using fires [of ?t] r t by simp
    ultimately show ?thesis using Some by (simp add: get_next_run_def)
  qed
qed


text \<open>What a parsed expression is.\<close>

definition cron_ok :: "parsed_cron \<Rightarrow> bool" where
  "cron_ok pc \<longleftrightarrow> pc_minute pc \<noteq> [] \<and> pc_hour pc \<noteq> [] \<and> pc_dom pc \<noteq> [] \<and> pc_month pc \<noteq> [] \<and> pc_dow pc \<noteq> [] \<and>
     list_all (\<lambda>v. 0 \<le> v \<and> v \<le> 59) (pc_minute pc) \<and> list_all (\<lambda>v. 0 \<le> v \<and> v \<le> 23) (pc_hour pc) \<and>
     list_all (\<lambda>v. 1 \<le> v \<and> v \<le> 31) (pc_dom pc) \<and> list_all (\<lambda>v. 1 \<le> v \<and> v \<le> 12) (pc_month pc) \<and>
     list_all (\<lambda>v. 0 \<le> v \<and> v \<le> 7) (pc_dow pc)"

lemma parse_cron_ok:
  assumes "parse_cron expression = Some (Inr pc)"
  shows "cron_ok pc"
proof -
  obtain a b c d e where "parse_field a CMinute 0 59 = Some (Inr (pc_minute pc))"
    "parse_field b CHour 0 23 = Some (Inr (pc_hour pc))" "parse_field c CDom 1 31 = Some (Inr (pc_dom pc))"
    "parse_field d CMonth 1 12 = Some (Inr (pc_month pc))" "parse_field e CDow 0 6 = Some (Inr (pc_dow pc))"
    using assms by (auto simp: parse_cron_def Let_def split: if_splits)
  from this [THEN parse_field_sound(3)] this [THEN parse_field_sound(4)] show ?thesis
    by (auto simp: cron_ok_def list_all_iff in_field_def)
qed




section \<open>Lemmas on durations\<close>

lemma is_digit_code: "is_digit c \<longleftrightarrow> 48 \<le> (of_char c :: nat) \<and> (of_char c :: nat) \<le> 57"
  by (simp add: is_digit_def char_between_def)

lemma digit_char_code [simp]: "d < 10 \<Longrightarrow> of_char (digit_char d) = (48 + d :: nat)"
  by (simp add: digit_char_def)

lemma digits_value_append [simp]: "digits_value (ds @ [c]) = digits_value ds * 10 + (of_char c - 48)"
  by (simp add: digits_value_def)

lemma of_char_int: "(of_char c :: int) = int (of_char c)"
  by (metis of_char_def of_nat_of_char)

lemma show_nat_digits: "list_all is_digit (show_nat n) \<and> digits_value (show_nat n) = int n"
proof (induction n rule: show_nat.induct)
  case (1 n)
  show ?case
  proof (cases "n < 10")
    case True
    then have "show_nat n = [digit_char n]" by (subst show_nat.simps) simp
    then show ?thesis using True by (simp add: is_digit_code digits_value_def of_char_int)
  next
    case False
    then have "show_nat n = show_nat (n div 10) @ [digit_char (n mod 10)]" by (subst show_nat.simps) simp
    moreover have "int n = int (n div 10) * 10 + int (n mod 10)"
      by (metis div_mult_mod_eq of_nat_add of_nat_mult of_nat_numeral)
    ultimately show ?thesis using 1 False by (simp add: is_digit_code of_char_int)
  qed
qed

text \<open>The text of a duration, as the user would write it.\<close>

definition duration_text :: "(nat \<times> char) list \<Rightarrow> string" where
  "duration_text parts = concat (map (\<lambda>(n, u). show_nat n @ [u]) parts)"

definition is_unit :: "char \<Rightarrow> bool" where
  "is_unit u \<longleftrightarrow> u \<in> set ''hmsd''"

lemma unit_facts: "is_unit u \<Longrightarrow> \<not> is_digit u \<and> lower_char u = u \<and> \<not> is_space u"
  unfolding is_unit_def by (simp, elim disjE; simp; code_simp)

lemma digit_not_space: "is_digit c \<Longrightarrow> \<not> is_space c"
  by (auto simp: is_digit_code is_space_def)

lemma dropWhile_digits: "list_all is_digit ds \<Longrightarrow> \<not> is_digit u \<Longrightarrow>
    takeWhile is_digit (ds @ u # us) = ds \<and> dropWhile is_digit (ds @ u # us) = u # us"
  by (induction ds) auto

lemma duration_parts_text:
  "list_all (\<lambda>(n, u). is_unit u) parts \<Longrightarrow>
     duration_parts (duration_text parts) = map (\<lambda>(n, u). (int n, u)) parts"
proof (induction parts)
  case (Cons p parts)
  obtain n u where p: "p = (n, u)" by (cases p)
  with Cons.prems have u: "is_unit u" by simp
  obtain c cs where cs: "show_nat n = c # cs" by (cases "show_nat n") auto
  with show_nat_digits [of n] have d: "is_digit c" "list_all is_digit cs" "digits_value (c # cs) = int n" by simp_all
  have "duration_text (p # parts) = c # cs @ u # duration_text parts" by (simp add: duration_text_def p cs)
  then show ?case
    using Cons d u unit_facts [OF u] dropWhile_digits [OF d(2), of u "duration_text parts"]
    by (simp add: p is_unit_def)
qed (simp add: duration_text_def)

lemma duration_text_plain:
  "list_all (\<lambda>(n, u). is_unit u) parts \<Longrightarrow> list_all (\<lambda>c. \<not> is_space c) (duration_text parts)"
proof (induction parts)
  case (Cons p parts)
  then show ?case
    using show_nat_digits [of "fst p"] digit_not_space unit_facts [of "snd p"]
    by (auto simp: duration_text_def list_all_iff split: prod.splits)
qed (simp add: duration_text_def)

lemma js_trim_plain: "list_all (\<lambda>c. \<not> is_space c) s \<Longrightarrow> js_trim s = s"
proof -
  have "dropWhile is_space t = t" if "list_all (\<lambda>c. \<not> is_space c) t" for t
    using that by (cases t) auto
  then show "list_all (\<lambda>c. \<not> is_space c) s \<Longrightarrow> js_trim s = s" by (simp add: js_trim_def)
qed

lemma js_trim_ends:
  assumes "\<not> is_space (hd s)" and "\<not> is_space (last s)"
  shows "js_trim s = s"
proof (cases "s = []")
  case False
  then have "dropWhile is_space s = s" using assms(1) by (cases s) auto
  moreover have "dropWhile is_space (rev s) = rev s" using assms(2) False by (cases s rule: rev_cases) auto
  ultimately show ?thesis by (simp add: js_trim_def)
qed (simp add: js_trim_def)

section \<open>Properties\<close>

text \<open>
  (C22) A field stands for exactly the values it denotes: a parsed expression has five fields, each a
  sorted list without repetitions of values in range, and a value is in the list exactly when it is in the
  field's wildcard, or in one of its ranges at a whole number of steps, or one of its single values.
\<close>

theorem cron_fields_denote:
  assumes "parse_cron expression = Some (Inr pc)"
  shows "\<exists>a b c d e. blank_parts (expand_special (js_trim expression)) = [a, b, c, d, e] \<and> cron_ok pc \<and>
    list_all (\<lambda>vs. sorted vs \<and> distinct vs) [pc_minute pc, pc_hour pc, pc_dom pc, pc_month pc, pc_dow pc] \<and>
    (v \<in> set (pc_minute pc) \<longleftrightarrow> field_denotes a CMinute 0 59 v) \<and>
    (v \<in> set (pc_hour pc) \<longleftrightarrow> field_denotes b CHour 0 23 v) \<and>
    (v \<in> set (pc_dom pc) \<longleftrightarrow> field_denotes c CDom 1 31 v) \<and>
    (v \<in> set (pc_month pc) \<longleftrightarrow> field_denotes d CMonth 1 12 v) \<and>
    (v \<in> set (pc_dow pc) \<longleftrightarrow> field_denotes e CDow 0 6 v)"
proof -
  let ?parts = "blank_parts (expand_special (js_trim expression))"
  have fields: "parse_field (?parts ! 0) CMinute 0 59 = Some (Inr (pc_minute pc))"
    "parse_field (?parts ! 1) CHour 0 23 = Some (Inr (pc_hour pc))"
    "parse_field (?parts ! 2) CDom 1 31 = Some (Inr (pc_dom pc))"
    "parse_field (?parts ! 3) CMonth 1 12 = Some (Inr (pc_month pc))"
    "parse_field (?parts ! 4) CDow 0 6 = Some (Inr (pc_dow pc))" and n: "length ?parts = 5"
    using assms by (auto simp: parse_cron_def Let_def split: if_splits)
  from n obtain a b c d e where parts: "?parts = [a, b, c, d, e]"
    by (auto simp: eval_nat_numeral length_Suc_conv)
  from fields [THEN parse_field_sound(1)] fields [THEN parse_field_sound(2)]
    fields [THEN parse_field_sound(5), where v = v]
  show ?thesis using parse_cron_ok [OF assms] by (simp add: parts)
qed

theorem cron_fields_denote_witness:
  "\<exists>pc. parse_cron ''*/15 0-23/6 1,15 JAN-MAR sun'' = Some (Inr pc) \<and> cron_ok pc \<and> 45 \<in> set (pc_minute pc)"
proof -
  obtain pc where pc: "parse_cron ''*/15 0-23/6 1,15 JAN-MAR sun'' = Some (Inr pc)" "pc_minute pc = [0, 15, 30, 45]"
    by (rule that [of "\<lparr>pc_minute = [0, 15, 30, 45], pc_hour = [0, 6, 12, 18], pc_dom = [1, 15],
      pc_month = [1, 2, 3], pc_dow = [0]\<rparr>"]) code_simp+
  from cron_fields_denote [OF pc(1), of 45] have "cron_ok pc" by blast
  with pc show ?thesis by auto
qed






text \<open>
  A duration is read back as it is written: the text of any sequence of amounts with units stands for
  the sum of its parts, with seconds, minutes, hours and days of 1, 60, 3600 and 86400 seconds.
\<close>

theorem duration_roundtrip:
  assumes "parts \<noteq> []" and "list_all (\<lambda>(n, u). is_unit u) parts"
    and "0 < sum_list (map (\<lambda>(n, u). int n * unit_seconds u) parts)"
  shows "parse_every_duration (''@every '' @ duration_text parts) =
    Inr (sum_list (map (\<lambda>(n, u). int n * unit_seconds u) parts)) \<and>
    map unit_seconds ''smhd'' = [1, 60, 60 * 60, 24 * 60 * 60]"
proof -
  let ?t = "duration_text parts"
  define whole where "whole = ''@every '' @ ?t"
  have plain: "list_all (\<lambda>c. \<not> is_space c) ?t" by (rule duration_text_plain [OF assms(2)])
  obtain p ps where "parts = p # ps" using assms(1) by (cases parts) auto
  then have ne: "?t \<noteq> []" by (cases p) (simp add: duration_text_def)
  have chars: "\<not> is_space (CHR ''@'')" "is_space (CHR '' '')" "to_lower ''@every'' = ''@every''" by code_simp+
  have "\<not> is_space (last ?t)" using plain ne by (simp add: list_all_iff)
  then have trim: "js_trim whole = whole" using ne chars(1) by (intro js_trim_ends) (simp_all add: whole_def)
  have every: "is_every whole" using chars by (simp add: is_every_def whole_def eval_nat_numeral)
  have "dropWhile is_space ?t = ?t" using plain by (cases ?t) auto
  then have rest: "dropWhile is_space (drop 6 whole) = ?t" using chars by (simp add: whole_def eval_nat_numeral)
  have "parse_every_duration whole = Inr (sum_list (map (\<lambda>(n, u). int n * unit_seconds u) parts))"
    using assms(1,3) by (simp add: parse_every_duration_def Let_def trim every rest js_trim_plain [OF plain]
        duration_parts_text [OF assms(2)] comp_def case_prod_unfold)
  moreover have "map unit_seconds ''smhd'' = [1, 60, 60 * 60, 24 * 60 * 60]" by (simp add: unit_seconds_def)
  ultimately show ?thesis by (simp only: whole_def)
qed

theorem duration_roundtrip_witness:
  "parse_every_duration (''@every '' @ duration_text [(1, CHR ''h''), (30, CHR ''m'')]) = Inr 5400"
proof -
  have "list_all (\<lambda>(n, u). is_unit u) [(1, CHR ''h''), (30, CHR ''m'')]" by (simp add: is_unit_def)
  from duration_roundtrip [OF _ this] show ?thesis by (simp add: unit_seconds_def)
qed






text \<open>A date that only leap years have is not found from the day after it: the schedule is lost.\<close>

lemma leap_day_is_lost:
  assumes "20148 * 1440 * minute_ms \<le> now" and "now < 20500 * 1440 * minute_ms"
  shows "next_run_of 0 now ''0 0 29 2 *'' = Some None"
proof -
  define leap where "leap = \<lparr>pc_minute = [0], pc_hour = [0], pc_dom = [29], pc_month = [2], pc_dow = [0..6]\<rparr>"
  have parse: "parse_cron ''0 0 29 2 *'' = Some (Inr leap)" unfolding leap_def by code_simp
  have no: "month_date d \<noteq> (2, 29)" if "20148 \<le> d" "d \<le> 20866" for d
  proof -
    consider "d < day_from_year 2026" | "day_from_year 2026 \<le> d" "d < day_from_year 2027" | "day_from_year 2027 \<le> d"
      by linarith
    then have y: "year_of_day d = 2025 \<or> year_of_day d = 2026 \<or> year_of_day d = 2027"
      using that by cases (auto intro!: year_of_day_unique simp: day_from_year_def)
    have "month_and_date (month_lengths False) 1 w \<noteq> (2, 29)" for w by (simp add: month_lengths_def)
    with y show ?thesis by (auto simp: month_date_def Let_def leap_year_def)
  qed
  have "\<not> (now < u \<and> u \<le> now + 366 * 24 * 60 * minute_ms \<and> fires 0 leap u)" for u
  proof
    assume u: "now < u \<and> u \<le> now + 366 * 24 * 60 * minute_ms \<and> fires 0 leap u"
    let ?d = "u div minute_ms div 1440"
    have "20148 \<le> ?d" "?d \<le> 20866"
      using u assms div_bounds [of minute_ms u] div_bounds [of 1440 "u div minute_ms"] by (auto simp: minute_ms_def)
    then have "month_date ?d \<noteq> (2, 29)" by (rule no)
    with u show False by (auto simp: fires_def cron_matches_def day_matches_def leap_def Let_def prod_eq_iff)
  qed
  with get_next_run_cases [where tz = 0 and pc = leap and now = now] have "\<exists>e. get_next_run 0 leap now = Inl e"
    by (cases "get_next_run 0 leap now") auto
  moreover have "is_prefix ''@every'' ''0 0 29 2 *'' = False" by code_simp
  ultimately show ?thesis using parse by (auto simp: next_run_of_def)
qed

end
