(* ===== verification/PathSecurity.thy ===== *)
theory PathSecurity
  imports ToolScheduler JsRegex
begin

text \<open>
  Guards on paths: \<open>src/src/core/pathSecurity.ts\<close>.

  \<open>dir_name\<close> and \<open>base_name\<close> are the functions of the language's path module on POSIX. The tools refuse
  the control files of the loop engine by looking at the last two names of a path; a path that is not
  normalised can name such a file and pass.
\<close>

section \<open>The path module\<close>

definition dir_name :: "string \<Rightarrow> string" where
  "dir_name p =
     (let r = dropWhile (\<lambda>c. c \<noteq> CHR ''/'') (dropWhile (\<lambda>c. c = CHR ''/'') (rev p))
      in if p = [] then ''.''
         else if length r \<le> 1 then (if is_absolute p then ''/'' else ''.'')
         else if is_absolute p \<and> length r = 2 then ''//''
         else rev (tl r))"

definition base_name :: "string \<Rightarrow> string" where
  "base_name p = rev (takeWhile (\<lambda>c. c \<noteq> CHR ''/'') (dropWhile (\<lambda>c. c = CHR ''/'') (rev p)))"

section \<open>The guards\<close>

definition contains_null_byte :: "string \<Rightarrow> bool" where
  "contains_null_byte p = (CHR 0x00 \<in> set p)"

definition loop_driver_owned_files :: "string list" where
  "loop_driver_owned_files = [''done.flag'', ''loop.lock'', ''checkpoint.json'', ''checkpoint.previous.json'']"

definition is_loop_driver_owned_path :: "bool \<Rightarrow> string \<Rightarrow> bool" where
  "is_loop_driver_owned_path case_insensitive p =
     (let dir = base_name (dir_name p)
      in (if case_insensitive then to_lower dir else dir) = ''.loop'' \<and>
         to_lower (base_name p) \<in> set loop_driver_owned_files)"

section \<open>Lemmas\<close>

text \<open>The names of a path.\<close>

definition path_names :: "string \<Rightarrow> string list" where
  "path_names p = filter (\<lambda>w. w \<noteq> []) (split_at_char (CHR ''/'') p)"

lemma path_names_append: "path_names (a @ CHR ''/'' # b) = path_names a @ path_names b"
  by (simp add: path_names_def split_append)

lemma path_names_simps [simp]:
  "path_names [] = []"
  "path_names (CHR ''/'' # p) = path_names p"
  "CHR ''/'' \<notin> set w \<Longrightarrow> path_names w = (if w = [] then [] else [w])"
  by (simp_all add: path_names_def split_plain)

lemma path_names_slash: "path_names (p @ [CHR ''/'']) = path_names p"
  using path_names_append [of p "[]"] by simp

lemma path_names_strip: "path_names (rev (dropWhile (\<lambda>c. c = CHR ''/'') (rev p))) = path_names p"
proof (induction p rule: rev_induct)
  case (snoc c p)
  then show ?case by (simp add: path_names_slash)
qed simp

text \<open>A path is its directory with a slash, its last name, and slashes.\<close>

lemma path_parts:
  fixes p :: string
  defines "a \<equiv> rev (dropWhile (\<lambda>c. c \<noteq> CHR ''/'') (dropWhile (\<lambda>c. c = CHR ''/'') (rev p)))"
  shows "path_names p = path_names a @ (if base_name p = [] then [] else [base_name p])"
    "a = [] \<or> (\<exists>b. a = b @ [CHR ''/''])" "base_name p = [] \<Longrightarrow> a = []"
    "\<exists>z. p = a @ z"
proof -
  define s where "s = dropWhile (\<lambda>c. c = CHR ''/'') (rev p)"
  have a: "a = rev (dropWhile (\<lambda>c. c \<noteq> CHR ''/'') s)" and w: "base_name p = rev (takeWhile (\<lambda>c. c \<noteq> CHR ''/'') s)"
    by (simp_all add: a_def s_def base_name_def)
  have split: "rev s = a @ base_name p" unfolding a w by (metis rev_append takeWhile_dropWhile_id)
  have "p = rev s @ rev (takeWhile (\<lambda>c. c = CHR ''/'') (rev p))"
    unfolding s_def by (metis rev_append rev_rev_ident takeWhile_dropWhile_id)
  then show "\<exists>z. p = a @ z" unfolding split by (metis append.assoc)
  have no: "CHR ''/'' \<notin> set (base_name p)" by (auto simp: w dest: set_takeWhileD)
  have names: "path_names p = path_names (a @ base_name p)" using path_names_strip [of p] split by (simp add: s_def)
  show shape: "a = [] \<or> (\<exists>b. a = b @ [CHR ''/''])"
  proof (cases "dropWhile (\<lambda>c. c \<noteq> CHR ''/'') s")
    case (Cons c cs)
    then have "c = CHR ''/''" using hd_dropWhile [of "\<lambda>c. c \<noteq> CHR ''/''" s] by simp
    with Cons show ?thesis by (simp add: a)
  qed (simp add: a)
  show "a = []" if "base_name p = []"
  proof (cases s)
    case (Cons c cs)
    then have "c \<noteq> CHR ''/''" using hd_dropWhile [of "\<lambda>c. c = CHR ''/''" "rev p"] unfolding s_def [symmetric] by simp
    with Cons that show ?thesis by (simp add: w)
  qed (simp add: a)
  then show "path_names p = path_names a @ (if base_name p = [] then [] else [base_name p])"
    using shape no names by (auto simp: path_names_append)
qed

lemma base_name_names: "base_name p = (if path_names p = [] then [] else last (path_names p))"
  using path_parts(1,3) [of p] by (cases "base_name p = []") auto

text \<open>The last but one name of a path, as the guard sees it.\<close>

lemma dir_name_names:
  "if length (path_names p) < 2 then base_name (dir_name p) = [] \<or> base_name (dir_name p) = ''.''
   else base_name (dir_name p) = last (butlast (path_names p))"
proof -
  define a where "a = rev (dropWhile (\<lambda>c. c \<noteq> CHR ''/'') (dropWhile (\<lambda>c. c = CHR ''/'') (rev p)))"
  note parts = path_parts [of p, folded a_def]
  have r: "dropWhile (\<lambda>c. c \<noteq> CHR ''/'') (dropWhile (\<lambda>c. c = CHR ''/'') (rev p)) = rev a" by (simp add: a_def)
  have dots: "base_name ''.'' = ''.''" "base_name ''/'' = []" "base_name ''//'' = []" by (simp_all add: base_name_def)
  have short: "length a \<le> 1 \<Longrightarrow> path_names a = []" using parts(2) by auto
  show ?thesis
  proof (cases "path_names a = []")
    case True
    then have "length (path_names p) < 2" using parts(1) by simp
    moreover have "base_name (dir_name p) = [] \<or> base_name (dir_name p) = ''.''"
    proof (cases "a = []")
      case False
      then obtain b where b: "a = b @ [CHR ''/'']" using parts(2) by blast
      then have "path_names b = []" using True by (simp add: path_names_slash)
      then have "base_name b = []" by (simp add: base_name_names)
      then show ?thesis using b dots by (auto simp: dir_name_def Let_def r)
    qed (use dots in \<open>auto simp: dir_name_def Let_def r\<close>)
    ultimately show ?thesis by simp
  next
    case False
    then have "base_name p \<noteq> []" using parts(3) by auto
    then have names: "path_names p = path_names a @ [base_name p]" using parts(1) by simp
    obtain b where b: "a = b @ [CHR ''/'']" using False parts(2) by auto
    have "\<not> (is_absolute p \<and> length (rev a) = 2)"
    proof
      assume "is_absolute p \<and> length (rev a) = 2"
      then have "length b = 1" "is_absolute p" using b by auto
      then obtain c where "b = [c]" by (metis One_nat_def length_0_conv length_Suc_conv)
      moreover from this have "c = CHR ''/''" using parts(4) \<open>is_absolute p\<close> b by (auto simp: is_absolute_def)
      ultimately show False using False b by simp
    qed
    moreover have "\<not> length (rev a) \<le> 1" "p \<noteq> []" using False short parts(4) by auto
    ultimately have "dir_name p = b" using b by (auto simp: dir_name_def Let_def r)
    moreover have "base_name b = last (path_names a)" using False b by (simp add: base_name_names path_names_slash)
    ultimately show ?thesis using False names by (simp add: butlast_append)
  qed
qed

text \<open>The guard decides by the last two names as they are written.\<close>

lemma owned_path_iff:
  "is_loop_driver_owned_path ci p \<longleftrightarrow> 2 \<le> length (path_names p) \<and>
     (if ci then to_lower (last (butlast (path_names p))) else last (butlast (path_names p))) = ''.loop'' \<and>
     to_lower (last (path_names p)) \<in> set loop_driver_owned_files"
proof -
  have no: "to_lower [] \<noteq> ''.loop''" "to_lower ''.'' \<noteq> ''.loop''" by code_simp+
  have names: "base_name p = last (path_names p)" if "2 \<le> length (path_names p)"
    using that base_name_names [of p] by (cases "path_names p = []") auto
  show ?thesis
  proof (cases "length (path_names p) < 2")
    case True
    then have "base_name (dir_name p) = [] \<or> base_name (dir_name p) = ''.''" using dir_name_names [of p] by simp
    then show ?thesis using True no by (auto simp: is_loop_driver_owned_path_def Let_def)
  next
    case False
    then show ?thesis using dir_name_names [of p] names by (simp add: is_loop_driver_owned_path_def Let_def)
  qed
qed

text \<open>A dot in the path hides the name of the directory from the guard.\<close>

lemma dot_segment_evades_guard:
  "is_loop_driver_owned_path ci ''/p/.loop/DONE.flag''"
  "\<not> is_loop_driver_owned_path ci ''/p/.loop/./DONE.flag''"
  "resolve_path d e ''/p/.loop/./DONE.flag'' = ''/p/.loop/DONE.flag''"
proof -
  have "is_loop_driver_owned_path True ''/p/.loop/DONE.flag''" "is_loop_driver_owned_path False ''/p/.loop/DONE.flag''"
    "\<not> is_loop_driver_owned_path True ''/p/.loop/./DONE.flag''" "\<not> is_loop_driver_owned_path False ''/p/.loop/./DONE.flag''"
    by code_simp+
  then show "is_loop_driver_owned_path ci ''/p/.loop/DONE.flag''" "\<not> is_loop_driver_owned_path ci ''/p/.loop/./DONE.flag''"
    by (cases ci; simp)+
  show "resolve_path d e ''/p/.loop/./DONE.flag'' = ''/p/.loop/DONE.flag''" by (simp add: resolve_path_def is_absolute_def)
qed

end
