(* ===== verification/AtomicFiles.thy ===== *)
theory AtomicFiles
  imports Prelude
begin

text \<open>
  Writing files: \<open>src/src/core/atomicWrite.ts\<close>.

  A disk maps paths to files, links and directories. A file has what a reader sees and what would survive
  a loss of power. The write is a machine that makes one system call per step; each call works, fails, or
  (the write itself) is done in part, so that a run can be stopped, and the power lost, after every step.
  Both variants of the source are runs of it. Links are followed in the last component of a path.
\<close>

section \<open>Disks\<close>

record file_data =
  fd_content :: string
  fd_mode :: nat
  fd_durable :: "(string \<times> nat) option"

datatype file_node = RegularFile file_data | SymbolicLink string | Directory

type_synonym disk = "string \<rightharpoonup> file_node"

definition default_mode :: nat where
  "default_mode = 420"

definition link_limit :: nat where
  "link_limit = 40"

text \<open>\<open>realpath\<close>: links followed up to the limit of the system.\<close>

fun real_path :: "nat \<Rightarrow> disk \<Rightarrow> string \<Rightarrow> string option" where
  "real_path 0 d p = None"
| "real_path (Suc n) d p = (case d p of
      None \<Rightarrow> None
    | Some (SymbolicLink q) \<Rightarrow> real_path n d q
    | Some _ \<Rightarrow> Some p)"

definition file_exists :: "disk \<Rightarrow> string \<Rightarrow> bool" where
  "file_exists d p \<longleftrightarrow> real_path link_limit d p \<noteq> None"

definition read_node :: "disk \<Rightarrow> string \<Rightarrow> file_node option" where
  "read_node d p = (case real_path link_limit d p of None \<Rightarrow> None | Some r \<Rightarrow> d r)"

definition read_file :: "disk \<Rightarrow> string \<Rightarrow> string option" where
  "read_file d p = (case read_node d p of Some (RegularFile f) \<Rightarrow> Some (fd_content f) | _ \<Rightarrow> None)"

text \<open>What is left of a disk after a loss of power: unsynced files are empty.\<close>

definition crashed_node :: "file_node \<Rightarrow> file_node" where
  "crashed_node n = (case n of
      RegularFile f \<Rightarrow> (case fd_durable f of
          None \<Rightarrow> RegularFile (f\<lparr>fd_content := []\<rparr>)
        | Some (c, m) \<Rightarrow> RegularFile (f\<lparr>fd_content := c, fd_mode := m\<rparr>))
    | _ \<Rightarrow> n)"

definition crashed :: "disk \<Rightarrow> disk" where
  "crashed d = (\<lambda>p. map_option crashed_node (d p))"

section \<open>The write\<close>

datatype write_error = SystemError string | BrokenLink string | LinkToDirectory

datatype call_outcome = Works | Wrote nat | Fails string

datatype write_phase =
    AtLstat | AtRealpath | AtLinkStat | AtMkdir | AtStat
  | AtOpen | AtWrite | AtChmod | AtSync | AtClose | AtRename
  | CleanClose | CleanUnlink | Finished

record write_job =
  wj_target :: string
  wj_content :: string
  wj_suffix :: string

record atomic_run =
  ar_disk :: disk
  ar_phase :: write_phase
  ar_real :: string
  ar_mode :: "nat option"
  ar_open :: bool
  ar_failure :: "write_error option"
  ar_result :: "(write_error + unit) option"

definition aw_start :: "write_job \<Rightarrow> disk \<Rightarrow> atomic_run" where
  "aw_start job d = \<lparr>ar_disk = d, ar_phase = AtLstat, ar_real = wj_target job, ar_mode = None,
     ar_open = False, ar_failure = None, ar_result = None\<rparr>"

definition tmp_path :: "string \<Rightarrow> string \<Rightarrow> string" where
  "tmp_path r suffix = r @ ''.tmp.'' @ suffix"

definition give_up :: "write_error \<Rightarrow> atomic_run \<Rightarrow> atomic_run" where
  "give_up e s = s\<lparr>ar_phase := Finished, ar_result := Some (Inl e)\<rparr>"

definition clean_up :: "string \<Rightarrow> atomic_run \<Rightarrow> atomic_run" where
  "clean_up e s = s\<lparr>ar_phase := (if ar_open s then CleanClose else CleanUnlink), ar_failure := Some (SystemError e)\<rparr>"

text \<open>The file that is being written.\<close>

definition tmp_file :: "write_job \<Rightarrow> atomic_run \<Rightarrow> file_data" where
  "tmp_file job s = (case ar_disk s (tmp_path (ar_real s) (wj_suffix job)) of
      Some (RegularFile f) \<Rightarrow> f
    | _ \<Rightarrow> \<lparr>fd_content = [], fd_mode = default_mode, fd_durable = None\<rparr>)"

definition set_tmp :: "write_job \<Rightarrow> file_data \<Rightarrow> atomic_run \<Rightarrow> atomic_run" where
  "set_tmp job f s =
     s\<lparr>ar_disk := (ar_disk s)(tmp_path (ar_real s) (wj_suffix job) \<mapsto> RegularFile f)\<rparr>"

definition wrote :: "write_job \<Rightarrow> nat \<Rightarrow> atomic_run \<Rightarrow> atomic_run" where
  "wrote job n s = set_tmp job ((tmp_file job s)\<lparr>fd_content := take n (wj_content job)\<rparr>)
     (s\<lparr>ar_phase := (if n < length (wj_content job) then AtWrite
                      else if ar_mode s = None then AtSync else AtChmod)\<rparr>)"

definition find_link :: "write_job \<Rightarrow> atomic_run \<Rightarrow> atomic_run" where
  "find_link job s = (case ar_disk s (wj_target job) of
      Some (SymbolicLink _) \<Rightarrow> s\<lparr>ar_phase := AtRealpath\<rparr>
    | _ \<Rightarrow> s\<lparr>ar_phase := AtMkdir\<rparr>)"

definition follow_link :: "write_job \<Rightarrow> atomic_run \<Rightarrow> atomic_run" where
  "follow_link job s = (case real_path link_limit (ar_disk s) (wj_target job) of
      None \<Rightarrow> give_up (BrokenLink ''cannot resolve'') s
    | Some r \<Rightarrow> s\<lparr>ar_real := r, ar_phase := AtLinkStat\<rparr>)"

definition check_link :: "atomic_run \<Rightarrow> atomic_run" where
  "check_link s = (case ar_disk s (ar_real s) of
      None \<Rightarrow> give_up (BrokenLink ''does not exist'') s
    | Some Directory \<Rightarrow> give_up LinkToDirectory s
    | _ \<Rightarrow> s\<lparr>ar_phase := AtMkdir\<rparr>)"

definition capture_mode :: "atomic_run \<Rightarrow> atomic_run" where
  "capture_mode s = s\<lparr>ar_phase := AtOpen, ar_mode := (case ar_disk s (ar_real s) of
      Some (RegularFile f) \<Rightarrow> Some (fd_mode f)
    | None \<Rightarrow> None
    | _ \<Rightarrow> Some 493)\<rparr>"

definition open_tmp :: "write_job \<Rightarrow> atomic_run \<Rightarrow> atomic_run" where
  "open_tmp job s = set_tmp job \<lparr>fd_content = [], fd_mode = default_mode, fd_durable = None\<rparr>
     (s\<lparr>ar_open := True, ar_phase := AtWrite\<rparr>)"

definition sync_tmp :: "write_job \<Rightarrow> atomic_run \<Rightarrow> atomic_run" where
  "sync_tmp job s = set_tmp job ((tmp_file job s)\<lparr>fd_durable :=
      Some (fd_content (tmp_file job s), fd_mode (tmp_file job s))\<rparr>) (s\<lparr>ar_phase := AtClose\<rparr>)"

definition publish :: "write_job \<Rightarrow> atomic_run \<Rightarrow> atomic_run" where
  "publish job s =
     (let t = tmp_path (ar_real s) (wj_suffix job)
      in if ar_disk s (ar_real s) = Some Directory then clean_up ''EISDIR'' s
         else s\<lparr>ar_disk := (ar_disk s)(ar_real s := ar_disk s t, t := None),
                ar_phase := Finished, ar_result := Some (Inr ())\<rparr>)"

definition remove_tmp :: "write_job \<Rightarrow> bool \<Rightarrow> atomic_run \<Rightarrow> atomic_run" where
  "remove_tmp job ok s = s\<lparr>ar_phase := Finished, ar_result := map_option Inl (ar_failure s),
     ar_disk := (if ok then (ar_disk s)(tmp_path (ar_real s) (wj_suffix job) := None) else ar_disk s)\<rparr>"

definition aw_step :: "write_job \<Rightarrow> call_outcome \<Rightarrow> atomic_run \<Rightarrow> atomic_run" where
  "aw_step job out s = (case ar_phase s of
      AtLstat \<Rightarrow> (case out of Fails e \<Rightarrow> give_up (SystemError e) s | _ \<Rightarrow> find_link job s)
    | AtRealpath \<Rightarrow> (case out of Fails e \<Rightarrow> give_up (BrokenLink e) s | _ \<Rightarrow> follow_link job s)
    | AtLinkStat \<Rightarrow> (case out of Fails e \<Rightarrow> give_up (SystemError e) s | _ \<Rightarrow> check_link s)
    | AtMkdir \<Rightarrow> (case out of Fails e \<Rightarrow> give_up (SystemError e) s | _ \<Rightarrow> s\<lparr>ar_phase := AtStat\<rparr>)
    | AtStat \<Rightarrow> (case out of Fails e \<Rightarrow> give_up (SystemError e) s | _ \<Rightarrow> capture_mode s)
    | AtOpen \<Rightarrow> (case out of Fails e \<Rightarrow> clean_up e s | _ \<Rightarrow> open_tmp job s)
    | AtWrite \<Rightarrow> (case out of
          Fails e \<Rightarrow> clean_up e s
        | Wrote n \<Rightarrow> wrote job (length (fd_content (tmp_file job s)) + n) s
        | Works \<Rightarrow> wrote job (length (wj_content job)) s)
    | AtChmod \<Rightarrow> (case out of Fails e \<Rightarrow> clean_up e s
        | _ \<Rightarrow> set_tmp job ((tmp_file job s)\<lparr>fd_mode := the (ar_mode s)\<rparr>) (s\<lparr>ar_phase := AtSync\<rparr>))
    | AtSync \<Rightarrow> (case out of Fails e \<Rightarrow> clean_up e s | _ \<Rightarrow> sync_tmp job s)
    | AtClose \<Rightarrow> (case out of Fails e \<Rightarrow> clean_up e s | _ \<Rightarrow> s\<lparr>ar_open := False, ar_phase := AtRename\<rparr>)
    | AtRename \<Rightarrow> (case out of Fails e \<Rightarrow> clean_up e s | _ \<Rightarrow> publish job s)
    | CleanClose \<Rightarrow> s\<lparr>ar_open := False, ar_phase := CleanUnlink\<rparr>
    | CleanUnlink \<Rightarrow> remove_tmp job (case out of Fails _ \<Rightarrow> False | _ \<Rightarrow> True) s
    | Finished \<Rightarrow> s)"

text \<open>A whole write: the calls one after the other, each with its outcome.\<close>

definition run_write :: "write_job \<Rightarrow> call_outcome list \<Rightarrow> disk \<Rightarrow> atomic_run" where
  "run_write job outs d = fold (aw_step job) outs (aw_start job d)"

text \<open>The copy of a store that does not load; an earlier copy stays.\<close>

definition preserve_corrupt_file :: "bool \<Rightarrow> string \<Rightarrow> disk \<Rightarrow> disk" where
  "preserve_corrupt_file works p d =
     (let backup = p @ ''.corrupt''
      in if file_exists d backup then d
         else case read_node d p of
             Some (RegularFile f) \<Rightarrow> if works then d(backup \<mapsto> RegularFile (f\<lparr>fd_durable := None\<rparr>)) else d
           | _ \<Rightarrow> d)"

section \<open>Lemmas\<close>

lemma tmp_path_differs [simp]: "tmp_path r suffix \<noteq> r" "r \<noteq> tmp_path r suffix"
  by (simp_all add: tmp_path_def)

text \<open>Where a write goes: the end of the links, or the path itself.\<close>

definition write_target :: "disk \<Rightarrow> string \<Rightarrow> string" where
  "write_target d p = (case d p of
      Some (SymbolicLink _) \<Rightarrow> (case real_path link_limit d p of None \<Rightarrow> p | Some r \<Rightarrow> r)
    | _ \<Rightarrow> p)"

lemma real_path_end: "real_path n d p = Some r \<Longrightarrow> d r \<noteq> None \<and> (\<nexists>q. d r = Some (SymbolicLink q))"
  by (induction n d p rule: real_path.induct) (auto split: option.splits file_node.splits)

definition published :: "write_job \<Rightarrow> disk \<Rightarrow> file_data" where
  "published job d =
     (let m = (case d (write_target d (wj_target job)) of Some (RegularFile f) \<Rightarrow> fd_mode f | _ \<Rightarrow> default_mode)
      in \<lparr>fd_content = wj_content job, fd_mode = m, fd_durable = Some (wj_content job, m)\<rparr>)"

text \<open>The state of the write relative to the disk it started on.\<close>

definition mode_of :: "disk \<Rightarrow> string \<Rightarrow> nat option" where
  "mode_of d r = (case d r of Some (RegularFile f) \<Rightarrow> Some (fd_mode f) | None \<Rightarrow> None | _ \<Rightarrow> Some 493)"

definition stage_ok :: "write_job \<Rightarrow> write_phase \<Rightarrow> nat option \<Rightarrow> file_data \<Rightarrow> bool" where
  "stage_ok job ph m f \<longleftrightarrow>
     (ph \<in> {AtChmod, AtSync, AtClose, AtRename} \<longrightarrow> fd_content f = wj_content job) \<and>
     (ph \<in> {AtSync, AtClose, AtRename} \<longrightarrow> m \<noteq> None \<longrightarrow> Some (fd_mode f) = m) \<and>
     (m = None \<longrightarrow> fd_mode f = default_mode) \<and>
     (ph \<in> {AtClose, AtRename} \<longrightarrow> fd_durable f = Some (fd_content f, fd_mode f))"

definition tmp_stage :: "write_job \<Rightarrow> disk \<Rightarrow> atomic_run \<Rightarrow> bool" where
  "tmp_stage job d s \<longleftrightarrow>
     ar_disk s = d(tmp_path (ar_real s) (wj_suffix job) \<mapsto> RegularFile (tmp_file job s)) \<and>
     stage_ok job (ar_phase s) (ar_mode s) (tmp_file job s) \<and> ar_real s = write_target d (wj_target job) \<and>
     (\<nexists>q. d (ar_real s) = Some (SymbolicLink q)) \<and> ar_mode s = mode_of d (ar_real s) \<and> ar_result s = None"

definition before_tmp :: "write_job \<Rightarrow> disk \<Rightarrow> atomic_run \<Rightarrow> bool" where
  "before_tmp job d s \<longleftrightarrow> ar_disk s = d \<and> ar_real s = write_target d (wj_target job) \<and> ar_result s = None \<and>
     \<not> ar_open s \<and> (\<nexists>q. d (ar_real s) = Some (SymbolicLink q))"

definition aw_inv :: "write_job \<Rightarrow> disk \<Rightarrow> atomic_run \<Rightarrow> bool" where
  "aw_inv job d s \<longleftrightarrow> (case ar_phase s of
      AtLstat \<Rightarrow> ar_disk s = d \<and> ar_real s = wj_target job \<and> ar_result s = None \<and> \<not> ar_open s
    | AtRealpath \<Rightarrow> ar_disk s = d \<and> ar_real s = wj_target job \<and> ar_result s = None \<and> \<not> ar_open s \<and>
        (\<exists>q. d (wj_target job) = Some (SymbolicLink q))
    | AtOpen \<Rightarrow> before_tmp job d s \<and> ar_mode s = mode_of d (ar_real s)
    | AtWrite \<Rightarrow> tmp_stage job d s \<and> ar_open s
    | AtChmod \<Rightarrow> tmp_stage job d s \<and> ar_open s \<and> ar_mode s \<noteq> None
    | AtSync \<Rightarrow> tmp_stage job d s \<and> ar_open s
    | AtClose \<Rightarrow> tmp_stage job d s \<and> ar_open s
    | AtRename \<Rightarrow> tmp_stage job d s \<and> \<not> ar_open s
    | CleanClose \<Rightarrow> tmp_stage job d s \<and> ar_failure s \<noteq> None
    | CleanUnlink \<Rightarrow> (before_tmp job d s \<or> tmp_stage job d s) \<and> ar_failure s \<noteq> None
    | Finished \<Rightarrow> (case ar_result s of
        None \<Rightarrow> False
      | Some (Inl _) \<Rightarrow> ar_disk s = d \<or> (\<exists>g. ar_disk s = d(tmp_path (write_target d (wj_target job)) (wj_suffix job) := g))
      | Some (Inr _) \<Rightarrow> ar_disk s = d(write_target d (wj_target job) \<mapsto> RegularFile (published job d),
            tmp_path (write_target d (wj_target job)) (wj_suffix job) := None) \<and>
          d (write_target d (wj_target job)) \<noteq> Some Directory \<and>
          (\<nexists>q. d (write_target d (wj_target job)) = Some (SymbolicLink q)))
    | _ \<Rightarrow> before_tmp job d s)"

lemma set_tmp_simps [simp]:
  "tmp_file job (set_tmp job f s) = f"
  "ar_phase (set_tmp job f s) = ar_phase s" "ar_real (set_tmp job f s) = ar_real s"
  "ar_mode (set_tmp job f s) = ar_mode s" "ar_open (set_tmp job f s) = ar_open s"
  "ar_failure (set_tmp job f s) = ar_failure s" "ar_result (set_tmp job f s) = ar_result s"
  "ar_disk (set_tmp job f s) = (ar_disk s)(tmp_path (ar_real s) (wj_suffix job) \<mapsto> RegularFile f)"
  by (simp_all add: set_tmp_def tmp_file_def)

lemma tmp_file_fields [simp]:
  "tmp_file job (s\<lparr>ar_phase := x\<rparr>) = tmp_file job s" "tmp_file job (s\<lparr>ar_open := b\<rparr>) = tmp_file job s"
  "tmp_file job (s\<lparr>ar_failure := y\<rparr>) = tmp_file job s" "tmp_file job (s\<lparr>ar_mode := m\<rparr>) = tmp_file job s"
  by (simp_all add: tmp_file_def)

lemma tmp_stage_fields [simp]:
  "tmp_stage job d (s\<lparr>ar_open := b\<rparr>) = tmp_stage job d s" "tmp_stage job d (s\<lparr>ar_failure := y\<rparr>) = tmp_stage job d s"
  by (simp_all add: tmp_stage_def)

text \<open>A step that rewrites the temporary file, or only moves on, stays within the stage.\<close>

lemma tmp_stage_set:
  assumes "tmp_stage job d s" and "stage_ok job ph (ar_mode s) f"
  shows "tmp_stage job d (set_tmp job f (s\<lparr>ar_phase := ph\<rparr>))"
  using assms by (auto simp: tmp_stage_def)

lemma tmp_stage_move:
  assumes "tmp_stage job d s" and "stage_ok job ph (ar_mode s) (tmp_file job s)"
  shows "tmp_stage job d (s\<lparr>ar_phase := ph\<rparr>)"
  using assms by (auto simp: tmp_stage_def)

lemma stage_ok_cleaning: "stage_ok job ph m f \<Longrightarrow> stage_ok job CleanClose m f \<and> stage_ok job CleanUnlink m f"
  by (simp add: stage_ok_def)

lemma stage_of: "tmp_stage job d s \<Longrightarrow> stage_ok job (ar_phase s) (ar_mode s) (tmp_file job s)"
  unfolding tmp_stage_def by blast

lemma clean_up_inv:
  assumes "tmp_stage job d s"
  shows "aw_inv job d (clean_up e s)"
proof -
  have "tmp_stage job d (s\<lparr>ar_phase := ph\<rparr>)" if "ph = CleanClose \<or> ph = CleanUnlink" for ph
    using assms that stage_ok_cleaning [OF stage_of [OF assms]] by (auto intro: tmp_stage_move)
  from this [of CleanClose] this [of CleanUnlink] show ?thesis by (simp add: clean_up_def aw_inv_def)
qed

lemma give_up_inv: "ar_disk s = d \<Longrightarrow> aw_inv job d (give_up e s)"
  by (simp add: give_up_def aw_inv_def)

lemma wrote_inv:
  assumes "tmp_stage job d s" and "ar_open s"
  shows "aw_inv job d (wrote job n s)"
proof -
  have "tmp_stage job d (wrote job n s)" unfolding wrote_def
    by (rule tmp_stage_set [OF assms(1)]) (use stage_of [OF assms(1)] in \<open>simp add: stage_ok_def\<close>)
  moreover have "ar_phase (wrote job n s) = AtWrite \<or> ar_phase (wrote job n s) = AtSync \<or>
      ar_phase (wrote job n s) = AtChmod \<and> ar_mode (wrote job n s) \<noteq> None" and "ar_open (wrote job n s)"
    using assms(2) by (simp_all add: wrote_def)
  ultimately show ?thesis by (auto simp: aw_inv_def)
qed

lemma publish_inv:
  assumes "tmp_stage job d s" and "ar_phase s = AtRename"
  shows "aw_inv job d (publish job s)"
proof (cases "ar_disk s (ar_real s) = Some Directory")
  case True
  then show ?thesis using clean_up_inv [OF assms(1)] by (simp add: publish_def Let_def)
next
  case False
  let ?t = "tmp_path (ar_real s) (wj_suffix job)" and ?g = "tmp_file job s"
  from assms have g: "ar_disk s = d(?t \<mapsto> RegularFile ?g)" and r: "ar_real s = write_target d (wj_target job)"
    and link: "\<nexists>q. d (ar_real s) = Some (SymbolicLink q)" and m: "ar_mode s = mode_of d (ar_real s)"
    and ok: "stage_ok job AtRename (ar_mode s) ?g" by (auto simp: tmp_stage_def)
  have nodir: "d (ar_real s) \<noteq> Some Directory" using False g by simp
  have mode: "fd_mode ?g = fd_mode (published job d)"
  proof (cases "d (ar_real s)")
    case None
    then show ?thesis using ok m by (simp add: stage_ok_def published_def mode_of_def Let_def flip: r)
  next
    case (Some n)
    with nodir link obtain f where "n = RegularFile f" by (cases n) auto
    then show ?thesis using ok m Some by (simp add: stage_ok_def published_def mode_of_def Let_def flip: r)
  qed
  have "?g = published job d"
    using ok mode by (intro file_data.equality) (simp_all add: stage_ok_def published_def Let_def)
  then have "ar_disk s = d(?t \<mapsto> RegularFile (published job d))" using g by simp
  then show ?thesis using False nodir link unfolding r
    by (simp add: publish_def Let_def aw_inv_def r fun_upd_twist)
qed

lemma early_inv:
  assumes "ar_disk s = d" and "ar_phase s = AtLstat \<or> ar_phase s = AtRealpath" and "aw_inv job d s"
  shows "aw_inv job d (find_link job s)" "ar_phase s = AtRealpath \<Longrightarrow> aw_inv job d (follow_link job s)"
proof -
  show "aw_inv job d (find_link job s)"
    using assms by (auto simp: find_link_def aw_inv_def before_tmp_def write_target_def
        split: option.splits file_node.splits)
  show "ar_phase s = AtRealpath \<Longrightarrow> aw_inv job d (follow_link job s)"
    using assms by (auto simp: follow_link_def aw_inv_def before_tmp_def write_target_def give_up_def
        split: option.splits dest: real_path_end)
qed

lemma aw_step_inv:
  assumes "aw_inv job d s"
  shows "aw_inv job d (aw_step job out s)"
proof (cases "ar_phase s")
  case AtLstat
  then have "ar_disk s = d" using assms by (simp add: aw_inv_def)
  then show ?thesis using AtLstat early_inv(1) [OF _ _ assms] by (cases out) (simp_all add: aw_step_def give_up_inv)
next
  case AtRealpath
  then have "ar_disk s = d" using assms by (simp add: aw_inv_def)
  then show ?thesis using AtRealpath early_inv(2) [OF _ _ assms] by (cases out) (simp_all add: aw_step_def give_up_inv)
next
  case AtLinkStat
  then have b: "before_tmp job d s" "ar_disk s = d" using assms by (auto simp: aw_inv_def before_tmp_def)
  then have "aw_inv job d (check_link s)"
    by (auto simp: check_link_def aw_inv_def before_tmp_def give_up_def split: option.splits file_node.splits)
  then show ?thesis using AtLinkStat b(2) by (cases out) (simp_all add: aw_step_def give_up_inv)
next
  case AtMkdir
  then have b: "before_tmp job d s" "ar_disk s = d" using assms by (auto simp: aw_inv_def before_tmp_def)
  then have "aw_inv job d (s\<lparr>ar_phase := AtStat\<rparr>)" by (auto simp: aw_inv_def before_tmp_def)
  then show ?thesis using AtMkdir b(2) by (cases out) (simp_all add: aw_step_def give_up_inv)
next
  case AtStat
  then have b: "before_tmp job d s" "ar_disk s = d" using assms by (auto simp: aw_inv_def before_tmp_def)
  then have "aw_inv job d (capture_mode s)" by (auto simp: aw_inv_def before_tmp_def capture_mode_def mode_of_def)
  then show ?thesis using AtStat b(2) by (cases out) (simp_all add: aw_step_def give_up_inv)
next
  case AtOpen
  then have b: "before_tmp job d s" "ar_mode s = mode_of d (ar_real s)" using assms by (simp_all add: aw_inv_def)
  then have "aw_inv job d (open_tmp job s)"
    by (auto simp: open_tmp_def aw_inv_def tmp_stage_def before_tmp_def stage_ok_def)
  moreover have "aw_inv job d (clean_up e s)" for e using b(1) by (auto simp: clean_up_def aw_inv_def before_tmp_def)
  ultimately show ?thesis using AtOpen by (cases out) (simp_all add: aw_step_def)
next
  case AtWrite
  then have "tmp_stage job d s" "ar_open s" using assms by (simp_all add: aw_inv_def)
  then show ?thesis using AtWrite by (cases out) (simp_all add: aw_step_def clean_up_inv wrote_inv)
next
  case AtChmod
  then have stage: "tmp_stage job d s" "ar_open s" "ar_mode s \<noteq> None" using assms by (simp_all add: aw_inv_def)
  have "tmp_stage job d (set_tmp job ((tmp_file job s)\<lparr>fd_mode := the (ar_mode s)\<rparr>) (s\<lparr>ar_phase := AtSync\<rparr>))"
    by (rule tmp_stage_set [OF stage(1)]) (use stage_of [OF stage(1)] AtChmod stage(3) in \<open>auto simp: stage_ok_def\<close>)
  then have "aw_inv job d (set_tmp job ((tmp_file job s)\<lparr>fd_mode := the (ar_mode s)\<rparr>) (s\<lparr>ar_phase := AtSync\<rparr>))"
    using stage(2) by (simp add: aw_inv_def)
  then show ?thesis using AtChmod stage(1) by (cases out) (simp_all add: aw_step_def clean_up_inv)
next
  case AtSync
  then have stage: "tmp_stage job d s" "ar_open s" using assms by (simp_all add: aw_inv_def)
  have "tmp_stage job d (sync_tmp job s)" unfolding sync_tmp_def
    by (rule tmp_stage_set [OF stage(1)]) (use stage_of [OF stage(1)] AtSync in \<open>simp add: stage_ok_def\<close>)
  then have "aw_inv job d (sync_tmp job s)" using stage(2) by (simp add: aw_inv_def sync_tmp_def)
  then show ?thesis using AtSync stage(1) by (cases out) (simp_all add: aw_step_def clean_up_inv)
next
  case AtClose
  then have stage: "tmp_stage job d s" "ar_open s" using assms by (simp_all add: aw_inv_def)
  have "tmp_stage job d (s\<lparr>ar_open := False, ar_phase := AtRename\<rparr>)"
    by (rule tmp_stage_move) (use stage_of [OF stage(1)] stage(1) AtClose in \<open>simp_all add: stage_ok_def\<close>)
  then have "aw_inv job d (s\<lparr>ar_open := False, ar_phase := AtRename\<rparr>)" by (simp add: aw_inv_def)
  then show ?thesis using AtClose stage(1) by (cases out) (simp_all add: aw_step_def clean_up_inv)
next
  case AtRename
  then have "tmp_stage job d s" using assms by (simp add: aw_inv_def)
  then show ?thesis using AtRename by (cases out) (simp_all add: aw_step_def clean_up_inv publish_inv)
next
  case CleanClose
  then have stage: "tmp_stage job d s" "ar_failure s \<noteq> None" using assms by (simp_all add: aw_inv_def)
  have "tmp_stage job d (s\<lparr>ar_open := False, ar_phase := CleanUnlink\<rparr>)"
    using stage_ok_cleaning [OF stage_of [OF stage(1)]] stage(1) by (intro tmp_stage_move) simp_all
  then show ?thesis using CleanClose stage(2) by (simp add: aw_step_def aw_inv_def)
next
  case CleanUnlink
  then have "ar_failure s \<noteq> None" and r: "ar_real s = write_target d (wj_target job)"
    and "ar_disk s = d \<or> (\<exists>g. ar_disk s = d(tmp_path (ar_real s) (wj_suffix job) := g))"
    using assms by (auto simp: aw_inv_def tmp_stage_def before_tmp_def)
  then show ?thesis using CleanUnlink by (auto simp: aw_step_def aw_inv_def remove_tmp_def)
next
  case Finished
  then show ?thesis using assms by (simp add: aw_step_def)
qed

text \<open>The write is a system with this invariant.\<close>

interpretation write_system: invariant_system "aw_step job" "aw_inv job d" for job d
  by unfold_locales (rule aw_step_inv)

lemma run_write_inv: "aw_inv job d (run_write job outs d)"
  unfolding run_write_def by (rule write_system.run_inv) (simp add: aw_start_def aw_inv_def)

text \<open>A run ends: every call moves it on, and every part that is written is at least one character.\<close>

definition write_rank :: "write_job \<Rightarrow> atomic_run \<Rightarrow> nat" where
  "write_rank job s = (case ar_phase s of
      AtLstat \<Rightarrow> 13 + length (wj_content job) | AtRealpath \<Rightarrow> 12 + length (wj_content job)
    | AtLinkStat \<Rightarrow> 11 + length (wj_content job) | AtMkdir \<Rightarrow> 10 + length (wj_content job)
    | AtStat \<Rightarrow> 9 + length (wj_content job) | AtOpen \<Rightarrow> 8 + length (wj_content job)
    | AtWrite \<Rightarrow> 7 + (length (wj_content job) - length (fd_content (tmp_file job s)))
    | AtChmod \<Rightarrow> 6 | AtSync \<Rightarrow> 5 | AtClose \<Rightarrow> 4 | AtRename \<Rightarrow> 3 | CleanClose \<Rightarrow> 2 | CleanUnlink \<Rightarrow> 1 | Finished \<Rightarrow> 0)"

lemma clean_up_phase [simp]: "ar_phase (clean_up e s) = (if ar_open s then CleanClose else CleanUnlink)"
  by (simp add: clean_up_def)

lemma give_up_phase [simp]: "ar_phase (give_up e s) = Finished"
  by (simp add: give_up_def)

lemma wrote_rank:
  assumes "ar_phase s = AtWrite" and "length (fd_content (tmp_file job s)) < n \<or> n = length (wj_content job)"
  shows "write_rank job (wrote job n s) < write_rank job s"
  using assms by (auto simp: wrote_def write_rank_def)

lemma early_rank:
  "ar_phase s = AtLstat \<Longrightarrow> write_rank job (find_link job s) < write_rank job s"
  "ar_phase s = AtRealpath \<Longrightarrow> write_rank job (follow_link job s) < write_rank job s"
  "ar_phase s = AtLinkStat \<Longrightarrow> write_rank job (check_link s) < write_rank job s"
  "ar_phase s = AtRename \<Longrightarrow> write_rank job (publish job s) < write_rank job s"
  by (auto simp: find_link_def follow_link_def check_link_def publish_def Let_def write_rank_def
      split: option.splits file_node.splits)

lemma aw_step_rank:
  assumes "ar_phase s \<noteq> Finished" and "out \<noteq> Wrote 0"
  shows "write_rank job (aw_step job out s) < write_rank job s"
proof (cases "ar_phase s")
  case AtWrite
  then have "write_rank job (clean_up e s) < write_rank job s" for e by (simp add: write_rank_def)
  with AtWrite wrote_rank [OF AtWrite, of job] assms(2) show ?thesis
    by (cases out) (simp_all add: aw_step_def)
next
  case AtLstat
  then show ?thesis using early_rank(1) [of s job] by (cases out) (simp_all add: aw_step_def write_rank_def)
next
  case AtRealpath
  then show ?thesis using early_rank(2) [of s job] by (cases out) (simp_all add: aw_step_def write_rank_def)
next
  case AtLinkStat
  then show ?thesis using early_rank(3) [of s job] by (cases out) (simp_all add: aw_step_def write_rank_def)
next
  case AtRename
  then show ?thesis using early_rank(4) [of s job] by (cases out) (simp_all add: aw_step_def write_rank_def)
qed (use assms in \<open>cases out; simp add: aw_step_def write_rank_def capture_mode_def open_tmp_def sync_tmp_def remove_tmp_def\<close>)+

lemma finished_stays: "ar_phase s = Finished \<Longrightarrow> fold (aw_step job) outs s = s"
  by (induction outs) (simp_all add: aw_step_def)

lemma run_finishes:
  "list_all (\<lambda>out. out \<noteq> Wrote 0) outs \<Longrightarrow> write_rank job s \<le> length outs \<Longrightarrow>
     ar_phase (fold (aw_step job) outs s) = Finished"
proof (induction outs arbitrary: s)
  case Nil
  then show ?case by (auto simp: write_rank_def split: write_phase.splits)
next
  case (Cons out outs)
  show ?case
  proof (cases "ar_phase s = Finished")
    case True
    then show ?thesis using finished_stays [of s job "out # outs"] by simp
  next
    case False
    then show ?thesis using Cons aw_step_rank [of s out job] by simp
  qed
qed

lemma real_path_published:
  "real_path n d p = Some r \<Longrightarrow> d t = None \<Longrightarrow> real_path n (d(r \<mapsto> RegularFile f, t := None)) p = Some r"
proof (induction n d p rule: real_path.induct)
  case (2 n d p)
  then have end_: "d r \<noteq> None" "\<nexists>q. d r = Some (SymbolicLink q)" using real_path_end by blast+
  then have t: "t \<noteq> r" using 2(3) by auto
  show ?case
  proof (cases "p = r")
    case True
    then show ?thesis using t by simp
  next
    case False
    with 2 t show ?thesis by (auto split: option.splits file_node.splits)
  qed
qed simp

lemma read_back:
  assumes "d t = None" and "t \<noteq> write_target d p"
    and "write_target d p \<noteq> p \<or> (\<nexists>q. d p = Some (SymbolicLink q))"
  shows "read_file (d(write_target d p \<mapsto> RegularFile f, t := None)) p = Some (fd_content f)"
proof -
  let ?d = "d(write_target d p \<mapsto> RegularFile f, t := None)" and ?r = "write_target d p"
  have limit: "link_limit = Suc 39" by (simp add: link_limit_def)
  have "real_path link_limit ?d p = Some ?r"
  proof (cases "\<exists>q. d p = Some (SymbolicLink q)")
    case True
    then have "real_path link_limit d p = Some ?r"
      using assms(3) by (auto simp: write_target_def split: option.splits)
    then show ?thesis using real_path_published assms(1) by blast
  next
    case False
    then have "?r = p" by (auto simp: write_target_def split: option.splits file_node.splits)
    then show ?thesis using assms(2) by (simp only: limit real_path.simps) simp
  qed
  then show ?thesis using assms(2) by (simp add: read_file_def read_node_def)
qed

text \<open>How a run stands, by its result.\<close>

lemma run_write_cases:
  fixes job outs d
  defines "s \<equiv> run_write job outs d" and "r \<equiv> write_target d (wj_target job)"
  defines "t \<equiv> tmp_path r (wj_suffix job)"
  shows "case ar_result s of
      Some (Inr _) \<Rightarrow> ar_disk s = d(r \<mapsto> RegularFile (published job d), t := None) \<and>
        d r \<noteq> Some Directory \<and> (\<nexists>q. d r = Some (SymbolicLink q))
    | _ \<Rightarrow> ar_disk s = d \<or> (\<exists>g. ar_disk s = d(t := g))"
proof -
  have inv: "aw_inv job d s" unfolding s_def by (rule run_write_inv)
  have "ar_result s = None \<and> (ar_disk s = d \<or> (\<exists>g. ar_disk s = d(t := g)))" if "ar_phase s \<noteq> Finished"
    using inv that by (cases "ar_phase s") (auto simp: aw_inv_def tmp_stage_def before_tmp_def r_def t_def)
  moreover have ?thesis if "ar_phase s = Finished"
    using inv that by (auto simp: aw_inv_def r_def t_def split: option.splits sum.splits)
  ultimately show ?thesis by (cases "ar_phase s = Finished") auto
qed

section \<open>Properties\<close>

text \<open>
  (C12) A write is all or nothing. Whatever calls fail, and wherever the run is stopped: every path but the
  temporary one is as before or, where the write goes, holds the whole new content under the old mode; the
  same holds for what survives a loss of power. A run that has reported success has put the content where
  readers of the target find it and left no temporary file; before that, and after a failure, the disk is
  as it was but for the temporary file.
\<close>

theorem write_is_atomic:
  fixes job outs d
  defines "s \<equiv> run_write job outs d" and "r \<equiv> write_target d (wj_target job)"
  assumes "p \<noteq> tmp_path r (wj_suffix job)" and "d (tmp_path r (wj_suffix job)) = None"
  shows "(ar_disk s p = d p \<or> p = r \<and> ar_disk s p = Some (RegularFile (published job d))) \<and>
    (crashed (ar_disk s) p = crashed d p \<or> p = r \<and> crashed (ar_disk s) p = Some (RegularFile (published job d))) \<and>
    (case ar_result s of
       Some (Inr _) \<Rightarrow> read_file (ar_disk s) (wj_target job) = Some (wj_content job) \<and>
         ar_disk s (tmp_path r (wj_suffix job)) = None
     | _ \<Rightarrow> ar_disk s p = d p)"
proof -
  let ?t = "tmp_path r (wj_suffix job)"
  note cases = run_write_cases [of job outs d, folded s_def r_def]
  have whole: "crashed_node (RegularFile (published job d)) = RegularFile (published job d)"
    by (simp add: crashed_node_def published_def Let_def)
  show ?thesis
  proof (cases "\<exists>u. ar_result s = Some (Inr u)")
    case True
    with cases have disk: "ar_disk s = d(r \<mapsto> RegularFile (published job d), ?t := None)"
      and link: "\<nexists>q. d r = Some (SymbolicLink q)" by auto
    have "read_file (ar_disk s) (wj_target job) = Some (fd_content (published job d))"
      unfolding disk r_def by (rule read_back) (use assms(4) link in \<open>auto simp: r_def\<close>)
    moreover have "fd_content (published job d) = wj_content job" by (simp add: published_def Let_def)
    ultimately show ?thesis using True disk assms(3) by (auto simp: crashed_def whole)
  next
    case False
    with cases have "ar_disk s p = d p" using assms(3)
      by (cases "ar_result s") (auto split: sum.splits)
    then show ?thesis using False by (auto simp: crashed_def split: option.splits sum.splits)
  qed
qed

definition sample_disk :: disk where
  "sample_disk = [''/p/run.sh'' \<mapsto> RegularFile \<lparr>fd_content = ''old'', fd_mode = 493, fd_durable = Some (''old'', 493)\<rparr>,
     ''/p/link'' \<mapsto> SymbolicLink ''/p/run.sh'']"

definition sample_job :: write_job where
  "sample_job = \<lparr>wj_target = ''/p/link'', wj_content = ''new'', wj_suffix = ''1''\<rparr>"

theorem write_is_atomic_witness:
  "read_file (ar_disk (run_write sample_job (replicate 12 Works) sample_disk)) ''/p/link'' = Some ''new'' \<and>
   ar_disk (run_write sample_job (replicate 12 Works) sample_disk) ''/p/link'' = Some (SymbolicLink ''/p/run.sh'') \<and>
   ar_disk (run_write sample_job (replicate 9 Works @ [Fails ''EIO'', Works, Works]) sample_disk) ''/p/run.sh'' =
     sample_disk ''/p/run.sh''"
proof -
  have r: "write_target sample_disk (wj_target sample_job) = ''/p/run.sh''"
    by (simp add: write_target_def sample_disk_def sample_job_def link_limit_def eval_nat_numeral)
  have t: "tmp_path ''/p/run.sh'' (wj_suffix sample_job) = ''/p/run.sh.tmp.1''" by (simp add: tmp_path_def sample_job_def)
  have fresh: "sample_disk ''/p/run.sh.tmp.1'' = None" by (simp add: sample_disk_def)
  note atomic = write_is_atomic [where job = sample_job and d = sample_disk, unfolded r t, OF _ fresh]
  have ok: "ar_result (run_write sample_job (replicate 12 Works) sample_disk) = Some (Inr ())"
    by code_simp
  have bad: "ar_result (run_write sample_job (replicate 9 Works @ [Fails ''EIO'', Works, Works]) sample_disk) =
      Some (Inl (SystemError ''EIO''))"
    by code_simp
  from atomic [of "''/p/link''" "replicate 12 Works"] ok
  have "read_file (ar_disk (run_write sample_job (replicate 12 Works) sample_disk)) ''/p/link'' = Some ''new''"
    "ar_disk (run_write sample_job (replicate 12 Works) sample_disk) ''/p/link'' = sample_disk ''/p/link''"
    by (simp_all add: sample_job_def)
  moreover from atomic [of "''/p/run.sh''" "replicate 9 Works @ [Fails ''EIO'', Works, Works]"] bad
  have "ar_disk (run_write sample_job (replicate 9 Works @ [Fails ''EIO'', Works, Works]) sample_disk) ''/p/run.sh'' =
     sample_disk ''/p/run.sh''" by simp
  ultimately show ?thesis by (simp add: sample_disk_def)
qed

text \<open>
  (C40) A write ends, with a result, after at most 13 calls and one for each character, as long as every
  part that is written is not empty.
\<close>

theorem write_ends:
  assumes "list_all (\<lambda>out. out \<noteq> Wrote 0) outs" and "13 + length (wj_content job) \<le> length outs"
  shows "ar_phase (run_write job outs d) = Finished \<and> ar_result (run_write job outs d) \<noteq> None"
proof -
  have "ar_phase (run_write job outs d) = Finished"
    unfolding run_write_def using assms by (intro run_finishes) (simp_all add: write_rank_def aw_start_def)
  then show ?thesis using run_write_inv [of job d outs] by (auto simp: aw_inv_def split: option.splits)
qed

theorem write_ends_witness:
  "ar_result (run_write sample_job (replicate 16 (Wrote 1)) sample_disk) \<noteq> None"
  using write_ends [of "replicate 16 (Wrote 1)" sample_job sample_disk]
  by (simp add: sample_job_def list_all_iff)

text \<open>The first copy of a broken store stays, whatever is broken later.\<close>

lemma first_corruption_wins:
  assumes "file_exists d (p @ ''.corrupt'')"
  shows "preserve_corrupt_file works p d = d"
  using assms by (simp add: preserve_corrupt_file_def Let_def)

end
