(* ===== verification/Transactions.thy ===== *)
theory Transactions
  imports AtomicFiles
begin

text \<open>
  Transactions over files: \<open>src/src/core/atomicTransaction.ts\<close>.

  A world is a disk and the fate of every system call to come: the call with number \<open>n\<close> fails with an
  error or does what it can. The transaction keeps its snapshots in the order they were taken. Every
  operation is the sequence of calls of the source; a write is the machine of \<open>AtomicFiles\<close>.
\<close>

section \<open>System calls\<close>

record world =
  w_disk :: disk
  w_fails :: "nat \<Rightarrow> string option"
  w_calls :: nat

definition sys_call :: "(disk \<Rightarrow> string + disk) \<Rightarrow> world \<Rightarrow> (string + unit) \<times> world" where
  "sys_call f w =
     (let w1 = w\<lparr>w_calls := Suc (w_calls w)\<rparr> in
      case w_fails w (w_calls w) of
        Some e \<Rightarrow> (Inl e, w1)
      | None \<Rightarrow> (case f (w_disk w) of Inl e \<Rightarrow> (Inl e, w1) | Inr d \<Rightarrow> (Inr (), w1\<lparr>w_disk := d\<rparr>)))"

definition copy_file :: "string \<Rightarrow> string \<Rightarrow> disk \<Rightarrow> string + disk" where
  "copy_file src dst d = (case read_node d src of
      Some (RegularFile f) \<Rightarrow> Inr (d(dst \<mapsto> RegularFile (f\<lparr>fd_durable := None\<rparr>)))
    | Some _ \<Rightarrow> Inl ''EISDIR''
    | None \<Rightarrow> Inl ''ENOENT'')"

definition unlink_file :: "string \<Rightarrow> disk \<Rightarrow> string + disk" where
  "unlink_file p d = (case d p of
      None \<Rightarrow> Inl ''ENOENT''
    | Some Directory \<Rightarrow> Inl ''EPERM''
    | Some _ \<Rightarrow> Inr (d(p := None)))"

definition rename_file :: "string \<Rightarrow> string \<Rightarrow> disk \<Rightarrow> string + disk" where
  "rename_file p q d = (case d p of
      None \<Rightarrow> Inl ''ENOENT''
    | Some n \<Rightarrow> if d q = Some Directory then Inl ''EISDIR'' else Inr (d(q \<mapsto> n, p := None)))"

definition write_error_text :: "write_error \<Rightarrow> string" where
  "write_error_text e = (case e of
      SystemError m \<Rightarrow> m
    | BrokenLink m \<Rightarrow> ''atomicWrite: target is a broken symlink ('' @ m @ '')''
    | LinkToDirectory \<Rightarrow> ''atomicWrite: target is a symlink to a directory'')"

text \<open>The outcomes of the calls of a write, whose temporary file is named after the first of them.\<close>

definition outcomes :: "(nat \<Rightarrow> string option) \<Rightarrow> nat \<Rightarrow> nat \<Rightarrow> call_outcome list" where
  "outcomes fails k n = map (\<lambda>i. case fails i of None \<Rightarrow> Works | Some e \<Rightarrow> Fails e) [k..<k + n]"

definition atomic_write :: "string \<Rightarrow> string \<Rightarrow> world \<Rightarrow> (string + unit) \<times> world" where
  "atomic_write p content w =
     (let job = \<lparr>wj_target = p, wj_content = content, wj_suffix = show_nat (w_calls w)\<rparr>;
          n = 13 + length content;
          s = run_write job (outcomes (w_fails w) (w_calls w) n) (w_disk w)
      in (case ar_result s of Some (Inl e) \<Rightarrow> Inl (write_error_text e) | _ \<Rightarrow> Inr (),
          w\<lparr>w_disk := ar_disk s, w_calls := w_calls w + n\<rparr>))"

section \<open>The transaction\<close>

record txn_mutation =
  tm_file :: string
  tm_content :: string

record txn_result =
  tr_ok :: bool
  tr_mutations :: nat
  tr_rolled_back :: bool
  tr_error :: "string option"

record txn_snapshot =
  ts_file :: string
  ts_backup :: string

record transaction =
  tx_id :: string
  tx_snapshots :: "(string, txn_snapshot) jsmap"
  tx_committed :: bool
  tx_rolled_back :: bool

definition new_transaction :: "string \<Rightarrow> transaction" where
  "new_transaction i = \<lparr>tx_id = i, tx_snapshots = [], tx_committed = False, tx_rolled_back = False\<rparr>"

definition backup_path :: "string \<Rightarrow> string \<Rightarrow> string" where
  "backup_path i p = p @ ''.txn.'' @ i @ ''.bak''"

definition finalised :: "transaction \<Rightarrow> string" where
  "finalised t = ''Transaction '' @ tx_id t @ '' already finalised''"

definition take_snapshot :: "string \<Rightarrow> transaction \<times> world \<Rightarrow> (string + unit) \<times> transaction \<times> world" where
  "take_snapshot p tw =
     (let (t, w) = tw; b = backup_path (tx_id t) p;
          keep = (\<lambda>backup. t\<lparr>tx_snapshots := jm_set p \<lparr>ts_file = p, ts_backup = backup\<rparr> (tx_snapshots t)\<rparr>)
      in if tx_committed t \<or> tx_rolled_back t then (Inl (finalised t), t, w)
         else if jm_has (tx_snapshots t) p then (Inr (), t, w)
         else if \<not> file_exists (w_disk w) p then (Inr (), keep [], w)
         else case sys_call (copy_file p b) w of
             (Inl e, w1) \<Rightarrow> (Inl (''Transaction '' @ tx_id t @ '': failed to snapshot '' @ p @ '': '' @ e), t, w1)
           | (Inr _, w1) \<Rightarrow> (Inr (), keep b, w1))"

definition mutate :: "string \<Rightarrow> string \<Rightarrow> transaction \<times> world \<Rightarrow> (string + unit) \<times> transaction \<times> world" where
  "mutate p content tw =
     (if tx_committed (fst tw) \<or> tx_rolled_back (fst tw) then (Inl (finalised (fst tw)), tw)
      else case take_snapshot p tw of
          (Inl e, tw1) \<Rightarrow> (Inl e, tw1)
        | (Inr _, t, w1) \<Rightarrow> (case atomic_write p content w1 of (r, w2) \<Rightarrow> (r, t, w2)))"

definition restore_one :: "txn_snapshot \<Rightarrow> world \<Rightarrow> (string + unit) \<times> world" where
  "restore_one snap w =
     (if ts_backup snap = []
      then if file_exists (w_disk w) (ts_file snap) then sys_call (unlink_file (ts_file snap)) w else (Inr (), w)
      else sys_call (rename_file (ts_backup snap) (ts_file snap)) w)"

text \<open>The batch up to its first error, with the mutations that were applied, the last one first.\<close>

fun apply_mutations ::
  "txn_mutation list \<Rightarrow> txn_mutation list \<Rightarrow> transaction \<times> world \<Rightarrow>
     string option \<times> txn_mutation list \<times> transaction \<times> world" where
  "apply_mutations [] applied tw = (None, applied, tw)"
| "apply_mutations (m # ms) applied tw = (case mutate (tm_file m) (tm_content m) tw of
      (Inl e, tw1) \<Rightarrow> (Some e, applied, tw1)
    | (Inr _, tw1) \<Rightarrow> apply_mutations ms (m # applied) tw1)"

definition restore_applied :: "transaction \<Rightarrow> txn_mutation list \<Rightarrow> world \<Rightarrow> world" where
  "restore_applied t applied w = fold (\<lambda>m w. case jm_get (tx_snapshots t) (tm_file m) of
      None \<Rightarrow> w
    | Some snap \<Rightarrow> snd (restore_one snap w)) applied w"

definition mutate_all :: "txn_mutation list \<Rightarrow> transaction \<times> world \<Rightarrow> string option \<times> transaction \<times> world" where
  "mutate_all ms tw = (case apply_mutations ms [] tw of
      (None, _, tw1) \<Rightarrow> (None, tw1)
    | (Some e, applied, t, w1) \<Rightarrow> (Some e, t, restore_applied t applied w1))"

fun remove_backups :: "txn_snapshot list \<Rightarrow> world \<Rightarrow> string list \<times> world" where
  "remove_backups [] w = ([], w)"
| "remove_backups (s # ss) w =
     (if ts_backup s = [] then remove_backups ss w
      else case sys_call (unlink_file (ts_backup s)) w of
          (Inl e, w1) \<Rightarrow> (let (es, w2) = remove_backups ss w1 in ((ts_backup s @ '': '' @ e) # es, w2))
        | (Inr _, w1) \<Rightarrow> remove_backups ss w1)"

definition commit :: "transaction \<times> world \<Rightarrow> txn_result \<times> transaction \<times> world" where
  "commit tw =
     (let (t, w) = tw in
      if tx_committed t
      then (\<lparr>tr_ok = False, tr_mutations = 0, tr_rolled_back = False, tr_error = Some ''Already committed''\<rparr>, t, w)
      else if tx_rolled_back t
      then (\<lparr>tr_ok = False, tr_mutations = 0, tr_rolled_back = True, tr_error = Some ''Already rolled back''\<rparr>, t, w)
      else let (es, w1) = remove_backups (jm_values (tx_snapshots t)) w
           in (\<lparr>tr_ok = (es = []), tr_mutations = length (tx_snapshots t), tr_rolled_back = False,
                tr_error = (if es = [] then None else Some (join_with ''; '' es))\<rparr>,
               t\<lparr>tx_committed := True, tx_snapshots := []\<rparr>, w1))"

fun restore_all :: "txn_snapshot list \<Rightarrow> world \<Rightarrow> nat \<times> string list \<times> world" where
  "restore_all [] w = (0, [], w)"
| "restore_all (s # ss) w = (case restore_one s w of
      (Inl e, w1) \<Rightarrow> (let (n, es, w2) = restore_all ss w1 in (n, (ts_file s @ '': '' @ e) # es, w2))
    | (Inr _, w1) \<Rightarrow> (let (n, es, w2) = restore_all ss w1 in (Suc n, es, w2)))"

definition rollback :: "transaction \<times> world \<Rightarrow> txn_result \<times> transaction \<times> world" where
  "rollback tw =
     (let (t, w) = tw in
      if tx_committed t
      then (\<lparr>tr_ok = False, tr_mutations = 0, tr_rolled_back = False, tr_error = Some ''Already committed''\<rparr>, t, w)
      else let (n, es, w1) = restore_all (jm_values (tx_snapshots t)) w
           in (\<lparr>tr_ok = (es = []), tr_mutations = n, tr_rolled_back = True,
                tr_error = (if es = [] then None else Some (join_with ''; '' es))\<rparr>,
               t\<lparr>tx_rolled_back := True, tx_snapshots := []\<rparr>, w1))"

definition abort :: "transaction \<times> world \<Rightarrow> txn_result \<times> transaction \<times> world" where
  "abort tw =
     (let (t, w) = tw in
      if tx_rolled_back t \<or> tx_committed t
      then (\<lparr>tr_ok = True, tr_mutations = 0, tr_rolled_back = tx_rolled_back t, tr_error = None\<rparr>,
            t\<lparr>tx_snapshots := []\<rparr>, snd (remove_backups (jm_values (tx_snapshots t)) w))
      else rollback tw)"

definition file_count :: "transaction \<Rightarrow> nat" where
  "file_count t = length (tx_snapshots t)"

definition atomic_edit :: "string \<Rightarrow> txn_mutation list \<Rightarrow> world \<Rightarrow> txn_result \<times> world" where
  "atomic_edit i ms w =
     (case mutate_all ms (new_transaction i, w) of
        (None, tw) \<Rightarrow> (let (r, _, w1) = commit tw in (r, w1))
      | (Some e, tw) \<Rightarrow> (let (rb, _, w1) = rollback tw
          in (\<lparr>tr_ok = False, tr_mutations = 0, tr_rolled_back = True,
               tr_error = Some (e @ ''; rollback: '' @ show_nat (tr_mutations rb) @ '' files restored'')\<rparr>, w1)))"

section \<open>Lemmas on writes\<close>

definition failed_call :: "call_outcome \<Rightarrow> bool" where
  "failed_call out = (case out of Fails _ \<Rightarrow> True | _ \<Rightarrow> False)"

definition cleaning :: "atomic_run \<Rightarrow> bool" where
  "cleaning s \<longleftrightarrow> ar_phase s = CleanClose \<or> ar_phase s = CleanUnlink"

lemma publish_phase:
  "aw_inv job d s \<Longrightarrow> ar_phase s = AtRename \<Longrightarrow> d (write_target d (wj_target job)) \<noteq> Some Directory \<Longrightarrow>
     ar_phase (publish job s) = Finished \<and> ar_result (publish job s) = Some (Inr ())"
  by (auto simp: aw_inv_def tmp_stage_def publish_def Let_def)

lemma cleaning_after_failure:
  assumes "aw_inv job d s" and "d (write_target d (wj_target job)) \<noteq> Some Directory" and "cleaning (aw_step job out s)"
  shows "cleaning s \<or> failed_call out"
proof (cases "ar_phase s")
  case AtRename
  then show ?thesis using assms publish_phase [OF assms(1) AtRename assms(2)]
    by (cases out) (simp_all add: aw_step_def cleaning_def failed_call_def)
qed (use assms(3) in \<open>cases out; simp add: aw_step_def cleaning_def failed_call_def find_link_def follow_link_def check_link_def
    capture_mode_def open_tmp_def sync_tmp_def remove_tmp_def wrote_def give_up_def split: option.splits file_node.splits if_splits\<close>)+

text \<open>After a failure the disk is as before, unless the removal of the temporary file fails too.\<close>

lemma failed_step_disk:
  assumes inv: "aw_inv job d s" and nodir: "d (write_target d (wj_target job)) \<noteq> Some Directory"
    and fresh: "d (tmp_path (write_target d (wj_target job)) (wj_suffix job)) = None"
    and "ar_phase s \<noteq> Finished" and fin: "ar_phase (aw_step job out s) = Finished"
    and bad: "ar_result (aw_step job out s) = Some (Inl e)" and "cleaning s \<Longrightarrow> \<not> failed_call out"
  shows "ar_disk (aw_step job out s) = d"
proof (cases "ar_phase s")
  case CleanUnlink
  then have ok: "\<not> failed_call out" and r: "ar_real s = write_target d (wj_target job)"
    and disk: "ar_disk s = d \<or> (\<exists>g. ar_disk s = d(tmp_path (ar_real s) (wj_suffix job) := g))"
    using assms by (auto simp: cleaning_def aw_inv_def tmp_stage_def before_tmp_def)
  have same: "(ar_disk s)(tmp_path (ar_real s) (wj_suffix job) := None) = d"
    using disk fresh unfolding r by (auto simp: fun_eq_iff)
  show ?thesis using CleanUnlink ok same
    by (cases out) (simp_all add: aw_step_def remove_tmp_def failed_call_def)
next
  case AtRename
  then show ?thesis using fin bad publish_phase [OF inv AtRename nodir] clean_up_phase
    by (cases out) (auto simp: aw_step_def split: if_splits)
next
  case Finished
  then show ?thesis using assms by simp
qed (use inv fin bad in \<open>cases out; simp add: aw_step_def aw_inv_def before_tmp_def find_link_def follow_link_def check_link_def
    capture_mode_def open_tmp_def sync_tmp_def wrote_def give_up_def split: option.splits file_node.splits if_splits\<close>)+

lemma one_failure:
  assumes "aw_inv job d s" and "d (write_target d (wj_target job)) \<noteq> Some Directory"
    and "d (tmp_path (write_target d (wj_target job)) (wj_suffix job)) = None"
    and "length (filter failed_call outs) \<le> (if cleaning s then 0 else 1)"
    and "ar_phase s = Finished \<Longrightarrow> ar_result s = Some (Inl e) \<Longrightarrow> ar_disk s = d"
    and "ar_phase (fold (aw_step job) outs s) = Finished" and "ar_result (fold (aw_step job) outs s) = Some (Inl e)"
  shows "ar_disk (fold (aw_step job) outs s) = d"
  using assms
proof (induction outs arbitrary: s)
  case (Cons out outs)
  let ?s = "aw_step job out s"
  have inv: "aw_inv job d ?s" by (rule aw_step_inv [OF Cons.prems(1)])
  have few: "length (filter failed_call outs) \<le> (if cleaning ?s then 0 else 1)"
    using cleaning_after_failure [OF Cons.prems(1,2), of out] Cons.prems(4) by (auto split: if_splits)
  have disk: "ar_disk ?s = d" if "ar_phase ?s = Finished" "ar_result ?s = Some (Inl e)"
  proof (cases "ar_phase s = Finished")
    case True
    then show ?thesis using Cons.prems(5) that by (simp add: aw_step_def)
  next
    case False
    moreover have "\<not> failed_call out" if "cleaning s" using Cons.prems(4) that by (auto split: if_splits)
    ultimately show ?thesis using failed_step_disk [OF Cons.prems(1-3)] that by blast
  qed
  from Cons.IH [OF inv Cons.prems(2,3) few disk] Cons.prems(6,7) show ?case by simp
qed simp

lemma no_failure_step:
  assumes "aw_inv job d s" and "\<nexists>q. d (wj_target job) = Some (SymbolicLink q)" and "d (wj_target job) \<noteq> Some Directory"
    and "ar_phase s \<notin> {AtRealpath, AtLinkStat, CleanClose, CleanUnlink}"
    and "ar_phase s = Finished \<Longrightarrow> ar_result s = Some (Inr ())" and "\<not> failed_call out"
  shows "ar_phase (aw_step job out s) \<notin> {AtRealpath, AtLinkStat, CleanClose, CleanUnlink} \<and>
    (ar_phase (aw_step job out s) = Finished \<longrightarrow> ar_result (aw_step job out s) = Some (Inr ()))"
proof (cases "ar_phase s")
  case AtLstat
  then have "ar_disk s = d" using assms(1) by (simp add: aw_inv_def)
  then have "find_link job s = s\<lparr>ar_phase := AtMkdir\<rparr>" using assms(2)
    by (auto simp: find_link_def split: option.splits file_node.splits)
  then show ?thesis using AtLstat assms(6) by (cases out) (simp_all add: aw_step_def failed_call_def)
next
  case AtRename
  have "write_target d (wj_target job) = wj_target job"
    using assms(2) by (auto simp: write_target_def split: option.splits file_node.splits)
  then show ?thesis using AtRename publish_phase [OF assms(1) AtRename] assms(3,6)
    by (cases out) (simp_all add: aw_step_def failed_call_def)
qed (use assms(4-6) in \<open>cases out; simp add: aw_step_def failed_call_def capture_mode_def open_tmp_def sync_tmp_def wrote_def\<close>)+

lemma no_failure:
  assumes "aw_inv job d s" and "\<nexists>q. d (wj_target job) = Some (SymbolicLink q)" and "d (wj_target job) \<noteq> Some Directory"
    and "ar_phase s \<notin> {AtRealpath, AtLinkStat, CleanClose, CleanUnlink}"
    and "ar_phase s = Finished \<Longrightarrow> ar_result s = Some (Inr ())" and "list_all (\<lambda>out. \<not> failed_call out) outs"
    and "ar_phase (fold (aw_step job) outs s) = Finished"
  shows "ar_result (fold (aw_step job) outs s) = Some (Inr ())"
  using assms
proof (induction outs arbitrary: s)
  case (Cons out outs)
  from no_failure_step [OF Cons.prems(1-5)] Cons.prems(6)
  have "ar_phase (aw_step job out s) \<notin> {AtRealpath, AtLinkStat, CleanClose, CleanUnlink}"
    "ar_phase (aw_step job out s) = Finished \<Longrightarrow> ar_result (aw_step job out s) = Some (Inr ())" by simp_all
  with Cons.IH [OF aw_step_inv [OF Cons.prems(1)] Cons.prems(2,3)] Cons.prems(6,7) show ?case by simp
qed simp

text \<open>What a write does to a file that is not a link or a directory.\<close>

definition plain :: "disk \<Rightarrow> string \<Rightarrow> bool" where
  "plain d p \<longleftrightarrow> (case d p of None \<Rightarrow> True | Some (RegularFile _) \<Rightarrow> True | _ \<Rightarrow> False)"

definition kept_mode :: "disk \<Rightarrow> string \<Rightarrow> nat" where
  "kept_mode d p = (case d p of Some (RegularFile f) \<Rightarrow> fd_mode f | _ \<Rightarrow> default_mode)"

definition file_after :: "disk \<Rightarrow> string \<Rightarrow> string \<Rightarrow> file_data" where
  "file_after d p content = \<lparr>fd_content = content, fd_mode = kept_mode d p, fd_durable = Some (content, kept_mode d p)\<rparr>"

lemma plain_target: "plain d p \<Longrightarrow> write_target d p = p"
  by (auto simp: plain_def write_target_def split: option.splits file_node.splits)

lemma failing_outcomes:
  "filter failed_call (outcomes fails k n) = map (\<lambda>i. Fails (the (fails i))) (filter (\<lambda>i. fails i \<noteq> None) [k..<k + n])"
  unfolding outcomes_def by (induction n) (auto simp: failed_call_def split: option.splits)

lemma one_failing_outcome:
  assumes "\<And>m. m \<noteq> n \<Longrightarrow> fails m = None"
  shows "length (filter failed_call (outcomes fails k l)) \<le> 1"
proof -
  have "set (filter (\<lambda>i. fails i \<noteq> None) [k..<k + l]) \<subseteq> {n}" using assms by (auto intro: ccontr)
  then have "card (set (filter (\<lambda>i. fails i \<noteq> None) [k..<k + l])) \<le> card {n}" by (intro card_mono) simp_all
  moreover have "card (set (filter (\<lambda>i. fails i \<noteq> None) [k..<k + l])) = length (filter (\<lambda>i. fails i \<noteq> None) [k..<k + l])"
    by (rule distinct_card) simp
  ultimately show ?thesis unfolding failing_outcomes by simp
qed

lemma outcomes_plain: "list_all (\<lambda>out. out \<noteq> Wrote 0) (outcomes fails k n)" "length (outcomes fails k n) = n"
  by (auto simp: outcomes_def list_all_iff split: option.splits)

lemma atomic_write_plain:
  assumes "plain (w_disk w) p" and "atomic_write p content w = (r, w')"
  defines "t \<equiv> tmp_path p (show_nat (w_calls w))"
  shows "w_fails w' = w_fails w \<and> w_calls w \<le> w_calls w' \<and>
    (case r of
       Inr _ \<Rightarrow> w_disk w' = (w_disk w)(p \<mapsto> RegularFile (file_after (w_disk w) p content), t := None)
     | Inl _ \<Rightarrow> w_disk w' = w_disk w \<or> (\<exists>g. w_disk w' = (w_disk w)(t := g)))"
    "(\<nexists>m. w_calls w \<le> m \<and> m < w_calls w' \<and> w_fails w m \<noteq> None) \<Longrightarrow> r = Inr ()"
    "r = Inl e \<Longrightarrow> (\<And>m. m \<noteq> n \<Longrightarrow> w_fails w m = None) \<Longrightarrow> w_disk w t = None \<Longrightarrow> w_disk w' = w_disk w"
proof -
  let ?d = "w_disk w"
  define job where "job = \<lparr>wj_target = p, wj_content = content, wj_suffix = show_nat (w_calls w)\<rparr>"
  define outs where "outs = outcomes (w_fails w) (w_calls w) (13 + length content)"
  define s where "s = run_write job outs ?d"
  have job: "wj_target job = p" "wj_content job = content" "wj_suffix job = show_nat (w_calls w)"
    by (simp_all add: job_def)
  have target: "write_target ?d (wj_target job) = p" using plain_target [OF assms(1)] by (simp add: job)
  have r: "r = (case ar_result s of Some (Inl e) \<Rightarrow> Inl (write_error_text e) | _ \<Rightarrow> Inr ())"
    and w': "w' = w\<lparr>w_disk := ar_disk s, w_calls := w_calls w + (13 + length content)\<rparr>"
    using assms(2) by (auto simp: atomic_write_def Let_def s_def outs_def job_def)
  have fin: "ar_phase s = Finished" "ar_result s \<noteq> None"
    using write_ends [of outs job ?d] unfolding s_def by (simp_all add: outs_def outcomes_plain job)
  have pub: "published job ?d = file_after ?d p content"
    unfolding published_def target by (simp add: file_after_def kept_mode_def job Let_def)
  have cases: "case ar_result s of
      Some (Inr _) \<Rightarrow> ar_disk s = ?d(p \<mapsto> RegularFile (file_after ?d p content), t := None) \<and> True \<and> True
    | _ \<Rightarrow> ar_disk s = ?d \<or> (\<exists>g. ar_disk s = ?d(t := g))"
    using run_write_cases [of job outs ?d] unfolding s_def [symmetric] target pub job plain_target [OF assms(1)] t_def
    by (auto split: option.splits sum.splits)
  show "w_fails w' = w_fails w \<and> w_calls w \<le> w_calls w' \<and>
    (case r of
       Inr _ \<Rightarrow> w_disk w' = ?d(p \<mapsto> RegularFile (file_after ?d p content), t := None)
     | Inl _ \<Rightarrow> w_disk w' = ?d \<or> (\<exists>g. w_disk w' = ?d(t := g)))"
    using cases fin(2) by (auto simp: r w' split: option.splits sum.splits)
  have nodir: "?d (wj_target job) \<noteq> Some Directory" "\<nexists>q. ?d (wj_target job) = Some (SymbolicLink q)"
    using assms(1) by (auto simp: plain_def job)
  have start: "aw_inv job ?d (aw_start job ?d)" "\<not> cleaning (aw_start job ?d)" "ar_phase (aw_start job ?d) = AtLstat"
    by (simp_all add: aw_start_def aw_inv_def cleaning_def)
  show "(\<nexists>m. w_calls w \<le> m \<and> m < w_calls w' \<and> w_fails w m \<noteq> None) \<Longrightarrow> r = Inr ()"
  proof -
    assume "\<nexists>m. w_calls w \<le> m \<and> m < w_calls w' \<and> w_fails w m \<noteq> None"
    then have "filter failed_call outs = []" by (auto simp: outs_def failing_outcomes w' filter_empty_conv)
    then have "list_all (\<lambda>out. \<not> failed_call out) outs" by (auto simp: filter_empty_conv list_all_iff)
    from no_failure [OF start(1) nodir(2,1) _ _ this] start(3) fin(1)
    show "r = Inr ()" by (simp add: r s_def run_write_def)
  qed
  show "r = Inl e \<Longrightarrow> (\<And>m. m \<noteq> n \<Longrightarrow> w_fails w m = None) \<Longrightarrow> ?d t = None \<Longrightarrow> w_disk w' = ?d"
  proof -
    assume e: "r = Inl e" and one: "\<And>m. m \<noteq> n \<Longrightarrow> w_fails w m = None" and fresh: "?d t = None"
    from e fin(2) obtain e' where e': "ar_result s = Some (Inl e')" by (auto simp: r split: option.splits sum.splits)
    have "length (filter failed_call outs) \<le> 1" unfolding outs_def by (rule one_failing_outcome [OF one])
    with one_failure [OF start(1), of outs e'] nodir fresh start(2,3) fin(1) e' target
    show "w_disk w' = ?d" by (simp add: w' s_def run_write_def job t_def)
  qed
qed

section \<open>Lemmas on transactions\<close>

text \<open>What a reader of the disk sees: contents and modes.\<close>

definition shown :: "file_node \<Rightarrow> file_node" where
  "shown n = (case n of RegularFile f \<Rightarrow> RegularFile (f\<lparr>fd_durable := None\<rparr>) | _ \<Rightarrow> n)"

definition visible :: "disk \<Rightarrow> disk" where
  "visible d = (\<lambda>p. map_option shown (d p))"

text \<open>The paths of temporary files and backups.\<close>

definition scratch_path :: "string \<Rightarrow> string \<Rightarrow> bool" where
  "scratch_path i p \<longleftrightarrow> (\<exists>q n. p = tmp_path q (show_nat n)) \<or> (\<exists>q. p = backup_path i q)"

lemma last_show_nat: "last (show_nat n) = digit_char (n mod 10)"
  by (subst show_nat.simps) simp

lemma backup_is_no_tmp [simp]: "backup_path i p \<noteq> tmp_path q (show_nat n)"
proof
  assume "backup_path i p = tmp_path q (show_nat n)"
  then have "last (backup_path i p) = last (tmp_path q (show_nat n))" by simp
  then have "digit_char (n mod 10) = CHR ''k''" by (simp add: backup_path_def tmp_path_def last_show_nat)
  then have "(of_char (digit_char (n mod 10)) :: nat) = of_char (CHR ''k'')" by simp
  then have "48 + n mod 10 = 107" by (simp add: digit_char_def)
  then show False using mod_less_divisor [of 10 n] by simp
qed

lemma tmp_is_no_backup [simp]: "tmp_path q (show_nat n) \<noteq> backup_path i p"
  using backup_is_no_tmp by metis

lemma backup_path_inj [simp]: "backup_path i p = backup_path i q \<longleftrightarrow> p = q"
  by (simp add: backup_path_def)

lemma backup_nonempty [simp]: "backup_path i p \<noteq> []"
  by (simp add: backup_path_def)

lemma scratch_paths [simp]: "scratch_path i (tmp_path q (show_nat n))" "scratch_path i (backup_path i q)"
  by (auto simp: scratch_path_def)

lemma plain_exists: "plain d p \<Longrightarrow> file_exists d p \<longleftrightarrow> d p \<noteq> None"
proof -
  have limit: "link_limit = Suc 39" by (simp add: link_limit_def)
  show "plain d p \<Longrightarrow> file_exists d p \<longleftrightarrow> d p \<noteq> None"
    unfolding file_exists_def by (simp only: limit real_path.simps) (auto simp: plain_def split: option.splits file_node.splits)
qed

lemma plain_read: "plain d p \<Longrightarrow> read_node d p = d p"
proof -
  have limit: "link_limit = Suc 39" by (simp add: link_limit_def)
  show "plain d p \<Longrightarrow> read_node d p = d p"
    unfolding read_node_def by (simp only: limit real_path.simps) (auto simp: plain_def split: option.splits file_node.splits)
qed

text \<open>The files of a batch on the disk it starts on.\<close>

definition batch_ready :: "string \<Rightarrow> string set \<Rightarrow> disk \<Rightarrow> bool" where
  "batch_ready i P d \<longleftrightarrow> (\<forall>p\<in>P. plain d p \<and> \<not> scratch_path i p) \<and> (\<forall>q. scratch_path i q \<longrightarrow> d q = None)"

definition snaps_ok :: "string set \<Rightarrow> disk \<Rightarrow> transaction \<Rightarrow> bool" where
  "snaps_ok P d t \<longleftrightarrow> jm_wf (tx_snapshots t) \<and>
     (\<forall>p snap. jm_get (tx_snapshots t) p = Some snap \<longrightarrow> p \<in> P \<and> ts_file snap = p \<and>
        ts_backup snap = (if d p = None then [] else backup_path (tx_id t) p))"

text \<open>While mutations are applied: every backup holds the file as it was, the rest is untouched.\<close>

definition forward_ok :: "string set \<Rightarrow> disk \<Rightarrow> transaction \<Rightarrow> disk \<Rightarrow> bool" where
  "forward_ok P d t d1 \<longleftrightarrow> snaps_ok P d t \<and> \<not> tx_committed t \<and> \<not> tx_rolled_back t \<and> (\<forall>p\<in>P. plain d1 p) \<and>
     (\<forall>p. jm_has (tx_snapshots t) p \<longrightarrow> d p \<noteq> None \<longrightarrow> visible d1 (backup_path (tx_id t) p) = visible d p) \<and>
     (\<forall>p. \<not> scratch_path (tx_id t) p \<longrightarrow> \<not> jm_has (tx_snapshots t) p \<longrightarrow> d1 p = d p)"

text \<open>While it is rolled back: a backup is there or has become the file again.\<close>

definition back_ok :: "string set \<Rightarrow> disk \<Rightarrow> transaction \<Rightarrow> disk \<Rightarrow> bool" where
  "back_ok P d t d1 \<longleftrightarrow> snaps_ok P d t \<and> (\<forall>p\<in>P. plain d1 p) \<and>
     (\<forall>p. jm_has (tx_snapshots t) p \<longrightarrow> d p \<noteq> None \<longrightarrow>
        visible d1 (backup_path (tx_id t) p) = visible d p \<or>
        d1 (backup_path (tx_id t) p) = None \<and> visible d1 p = visible d p) \<and>
     (\<forall>p. \<not> scratch_path (tx_id t) p \<longrightarrow> \<not> jm_has (tx_snapshots t) p \<longrightarrow> d1 p = d p)"

definition restored :: "disk \<Rightarrow> transaction \<Rightarrow> disk \<Rightarrow> string \<Rightarrow> bool" where
  "restored d t d1 p \<longleftrightarrow> visible d1 p = visible d p \<and> (d p \<noteq> None \<longrightarrow> d1 (backup_path (tx_id t) p) = None)"

text \<open>No temporary file is left, and no backup but those of the snapshots.\<close>

definition tidy :: "disk \<Rightarrow> transaction \<Rightarrow> disk \<Rightarrow> bool" where
  "tidy d t d1 \<longleftrightarrow> (\<forall>q. scratch_path (tx_id t) q \<longrightarrow>
     (\<nexists>p. jm_has (tx_snapshots t) p \<and> d p \<noteq> None \<and> q = backup_path (tx_id t) p) \<longrightarrow> d1 q = None)"

lemma visible_upd [simp]: "visible (d(p := x)) = (visible d)(p := map_option shown x)"
  by (auto simp: visible_def)

lemma visible_same: "d1 p = d p \<Longrightarrow> visible d1 p = visible d p"
  by (simp add: visible_def)

lemma visible_None [simp]: "visible d p = None \<longleftrightarrow> d p = None"
  by (simp add: visible_def)

lemma take_snapshot_ok:
  assumes batch: "batch_ready (tx_id t) P d" and fwd: "forward_ok P d t (w_disk w)" and p: "p \<in> P"
    and res: "take_snapshot p (t, w) = (r, t', w')"
  shows "forward_ok P d t' (w_disk w')" "tx_id t' = tx_id t" "w_fails w' = w_fails w" "w_calls w \<le> w_calls w'"
    "\<not> scratch_path (tx_id t) q \<Longrightarrow> w_disk w' q = w_disk w q"
    "r = Inr () \<Longrightarrow> jm_has (tx_snapshots t') p"
    "(\<nexists>m. w_calls w \<le> m \<and> m < w_calls w' \<and> w_fails w m \<noteq> None) \<Longrightarrow> r = Inr ()"
    "tidy d t (w_disk w) \<Longrightarrow> tidy d t' (w_disk w')"
    "jm_keys (tx_snapshots t') = jm_keys (tx_snapshots t) \<or> jm_keys (tx_snapshots t') = jm_keys (tx_snapshots t) @ [p]"
proof -
  let ?b = "backup_path (tx_id t) p"
  have plain: "plain (w_disk w) p" and fresh: "\<not> scratch_path (tx_id t) p"
    using batch fwd p by (auto simp: batch_ready_def forward_ok_def)
  have open_: "\<not> tx_committed t" "\<not> tx_rolled_back t" using fwd by (simp_all add: forward_ok_def)
  consider (has) "jm_has (tx_snapshots t) p" "r = Inr ()" "t' = t" "w' = w"
    | (new) "\<not> jm_has (tx_snapshots t) p" "w_disk w p = None" "r = Inr ()" "w' = w"
        "t' = t\<lparr>tx_snapshots := jm_set p \<lparr>ts_file = p, ts_backup = []\<rparr> (tx_snapshots t)\<rparr>"
    | (fails) e where "\<not> jm_has (tx_snapshots t) p" "w_fails w (w_calls w) \<noteq> None" "r = Inl e" "t' = t"
        "w' = w\<lparr>w_calls := Suc (w_calls w)\<rparr>"
    | (copied) f where "\<not> jm_has (tx_snapshots t) p" "w_disk w p = Some (RegularFile f)" "r = Inr ()"
        "t' = t\<lparr>tx_snapshots := jm_set p \<lparr>ts_file = p, ts_backup = ?b\<rparr> (tx_snapshots t)\<rparr>"
        "w' = w\<lparr>w_calls := Suc (w_calls w), w_disk := (w_disk w)(?b \<mapsto> RegularFile (f\<lparr>fd_durable := None\<rparr>))\<rparr>"
  proof (cases "jm_has (tx_snapshots t) p")
    case True
    then show ?thesis using that(1) res open_ by (simp add: take_snapshot_def Let_def)
  next
    case False
    show ?thesis
    proof (cases "w_disk w p")
      case None
      then show ?thesis using that(2) res open_ False plain_exists [OF plain] by (simp add: take_snapshot_def Let_def)
    next
      case (Some n)
      with plain obtain f where f: "w_disk w p = Some (RegularFile f)" by (cases n) (auto simp: plain_def)
      then show ?thesis
        using that(3,4) res open_ False plain_exists [OF plain] plain_read [OF plain]
        by (cases "w_fails w (w_calls w)") (auto simp: take_snapshot_def Let_def sys_call_def copy_file_def)
    qed
  qed
  note cases = this
  have same: "w_disk w p = d p" if "\<not> jm_has (tx_snapshots t) p" using fwd that fresh by (auto simp: forward_ok_def)
  show "forward_ok P d t' (w_disk w')"
    using cases
  proof cases
    case copied
    then have "d p \<noteq> None" "visible d p = Some (RegularFile (f\<lparr>fd_durable := None\<rparr>))"
      using same by (simp_all add: visible_def shown_def)
    with copied fwd p batch show ?thesis
      by (auto simp: forward_ok_def snaps_ok_def jm_wf_set plain_def batch_ready_def shown_def split: if_splits)
  qed (use fwd p same in \<open>auto simp: forward_ok_def snaps_ok_def jm_wf_set split: if_splits\<close>)
  show "tx_id t' = tx_id t" "w_fails w' = w_fails w" "w_calls w \<le> w_calls w'"
    using cases by (cases; simp)+
  show "\<not> scratch_path (tx_id t) q \<Longrightarrow> w_disk w' q = w_disk w q" using cases by cases auto
  show "r = Inr () \<Longrightarrow> jm_has (tx_snapshots t') p" using cases by cases auto
  show "(\<nexists>m. w_calls w \<le> m \<and> m < w_calls w' \<and> w_fails w m \<noteq> None) \<Longrightarrow> r = Inr ()"
    using cases by cases (auto intro: lessI)
  show "tidy d t (w_disk w) \<Longrightarrow> tidy d t' (w_disk w')"
    using cases by cases (use same in \<open>auto simp: tidy_def, metis+\<close>)
  show "jm_keys (tx_snapshots t') = jm_keys (tx_snapshots t) \<or> jm_keys (tx_snapshots t') = jm_keys (tx_snapshots t) @ [p]"
    using cases by cases (simp_all add: jm_keys_set)
qed

text \<open>One mutation: the file gets its new content, everything else stays, whatever fails.\<close>

definition after_write :: "string \<Rightarrow> string \<Rightarrow> disk \<Rightarrow> file_node option" where
  "after_write p content d = Some (RegularFile \<lparr>fd_content = content, fd_mode = kept_mode d p, fd_durable = None\<rparr>)"

lemma write_ok:
  assumes batch: "batch_ready (tx_id t) P d" and fwd: "forward_ok P d t (w_disk w)" and p: "p \<in> P"
    and has: "jm_has (tx_snapshots t) p" and res: "atomic_write p content w = (r, w')"
  shows "forward_ok P d t (w_disk w')"
    "\<not> scratch_path (tx_id t) q \<Longrightarrow> visible (w_disk w') q =
       (if r = Inr () \<and> q = p then after_write p content (w_disk w) else visible (w_disk w) q)"
    "(\<And>m. m \<noteq> n \<Longrightarrow> w_fails w m = None) \<Longrightarrow> tidy d t (w_disk w) \<Longrightarrow> tidy d t (w_disk w')"
    "w_fails w' = w_fails w" "w_calls w \<le> w_calls w'"
    "(\<nexists>m. w_calls w \<le> m \<and> m < w_calls w' \<and> w_fails w m \<noteq> None) \<Longrightarrow> r = Inr ()"
proof -
  let ?t = "tmp_path p (show_nat (w_calls w))" and ?f = "file_after (w_disk w) p content"
  have plain: "plain (w_disk w) p" and fresh: "\<not> scratch_path (tx_id t) p"
    and apart: "\<And>q. q \<in> P \<Longrightarrow> q \<noteq> ?t" using batch fwd p by (auto simp: batch_ready_def forward_ok_def)
  note w = atomic_write_plain [OF plain res]
  consider (ok) "r = Inr ()" "w_disk w' = (w_disk w)(p \<mapsto> RegularFile ?f, ?t := None)"
    | (same) e where "r = Inl e" "w_disk w' = w_disk w" | (left) e g where "r = Inl e" "w_disk w' = (w_disk w)(?t := g)"
    using w(1) by (cases r) auto
  note cases = this
  have p_tmp: "p \<noteq> ?t" using apart p by blast
  show "forward_ok P d t (w_disk w')"
    using cases
  proof cases
    case ok
    with fwd has fresh apart show ?thesis
      by (auto simp: forward_ok_def plain_def p_tmp shown_def)
  next
    case left
    with fwd apart show ?thesis by (auto simp: forward_ok_def plain_def)
  qed (use fwd in simp)
  show "\<not> scratch_path (tx_id t) q \<Longrightarrow> visible (w_disk w') q =
       (if r = Inr () \<and> q = p then after_write p content (w_disk w) else visible (w_disk w) q)"
    using cases by cases (auto simp: after_write_def shown_def file_after_def)
  show "w_fails w' = w_fails w" "w_calls w \<le> w_calls w'" using w(1) by simp_all
  show "(\<nexists>m. w_calls w \<le> m \<and> m < w_calls w' \<and> w_fails w m \<noteq> None) \<Longrightarrow> r = Inr ()" by (rule w(2))
  show "tidy d t (w_disk w')" if one: "\<And>m. m \<noteq> n \<Longrightarrow> w_fails w m = None" and tidy: "tidy d t (w_disk w)"
  proof (cases r)
    case (Inl e)
    have "w_disk w ?t = None" using tidy by (auto simp: tidy_def)
    with w(3) [OF Inl one] have "w_disk w' = w_disk w" by simp
    then show ?thesis using tidy by simp
  next
    case (Inr u)
    with cases have "w_disk w' = (w_disk w)(p \<mapsto> RegularFile ?f, ?t := None)" by cases auto
    then show ?thesis using tidy fresh by (auto simp: tidy_def)
  qed
qed

lemma mutate_ok:
  assumes batch: "batch_ready (tx_id t) P d" and fwd: "forward_ok P d t (w_disk w)" and p: "p \<in> P"
    and res: "mutate p content (t, w) = (r, t', w')"
  shows "forward_ok P d t' (w_disk w')" "tx_id t' = tx_id t" "w_fails w' = w_fails w" "w_calls w \<le> w_calls w'"
    "\<not> scratch_path (tx_id t) q \<Longrightarrow> visible (w_disk w') q =
       (if r = Inr () \<and> q = p then after_write p content (w_disk w) else visible (w_disk w) q)"
    "(\<And>m. m \<noteq> n \<Longrightarrow> w_fails w m = None) \<Longrightarrow> tidy d t (w_disk w) \<Longrightarrow> tidy d t' (w_disk w')"
    "(\<nexists>m. w_calls w \<le> m \<and> m < w_calls w' \<and> w_fails w m \<noteq> None) \<Longrightarrow> r = Inr ()"
proof -
  have open_: "\<not> tx_committed t" "\<not> tx_rolled_back t" using fwd by (simp_all add: forward_ok_def)
  obtain r1 t1 w1 where s: "take_snapshot p (t, w) = (r1, t1, w1)" by (metis prod_cases3)
  note snap = take_snapshot_ok [OF batch fwd p s]
  have near: "visible (w_disk w1) q = visible (w_disk w) q" "kept_mode (w_disk w1) q = kept_mode (w_disk w) q"
    if "\<not> scratch_path (tx_id t) q" for q using snap(5) [OF that] by (simp_all add: visible_def kept_mode_def)
  have fresh: "\<not> scratch_path (tx_id t) p" using batch p by (auto simp: batch_ready_def)
  have "forward_ok P d t' (w_disk w') \<and> tx_id t' = tx_id t \<and> w_fails w' = w_fails w \<and> w_calls w \<le> w_calls w' \<and>
    (\<not> scratch_path (tx_id t) q \<longrightarrow> visible (w_disk w') q =
       (if r = Inr () \<and> q = p then after_write p content (w_disk w) else visible (w_disk w) q)) \<and>
    ((\<forall>m. m \<noteq> n \<longrightarrow> w_fails w m = None) \<longrightarrow> tidy d t (w_disk w) \<longrightarrow> tidy d t' (w_disk w')) \<and>
    ((\<nexists>m. w_calls w \<le> m \<and> m < w_calls w' \<and> w_fails w m \<noteq> None) \<longrightarrow> r = Inr ())"
  proof (cases r1)
    case (Inl e)
    then have r: "r = Inl e" "t' = t1" "w' = w1" using res s open_ by (simp_all add: mutate_def)
    have "\<not> (\<nexists>m. w_calls w \<le> m \<and> m < w_calls w1 \<and> w_fails w m \<noteq> None)"
      using snap(7) Inl by (rule_tac notI) simp
    with r snap(1-4,8) near show ?thesis by auto
  next
    case (Inr u)
    then have ok: "r1 = Inr ()" by simp
    obtain r2 w2 where aw: "atomic_write p content w1 = (r2, w2)" by (cases "atomic_write p content w1")
    with Inr have r: "r = r2" "t' = t1" "w' = w2" using res s open_ by (simp_all add: mutate_def)
    have batch1: "batch_ready (tx_id t1) P d" using batch snap(2) by simp
    note w = write_ok [OF batch1 snap(1) p snap(6) [OF ok] aw, unfolded snap(2,3)]
    have "after_write p content (w_disk w1) = after_write p content (w_disk w)"
      using near(2) [OF fresh] by (simp add: after_write_def)
    moreover have "r2 = Inr ()" if "\<nexists>m. w_calls w \<le> m \<and> m < w_calls w2 \<and> w_fails w m \<noteq> None"
      by (rule w(6)) (use that snap(4) in \<open>auto intro: order_trans\<close>)
    moreover have "w_calls w \<le> w_calls w2" using w(5) snap(4) by simp
    ultimately show ?thesis using r snap(2-4,8) w(1,4) w(2) [of q] w(3) [of n] near(1) [of q] by auto
  qed
  then show "forward_ok P d t' (w_disk w')" "tx_id t' = tx_id t" "w_fails w' = w_fails w" "w_calls w \<le> w_calls w'"
    "\<not> scratch_path (tx_id t) q \<Longrightarrow> visible (w_disk w') q =
       (if r = Inr () \<and> q = p then after_write p content (w_disk w) else visible (w_disk w) q)"
    "(\<And>m. m \<noteq> n \<Longrightarrow> w_fails w m = None) \<Longrightarrow> tidy d t (w_disk w) \<Longrightarrow> tidy d t' (w_disk w')"
    "(\<nexists>m. w_calls w \<le> m \<and> m < w_calls w' \<and> w_fails w m \<noteq> None) \<Longrightarrow> r = Inr ()" by blast+
qed

text \<open>What a batch leaves behind: the last content of each of its files, under its old mode.\<close>

definition batch_result :: "(string \<times> string) list \<Rightarrow> disk \<Rightarrow> string \<Rightarrow> file_node option" where
  "batch_result ms d p = (case map_of (rev ms) p of
      None \<Rightarrow> visible d p
    | Some content \<Rightarrow> after_write p content d)"

lemma kept_mode_visible: "kept_mode d p = (case visible d p of Some (RegularFile f) \<Rightarrow> fd_mode f | _ \<Rightarrow> default_mode)"
proof (cases "d p")
  case (Some n)
  then show ?thesis by (cases n) (simp_all add: kept_mode_def visible_def shown_def)
qed (simp add: kept_mode_def visible_def)

lemma batch_result_Cons:
  assumes "visible d1 p = (if p = q then after_write q content d else visible d p)"
  shows "batch_result ms d1 p = batch_result ((q, content) # ms) d p"
proof -
  have "kept_mode d1 p = kept_mode d p"
    using assms by (simp add: kept_mode_visible [of d1] after_write_def) (simp add: kept_mode_visible [of d])
  then show ?thesis using assms by (auto simp: batch_result_def after_write_def map_add_def split: option.splits)
qed

definition file_edits :: "txn_mutation list \<Rightarrow> (string \<times> string) list" where
  "file_edits ms = map (\<lambda>m. (tm_file m, tm_content m)) ms"

lemma apply_mutations_ok:
  assumes "batch_ready (tx_id t) P d" and "forward_ok P d t (w_disk w)" and "tm_file ` set ms \<subseteq> P"
    and "apply_mutations ms applied (t, w) = (err, applied', t', w')"
  shows "forward_ok P d t' (w_disk w') \<and> tx_id t' = tx_id t \<and> w_fails w' = w_fails w \<and> w_calls w \<le> w_calls w' \<and>
    (err = None \<longrightarrow> (\<forall>q. \<not> scratch_path (tx_id t) q \<longrightarrow> visible (w_disk w') q = batch_result (file_edits ms) (w_disk w) q)) \<and>
    ((\<forall>m. m \<noteq> n \<longrightarrow> w_fails w m = None) \<longrightarrow> tidy d t (w_disk w) \<longrightarrow> tidy d t' (w_disk w')) \<and>
    (err \<noteq> None \<longrightarrow> (\<exists>m. w_calls w \<le> m \<and> m < w_calls w' \<and> w_fails w m \<noteq> None))"
  using assms
proof (induction ms applied "(t, w)" arbitrary: t w rule: apply_mutations.induct)
  case (1 applied)
  then show ?case by (simp add: batch_result_def file_edits_def)
next
  case (2 m ms applied)
  obtain r t1 w1 where mut: "mutate (tm_file m) (tm_content m) (t, w) = (r, t1, w1)" by (metis prod_cases3)
  have p: "tm_file m \<in> P" and rest: "tm_file ` set ms \<subseteq> P" using 2(4) by simp_all
  note one = mutate_ok [OF 2(2,3) p mut]
  show ?case
  proof (cases r)
    case (Inl e)
    then have "err = Some e" "t' = t1" "w' = w1" using 2(5) mut by simp_all
    moreover have "\<exists>m. w_calls w \<le> m \<and> m < w_calls w1 \<and> w_fails w m \<noteq> None"
      using one(7) Inl by (rule_tac ccontr) simp
    ultimately show ?thesis using one(1-4) one(6) [of n] by blast
  next
    case (Inr u)
    have "apply_mutations ms (m # applied) (t1, w1) = (err, applied', t', w')" using 2(5) mut Inr by simp
    moreover have "batch_ready (tx_id t1) P d" using 2(2) one(2) by simp
    ultimately have "forward_ok P d t' (w_disk w') \<and> tx_id t' = tx_id t1 \<and> w_fails w' = w_fails w1 \<and> w_calls w1 \<le> w_calls w' \<and>
      (err = None \<longrightarrow> (\<forall>q. \<not> scratch_path (tx_id t1) q \<longrightarrow> visible (w_disk w') q = batch_result (file_edits ms) (w_disk w1) q)) \<and>
      ((\<forall>m. m \<noteq> n \<longrightarrow> w_fails w1 m = None) \<longrightarrow> tidy d t1 (w_disk w1) \<longrightarrow> tidy d t' (w_disk w')) \<and>
      (err \<noteq> None \<longrightarrow> (\<exists>m. w_calls w1 \<le> m \<and> m < w_calls w' \<and> w_fails w1 m \<noteq> None))"
      using 2(1) [OF mut [symmetric] Inr _ one(1) rest] by blast
    then have IH: "forward_ok P d t' (w_disk w')" "tx_id t' = tx_id t" "w_fails w' = w_fails w" "w_calls w1 \<le> w_calls w'"
      "err = None \<longrightarrow> (\<forall>q. \<not> scratch_path (tx_id t) q \<longrightarrow> visible (w_disk w') q = batch_result (file_edits ms) (w_disk w1) q)"
      "(\<forall>m. m \<noteq> n \<longrightarrow> w_fails w m = None) \<longrightarrow> tidy d t1 (w_disk w1) \<longrightarrow> tidy d t' (w_disk w')"
      "err \<noteq> None \<longrightarrow> (\<exists>m. w_calls w1 \<le> m \<and> m < w_calls w' \<and> w_fails w m \<noteq> None)"
      unfolding one(2,3) by blast+
    have "batch_result (file_edits ms) (w_disk w1) q = batch_result (file_edits (m # ms)) (w_disk w) q"
      if "\<not> scratch_path (tx_id t) q" for q
      unfolding file_edits_def list.map
      by (rule batch_result_Cons) (use one(5) [OF that] Inr in simp)
    then have "err = None \<longrightarrow> (\<forall>q. \<not> scratch_path (tx_id t) q \<longrightarrow>
        visible (w_disk w') q = batch_result (file_edits (m # ms)) (w_disk w) q)" using IH(5) by simp
    moreover have "w_calls w \<le> w_calls w'" using IH(4) one(4) by simp
    moreover have "err \<noteq> None \<longrightarrow> (\<exists>m. w_calls w \<le> m \<and> m < w_calls w' \<and> w_fails w m \<noteq> None)"
      using IH(7) one(4) order_trans by blast
    ultimately show ?thesis using IH(1-3,6) one(6) [of n] by blast
  qed
qed

text \<open>Rolling back: one restore, then all of them.\<close>

lemma forward_back: "forward_ok P d t d1 \<Longrightarrow> back_ok P d t d1"
  by (auto simp: forward_ok_def back_ok_def)

lemma restore_one_ok:
  assumes batch: "batch_ready (tx_id t) P d" and bk: "back_ok P d t (w_disk w)"
    and snap: "jm_get (tx_snapshots t) p = Some snap" and res: "restore_one snap w = (r, w')"
  shows "back_ok P d t (w_disk w')" "w_fails w' = w_fails w" "w_calls w \<le> w_calls w'"
    "w_fails w (w_calls w) = None \<Longrightarrow> restored d t (w_disk w') p"
    "\<not> scratch_path (tx_id t) q \<Longrightarrow> restored d t (w_disk w) q \<Longrightarrow> restored d t (w_disk w') q"
    "tidy d t (w_disk w) \<Longrightarrow> tidy d t (w_disk w')"
proof -
  let ?b = "backup_path (tx_id t) p"
  have p: "p \<in> P" "ts_file snap = p" "ts_backup snap = (if d p = None then [] else ?b)"
    using bk snap by (auto simp: back_ok_def snaps_ok_def)
  have plain: "plain (w_disk w) p" "plain d p" and fresh: "\<not> scratch_path (tx_id t) p"
    using bk batch p(1) by (auto simp: back_ok_def batch_ready_def)
  have other: "\<not> scratch_path (tx_id t) q" if "q \<in> P" for q using batch that by (auto simp: batch_ready_def)
  have absent: "d ?b = None" using batch by (auto simp: batch_ready_def)
  consider (idle) "w_disk w' = w_disk w" "w_fails w (w_calls w) \<noteq> None \<or> restored d t (w_disk w) p"
    | (removed) "d p = None" "w_disk w' = (w_disk w)(p := None)"
    | (renamed) n where "d p \<noteq> None" "w_disk w ?b = Some n" "visible (w_disk w) ?b = visible d p"
        "w_disk w' = (w_disk w)(p \<mapsto> n, ?b := None)"
  proof (cases "w_fails w (w_calls w)")
    case (Some e)
    then have "w_disk w' = w_disk w" using res by (auto simp: restore_one_def sys_call_def Let_def split: if_splits)
    then show ?thesis using that(1) Some by simp
  next
    case None
    show ?thesis
    proof (cases "d p")
      case d: None
      show ?thesis
      proof (cases "w_disk w p")
        case w: None
        then have "w_disk w' = w_disk w" using res p d plain_exists [OF plain(1)] by (simp add: restore_one_def)
        moreover have "restored d t (w_disk w) p" using w d by (simp add: restored_def visible_def)
        ultimately show ?thesis using that(1) by simp
      next
        case (Some n)
        then have "w_disk w' = (w_disk w)(p := None)"
          using res p d None plain plain_exists [OF plain(1)]
          by (cases n) (auto simp: restore_one_def sys_call_def unlink_file_def Let_def plain_def)
        then show ?thesis using that(2) d by simp
      qed
    next
      case (Some m)
      with bk snap consider "visible (w_disk w) ?b = visible d p" | "w_disk w ?b = None" "visible (w_disk w) p = visible d p"
        by (auto simp: back_ok_def)
      then show ?thesis
      proof cases
        case 1
        then obtain n where n: "w_disk w ?b = Some n" using Some by (auto simp: visible_def)
        have "w_disk w p \<noteq> Some Directory" using plain(1) by (auto simp: plain_def)
        then have "w_disk w' = (w_disk w)(p \<mapsto> n, ?b := None)"
          using res p None Some n by (auto simp: restore_one_def sys_call_def rename_file_def Let_def)
        then show ?thesis using that(3) 1 n Some by simp
      next
        case 2
        then have "w_disk w' = w_disk w" using res p None Some
          by (auto simp: restore_one_def sys_call_def rename_file_def Let_def)
        moreover have "restored d t (w_disk w) p" using 2 by (simp add: restored_def)
        ultimately show ?thesis using that(1) by simp
      qed
    qed
  qed
  note cases = this
  have not_p: "?b \<noteq> p" "p \<noteq> ?b" by (simp_all add: backup_path_def)
  show "back_ok P d t (w_disk w')"
    using cases
  proof cases
    case removed
    with bk snap not_p fresh show ?thesis by (auto simp: back_ok_def plain_def)
  next
    case renamed
    then obtain f where f: "d p = Some (RegularFile f)" using plain(2) by (auto simp: plain_def split: option.splits file_node.splits)
    with renamed(2,3) obtain g where "n = RegularFile g"
      by (cases n) (auto simp: visible_def shown_def)
    with renamed bk snap not_p fresh other absent show ?thesis
      by (auto simp: back_ok_def plain_def visible_def)
  qed (use bk in simp)
  show "w_fails w' = w_fails w" "w_calls w \<le> w_calls w'"
    using res by (auto simp: restore_one_def sys_call_def Let_def split: if_splits option.splits sum.splits)
  show "restored d t (w_disk w') p" if "w_fails w (w_calls w) = None"
    using cases
  proof cases
    case idle
    then show ?thesis using that by simp
  next
    case removed
    then show ?thesis using not_p unfolding restored_def by (simp add: visible_def)
  next
    case renamed
    then have "visible (w_disk w') p = visible (w_disk w) ?b" by (simp add: visible_def not_p)
    with renamed show ?thesis unfolding restored_def by simp
  qed
  show "restored d t (w_disk w') q" if "\<not> scratch_path (tx_id t) q" "restored d t (w_disk w) q"
  proof (cases "q = p")
    case False
    have far: "q \<noteq> ?b" "backup_path (tx_id t) q \<noteq> p" using that(1) fresh by auto
    have "w_disk w' x = w_disk w x" if "x \<noteq> p" "x \<noteq> ?b" for x
      using cases by cases (simp_all add: that)
    then have "w_disk w' q = w_disk w q" "w_disk w' (backup_path (tx_id t) q) = w_disk w (backup_path (tx_id t) q)"
      using far False by simp_all
    then show ?thesis using that(2) unfolding restored_def visible_def by simp
  next
    case True
    show ?thesis using cases
    proof cases
      case idle
      then show ?thesis using that(2) by simp
    next
      case removed
      then have "w_disk w' ?b = w_disk w ?b" "visible (w_disk w') p = None" using not_p by (simp_all add: visible_def)
      then show ?thesis using removed(1) unfolding True restored_def visible_def by simp
    next
      case renamed
      then have "visible (w_disk w') p = visible (w_disk w) ?b" by (simp add: visible_def not_p)
      with renamed show ?thesis unfolding True restored_def by simp
    qed
  qed
  show "tidy d t (w_disk w')" if "tidy d t (w_disk w)"
    using cases that fresh by cases (auto simp: tidy_def)
qed

definition works_from :: "nat \<Rightarrow> world \<Rightarrow> bool" where
  "works_from k w \<longleftrightarrow> (\<forall>m\<ge>k. w_fails w m = None)"

text \<open>Rolling back as a relation between the worlds before and after: what both loops of the source keep.\<close>

definition rolls :: "string set \<Rightarrow> disk \<Rightarrow> transaction \<Rightarrow> world \<Rightarrow> world \<Rightarrow> string set \<Rightarrow> bool" where
  "rolls P d t w w' R \<longleftrightarrow> back_ok P d t (w_disk w') \<and> w_fails w' = w_fails w \<and> w_calls w \<le> w_calls w' \<and>
     (\<forall>q. \<not> scratch_path (tx_id t) q \<longrightarrow> restored d t (w_disk w) q \<longrightarrow> restored d t (w_disk w') q) \<and>
     (tidy d t (w_disk w) \<longrightarrow> tidy d t (w_disk w')) \<and>
     (works_from (w_calls w) w \<longrightarrow> (\<forall>p\<in>R. restored d t (w_disk w') p))"

lemma rolls_refl: "back_ok P d t (w_disk w) \<Longrightarrow> rolls P d t w w {}"
  by (simp add: rolls_def)

lemma rolls_trans:
  assumes "rolls P d t w w1 R" and "rolls P d t w1 w2 S" and "R \<subseteq> {p. \<not> scratch_path (tx_id t) p}"
  shows "rolls P d t w w2 (R \<union> S)"
proof -
  have "works_from (w_calls w1) w1" if "works_from (w_calls w) w"
    using that assms(1) by (auto simp: works_from_def rolls_def)
  with assms show ?thesis unfolding rolls_def by (auto intro: order_trans)
qed

lemma rolls_one:
  assumes "batch_ready (tx_id t) P d" and "back_ok P d t (w_disk w)"
    and "jm_get (tx_snapshots t) p = Some snap" and "restore_one snap w = (r, w')"
  shows "rolls P d t w w' {p}" "\<not> scratch_path (tx_id t) p"
proof -
  note one = restore_one_ok [OF assms]
  show "rolls P d t w w' {p}" using one by (auto simp: rolls_def works_from_def)
  have "p \<in> P" using assms(2,3) by (auto simp: back_ok_def snaps_ok_def)
  then show "\<not> scratch_path (tx_id t) p" using assms(1) by (auto simp: batch_ready_def)
qed

lemma restore_all_ok:
  assumes "batch_ready (tx_id t) P d" and "back_ok P d t (w_disk w)"
    and "\<And>s. s \<in> set ss \<Longrightarrow> jm_get (tx_snapshots t) (ts_file s) = Some s" and "restore_all ss w = (n, es, w')"
  shows "rolls P d t w w' (ts_file ` set ss)"
  using assms(2-4)
proof (induction ss arbitrary: w n es w')
  case Nil
  then show ?case by (simp add: rolls_refl)
next
  case (Cons s ss)
  obtain r w1 where r: "restore_one s w = (r, w1)" by (cases "restore_one s w")
  note one = rolls_one [OF assms(1) Cons.prems(1) Cons.prems(2) [OF list.set_intros(1)] r]
  have bk: "back_ok P d t (w_disk w1)" using one(1) by (simp add: rolls_def)
  obtain n1 es1 w2 where rest: "restore_all ss w1 = (n1, es1, w2)" by (metis prod_cases3)
  have "w' = w2" using Cons.prems(3) r rest by (cases r) auto
  with rolls_trans [OF one(1) Cons.IH [OF bk Cons.prems(2) rest]] one(2) show ?case by simp
qed

lemma restore_applied_ok:
  assumes "batch_ready (tx_id t) P d" and "back_ok P d t (w_disk w)"
  shows "\<exists>R. rolls P d t w (restore_applied t ms w) R"
  using assms(2)
proof (induction ms arbitrary: w)
  case Nil
  then show ?case by (auto simp: restore_applied_def intro!: exI rolls_refl)
next
  case (Cons m ms)
  show ?case
  proof (cases "jm_get (tx_snapshots t) (tm_file m)")
    case None
    then show ?thesis using Cons by (simp add: restore_applied_def)
  next
    case (Some snap)
    obtain r w1 where r: "restore_one snap w = (r, w1)" by (cases "restore_one snap w")
    note one = rolls_one [OF assms(1) Cons.prems Some r]
    have "back_ok P d t (w_disk w1)" using one(1) by (simp add: rolls_def)
    from Cons.IH [OF this] obtain R where "rolls P d t w1 (restore_applied t ms w1) R" by blast
    from rolls_trans [OF one(1) this] one(2) Some r show ?thesis by (auto simp: restore_applied_def)
  qed
qed

lemma snapshot_values:
  assumes "snaps_ok P d t" and "s \<in> set (jm_values (tx_snapshots t))"
  shows "jm_get (tx_snapshots t) (ts_file s) = Some s"
proof -
  have "jm_wf (tx_snapshots t)" using assms(1) by (simp add: snaps_ok_def)
  from jm_values_iff [OF this] assms(2) obtain p where p: "jm_get (tx_snapshots t) p = Some s" by blast
  with assms(1) have "ts_file s = p" unfolding snaps_ok_def by blast
  with p show ?thesis by simp
qed

lemma remove_backups_ok:
  "remove_backups ss w = (es, w') \<Longrightarrow>
     (\<forall>q. (\<forall>s\<in>set ss. ts_backup s \<noteq> [] \<longrightarrow> q \<noteq> ts_backup s) \<longrightarrow> w_disk w' q = w_disk w q) \<and> (\<forall>q. w_disk w q = None \<longrightarrow> w_disk w' q = None) \<and>
     (es = [] \<longrightarrow> (\<forall>s\<in>set ss. ts_backup s \<noteq> [] \<longrightarrow> w_disk w' (ts_backup s) = None))"
proof (induction ss arbitrary: w es w')
  case (Cons s ss)
  show ?case
  proof (cases "ts_backup s = []")
    case True
    then show ?thesis using Cons.IH [of w es w'] Cons.prems by auto
  next
    case False
    obtain r w1 where r: "sys_call (unlink_file (ts_backup s)) w = (r, w1)" by (cases "sys_call (unlink_file (ts_backup s)) w")
    obtain es1 w2 where rest: "remove_backups ss w1 = (es1, w2)" by (cases "remove_backups ss w1")
    have one: "q \<noteq> ts_backup s \<Longrightarrow> w_disk w1 q = w_disk w q" "w_disk w q = None \<Longrightarrow> w_disk w1 q = None"
      "r = Inr () \<Longrightarrow> w_disk w1 (ts_backup s) = None" for q
      using r by (auto simp: sys_call_def unlink_file_def Let_def split: option.splits sum.splits file_node.splits)
    have res: "w' = w2" "es = [] \<Longrightarrow> es1 = [] \<and> r = Inr ()"
      using Cons.prems False r rest by (cases r; auto)+
    from Cons.IH [OF rest] one res False show ?thesis by auto
  qed
qed simp

text \<open>The whole batch.\<close>

lemma new_transaction_forward: "batch_ready i P d \<Longrightarrow> forward_ok P d (new_transaction i) d"
  by (auto simp: forward_ok_def snaps_ok_def new_transaction_def batch_ready_def)

lemma atomic_edit_cases:
  assumes batch: "batch_ready i (tm_file ` set ms) (w_disk w)" and res: "atomic_edit i ms w = (r, w')"
  defines "d \<equiv> w_disk w"
  shows "(\<not> tr_rolled_back r \<and> (\<forall>p. \<not> scratch_path i p \<longrightarrow> visible (w_disk w') p = batch_result (file_edits ms) d p) \<and>
      (tr_ok r \<longrightarrow> (\<forall>m. m \<noteq> n \<longrightarrow> w_fails w m = None) \<longrightarrow> (\<forall>q. scratch_path i q \<longrightarrow> w_disk w' q = None))) \<or>
    (tr_rolled_back r \<and> \<not> tr_ok r \<and>
      (\<forall>p. \<not> scratch_path i p \<longrightarrow> visible (w_disk w') p = visible d p \<or>
         d p = None \<or> visible (w_disk w') (backup_path i p) = visible d p) \<and>
      ((\<forall>m. m \<noteq> n \<longrightarrow> w_fails w m = None) \<longrightarrow> visible (w_disk w') = visible d))"
proof -
  let ?P = "tm_file ` set ms"
  obtain err applied t1 w1 where ap: "apply_mutations ms [] (new_transaction i, w) = (err, applied, t1, w1)"
    by (metis prod_cases4)
  have id0: "tx_id (new_transaction i) = i" by (simp add: new_transaction_def)
  have fwd0: "forward_ok ?P d (new_transaction i) (w_disk w)" using new_transaction_forward [OF batch] by (simp add: d_def)
  have tidy0: "tidy d (new_transaction i) (w_disk w)" using batch by (auto simp: tidy_def batch_ready_def d_def id0)
  from apply_mutations_ok [OF _ fwd0 subset_refl ap, unfolded id0, of n] batch
  have fwd: "forward_ok ?P d t1 (w_disk w1)" and id1: "tx_id t1 = i" and fails1: "w_fails w1 = w_fails w"
    and wrote_all: "err = None \<Longrightarrow> \<not> scratch_path i q \<Longrightarrow> visible (w_disk w1) q = batch_result (file_edits ms) d q"
    and tidy1: "(\<forall>m. m \<noteq> n \<longrightarrow> w_fails w m = None) \<Longrightarrow> tidy d t1 (w_disk w1)"
    and fault: "err \<noteq> None \<Longrightarrow> \<exists>m. w_calls w \<le> m \<and> m < w_calls w1 \<and> w_fails w m \<noteq> None" for q
    using tidy0 by (auto simp: d_def)
  have batch1: "batch_ready (tx_id t1) ?P d" using batch id1 by (simp add: d_def)
  have snaps: "snaps_ok ?P d t1" using fwd by (simp add: forward_ok_def)
  have vals: "jm_get (tx_snapshots t1) (ts_file s) = Some s" if "s \<in> set (jm_values (tx_snapshots t1))" for s
    using snapshot_values [OF snaps that] .
  show ?thesis
  proof (cases err)
    case None
    obtain es w2 where rb: "remove_backups (jm_values (tx_snapshots t1)) w1 = (es, w2)"
      by (cases "remove_backups (jm_values (tx_snapshots t1)) w1")
    have r: "r = \<lparr>tr_ok = (es = []), tr_mutations = length (tx_snapshots t1), tr_rolled_back = False,
        tr_error = (if es = [] then None else Some (join_with ''; '' es))\<rparr>" "w' = w2"
      using res ap None rb fwd by (auto simp: atomic_edit_def mutate_all_def commit_def Let_def forward_ok_def)
    note rem = remove_backups_ok [OF rb]
    have backups: "ts_backup s = (if d (ts_file s) = None then [] else backup_path i (ts_file s))"
      if "s \<in> set (jm_values (tx_snapshots t1))" for s
      using vals [OF that] snaps unfolding snaps_ok_def id1 by blast
    have "visible (w_disk w') p = batch_result (file_edits ms) d p" if "\<not> scratch_path i p" for p
    proof -
      have "w_disk w2 p = w_disk w1 p" using rem that backups by (metis scratch_paths(2))
      then show ?thesis using wrote_all [OF None that] r(2) by (simp add: visible_def)
    qed
    moreover have "w_disk w' q = None"
      if ok: "tr_ok r" and one: "\<forall>m. m \<noteq> n \<longrightarrow> w_fails w m = None" and q: "scratch_path i q" for q
    proof (cases "\<exists>p. jm_has (tx_snapshots t1) p \<and> d p \<noteq> None \<and> q = backup_path i p")
      case True
      then obtain p s where "jm_get (tx_snapshots t1) p = Some s" "d p \<noteq> None" "q = backup_path i p" by auto
      moreover from this have "s \<in> set (jm_values (tx_snapshots t1))" by (auto dest: jm_value_of_get)
      moreover have "ts_file s = p" using snaps calculation(1) by (auto simp: snaps_ok_def)
      ultimately show ?thesis using rem ok backups [of s] r by auto
    next
      case False
      then have "w_disk w1 q = None" using tidy1 [OF one] q id1 by (auto simp: tidy_def)
      then show ?thesis using rem r(2) by simp
    qed
    ultimately show ?thesis using r(1) by auto
  next
    case (Some e)
    let ?wa = "restore_applied t1 applied w1"
    obtain k es w2 where ra: "restore_all (jm_values (tx_snapshots t1)) ?wa = (k, es, w2)" by (metis prod_cases3)
    have r: "tr_rolled_back r" "\<not> tr_ok r" "w' = w2"
      using res ap Some ra fwd by (auto simp: atomic_edit_def mutate_all_def rollback_def Let_def forward_ok_def)
    obtain R where rolls1: "rolls ?P d t1 w1 ?wa R" using restore_applied_ok [OF batch1 forward_back [OF fwd]] by blast
    then have "back_ok ?P d t1 (w_disk ?wa)" by (simp add: rolls_def)
    from restore_all_ok [OF batch1 this vals ra]
    have rolls2: "rolls ?P d t1 ?wa w2 (ts_file ` set (jm_values (tx_snapshots t1)))" by blast
    then have bk: "back_ok ?P d t1 (w_disk w2)" by (simp add: rolls_def)
    have kept: "visible (w_disk w') p = visible d p \<or> d p = None \<or> visible (w_disk w') (backup_path i p) = visible d p"
      if "\<not> scratch_path i p" for p
      using bk that id1 r(3) by (cases "jm_has (tx_snapshots t1) p") (auto simp: back_ok_def visible_def)
    have "visible (w_disk w') = visible d" if one: "\<forall>m. m \<noteq> n \<longrightarrow> w_fails w m = None"
    proof
      fix q
      obtain m where "m < w_calls w1" "w_fails w m \<noteq> None" using fault Some by auto
      with one have "n < w_calls w1" by metis
      moreover have "w_calls w1 \<le> w_calls ?wa" "w_fails ?wa = w_fails w1" using rolls1 by (simp_all add: rolls_def)
      ultimately have "works_from (w_calls ?wa) ?wa" using one fails1 by (auto simp: works_from_def)
      then have all: "restored d t1 (w_disk w2) p" if has: "jm_has (tx_snapshots t1) p" for p
      proof -
        obtain s where s: "jm_get (tx_snapshots t1) p = Some s" using has by auto
        then have "ts_file s = p" "s \<in> set (jm_values (tx_snapshots t1))"
          using snaps jm_value_of_get [OF s] by (simp_all add: snaps_ok_def)
        then have "p \<in> ts_file ` set (jm_values (tx_snapshots t1))" by blast
        with rolls2 \<open>works_from (w_calls ?wa) ?wa\<close> show ?thesis unfolding rolls_def by blast
      qed
      have tidy2: "tidy d t1 (w_disk w2)" using tidy1 [OF one] rolls1 rolls2 unfolding rolls_def by blast
      show "visible (w_disk w') q = visible d q"
      proof (cases "scratch_path i q")
        case True
        then have "w_disk w2 q = None" using tidy2 all id1 by (auto simp: tidy_def restored_def)
        moreover have "d q = None" using batch True by (auto simp: batch_ready_def d_def)
        ultimately show ?thesis using r(3) by (simp add: visible_def)
      next
        case False
        then show ?thesis
        proof (cases "jm_has (tx_snapshots t1) q")
          case True
          then show ?thesis using all r(3) by (simp add: restored_def)
        next
          case no: False
          then show ?thesis using bk False id1 r(3) by (simp add: back_ok_def visible_def)
        qed
      qed
    qed
    with kept r(1,2) show ?thesis by blast
  qed
qed

section \<open>Properties\<close>

text \<open>A batch over an existing file and a new one, whose second write fails.\<close>

definition sample_files :: disk where
  "sample_files = [''/a'' \<mapsto> RegularFile \<lparr>fd_content = ''old'', fd_mode = 384, fd_durable = Some (''old'', 384)\<rparr>]"

definition sample_world :: "nat list \<Rightarrow> world" where
  "sample_world bad = \<lparr>w_disk = sample_files, w_fails = (\<lambda>n. if n \<in> set bad then Some ''EIO'' else None), w_calls = 0\<rparr>"

definition sample_batch :: "txn_mutation list" where
  "sample_batch = [\<lparr>tm_file = ''/a'', tm_content = ''new''\<rparr>, \<lparr>tm_file = ''/b'', tm_content = ''more''\<rparr>]"

lemma scratch_path_length: "scratch_path i p \<Longrightarrow> 5 \<le> length p"
  by (auto simp: scratch_path_def tmp_path_def backup_path_def)

lemma sample_batch_ready: "batch_ready i (tm_file ` set sample_batch) (w_disk (sample_world bad))"
  by (auto simp: batch_ready_def sample_batch_def sample_world_def sample_files_def plain_def dest: scratch_path_length)



text \<open>
  Nothing is lost. However many calls fail, after a batch that was rolled back every file that existed is
  as it was, or its backup is.
\<close>

theorem nothing_is_lost:
  assumes "batch_ready i (tm_file ` set ms) (w_disk w)" and "atomic_edit i ms w = (r, w')" and "tr_rolled_back r"
    and "w_disk w p \<noteq> None" and "\<not> scratch_path i p"
  shows "visible (w_disk w') p = visible (w_disk w) p \<or>
    visible (w_disk w') (backup_path i p) = visible (w_disk w) p"
  using atomic_edit_cases [OF assms(1,2), of 0] assms(3-5) by auto

theorem nothing_is_lost_witness:
  "visible (w_disk (snd (atomic_edit ''t'' sample_batch (sample_world [22, 33, 34, 35])))) ''/a'' \<noteq> visible sample_files ''/a'' \<and>
   visible (w_disk (snd (atomic_edit ''t'' sample_batch (sample_world [22, 33, 34, 35])))) (backup_path ''t'' ''/a'') =
     visible sample_files ''/a''"
proof -
  let ?r = "atomic_edit ''t'' sample_batch (sample_world [22, 33, 34, 35])"
  have undone: "tr_rolled_back (fst ?r)" by code_simp
  have lost: "read_file (w_disk (snd ?r)) ''/a'' = Some ''new''" by code_simp
  have plain: "\<not> scratch_path ''t'' ''/a''" by (auto dest: scratch_path_length)
  have "w_disk (sample_world [22, 33, 34, 35]) ''/a'' \<noteq> None" by (simp add: sample_world_def sample_files_def)
  from nothing_is_lost [OF sample_batch_ready prod.collapse [symmetric] undone this plain]
  have "visible (w_disk (snd ?r)) ''/a'' = visible sample_files ''/a'' \<or>
      visible (w_disk (snd ?r)) (backup_path ''t'' ''/a'') = visible sample_files ''/a''"
    by (simp add: sample_world_def)
  moreover have "visible (w_disk (snd ?r)) ''/a'' \<noteq> visible sample_files ''/a''" by code_simp
  ultimately show ?thesis by blast
qed

text \<open>A file behind a link is not put back: its backup replaces the link, and the pointee keeps the new content.\<close>

lemma rollback_breaks_links:
  "let d = [''/l'' \<mapsto> SymbolicLink ''/a'', ''/a'' \<mapsto> RegularFile \<lparr>fd_content = ''old'', fd_mode = 384, fd_durable = None\<rparr>];
       w = \<lparr>w_disk = d, w_fails = (\<lambda>n. if n = 22 then Some ''EIO'' else None), w_calls = 0\<rparr>;
       (r, w') = atomic_edit ''t'' [\<lparr>tm_file = ''/l'', tm_content = ''new''\<rparr>, \<lparr>tm_file = ''/b'', tm_content = ''more''\<rparr>] w
   in tr_rolled_back r \<and> read_file (w_disk w') ''/a'' = Some ''new'' \<and> read_file (w_disk w') ''/l'' = Some ''old''"
  by code_simp

text \<open>The roll-back after a failed batch counts no file, since the batch has already put back what it applied.\<close>

lemma restored_count_is_wrong:
  "tr_error (fst (atomic_edit ''t'' [\<lparr>tm_file = ''/a'', tm_content = ''new''\<rparr>, \<lparr>tm_file = ''/b'', tm_content = ''more''\<rparr>]
     (sample_world [22]))) = Some ''EIO; rollback: 1 files restored''"
  by code_simp

end
