(* ===== verification/Texts.thy ===== *)
theory Texts
  imports Prelude
begin

text \<open>
  Searching and replacing in texts: \<open>indexOf\<close>, \<open>split\<close> and \<open>join\<close> with a text as separator, and
  the longest end of a text that begins a pattern. The filters and the editing tools share the lemmas.
\<close>

section \<open>Prefixes\<close>

lemma is_prefix_take: "is_prefix p s \<longleftrightarrow> take (length p) s = p"
  by (induction p s rule: is_prefix.induct) auto

lemma is_prefix_ex: "is_prefix p s \<longleftrightarrow> (\<exists>r. s = p @ r)"
  by (metis append_eq_conv_conj append_take_drop_id is_prefix_take)

lemma is_prefix_length: "is_prefix p s \<Longrightarrow> length p \<le> length s"
  by (auto simp: is_prefix_ex)

lemma is_prefix_append: "is_prefix p s \<Longrightarrow> is_prefix p (s @ r)"
  by (auto simp: is_prefix_ex)

lemma is_prefix_self [simp]: "is_prefix p (p @ r)" "is_prefix p p" "is_prefix [] p"
  by (auto simp: is_prefix_ex)

text \<open>A prefix of two texts in a row lies in the first one or begins with it.\<close>

lemma is_prefix_append_cases:
  "is_prefix p (s @ r) \<longleftrightarrow> is_prefix p s \<or> (\<exists>q. p = s @ q \<and> q \<noteq> [] \<and> is_prefix q r)"
  by (auto simp: is_prefix_ex append_eq_append_conv2)

section \<open>Searching\<close>

fun find_text :: "'a list \<Rightarrow> 'a list \<Rightarrow> nat option" where
  "find_text pat [] = (if pat = [] then Some 0 else None)"
| "find_text pat (c # cs) = (if is_prefix pat (c # cs) then Some 0 else map_option Suc (find_text pat cs))"

definition occurs_at :: "'a list \<Rightarrow> 'a list \<Rightarrow> nat \<Rightarrow> bool" where
  "occurs_at pat s n \<longleftrightarrow> n \<le> length s \<and> is_prefix pat (drop n s)"

lemma occurs_at_simps [simp]:
  "occurs_at pat [] n \<longleftrightarrow> n = 0 \<and> pat = []"
  "occurs_at pat s 0 \<longleftrightarrow> is_prefix pat s"
  "occurs_at pat (c # cs) (Suc n) \<longleftrightarrow> occurs_at pat cs n"
  by (cases pat; auto simp: occurs_at_def)+

lemma occurs_at_split: "occurs_at pat s n \<longleftrightarrow> (\<exists>a b. s = a @ pat @ b \<and> length a = n)"
proof
  assume "occurs_at pat s n"
  then obtain b where "drop n s = pat @ b" "n \<le> length s" by (auto simp: occurs_at_def is_prefix_ex)
  then have "s = take n s @ pat @ b \<and> length (take n s) = n" by (metis append_take_drop_id length_take min.absorb2)
  then show "\<exists>a b. s = a @ pat @ b \<and> length a = n" by blast
qed (auto simp: occurs_at_def)

lemma find_text_Some:
  "find_text pat s = Some n \<longleftrightarrow> occurs_at pat s n \<and> (\<forall>m<n. \<not> occurs_at pat s m)"
proof (induction pat s arbitrary: n rule: find_text.induct)
  case (2 pat c cs)
  then show ?case by (cases n) (auto simp: less_Suc_eq_0_disj)
qed auto

lemma find_text_None: "find_text pat s = None \<longleftrightarrow> (\<forall>n. \<not> occurs_at pat s n)"
proof (induction pat s rule: find_text.induct)
  case (2 pat c cs)
  have "(\<forall>n. \<not> occurs_at pat (c # cs) n) \<longleftrightarrow> \<not> occurs_at pat (c # cs) 0 \<and> (\<forall>n. \<not> occurs_at pat (c # cs) (Suc n))"
    by (metis not0_implies_Suc)
  with 2 show ?case by simp
qed auto

lemma find_text_bound: "find_text pat s = Some n \<Longrightarrow> n + length pat \<le> length s"
  by (auto simp: find_text_Some occurs_at_split)

lemma find_text_split:
  assumes "find_text pat s = Some n"
  shows "s = take n s @ pat @ drop (n + length pat) s"
proof -
  obtain a b where "s = a @ pat @ b" "length a = n" using assms by (auto simp: find_text_Some occurs_at_split)
  then show ?thesis by simp
qed

lemma occurs_at_append: "occurs_at pat s n \<Longrightarrow> occurs_at pat (s @ r) n"
  by (auto simp: occurs_at_def is_prefix_append)

lemma occurs_at_prefix_text:
  "occurs_at pat (s @ r) n \<Longrightarrow> n + length pat \<le> length s \<Longrightarrow> occurs_at pat s n"
  by (auto simp: occurs_at_def is_prefix_take)

lemma occurs_at_shift: "occurs_at pat (s @ r) (length s + n) \<longleftrightarrow> occurs_at pat r n"
  by (simp add: occurs_at_def)

lemma find_text_append:
  assumes "find_text pat s = Some n"
  shows "find_text pat (s @ r) = Some n"
proof -
  have "\<not> occurs_at pat (s @ r) m" if "m < n" for m
  proof
    assume "occurs_at pat (s @ r) m"
    moreover have "m + length pat \<le> length s" using find_text_bound [OF assms] that by simp
    ultimately have "occurs_at pat s m" by (rule occurs_at_prefix_text)
    with assms that show False by (simp add: find_text_Some)
  qed
  with assms show ?thesis by (simp add: find_text_Some occurs_at_append)
qed

text \<open>Dropping a beginning in which no occurrence starts moves the first one.\<close>

lemma find_text_after:
  assumes "\<And>n. n < length s \<Longrightarrow> \<not> occurs_at pat (s @ r) n"
  shows "find_text pat (s @ r) = map_option (\<lambda>n. length s + n) (find_text pat r)"
proof (cases "find_text pat r")
  case None
  have "\<not> occurs_at pat (s @ r) n" for n
  proof (cases "n < length s")
    case False
    then have "n = length s + (n - length s)" by simp
    with None show ?thesis by (metis find_text_None occurs_at_shift)
  qed (rule assms)
  then have "find_text pat (s @ r) = None" by (simp add: find_text_None)
  with None show ?thesis by simp
next
  case (Some n)
  have "\<not> occurs_at pat (s @ r) m" if "m < length s + n" for m
  proof (cases "m < length s")
    case False
    then have "m = length s + (m - length s)" "m - length s < n" using that by simp_all
    with Some show ?thesis by (metis find_text_Some occurs_at_shift)
  qed (rule assms)
  then have "find_text pat (s @ r) = Some (length s + n)"
    using Some by (simp add: find_text_Some occurs_at_shift)
  with Some show ?thesis by simp
qed

section \<open>Ends that begin a pattern\<close>

text \<open>The longest end of at most \<open>n\<close> characters with which a pattern begins.\<close>

fun pattern_end :: "nat \<Rightarrow> 'a list \<Rightarrow> 'a list \<Rightarrow> 'a list" where
  "pattern_end 0 s pat = []"
| "pattern_end (Suc n) s pat =
     (if is_prefix (drop (length s - Suc n) s) pat then drop (length s - Suc n) s else pattern_end n s pat)"

lemma pattern_end_prefix: "is_prefix (pattern_end n s pat) pat"
  by (induction n) auto

lemma pattern_end_suffix: "\<exists>a. s = a @ pattern_end n s pat"
proof (induction n)
  case (Suc n)
  then show ?case by (auto intro: exI [of _ "take (length s - Suc n) s"])
qed simp

lemma pattern_end_length: "length (pattern_end n s pat) \<le> n"
  by (induction n) auto

lemma pattern_end_longest:
  assumes "s = a @ b" and "length b \<le> n" and "is_prefix b pat"
  shows "length b \<le> length (pattern_end n s pat)"
  using assms(2)
proof (induction n)
  case (Suc n)
  show ?case
  proof (cases "length b = Suc n")
    case True
    then have "drop (length s - Suc n) s = b" using assms(1) by simp
    with assms(3) show ?thesis by simp
  next
    case False
    with Suc have "length b \<le> length (pattern_end n s pat)" by simp
    moreover have "length (pattern_end n s pat) \<le> Suc n" using pattern_end_length [of n s pat] by simp
    moreover have "length (drop (length s - Suc n) s) = min (length s) (Suc n)" by simp
    moreover have "length b \<le> length s" using assms(1) by simp
    ultimately show ?thesis using Suc.prems by auto
  qed
qed simp

section \<open>Splitting and replacing\<close>

function split_text :: "'a list \<Rightarrow> 'a list \<Rightarrow> 'a list list" where
  "split_text pat s = (case (if pat = [] then None else find_text pat s) of
      None \<Rightarrow> [s]
    | Some n \<Rightarrow> take n s # split_text pat (drop (n + length pat) s))"
  by pat_completeness auto
termination
proof (relation "measure (\<lambda>(pat, s). length s)")
  fix pat s :: "'a list" and n
  assume "(if pat = [] then None else find_text pat s) = Some n"
  then have "pat \<noteq> []" "find_text pat s = Some n" by (auto split: if_splits)
  with find_text_bound [of pat s n] show "((pat, drop (n + length pat) s), pat, s) \<in> measure (\<lambda>(pat, s). length s)"
    by (cases pat) auto
qed simp

declare split_text.simps [simp del]

lemma split_text_None: "find_text pat s = None \<Longrightarrow> split_text pat s = [s]"
  by (subst split_text.simps) auto

lemma split_text_Some: "pat \<noteq> [] \<Longrightarrow> find_text pat s = Some n \<Longrightarrow>
    split_text pat s = take n s # split_text pat (drop (n + length pat) s)"
  by (subst split_text.simps) auto

fun join_text :: "'a list \<Rightarrow> 'a list list \<Rightarrow> 'a list" where
  "join_text d [] = []"
| "join_text d [w] = w"
| "join_text d (w # v # ws) = w @ d @ join_text d (v # ws)"

lemma split_text_nonempty [simp]: "split_text pat s \<noteq> []"
  by (subst split_text.simps) (auto split: option.splits)

lemma join_text_Cons: "ws \<noteq> [] \<Longrightarrow> join_text d (w # ws) = w @ d @ join_text d ws"
  by (cases ws) auto

lemma join_split_text: "join_text pat (split_text pat s) = s"
proof (induction pat s rule: split_text.induct)
  case (1 pat s)
  show ?case
  proof (cases "if pat = [] then None else find_text pat s")
    case None
    then show ?thesis by (subst split_text.simps) simp
  next
    case (Some n)
    then have "find_text pat s = Some n" "pat \<noteq> []" by (auto split: if_splits)
    then show ?thesis using 1 [OF Some] find_text_split [of pat s n]
      by (simp add: split_text_Some join_text_Cons)
  qed
qed

lemma join_with_Cons: "ws \<noteq> [] \<Longrightarrow> join_with d (w # ws) = w @ d @ join_with d ws"
  by (cases ws) auto

lemma join_split_at_char: "join_with [d] (split_at_char d s) = s"
proof (induction s)
  case (Cons c s)
  obtain w ws where "split_at_char d s = w # ws" by (cases "split_at_char d s") auto
  with Cons show ?case by (cases ws) auto
qed simp

end
