(* ===== verification/Patches.thy ===== *)
theory Patches
  imports PathSecurity Transactions Texts
begin

text \<open>
  The patch tool: \<open>src/src/tools/applyPatch.ts\<close>.

  A patch document is parsed into operations, the hunks of an update are located in the lines of the file
  with rising tolerance, and the operations are carried out one after the other on the disk of
  \<open>AtomicFiles\<close>, whose calls may fail.
\<close>

section \<open>Documents\<close>

record patch_hunk =
  ph_find :: "string list"
  ph_replace :: "string list"

datatype patch_op =
    AddFile string "string list"
  | UpdateFile string "patch_hunk list"
  | DeleteFile string

datatype patch_error =
    NoBeginMarker
  | NoHunks string
  | UnknownDirective nat string
  | ContentOutside nat
  | ContentBeforeHunk string nat
  | DeleteWithBody string nat
  | NoEndMarker
  | NoOperations

definition strip_cr :: "string \<Rightarrow> string" where
  "strip_cr l = (if l \<noteq> [] \<and> last l = CHR 0x0D then butlast l else l)"

definition patch_lines :: "string \<Rightarrow> string list" where
  "patch_lines patch = map strip_cr (split_at_char (CHR 0x0A) patch)"

text \<open>A key, blanks, and a path without line ends; a path of blanks alone is empty after trimming.\<close>

definition directive_path :: "string \<Rightarrow> string \<Rightarrow> string option" where
  "directive_path key header =
     (if is_prefix key header
      then let rest = drop (length key) header; path = dropWhile is_space rest
           in if path \<noteq> [] then (if CHR 0x0D \<in> set path then None else Some (js_trim path))
              else if rest \<noteq> [] \<and> last rest \<noteq> CHR 0x0D then Some [] else None
      else None)"

definition open_directive :: "string \<Rightarrow> patch_op option" where
  "open_directive header = (case directive_path ''Add File:'' header of
      Some p \<Rightarrow> Some (AddFile p [])
    | None \<Rightarrow> (case directive_path ''Update File:'' header of
          Some p \<Rightarrow> Some (UpdateFile p [])
        | None \<Rightarrow> map_option DeleteFile (directive_path ''Delete File:'' header)))"

definition flush_op :: "patch_op option \<Rightarrow> patch_op list \<Rightarrow> patch_error + patch_op list" where
  "flush_op current ops = (case current of
      None \<Rightarrow> Inr ops
    | Some (UpdateFile p []) \<Rightarrow> Inl (NoHunks p)
    | Some op \<Rightarrow> Inr (ops @ [op]))"

definition hunk_line :: "string \<Rightarrow> patch_hunk \<Rightarrow> patch_hunk" where
  "hunk_line line h =
     (if is_prefix ''+'' line then h\<lparr>ph_replace := ph_replace h @ [tl line]\<rparr>
      else if is_prefix ''-'' line then h\<lparr>ph_find := ph_find h @ [tl line]\<rparr>
      else let ctx = (if is_prefix '' '' line then tl line else line)
           in \<lparr>ph_find = ph_find h @ [ctx], ph_replace = ph_replace h @ [ctx]\<rparr>)"

fun body_line :: "nat \<Rightarrow> string \<Rightarrow> patch_op \<Rightarrow> patch_error + patch_op" where
  "body_line i line (AddFile p ls) = Inr (AddFile p (ls @ [if is_prefix ''+'' line then tl line else line]))"
| "body_line i line (UpdateFile p hs) =
     (if line = ''@@'' then Inr (UpdateFile p (hs @ [\<lparr>ph_find = [], ph_replace = []\<rparr>]))
      else if hs = [] then Inl (ContentBeforeHunk p i)
      else Inr (UpdateFile p (butlast hs @ [hunk_line line (last hs)])))"
| "body_line i line (DeleteFile p) =
     (if js_trim line \<noteq> [] then Inl (DeleteWithBody p i) else Inr (DeleteFile p))"

fun parse_ops :: "nat \<Rightarrow> string list \<Rightarrow> patch_op list \<Rightarrow> patch_op option \<Rightarrow> patch_error + patch_op list" where
  "parse_ops i [] ops current = Inl NoEndMarker"
| "parse_ops i (line # ls) ops current =
     (if is_prefix ''*** '' line
      then case flush_op current ops of
          Inl e \<Rightarrow> Inl e
        | Inr ops1 \<Rightarrow>
            if drop 4 line = ''End Patch'' then (if ops1 = [] then Inl NoOperations else Inr ops1)
            else (case open_directive (drop 4 line) of
                None \<Rightarrow> Inl (UnknownDirective i line)
              | Some op \<Rightarrow> parse_ops (Suc i) ls ops1 (Some op))
      else case current of
          None \<Rightarrow> if js_trim line \<noteq> [] then Inl (ContentOutside i) else parse_ops (Suc i) ls ops None
        | Some op \<Rightarrow> (case body_line i line op of
              Inl e \<Rightarrow> Inl e
            | Inr op1 \<Rightarrow> parse_ops (Suc i) ls ops (Some op1)))"

definition parse_apply_patch :: "string \<Rightarrow> patch_error + patch_op list" where
  "parse_apply_patch patch =
     (let lines = patch_lines patch; blank = takeWhile (\<lambda>l. js_trim l = []) lines
      in case drop (length blank) lines of
          [] \<Rightarrow> Inl NoBeginMarker
        | l # ls \<Rightarrow> if js_trim l = ''*** Begin Patch'' then parse_ops (length blank + 2) ls [] None
                   else Inl NoBeginMarker)"

fun op_path :: "patch_op \<Rightarrow> string" where
  "op_path (AddFile p ls) = p"
| "op_path (UpdateFile p hs) = p"
| "op_path (DeleteFile p) = p"

definition patch_touch_paths :: "string \<Rightarrow> string list" where
  "patch_touch_paths patch = (case parse_apply_patch patch of Inl _ \<Rightarrow> [] | Inr ops \<Rightarrow> map op_path ops)"

text \<open>The claims of a patch: every path as written and resolved, once.\<close>

definition patch_claim_keys :: "string \<Rightarrow> string \<Rightarrow> string list" where
  "patch_claim_keys process_cwd patch =
     (if patch = [] then []
      else rev (remdups (rev (concat (map (\<lambda>k. [k, resolve_path process_cwd process_cwd k])
        (filter (\<lambda>k. k \<noteq> []) (patch_touch_paths patch)))))))"

section \<open>Hunks\<close>

definition normalize_punct :: "string \<Rightarrow> string" where
  "normalize_punct l = map (\<lambda>c. if c = CHR 0xA0 then CHR 0x20 else c) l"

definition trim_end :: "string \<Rightarrow> string" where
  "trim_end s = rev (dropWhile is_space (rev s))"

definition lines_equal_at_level :: "nat \<Rightarrow> string \<Rightarrow> string \<Rightarrow> bool" where
  "lines_equal_at_level level a b =
     (if level = 0 then a = b
      else if level = 1 then trim_end a = trim_end b
      else if level = 2 then js_trim a = js_trim b
      else normalize_punct (js_trim a) = normalize_punct (js_trim b))"

definition match_at :: "nat \<Rightarrow> string list \<Rightarrow> string list \<Rightarrow> nat \<Rightarrow> bool" where
  "match_at level haystack needle i \<longleftrightarrow>
     list_all2 (lines_equal_at_level level) (take (length needle) (drop i haystack)) needle"

definition find_at_level :: "nat \<Rightarrow> string list \<Rightarrow> string list \<Rightarrow> nat \<Rightarrow> nat option" where
  "find_at_level level haystack needle start =
     (if needle = [] then None
      else find (match_at level haystack needle) [start..<Suc (length haystack) - length needle])"

fun first_level :: "(nat \<Rightarrow> nat option) \<Rightarrow> nat list \<Rightarrow> (nat \<times> nat) option" where
  "first_level search [] = None"
| "first_level search (level # levels) = (case search level of
      Some i \<Rightarrow> Some (i, level)
    | None \<Rightarrow> first_level search levels)"

definition find_sequence_tolerant :: "string list \<Rightarrow> string list \<Rightarrow> nat \<Rightarrow> (nat \<times> nat) option" where
  "find_sequence_tolerant haystack needle start =
     first_level (\<lambda>level. find_at_level level haystack needle start) [0, 1, 2, 3]"

fun common_prefix :: "'a list \<Rightarrow> 'a list \<Rightarrow> nat" where
  "common_prefix (x # xs) (y # ys) = (if x = y then Suc (common_prefix xs ys) else 0)"
| "common_prefix _ _ = 0"

datatype hunk_error = NoContext nat string | NoMatch nat string

definition hunk_replacement :: "patch_hunk \<Rightarrow> string list \<Rightarrow> string list" where
  "hunk_replacement h block =
     (let n = common_prefix (ph_replace h) (ph_find h) in take n block @ drop n (ph_replace h))"

fun apply_hunks :: "string \<Rightarrow> nat \<Rightarrow> nat \<Rightarrow> patch_hunk list \<Rightarrow> string list \<Rightarrow> hunk_error + string list" where
  "apply_hunks path i cursor [] lines = Inr lines"
| "apply_hunks path i cursor (h # hs) lines =
     (if ph_find h = [] then Inl (NoContext i path)
      else case find_sequence_tolerant lines (ph_find h) cursor of
          None \<Rightarrow> Inl (NoMatch i path)
        | Some (at, level) \<Rightarrow>
            (let new = hunk_replacement h (drop at lines)
             in apply_hunks path (Suc i) (at + length new) hs
                  (take at lines @ new @ drop (at + length (ph_find h)) lines)))"

definition apply_update_hunks :: "string \<Rightarrow> string \<Rightarrow> patch_hunk list \<Rightarrow> hunk_error + string" where
  "apply_update_hunks path content hunks =
     map_sum id (join_with new_line) (apply_hunks path 1 0 hunks (split_at_char (CHR 0x0A) content))"

section \<open>The tool\<close>

datatype patch_refusal =
    EmptyPath | NulByte | ControlFile | AlreadyExists | NothingToDelete | NothingToUpdate
  | PatchSystemError string | HunkFailed hunk_error

datatype patch_report =
    Added string nat | Deleted string | Unchanged string | Updated string nat
  | Refused string patch_refusal

datatype history_call = TrackEdit string | MarkCreated string

record patch_run =
  pr_world :: world
  pr_history :: "history_call list"
  pr_marked :: "(string \<times> string) list"
  pr_reports :: "patch_report list"

definition report :: "patch_report \<Rightarrow> patch_run \<Rightarrow> patch_run" where
  "report r s = s\<lparr>pr_reports := pr_reports s @ [r]\<rparr>"

definition sys_read :: "string \<Rightarrow> world \<Rightarrow> (string + string) \<times> world" where
  "sys_read p w =
     (let w1 = w\<lparr>w_calls := Suc (w_calls w)\<rparr> in
      case w_fails w (w_calls w) of
        Some e \<Rightarrow> (Inl e, w1)
      | None \<Rightarrow> (case read_file (w_disk w) p of None \<Rightarrow> Inl ''EISDIR'' | Some c \<Rightarrow> Inr c, w1))"

text \<open>A write, after which the content counts as read.\<close>

definition write_patched ::
  "string \<Rightarrow> string \<Rightarrow> string \<Rightarrow> history_call list \<Rightarrow> patch_report \<Rightarrow> patch_run \<Rightarrow> patch_run" where
  "write_patched name p content after done_report s =
     (case atomic_write p content (pr_world s) of
        (Inl e, w) \<Rightarrow> report (Refused name (PatchSystemError e)) (s\<lparr>pr_world := w\<rparr>)
      | (Inr _, w) \<Rightarrow> report done_report (s\<lparr>pr_world := w, pr_marked := pr_marked s @ [(p, content)],
          pr_history := pr_history s @ after\<rparr>))"

fun run_op :: "string \<Rightarrow> patch_op \<Rightarrow> patch_run \<Rightarrow> patch_run" where
  "run_op p (AddFile name lines) s =
     (if file_exists (w_disk (pr_world s)) p then report (Refused name AlreadyExists) s
      else write_patched name p (join_with new_line lines @ (if lines = [] then [] else new_line))
        [MarkCreated p] (Added name (length lines)) s)"
| "run_op p (DeleteFile name) s =
     (if \<not> file_exists (w_disk (pr_world s)) p then report (Refused name NothingToDelete) s
      else let s1 = s\<lparr>pr_history := pr_history s @ [TrackEdit p]\<rparr> in
        case sys_call (unlink_file p) (pr_world s1) of
          (Inl e, w) \<Rightarrow> report (Refused name (PatchSystemError e)) (s1\<lparr>pr_world := w\<rparr>)
        | (Inr _, w) \<Rightarrow> report (Deleted name) (s1\<lparr>pr_world := w\<rparr>))"
| "run_op p (UpdateFile name hunks) s =
     (if \<not> file_exists (w_disk (pr_world s)) p then report (Refused name NothingToUpdate) s
      else case sys_read p (pr_world s) of
          (Inl e, w) \<Rightarrow> report (Refused name (PatchSystemError e)) (s\<lparr>pr_world := w\<rparr>)
        | (Inr content, w) \<Rightarrow> (let s1 = s\<lparr>pr_world := w\<rparr> in
            case apply_update_hunks name content hunks of
              Inl e \<Rightarrow> report (Refused name (HunkFailed e)) s1
            | Inr updated \<Rightarrow>
                if updated = content then report (Unchanged name) s1
                else write_patched name p updated [] (Updated name (length hunks))
                  (s1\<lparr>pr_history := pr_history s1 @ [TrackEdit p]\<rparr>)))"

definition target_path :: "string \<Rightarrow> string \<Rightarrow> string \<Rightarrow> string" where
  "target_path process_cwd cwd name =
     (if name \<noteq> [] \<and> \<not> is_absolute name then resolve_path process_cwd cwd name else name)"

definition patch_step :: "bool \<Rightarrow> string \<Rightarrow> string \<Rightarrow> patch_op \<Rightarrow> patch_run \<Rightarrow> patch_run" where
  "patch_step ci process_cwd cwd op s =
     (let p = target_path process_cwd cwd (op_path op) in
      if p = [] then report (Refused (op_path op) EmptyPath) s
      else if contains_null_byte p then report (Refused (op_path op) NulByte) s
      else if is_loop_driver_owned_path ci p then report (Refused (op_path op) ControlFile) s
      else run_op p op s)"

fun refused :: "patch_report \<Rightarrow> bool" where
  "refused (Refused _ _) = True"
| "refused _ = False"

datatype patch_outcome = BadInput | Malformed patch_error | PatchApplied bool "patch_report list"

definition execute_patch :: "bool \<Rightarrow> string \<Rightarrow> string \<Rightarrow> string \<Rightarrow> world \<Rightarrow> patch_outcome \<times> patch_run" where
  "execute_patch ci process_cwd cwd patch w =
     (let s = \<lparr>pr_world = w, pr_history = [], pr_marked = [], pr_reports = []\<rparr> in
      if js_trim patch = [] then (BadInput, s)
      else case parse_apply_patch patch of
          Inl e \<Rightarrow> (Malformed e, s)
        | Inr ops \<Rightarrow> (let s1 = fold (patch_step ci process_cwd cwd) ops s
            in (PatchApplied (list_ex refused (pr_reports s1)) (pr_reports s1), s1)))"

section \<open>Writing a patch\<close>

text \<open>A hunk as its lines: kept, cut and put. What it looks for and what it leaves.\<close>

datatype diff_line = Keep string | Cut string | Put string

fun diff_text :: "diff_line \<Rightarrow> string" where
  "diff_text (Keep t) = CHR '' '' # t"
| "diff_text (Cut t) = CHR ''-'' # t"
| "diff_text (Put t) = CHR ''+'' # t"

definition old_lines :: "diff_line list \<Rightarrow> string list" where
  "old_lines ds = concat (map (\<lambda>d. case d of Keep t \<Rightarrow> [t] | Cut t \<Rightarrow> [t] | Put t \<Rightarrow> []) ds)"

definition new_lines :: "diff_line list \<Rightarrow> string list" where
  "new_lines ds = concat (map (\<lambda>d. case d of Keep t \<Rightarrow> [t] | Cut t \<Rightarrow> [] | Put t \<Rightarrow> [t]) ds)"

definition hunk_of :: "diff_line list \<Rightarrow> patch_hunk" where
  "hunk_of ds = \<lparr>ph_find = old_lines ds, ph_replace = new_lines ds\<rparr>"

datatype patch_entry =
    NewFile string "string list"
  | Change string "diff_line list list"
  | Removal string

fun entry_lines :: "patch_entry \<Rightarrow> string list" where
  "entry_lines (NewFile p ls) = (''*** Add File: '' @ p) # map (\<lambda>l. CHR ''+'' # l) ls"
| "entry_lines (Change p hs) = (''*** Update File: '' @ p) # concat (map (\<lambda>ds. ''@@'' # map diff_text ds) hs)"
| "entry_lines (Removal p) = [''*** Delete File: '' @ p]"

fun entry_op :: "patch_entry \<Rightarrow> patch_op" where
  "entry_op (NewFile p ls) = AddFile p ls"
| "entry_op (Change p hs) = UpdateFile p (map hunk_of hs)"
| "entry_op (Removal p) = DeleteFile p"

definition patch_text :: "patch_entry list \<Rightarrow> string" where
  "patch_text es = join_with new_line (''*** Begin Patch'' # concat (map entry_lines es) @ [''*** End Patch''])"

text \<open>What can be written: paths without blanks at their ends, texts that are lines.\<close>

definition plain_line :: "string \<Rightarrow> bool" where
  "plain_line l \<longleftrightarrow> CHR 0x0A \<notin> set l \<and> (l = [] \<or> last l \<noteq> CHR 0x0D)"

definition plain_path :: "string \<Rightarrow> bool" where
  "plain_path p \<longleftrightarrow> p \<noteq> [] \<and> \<not> is_space (hd p) \<and> \<not> is_space (last p) \<and> CHR 0x0A \<notin> set p \<and> CHR 0x0D \<notin> set p"

fun diff_content :: "diff_line \<Rightarrow> string" where
  "diff_content (Keep t) = t"
| "diff_content (Cut t) = t"
| "diff_content (Put t) = t"

fun entry_ok :: "patch_entry \<Rightarrow> bool" where
  "entry_ok (NewFile p ls) = (plain_path p \<and> list_all plain_line ls)"
| "entry_ok (Change p hs) = (plain_path p \<and> hs \<noteq> [] \<and> list_all (list_all (\<lambda>d. plain_line (diff_content d))) hs)"
| "entry_ok (Removal p) = plain_path p"

section \<open>Lemmas on documents\<close>

lemma trim_plain_path: "plain_path p \<Longrightarrow> js_trim p = p" "plain_path p \<Longrightarrow> dropWhile is_space p = p"
proof -
  assume p: "plain_path p"
  then show d: "dropWhile is_space p = p" by (cases p) (auto simp: plain_path_def)
  have "dropWhile is_space (rev p) = rev p" using p by (cases p rule: rev_cases) (auto simp: plain_path_def)
  with d show "js_trim p = p" by (simp add: js_trim_def)
qed

lemma directive_path_key:
  assumes "plain_path p"
  shows "directive_path key (key @ CHR '' '' # p) = Some p"
proof -
  have "is_space (CHR '' '')" by code_simp
  then have "dropWhile is_space (CHR '' '' # p) = p" using trim_plain_path(2) [OF assms] by simp
  moreover have "drop (length key) (key @ CHR '' '' # p) = CHR '' '' # p" by simp
  moreover have "p \<noteq> []" "CHR 0x0D \<notin> set p" using assms by (simp_all add: plain_path_def)
  ultimately show ?thesis
    using trim_plain_path(1) [OF assms] unfolding directive_path_def Let_def by (simp del: dropWhile.simps)
qed

lemma open_directives:
  assumes "plain_path p"
  shows "open_directive (''Add File: '' @ p) = Some (AddFile p [])"
    "open_directive (''Update File: '' @ p) = Some (UpdateFile p [])"
    "open_directive (''Delete File: '' @ p) = Some (DeleteFile p)"
proof -
  have keys: "directive_path ''Add File:'' (''Add File: '' @ p) = Some p"
    "directive_path ''Update File:'' (''Update File: '' @ p) = Some p"
    "directive_path ''Delete File:'' (''Delete File: '' @ p) = Some p"
    using directive_path_key [OF assms, of "''Add File:''"] directive_path_key [OF assms, of "''Update File:''"]
      directive_path_key [OF assms, of "''Delete File:''"] by simp_all
  have others: "directive_path ''Add File:'' (''Update File: '' @ p) = None"
    "directive_path ''Add File:'' (''Delete File: '' @ p) = None"
    "directive_path ''Update File:'' (''Delete File: '' @ p) = None"
    by (simp_all add: directive_path_def)
  show "open_directive (''Add File: '' @ p) = Some (AddFile p [])" by (simp only: open_directive_def keys option.case)
  show "open_directive (''Update File: '' @ p) = Some (UpdateFile p [])"
    by (simp only: open_directive_def keys others option.case)
  show "open_directive (''Delete File: '' @ p) = Some (DeleteFile p)"
    by (simp only: open_directive_def keys others option.case option.map)
qed

lemma hunk_of_snoc:
  "hunk_line (diff_text d) (hunk_of ds) = hunk_of (ds @ [d])"
  by (cases d) (simp_all add: hunk_line_def hunk_of_def old_lines_def new_lines_def Let_def)

lemma diff_text_shape: "\<not> is_prefix ''*** '' (diff_text d)" "diff_text d \<noteq> ''@@''"
  by (cases d; simp)+

lemma parse_hunk_lines:
  "parse_ops i (map diff_text ds @ ls) ops (Some (UpdateFile p (hs @ [hunk_of es]))) =
     parse_ops (i + length ds) ls ops (Some (UpdateFile p (hs @ [hunk_of (es @ ds)])))"
proof (induction ds arbitrary: i es)
  case (Cons d ds)
  have "parse_ops i (map diff_text (d # ds) @ ls) ops (Some (UpdateFile p (hs @ [hunk_of es]))) =
      parse_ops (Suc i) (map diff_text ds @ ls) ops (Some (UpdateFile p (hs @ [hunk_of (es @ [d])])))"
    using diff_text_shape [of d] by (simp add: hunk_of_snoc)
  then show ?case using Cons.IH [of "Suc i" "es @ [d]"] by simp
qed simp

lemma hunk_of_Nil: "hunk_of [] = \<lparr>ph_find = [], ph_replace = []\<rparr>"
  by (simp add: hunk_of_def old_lines_def new_lines_def)

lemma parse_hunks:
  "\<exists>j. parse_ops i (concat (map (\<lambda>ds. ''@@'' # map diff_text ds) hs) @ ls) ops (Some (UpdateFile p gs)) =
     parse_ops j ls ops (Some (UpdateFile p (gs @ map hunk_of hs)))"
proof (induction hs arbitrary: i gs)
  case (Cons ds hs)
  have "parse_ops i (concat (map (\<lambda>ds. ''@@'' # map diff_text ds) (ds # hs)) @ ls) ops (Some (UpdateFile p gs)) =
      parse_ops (Suc i) (map diff_text ds @ concat (map (\<lambda>ds. ''@@'' # map diff_text ds) hs) @ ls) ops
        (Some (UpdateFile p (gs @ [hunk_of []])))"
    by (simp add: hunk_of_Nil)
  also have "\<dots> = parse_ops (Suc i + length ds) (concat (map (\<lambda>ds. ''@@'' # map diff_text ds) hs) @ ls) ops
        (Some (UpdateFile p (gs @ [hunk_of ds])))"
    using parse_hunk_lines [of "Suc i" ds _ ops p gs "[]"] by simp
  finally show ?case using Cons.IH [of "Suc i + length ds" "gs @ [hunk_of ds]"] by auto
qed auto

lemma parse_added:
  "\<exists>j. parse_ops i (map (\<lambda>l. CHR ''+'' # l) xs @ ls) ops (Some (AddFile p ys)) =
     parse_ops j ls ops (Some (AddFile p (ys @ xs)))"
proof (induction xs arbitrary: i ys)
  case (Cons x xs)
  from Cons.IH [of "Suc i" "ys @ [x]"] show ?case by simp
qed auto

lemma parse_entry:
  assumes "entry_ok e" and "flush_op current ops = Inr ops1"
  shows "\<exists>j. parse_ops i (entry_lines e @ ls) ops current = parse_ops j ls ops1 (Some (entry_op e))"
proof (cases e)
  case (NewFile p xs)
  then show ?thesis using assms open_directives(1) [of p] parse_added [of "Suc i" xs ls ops1 p "[]"] by simp
next
  case (Change p hs)
  then show ?thesis using assms open_directives(2) [of p] parse_hunks [of "Suc i" hs ls ops1 p "[]"] by simp
next
  case (Removal p)
  then show ?thesis using assms open_directives(3) [of p] by auto
qed

lemma flush_entry: "entry_ok e \<Longrightarrow> flush_op (Some (entry_op e)) ops = Inr (ops @ [entry_op e])"
  by (cases e) (auto simp: flush_op_def split: list.split)

lemma parse_entries:
  assumes "list_all entry_ok es" and "flush_op current ops = Inr ops1"
  shows "\<exists>j ops' current'. parse_ops i (concat (map entry_lines es) @ ls) ops current = parse_ops j ls ops' current' \<and>
    flush_op current' ops' = Inr (ops1 @ map entry_op es)"
  using assms
proof (induction es arbitrary: i ops current ops1)
  case (Cons e es)
  have ok: "entry_ok e" "list_all entry_ok es" using Cons.prems(1) by simp_all
  obtain j where j: "parse_ops i (entry_lines e @ concat (map entry_lines es) @ ls) ops current =
      parse_ops j (concat (map entry_lines es) @ ls) ops1 (Some (entry_op e))"
    using parse_entry [OF ok(1) Cons.prems(2)] by blast
  from Cons.IH [OF ok(2) flush_entry [OF ok(1)], of j] j show ?case by simp
qed auto

lemma plain_entry_lines: "entry_ok e \<Longrightarrow> list_all plain_line (entry_lines e)"
proof -
  have path: "plain_line (x @ p)" if "plain_path p" "CHR 0x0A \<notin> set x" for x p
  proof -
    have "is_space (CHR 0x0D)" by code_simp
    with that show ?thesis by (auto simp: plain_line_def plain_path_def)
  qed
  have body: "plain_line (c # l)" if "plain_line l" "c \<noteq> CHR 0x0A" "c \<noteq> CHR 0x0D" for c l
    using that by (auto simp: plain_line_def)
  have diff: "plain_line (diff_text d)" if "plain_line (diff_content d)" for d
    using that by (cases d) (auto intro!: body)
  have at: "plain_line ''@@''" by (simp add: plain_line_def)
  assume "entry_ok e"
  then show "list_all plain_line (entry_lines e)"
    by (cases e) (auto simp: list_all_iff at intro!: path [of _ "''*** Add File: ''", simplified]
      path [of _ "''*** Update File: ''", simplified] path [of _ "''*** Delete File: ''", simplified] body diff)
qed

lemma strip_plain_line: "plain_line l \<Longrightarrow> strip_cr l = l"
  by (auto simp: strip_cr_def plain_line_def)

lemma patch_lines_text:
  assumes "list_all entry_ok es"
  shows "patch_lines (patch_text es) = ''*** Begin Patch'' # concat (map entry_lines es) @ [''*** End Patch'']"
proof -
  let ?ls = "''*** Begin Patch'' # concat (map entry_lines es) @ [''*** End Patch'']"
  have "list_all plain_line (concat (map entry_lines es))"
    using assms plain_entry_lines by (fastforce simp: list_all_iff)
  then have plain: "list_all plain_line ?ls" by (simp add: plain_line_def)
  then have "split_at_char (CHR 0x0A) (patch_text es) = ?ls"
    unfolding patch_text_def new_line_def by (intro split_join) (auto simp: list_all_iff plain_line_def)
  moreover have "map strip_cr ?ls = ?ls"
    by (rule map_idI) (use plain in \<open>simp only: list_all_iff strip_plain_line\<close>)
  ultimately show ?thesis unfolding patch_lines_def by (simp only:)
qed

section \<open>Lemmas on hunks\<close>

text \<open>Gaps and blocks by turns.\<close>

fun weave :: "'a list list \<Rightarrow> 'a list list \<Rightarrow> 'a list" where
  "weave (g # gs) (b # bs) = g @ b @ weave gs bs"
| "weave gs bs = concat gs"

lemma find_upt:
  "find P [a..<b] = Some i \<longleftrightarrow> a \<le> i \<and> i < b \<and> P i \<and> (\<forall>j. a \<le> j \<and> j < i \<longrightarrow> \<not> P j)"
proof (induction "b - a" arbitrary: a)
  case (Suc n)
  then have "a < b" "n = b - Suc a" by simp_all
  with Suc(1) [of "Suc a"] show ?case
    by (auto simp: upt_conv_Cons) (metis Suc_leI le_neq_implies_less)+
qed auto

lemma match_exactly: "match_at 0 lines needle i \<longleftrightarrow> take (length needle) (drop i lines) = needle"
proof -
  have "lines_equal_at_level 0 = (=)" by (intro ext) (simp add: lines_equal_at_level_def)
  then show ?thesis by (simp add: match_at_def list.rel_eq)
qed

lemma match_occurs: "needle \<noteq> [] \<Longrightarrow> match_at 0 lines needle i \<longleftrightarrow> occurs_at needle lines i"
  by (cases "i \<le> length lines") (auto simp: match_exactly occurs_at_def is_prefix_take)

lemma find_exact_level:
  assumes "needle \<noteq> []" and "find_text needle rest = Some n"
  shows "find_sequence_tolerant (pre @ rest) needle (length pre) = Some (length pre + n, 0)"
proof -
  have n: "occurs_at needle rest n" "\<And>m. m < n \<Longrightarrow> \<not> occurs_at needle rest m" "n + length needle \<le> length rest"
    using assms(2) find_text_bound [OF assms(2)] by (simp_all add: find_text_Some)
  have occ: "match_at 0 (pre @ rest) needle (length pre + m) \<longleftrightarrow> occurs_at needle rest m" for m
    using match_occurs [OF assms(1)] occurs_at_shift [of needle pre rest m] by simp
  have "\<not> match_at 0 (pre @ rest) needle j" if j: "length pre \<le> j" "j < length pre + n" for j
  proof -
    obtain m where m: "j = length pre + m" using j(1) nat_le_iff_add by blast
    with j(2) n(2) [of m] show ?thesis by (simp add: occ)
  qed
  then have "find (match_at 0 (pre @ rest) needle) [length pre..<Suc (length (pre @ rest)) - length needle] = Some (length pre + n)"
    unfolding find_upt using n occ [of n] by auto
  then have "find_at_level 0 (pre @ rest) needle (length pre) = Some (length pre + n)"
    using assms(1) by (simp add: find_at_level_def)
  then show ?thesis by (simp add: find_sequence_tolerant_def)
qed

lemma common_prefix_take: "take (common_prefix xs ys) xs = take (common_prefix xs ys) ys"
  "common_prefix xs ys \<le> length ys"
  by (induction xs ys rule: common_prefix.induct) auto

lemma replacement_block:
  "length block = length (ph_find h) \<Longrightarrow> hunk_replacement h (block @ rest) = hunk_replacement h block"
  using common_prefix_take(2) [of "ph_replace h" "ph_find h"] by (simp add: hunk_replacement_def Let_def)

lemma exact_replacement: "hunk_replacement h (ph_find h) = ph_replace h"
  using common_prefix_take(1) [of "ph_replace h" "ph_find h"] by (simp add: hunk_replacement_def Let_def) (metis append_take_drop_id)

text \<open>A search that succeeds: where, and how well the block fits.\<close>

lemma first_level_Some: "first_level search levels = Some (i, level) \<Longrightarrow> level \<in> set levels \<and> search level = Some i"
  by (induction levels) (auto split: option.splits)

lemma find_tolerant_Some:
  assumes "find_sequence_tolerant lines needle c = Some (i, level)"
  shows "c \<le> i" "i + length needle \<le> length lines" "level \<le> 3"
    "list_all2 (lines_equal_at_level level) (take (length needle) (drop i lines)) needle"
proof -
  have level: "level \<in> set [0, 1, 2, 3]" and found: "find_at_level level lines needle c = Some i"
    using first_level_Some [OF assms [unfolded find_sequence_tolerant_def]] by blast+
  show "level \<le> 3" using level by auto
  from found have "find (match_at level lines needle) [c..<Suc (length lines) - length needle] = Some i"
    by (simp add: find_at_level_def split: if_splits)
  then have i: "c \<le> i" "i < Suc (length lines) - length needle" "match_at level lines needle i" by (simp_all add: find_upt)
  then show "c \<le> i" "i + length needle \<le> length lines"
    "list_all2 (lines_equal_at_level level) (take (length needle) (drop i lines)) needle"
    by (simp_all add: match_at_def)
qed

definition fits :: "patch_hunk \<Rightarrow> string list \<Rightarrow> bool" where
  "fits h block \<longleftrightarrow> list_ex (\<lambda>level. list_all2 (lines_equal_at_level level) block (ph_find h)) [0, 1, 2, 3]"

lemma apply_hunks_local:
  "apply_hunks path i c hs lines = Inr out \<Longrightarrow> c \<le> length lines \<Longrightarrow>
     \<exists>gaps blocks. length gaps = Suc (length hs) \<and> list_all2 fits hs blocks \<and>
       drop c lines = weave gaps blocks \<and> out = take c lines @ weave gaps (map2 hunk_replacement hs blocks)"
proof (induction path i c hs lines rule: apply_hunks.induct)
  case (1 path i c lines)
  then show ?case by (intro exI [of _ "[drop c lines]"] exI [of _ "[]"]) simp
next
  case (2 path i c h hs lines)
  obtain at level where found: "find_sequence_tolerant lines (ph_find h) c = Some (at, level)" and ne: "ph_find h \<noteq> []"
    using 2(2) by (auto split: if_splits option.splits)
  note facts = find_tolerant_Some [OF found]
  define block where "block = take (length (ph_find h)) (drop at lines)"
  define rest where "rest = drop (at + length (ph_find h)) lines"
  define new where "new = hunk_replacement h block"
  have "rest = drop (length (ph_find h)) (drop at lines)" by (simp add: rest_def add.commute)
  then have at: "drop at lines = block @ rest" unfolding block_def by (simp only: append_take_drop_id)
  have len: "length block = length (ph_find h)" using facts(2) by (simp add: block_def)
  have new: "hunk_replacement h (drop at lines) = new" unfolding at new_def by (rule replacement_block [OF len])
  let ?lines = "take at lines @ new @ rest"
  have rec: "apply_hunks path (Suc i) (at + length new) hs ?lines = Inr out"
    using 2(2) ne found by (simp add: Let_def new rest_def)
  have c': "at + length new \<le> length ?lines" using facts(2) by simp
  have "length (take at lines) = at" using facts(2) by simp
  then have cut: "drop (at + length new) ?lines = rest" "take (at + length new) ?lines = take at lines @ new" by simp_all
  from 2(1) [OF ne found refl new [symmetric], unfolded new [symmetric]] rec c' new
  have "\<exists>gaps blocks. length gaps = Suc (length hs) \<and> list_all2 fits hs blocks \<and>
       drop (at + length new) ?lines = weave gaps blocks \<and>
       out = take (at + length new) ?lines @ weave gaps (map2 hunk_replacement hs blocks)"
    by (simp add: rest_def)
  then obtain gaps blocks where IH: "length gaps = Suc (length hs)" "list_all2 fits hs blocks"
    "rest = weave gaps blocks" "out = take at lines @ new @ weave gaps (map2 hunk_replacement hs blocks)"
    unfolding cut by auto
  have fit: "fits h block"
  proof -
    have "level \<in> set [0, 1, 2, 3]" using facts(3) by auto
    then show ?thesis unfolding fits_def list_ex_iff using facts(4) unfolding block_def by blast
  qed
  define gap where "gap = take (at - c) (drop c lines)"
  have "drop c lines = gap @ drop at lines" using facts(1) by (simp add: gap_def) (metis append_take_drop_id drop_drop le_add_diff_inverse2)
  then have "drop c lines = weave (gap # gaps) (block # blocks)" using at IH(3) by simp
  moreover have "take at lines = take c lines @ gap" using facts(1) by (simp add: gap_def) (metis le_add_diff_inverse take_add)
  ultimately show ?case using IH fit by (intro exI [of _ "gap # gaps"] exI [of _ "block # blocks"]) (simp add: new_def)
qed

text \<open>Where a diff belongs: every old block at its first occurrence behind the previous one.\<close>

fun located :: "diff_line list list \<Rightarrow> string list list \<Rightarrow> bool" where
  "located [] gs = (length gs = 1)"
| "located (h # hs) [] = False"
| "located (h # hs) (g # gs) = (old_lines h \<noteq> [] \<and>
     find_text (old_lines h) (weave (g # gs) (map old_lines (h # hs))) = Some (length g) \<and> located hs gs)"

lemma apply_located:
  "located hs gs \<Longrightarrow> apply_hunks path i (length pre) (map hunk_of hs) (pre @ weave gs (map old_lines hs)) =
     Inr (pre @ weave gs (map new_lines hs))"
proof (induction hs gs arbitrary: pre i rule: located.induct)
  case (3 h hs g gs)
  let ?rest = "weave gs (map old_lines hs)" and ?new = "new_lines h"
  have found: "find_sequence_tolerant (pre @ g @ old_lines h @ ?rest) (old_lines h) (length pre) = Some (length pre + length g, 0)"
    by (rule find_exact_level) (use 3(2) in simp_all)
  have new: "hunk_replacement (hunk_of h) (old_lines h @ ?rest) = ?new"
    using replacement_block [of "old_lines h" "hunk_of h" ?rest] exact_replacement [of "hunk_of h"]
    by (simp add: hunk_of_def)
  have "apply_hunks path i (length pre) (map hunk_of (h # hs)) (pre @ weave (g # gs) (map old_lines (h # hs))) =
      apply_hunks path (Suc i) (length (pre @ g @ ?new)) (map hunk_of hs) ((pre @ g @ ?new) @ ?rest)"
    using 3(2) found new by (simp add: hunk_of_def Let_def add.assoc)
  also have "\<dots> = Inr ((pre @ g @ ?new) @ weave gs (map new_lines hs))" by (rule 3(1)) (use 3(2) in simp)
  finally show ?case by simp
qed (auto simp: length_Suc_conv)

section \<open>Properties\<close>

text \<open>
  (C20) A patch is read as it is written. The document of any list of changes with plain paths and lines,
  whatever the lines contain, parses to the operations it was written for.
\<close>

theorem patch_roundtrip:
  assumes "es \<noteq> []" and "list_all entry_ok es"
  shows "parse_apply_patch (patch_text es) = Inr (map entry_op es)"
proof -
  obtain j ops current where p: "parse_ops 2 (concat (map entry_lines es) @ [''*** End Patch'']) [] None =
      parse_ops j [''*** End Patch''] ops current" "flush_op current ops = Inr (map entry_op es)"
  proof -
    have "flush_op None [] = Inr []" by (simp add: flush_op_def)
    from parse_entries [OF assms(2) this, of 2 "[''*** End Patch'']"] show thesis using that by auto
  qed
  have trim: "js_trim ''*** Begin Patch'' = ''*** Begin Patch''" by code_simp
  have "parse_ops j [''*** End Patch''] ops current = Inr (map entry_op es)" using p(2) assms(1) by simp
  then show ?thesis using p(1) trim by (simp add: parse_apply_patch_def patch_lines_text [OF assms(2)] numeral_2_eq_2)
qed

theorem patch_roundtrip_witness:
  "parse_apply_patch (patch_text [Change ''src/a.ts'' [[Keep ''*** x'', Cut ''@@'', Put ''+b'']], Removal ''b.ts'']) =
     Inr [UpdateFile ''src/a.ts'' [\<lparr>ph_find = [''*** x'', ''@@''], ph_replace = [''*** x'', ''+b'']\<rparr>], DeleteFile ''b.ts'']"
proof -
  have "list_all entry_ok [Change ''src/a.ts'' [[Keep ''*** x'', Cut ''@@'', Put ''+b'']], Removal ''b.ts'']" by code_simp
  from patch_roundtrip [OF _ this] show ?thesis by (simp add: hunk_of_def old_lines_def new_lines_def)
qed

text \<open>
  (C19) A diff is applied. When the old blocks of a diff are in a file as written, each at its first occurrence
  behind the one before, the update gives the file with the new lines in their places, and no other line
  touched.
\<close>

theorem diff_is_applied:
  assumes "located hs gs" and "list_all (\<lambda>l. CHR 0x0A \<notin> set l) (weave gs (map old_lines hs))"
    and "weave gs (map old_lines hs) \<noteq> []"
  shows "apply_update_hunks path (join_with new_line (weave gs (map old_lines hs))) (map hunk_of hs) =
    Inr (join_with new_line (weave gs (map new_lines hs)))"
proof -
  have "split_at_char (CHR 0x0A) (join_with new_line (weave gs (map old_lines hs))) = weave gs (map old_lines hs)"
    unfolding new_line_def by (rule split_join) (use assms(2,3) in \<open>simp_all add: list_all_iff\<close>)
  then show ?thesis using apply_located [OF assms(1), of path 1 "[]"] by (simp add: apply_update_hunks_def)
qed

definition sample_diff :: "diff_line list list" where
  "sample_diff = [[Keep ''a'', Cut ''b'', Put ''x'', Put ''y''], [Cut ''b'', Keep ''c'']]"

definition sample_gaps :: "string list list" where
  "sample_gaps = [[''b''], [''a''], []]"

theorem diff_is_applied_witness:
  "apply_update_hunks ''f'' (join_with new_line [''b'', ''a'', ''b'', ''a'', ''b'', ''c'']) (map hunk_of sample_diff) =
     Inr (join_with new_line [''b'', ''a'', ''x'', ''y'', ''a'', ''c''])"
proof -
  have "located sample_diff sample_gaps" by code_simp
  moreover have "list_all (\<lambda>l. CHR 0x0A \<notin> set l) (weave sample_gaps (map old_lines sample_diff))" by code_simp
  moreover have "weave sample_gaps (map old_lines sample_diff) = [''b'', ''a'', ''b'', ''a'', ''b'', ''c'']"
    "weave sample_gaps (map new_lines sample_diff) = [''b'', ''a'', ''x'', ''y'', ''a'', ''c'']"
    by code_simp+
  ultimately show ?thesis using diff_is_applied [of sample_diff sample_gaps "''f''"] by simp
qed

text \<open>
  An update changes its blocks only: an update that succeeds has split the lines of the file into gaps
  and one block for each hunk, in order; each block fits its hunk at one of the four levels and is replaced;
  every gap stays.
\<close>

theorem update_is_local:
  assumes "apply_update_hunks path content hunks = Inr content'"
  shows "\<exists>gaps blocks. length gaps = Suc (length hunks) \<and> list_all2 fits hunks blocks \<and>
      content = join_with new_line (weave gaps blocks) \<and>
      content' = join_with new_line (weave gaps (map2 hunk_replacement hunks blocks))"
proof -
  let ?lines = "split_at_char (CHR 0x0A) content"
  obtain out where out: "apply_hunks path 1 0 hunks ?lines = Inr out" "content' = join_with new_line out"
    using assms by (cases "apply_hunks path 1 0 hunks ?lines") (auto simp: apply_update_hunks_def)
  have "content = join_with new_line ?lines" unfolding new_line_def by (rule join_split_at_char [symmetric])
  moreover obtain gaps blocks where "length gaps = Suc (length hunks)" "list_all2 fits hunks blocks"
    "?lines = weave gaps blocks" "out = weave gaps (map2 hunk_replacement hunks blocks)"
    using apply_hunks_local [OF out(1)] by auto
  ultimately show ?thesis using out(2) by (intro exI [of _ gaps] exI [of _ blocks]) simp
qed

theorem update_is_local_witness:
  "\<exists>gaps blocks. length gaps = 2 \<and> list_all2 fits [hunk_of [Keep ''a'', Cut ''b'', Put ''c'']] blocks \<and>
     join_with new_line [''x'', '' a'', ''b ''] = join_with new_line (weave gaps blocks)"
proof -
  have "apply_update_hunks ''f'' (join_with new_line [''x'', '' a'', ''b '']) [hunk_of [Keep ''a'', Cut ''b'', Put ''c'']] =
      Inr (join_with new_line [''x'', '' a'', ''c''])"
    by code_simp
  from update_is_local [OF this] show ?thesis by (simp add: numeral_2_eq_2) blast
qed

text \<open>Kept lines behind a change are written as the patch spells them, not as they are in the file.\<close>

lemma later_context_is_respelled:
  "apply_update_hunks ''f'' (join_with new_line [''if x:'', ''    old'', ''    kept'']) [hunk_of [Keep ''if x:'', Cut ''old'', Put ''    new'', Keep ''kept'']] =
     Inr (join_with new_line [''if x:'', ''    new'', ''kept''])"
  by code_simp

section \<open>What the reports say\<close>

definition temp_path :: "string \<Rightarrow> bool" where
  "temp_path p \<longleftrightarrow> (\<exists>q n. p = tmp_path q (show_nat n))"

definition added_text :: "string list \<Rightarrow> string" where
  "added_text lines = join_with new_line lines @ (if lines = [] then [] else new_line)"

definition content_at :: "disk \<Rightarrow> string \<Rightarrow> string" where
  "content_at d p = (case d p of Some (RegularFile f) \<Rightarrow> fd_content f | _ \<Rightarrow> [])"

text \<open>The content an operation leaves, if any.\<close>

fun op_result :: "patch_op \<Rightarrow> string \<Rightarrow> disk \<Rightarrow> file_node option" where
  "op_result (AddFile name lines) p d = after_write p (added_text lines) d"
| "op_result (UpdateFile name hunks) p d = (case apply_update_hunks name (content_at d p) hunks of
      Inr content \<Rightarrow> after_write p content d | Inl _ \<Rightarrow> d p)"
| "op_result (DeleteFile name) p d = None"

fun is_change :: "patch_report \<Rightarrow> bool" where
  "is_change (Refused _ _) = False"
| "is_change (Unchanged _) = False"
| "is_change _ = True"

definition reported_disk :: "string \<Rightarrow> string \<Rightarrow> patch_op \<times> patch_report \<Rightarrow> disk \<Rightarrow> disk" where
  "reported_disk process_cwd cwd opr d = (let (op, r) = opr; p = target_path process_cwd cwd (op_path op) in
     if is_change r then d(p := op_result op p d) else d)"

definition undoable :: "string \<Rightarrow> string \<Rightarrow> history_call list \<Rightarrow> patch_op \<times> patch_report \<Rightarrow> bool" where
  "undoable process_cwd cwd calls opr = (let (op, r) = opr; p = target_path process_cwd cwd (op_path op) in
     case r of Added _ _ \<Rightarrow> MarkCreated p \<in> set calls
       | Updated _ _ \<Rightarrow> TrackEdit p \<in> set calls
       | Deleted _ \<Rightarrow> TrackEdit p \<in> set calls
       | _ \<Rightarrow> True)"

lemma visible_contents:
  "content_at (visible d) p = content_at d p" "after_write p c (visible d) = after_write p c d"
proof -
  show "content_at (visible d) p = content_at d p"
    by (auto simp: content_at_def visible_def shown_def split: option.split file_node.splits)
  have "kept_mode (visible d) p = kept_mode d p"
    by (auto simp: kept_mode_def visible_def shown_def split: option.split file_node.splits)
  then show "after_write p c (visible d) = after_write p c d" by (simp add: after_write_def)
qed

lemma temp_paths [simp]: "temp_path (tmp_path q (show_nat n))"
  by (auto simp: temp_path_def)

lemma write_patched_effect:
  assumes "plain (w_disk (pr_world s)) p" and "\<not> temp_path p"
    and "s' = write_patched name p content after done_report s" and "is_change done_report"
  shows "\<exists>r. pr_reports s' = pr_reports s @ [r] \<and> (r = done_report \<or> refused r) \<and>
    (r = done_report \<longrightarrow> pr_history s' = pr_history s @ after) \<and> set (pr_history s) \<subseteq> set (pr_history s') \<and>
    (\<forall>q. \<not> temp_path q \<longrightarrow> visible (w_disk (pr_world s')) q =
       (if r = done_report \<and> q = p then after_write p content (w_disk (pr_world s)) else visible (w_disk (pr_world s)) q)) \<and>
    (\<forall>q. \<not> temp_path q \<longrightarrow> plain (w_disk (pr_world s)) q \<longrightarrow> plain (w_disk (pr_world s')) q)"
proof -
  let ?d = "w_disk (pr_world s)" and ?t = "tmp_path p (show_nat (w_calls (pr_world s)))"
  obtain r w where call: "atomic_write p content (pr_world s) = (r, w)" by (cases "atomic_write p content (pr_world s)")
  note facts = atomic_write_plain(1) [OF assms(1) call]
  have other: "q \<noteq> ?t" if "\<not> temp_path q" for q using that by auto
  show ?thesis
  proof (cases r)
    case (Inl e)
    with facts obtain g where "w_disk w = ?d \<or> w_disk w = ?d(?t := g)" by auto
    then have same: "w_disk w q = ?d q" if "\<not> temp_path q" for q using other [OF that] by auto
    have "s' = report (Refused name (PatchSystemError e)) (s\<lparr>pr_world := w\<rparr>)"
      using assms(3) call Inl by (simp add: write_patched_def)
    moreover have "Refused name (PatchSystemError e) \<noteq> done_report" using assms(4) by auto
    ultimately show ?thesis using same by (auto simp: report_def visible_def plain_def)
  next
    case (Inr u)
    with facts have disk: "w_disk w = ?d(p \<mapsto> RegularFile (file_after ?d p content), ?t := None)" by simp
    have "shown (RegularFile (file_after ?d p content)) = the (after_write p content ?d)"
      "after_write p content ?d \<noteq> None"
      by (simp_all add: shown_def file_after_def after_write_def)
    moreover have "s' = report done_report (s\<lparr>pr_world := w, pr_marked := pr_marked s @ [(p, content)],
        pr_history := pr_history s @ after\<rparr>)"
      using assms(3) call Inr by (simp add: write_patched_def)
    ultimately show ?thesis using disk other by (auto simp: report_def visible_def plain_def)
  qed
qed

text \<open>One operation: its report, and the disk it tells.\<close>

definition step_effect :: "string \<Rightarrow> string \<Rightarrow> patch_op \<Rightarrow> patch_run \<Rightarrow> patch_run \<Rightarrow> patch_report \<Rightarrow> bool" where
  "step_effect process_cwd cwd op s s' r \<longleftrightarrow> pr_reports s' = pr_reports s @ [r] \<and>
     set (pr_history s) \<subseteq> set (pr_history s') \<and> undoable process_cwd cwd (pr_history s') (op, r) \<and>
     (\<forall>q. \<not> temp_path q \<longrightarrow> visible (w_disk (pr_world s')) q =
        reported_disk process_cwd cwd (op, r) (visible (w_disk (pr_world s))) q) \<and>
     (\<forall>q. \<not> temp_path q \<longrightarrow> plain (w_disk (pr_world s)) q \<longrightarrow> plain (w_disk (pr_world s')) q)"

lemma step_refused:
  "w_disk (pr_world s1) = w_disk (pr_world s) \<Longrightarrow> set (pr_history s) \<subseteq> set (pr_history s1) \<Longrightarrow>
   pr_reports s1 = pr_reports s \<Longrightarrow> \<not> is_change r \<Longrightarrow> step_effect process_cwd cwd op s (report r s1) r"
  by (cases r) (auto simp: step_effect_def report_def undoable_def reported_disk_def)

lemma plain_cases:
  assumes "plain d p"
  obtains (absent) "d p = None" "\<not> file_exists d p"
  | (present) f where "d p = Some (RegularFile f)" "file_exists d p" "read_file d p = Some (fd_content f)"
proof (cases "d p")
  case None
  then show ?thesis using absent plain_exists [OF assms] by simp
next
  case (Some n)
  then obtain f where "n = RegularFile f" using assms by (cases n) (auto simp: plain_def)
  with Some show ?thesis using present plain_exists [OF assms] plain_read [OF assms] by (simp add: read_file_def)
qed

lemma step_written:
  assumes "plain (w_disk (pr_world s1)) p" and "\<not> temp_path p" and "p = target_path process_cwd cwd (op_path op)"
    and same: "w_disk (pr_world s1) = w_disk (pr_world s)" "pr_reports s1 = pr_reports s" "set (pr_history s) \<subseteq> set (pr_history s1)"
    and "is_change done_report" and "op_result op p (w_disk (pr_world s)) = after_write p content (w_disk (pr_world s))"
    and "undoable process_cwd cwd (pr_history s1 @ after) (op, done_report)"
  shows "\<exists>r. step_effect process_cwd cwd op s (write_patched name p content after done_report s1) r"
proof -
  let ?s = "write_patched name p content after done_report s1" and ?d = "w_disk (pr_world s)"
  obtain r where r: "pr_reports ?s = pr_reports s1 @ [r]" "r = done_report \<or> refused r"
    "r = done_report \<longrightarrow> pr_history ?s = pr_history s1 @ after" "set (pr_history s1) \<subseteq> set (pr_history ?s)"
    "\<forall>q. \<not> temp_path q \<longrightarrow> visible (w_disk (pr_world ?s)) q =
       (if r = done_report \<and> q = p then after_write p content (w_disk (pr_world s1)) else visible (w_disk (pr_world s1)) q)"
    "\<forall>q. \<not> temp_path q \<longrightarrow> plain (w_disk (pr_world s1)) q \<longrightarrow> plain (w_disk (pr_world ?s)) q"
    using write_patched_effect [OF assms(1,2) refl assms(7)] by blast
  have no: "\<not> is_change r \<and> undoable process_cwd cwd hs (op, r)" if "r \<noteq> done_report" for hs
    using r(2) that by (cases r) (auto simp: undoable_def)
  have res: "op_result op p (visible ?d) = after_write p content ?d" if "r = done_report"
  proof (cases op)
    case (UpdateFile n hs)
    show ?thesis using assms(8) unfolding UpdateFile
      by (auto simp: visible_contents split: sum.splits) (simp add: after_write_def visible_def shown_def)
  next
    case (AddFile n ls)
    then show ?thesis using assms(8) by (simp add: visible_contents)
  qed (use assms(8) in \<open>simp add: after_write_def\<close>)
  have "visible (w_disk (pr_world ?s)) q = reported_disk process_cwd cwd (op, r) (visible ?d) q" if "\<not> temp_path q" for q
    using r(5) that same(1) no res assms(3,7) by (cases "r = done_report") (auto simp: reported_disk_def Let_def)
  moreover have "undoable process_cwd cwd (pr_history ?s) (op, r)"
    using no assms(9) r(3) by (cases "r = done_report") simp_all
  ultimately show ?thesis using r(1,4,6) same unfolding step_effect_def by (intro exI [of _ r]) auto
qed

lemma patch_step_effect:
  assumes "plain (w_disk (pr_world s)) (target_path process_cwd cwd (op_path op))"
    and "\<not> temp_path (target_path process_cwd cwd (op_path op))"
  shows "\<exists>r. step_effect process_cwd cwd op s (patch_step ci process_cwd cwd op s) r"
proof -
  define p where "p = target_path process_cwd cwd (op_path op)"
  have plain: "plain (w_disk (pr_world s)) p" and fresh: "\<not> temp_path p" using assms by (simp_all add: p_def)
  show ?thesis
  proof (cases "p = [] \<or> contains_null_byte p \<or> is_loop_driver_owned_path ci p")
    case True
    then show ?thesis unfolding patch_step_def p_def [symmetric] Let_def
      by (auto intro!: exI step_refused)
  next
    case False
    then have step: "patch_step ci process_cwd cwd op s = run_op p op s" by (simp add: patch_step_def p_def Let_def)
    show ?thesis
    proof (cases op)
      case (AddFile name lines)
      show ?thesis using plain
      proof (cases rule: plain_cases)
        case absent
        have "\<exists>r. step_effect process_cwd cwd op s (write_patched name p (added_text lines) [MarkCreated p] (Added name (length lines)) s) r"
          by (rule step_written [OF plain fresh p_def]) (simp_all add: AddFile undoable_def p_def)
        then show ?thesis using absent AddFile step by (simp add: added_text_def)
      next
        case present
        then show ?thesis using AddFile step by (auto intro!: exI step_refused)
      qed
    next
      case (DeleteFile name)
      show ?thesis using plain
      proof (cases rule: plain_cases)
        case absent
        then show ?thesis using DeleteFile step by (auto intro!: exI step_refused)
      next
        case (present f)
        let ?s = "s\<lparr>pr_history := pr_history s @ [TrackEdit p]\<rparr>"
        show ?thesis
        proof (cases "w_fails (pr_world s) (w_calls (pr_world s))")
          case (Some e)
          then have "run_op p op s = report (Refused name (PatchSystemError e)) (?s\<lparr>pr_world := (pr_world s)\<lparr>w_calls := Suc (w_calls (pr_world s))\<rparr>\<rparr>)"
            using present DeleteFile by (simp add: sys_call_def Let_def)
          then show ?thesis unfolding step by (auto intro!: exI step_refused)
        next
          case None
          then have run: "run_op p op s = report (Deleted name) (?s\<lparr>pr_world := (pr_world s)\<lparr>w_calls := Suc (w_calls (pr_world s)),
              w_disk := (w_disk (pr_world s))(p := None)\<rparr>\<rparr>)"
            using present DeleteFile by (simp add: sys_call_def unlink_file_def Let_def)
          show ?thesis unfolding step run
            by (intro exI [of _ "Deleted name"])
              (auto simp: step_effect_def report_def undoable_def reported_disk_def visible_def plain_def DeleteFile p_def)
        qed
      qed
    next
      case (UpdateFile name hunks)
      show ?thesis using plain
      proof (cases rule: plain_cases)
        case absent
        then show ?thesis using UpdateFile step by (auto intro!: exI step_refused)
      next
        case (present f)
        let ?w = "(pr_world s)\<lparr>w_calls := Suc (w_calls (pr_world s))\<rparr>"
        show ?thesis
        proof (cases "w_fails (pr_world s) (w_calls (pr_world s))")
          case (Some e)
          then have "run_op p op s = report (Refused name (PatchSystemError e)) (s\<lparr>pr_world := ?w\<rparr>)"
            using present UpdateFile by (simp add: sys_read_def Let_def)
          then show ?thesis unfolding step by (auto intro!: exI step_refused)
        next
          case None
          then have read: "sys_read p (pr_world s) = (Inr (fd_content f), ?w)" using present by (simp add: sys_read_def Let_def)
          show ?thesis
          proof (cases "apply_update_hunks name (fd_content f) hunks")
            case (Inl e)
            then have "run_op p op s = report (Refused name (HunkFailed e)) (s\<lparr>pr_world := ?w\<rparr>)"
              using present UpdateFile read by simp
            then show ?thesis unfolding step by (auto intro!: exI step_refused)
          next
            case (Inr updated)
            let ?s = "s\<lparr>pr_world := ?w, pr_history := pr_history s @ [TrackEdit p]\<rparr>"
            show ?thesis
            proof (cases "updated = fd_content f")
              case True
              then have "run_op p op s = report (Unchanged name) (s\<lparr>pr_world := ?w\<rparr>)"
                using present UpdateFile read Inr by simp
              then show ?thesis unfolding step by (auto intro!: exI step_refused)
            next
              case False
              have "\<exists>r. step_effect process_cwd cwd op s (write_patched name p updated [] (Updated name (length hunks)) ?s) r"
                by (rule step_written [OF _ fresh p_def]) (use plain present Inr in \<open>auto simp: UpdateFile undoable_def p_def content_at_def\<close>)
              then show ?thesis using present UpdateFile read Inr False step by simp
            qed
          qed
        qed
      qed
    qed
  qed
qed

lemma reported_disk_cong:
  assumes "\<And>q. \<not> temp_path q \<Longrightarrow> d1 q = d2 q" and "\<not> temp_path (target_path process_cwd cwd (op_path op))" and "\<not> temp_path q"
  shows "reported_disk process_cwd cwd (op, r) d1 q = reported_disk process_cwd cwd (op, r) d2 q"
proof -
  let ?p = "target_path process_cwd cwd (op_path op)"
  have "d1 ?p = d2 ?p" by (rule assms(1) [OF assms(2)])
  then have "content_at d1 ?p = content_at d2 ?p" "after_write ?p c d1 = after_write ?p c d2" for c
    by (simp_all add: content_at_def after_write_def kept_mode_def)
  with \<open>d1 ?p = d2 ?p\<close> have "op_result op ?p d1 = op_result op ?p d2" by (cases op) (simp_all split: sum.split)
  then show ?thesis using assms(1) [OF assms(3)] by (simp add: reported_disk_def Let_def)
qed

lemma reported_disks_cong:
  assumes "\<And>q. \<not> temp_path q \<Longrightarrow> d1 q = d2 q"
    and "list_all (\<lambda>(op, r). \<not> temp_path (target_path process_cwd cwd (op_path op))) ors" and "\<not> temp_path q"
  shows "fold (reported_disk process_cwd cwd) ors d1 q = fold (reported_disk process_cwd cwd) ors d2 q"
  using assms(1,2)
proof (induction ors arbitrary: d1 d2)
  case Nil
  then show ?case using assms(3) by simp
next
  case (Cons x ors)
  obtain op r where x: "x = (op, r)" by (cases x)
  show ?case unfolding fold_Cons o_apply
    by (rule Cons.IH) (use Cons.prems x reported_disk_cong [where process_cwd = process_cwd and cwd = cwd and op = op and r = r, OF Cons.prems(1)] in auto)
qed

lemma patch_ops_effect:
  assumes "list_all (\<lambda>op. plain (w_disk (pr_world s)) (target_path process_cwd cwd (op_path op)) \<and>
      \<not> temp_path (target_path process_cwd cwd (op_path op))) ops"
  shows "\<exists>rs. pr_reports (fold (patch_step ci process_cwd cwd) ops s) = pr_reports s @ rs \<and> length rs = length ops \<and>
    set (pr_history s) \<subseteq> set (pr_history (fold (patch_step ci process_cwd cwd) ops s)) \<and>
    list_all (undoable process_cwd cwd (pr_history (fold (patch_step ci process_cwd cwd) ops s))) (zip ops rs) \<and>
    (\<forall>q. \<not> temp_path q \<longrightarrow> visible (w_disk (pr_world (fold (patch_step ci process_cwd cwd) ops s))) q =
       fold (reported_disk process_cwd cwd) (zip ops rs) (visible (w_disk (pr_world s))) q)"
  using assms
proof (induction ops arbitrary: s)
  case (Cons op ops)
  let ?s = "patch_step ci process_cwd cwd op s"
  let ?final = "fold (patch_step ci process_cwd cwd) (op # ops) s"
  obtain r where "step_effect process_cwd cwd op s ?s r" using patch_step_effect Cons.prems by fastforce
  then have r: "pr_reports ?s = pr_reports s @ [r]" "set (pr_history s) \<subseteq> set (pr_history ?s)"
    "undoable process_cwd cwd (pr_history ?s) (op, r)"
    "\<And>q. \<not> temp_path q \<Longrightarrow> visible (w_disk (pr_world ?s)) q = reported_disk process_cwd cwd (op, r) (visible (w_disk (pr_world s))) q"
    "\<And>q. \<not> temp_path q \<Longrightarrow> plain (w_disk (pr_world s)) q \<Longrightarrow> plain (w_disk (pr_world ?s)) q"
    by (simp_all add: step_effect_def)
  have "list_all (\<lambda>op. plain (w_disk (pr_world ?s)) (target_path process_cwd cwd (op_path op)) \<and>
      \<not> temp_path (target_path process_cwd cwd (op_path op))) ops"
    using Cons.prems r(5) by (auto simp: list_all_iff)
  from Cons.IH [OF this] obtain rs where IH: "pr_reports ?final = pr_reports ?s @ rs" "length rs = length ops"
    "set (pr_history ?s) \<subseteq> set (pr_history ?final)" "list_all (undoable process_cwd cwd (pr_history ?final)) (zip ops rs)"
    "\<And>q. \<not> temp_path q \<Longrightarrow> visible (w_disk (pr_world ?final)) q =
       fold (reported_disk process_cwd cwd) (zip ops rs) (visible (w_disk (pr_world ?s))) q"
    by auto
  have first: "undoable process_cwd cwd (pr_history ?final) (op, r)"
    using r(3) IH(3) by (cases r) (auto simp: undoable_def Let_def)
  have "visible (w_disk (pr_world ?final)) q =
      fold (reported_disk process_cwd cwd) (zip (op # ops) (r # rs)) (visible (w_disk (pr_world s))) q" if q: "\<not> temp_path q" for q
  proof -
    have "list_all (\<lambda>(op, r). \<not> temp_path (target_path process_cwd cwd (op_path op))) (zip ops rs)"
      using Cons.prems by (auto simp: list_all_iff dest: set_zip_leftD)
    from reported_disks_cong [OF r(4) this q] IH(5) [OF q] show ?thesis by simp
  qed
  then show ?case using IH(1-4) r(1,2) first by (intro exI [of _ "r # rs"]) auto
qed auto

text \<open>
  (C17) The reports of a patch are true. On plain files, whichever calls fail: there is one report for each
  operation, in order; every path but the temporary ones holds exactly what the reports tell, an operation
  reported as refused or without change having left it alone; and what was changed or deleted was handed to
  the file history before, what was added was registered there.
\<close>

theorem patch_reports_are_true:
  assumes "parse_apply_patch patch = Inr ops" and "js_trim patch \<noteq> []"
    and "list_all (\<lambda>op. plain (w_disk w) (target_path process_cwd cwd (op_path op)) \<and>
      \<not> temp_path (target_path process_cwd cwd (op_path op))) ops"
    and "execute_patch ci process_cwd cwd patch w = (outcome, s)"
  shows "\<exists>rs. outcome = PatchApplied (list_ex refused rs) rs \<and> length rs = length ops \<and>
    list_all (undoable process_cwd cwd (pr_history s)) (zip ops rs) \<and>
    (\<nexists>q. \<not> temp_path q \<and> visible (w_disk (pr_world s)) q \<noteq>
       fold (reported_disk process_cwd cwd) (zip ops rs) (visible (w_disk w)) q)"
  using assms(4) patch_ops_effect [of "\<lparr>pr_world = w, pr_history = [], pr_marked = [], pr_reports = []\<rparr>" process_cwd cwd ops ci]
    assms(1-3)
  by (auto simp: execute_patch_def Let_def)

definition sample_patch :: string where
  "sample_patch = patch_text [Change ''/a'' [[Cut ''old'', Put ''new'']], NewFile ''/b'' [''x''], Removal ''/c'']"

theorem patch_reports_are_true_witness:
  "read_file (w_disk (pr_world (snd (execute_patch False ''/'' ''/'' sample_patch (sample_world [20]))))) ''/a'' = Some ''new'' \<and>
   visible (w_disk (pr_world (snd (execute_patch False ''/'' ''/'' sample_patch (sample_world [20]))))) ''/b'' = None"
proof -
  let ?w = "sample_world [20]"
  obtain outcome s where run: "execute_patch False ''/'' ''/'' sample_patch ?w = (outcome, s)"
    by (cases "execute_patch False ''/'' ''/'' sample_patch ?w")
  let ?ops = "[UpdateFile ''/a'' [\<lparr>ph_find = [''old''], ph_replace = [''new'']\<rparr>], AddFile ''/b'' [''x''], DeleteFile ''/c'']"
  have parse: "parse_apply_patch sample_patch = Inr ?ops" by code_simp
  have filled: "js_trim sample_patch \<noteq> []" by code_simp
  have short: "\<not> temp_path p" if "length p < 5" for p using that by (auto simp: temp_path_def tmp_path_def)
  have plain: "list_all (\<lambda>op. plain (w_disk ?w) (target_path ''/'' ''/'' (op_path op)) \<and>
      \<not> temp_path (target_path ''/'' ''/'' (op_path op))) ?ops"
    using short by (simp add: target_path_def is_absolute_def plain_def sample_world_def sample_files_def)
  have out: "outcome = PatchApplied True [Updated ''/a'' 1, Refused ''/b'' (PatchSystemError ''EIO''), Refused ''/c'' NothingToDelete]"
  proof -
    have "fst (execute_patch False ''/'' ''/'' sample_patch ?w) =
        PatchApplied True [Updated ''/a'' 1, Refused ''/b'' (PatchSystemError ''EIO''), Refused ''/c'' NothingToDelete]"
      by code_simp
    then show ?thesis using run by simp
  qed
  have disk: "visible (w_disk (pr_world s)) q = fold (reported_disk ''/'' ''/'')
      (zip ?ops [Updated ''/a'' 1, Refused ''/b'' (PatchSystemError ''EIO''), Refused ''/c'' NothingToDelete]) (visible sample_files) q"
    if "\<not> temp_path q" for q
    using patch_reports_are_true [OF parse filled plain run] that unfolding out by (auto simp: sample_world_def)
  have "read_file (w_disk (pr_world (snd (execute_patch False ''/'' ''/'' sample_patch ?w)))) ''/a'' = Some ''new''" by code_simp
  moreover have "visible (w_disk (pr_world s)) ''/b'' = None"
    using disk [OF short, of "''/b''"] by (simp add: reported_disk_def Let_def target_path_def is_absolute_def sample_files_def)
  ultimately show ?thesis using run by simp
qed

end
