(* ===== verification/StreamFilter.thy ===== *)
theory StreamFilter
  imports Texts
begin

text \<open>
  The filter of reasoning blocks in streamed answers: \<open>src/src/core/thinkingTagFilter.ts\<close>.

  The filter sees the answer in chunks that may end anywhere, also within a tag. It is compared with a
  function on the whole text: what is shown does not depend on the chunks.
\<close>

section \<open>The filter\<close>

record think_filter =
  tf_buffer :: string
  tf_inside :: bool
  tf_thinking :: string

definition new_filter :: think_filter where
  "new_filter = \<lparr>tf_buffer = [], tf_inside = False, tf_thinking = []\<rparr>"

definition open_tag :: string where
  "open_tag = ''<think>''"

definition close_tag :: string where
  "close_tag = ''</think>''"

definition keep_possible_tag_prefix :: "string \<Rightarrow> string \<Rightarrow> string" where
  "keep_possible_tag_prefix value tag = pattern_end (min (length value) (length tag - 1)) value tag"

text \<open>One pass of the loop looks for the tag that ends the present state.\<close>

definition wanted_tag :: "bool \<Rightarrow> string" where
  "wanted_tag inside = (if inside then close_tag else open_tag)"

lemma wanted_tag_nonempty [simp]: "wanted_tag inside \<noteq> []"
  by (simp add: wanted_tag_def open_tag_def close_tag_def)

text \<open>A text that leaves the buffer: to the reader, or to the collected reasoning.\<close>

definition pass_on :: "string \<Rightarrow> think_filter \<times> string \<Rightarrow> think_filter \<times> string" where
  "pass_on t fv = (let (f, visible) = fv in
     if tf_inside f then (f\<lparr>tf_thinking := tf_thinking f @ t\<rparr>, visible) else (f, visible @ t))"

function push_loop :: "think_filter \<times> string \<Rightarrow> think_filter \<times> string" where
  "push_loop (f, visible) =
     (if tf_buffer f = [] then (f, visible)
      else let tag = wanted_tag (tf_inside f); buffer = tf_buffer f in
        case find_text tag buffer of
          Some i \<Rightarrow> (let (f1, visible1) = pass_on (take i buffer) (f, visible)
             in push_loop (f1\<lparr>tf_buffer := drop (i + length tag) buffer, tf_inside := \<not> tf_inside f\<rparr>, visible1))
        | None \<Rightarrow> (let retained = keep_possible_tag_prefix buffer tag;
               (f1, visible1) = pass_on (take (length buffer - length retained) buffer) (f, visible)
             in (f1\<lparr>tf_buffer := retained\<rparr>, visible1)))"
  by pat_completeness auto
termination
  by (relation "measure (\<lambda>(f, visible). length (tf_buffer f))") auto

declare push_loop.simps [simp del]

definition push_chunk :: "string \<Rightarrow> think_filter \<Rightarrow> think_filter \<times> string" where
  "push_chunk chunk f = push_loop (f\<lparr>tf_buffer := tf_buffer f @ chunk\<rparr>, [])"

definition drain_thinking :: "think_filter \<Rightarrow> think_filter \<times> string" where
  "drain_thinking f = (f\<lparr>tf_thinking := []\<rparr>, tf_thinking f)"

definition finish_filter :: "think_filter \<Rightarrow> think_filter \<times> string" where
  "finish_filter f = (f\<lparr>tf_buffer := [], tf_inside := False\<rparr>, if tf_inside f then [] else tf_buffer f)"

section \<open>The whole text\<close>

text \<open>
  The parts of a text shown to the reader and the parts held back, from the start of a text inside or
  outside of a block.
\<close>

function parts_of :: "bool \<Rightarrow> string \<Rightarrow> (bool \<times> string) list" where
  "parts_of inside s = (case find_text (wanted_tag inside) s of
      None \<Rightarrow> [(inside, s)]
    | Some i \<Rightarrow> (inside, take i s) # parts_of (\<not> inside) (drop (i + length (wanted_tag inside)) s))"
  by pat_completeness auto
termination
proof (relation "measure (\<lambda>(inside, s). length s)")
  fix inside :: bool and s i
  assume "find_text (wanted_tag inside) s = Some i"
  from find_text_bound [OF this] show "((\<not> inside, drop (i + length (wanted_tag inside)) s), inside, s)
      \<in> measure (\<lambda>(inside, s). length s)"
    using wanted_tag_nonempty [of inside] by (cases s) (auto simp del: wanted_tag_nonempty)
qed simp

declare parts_of.simps [simp del]

definition side_of :: "bool \<Rightarrow> (bool \<times> string) list \<Rightarrow> string" where
  "side_of b parts = concat (map snd (filter (\<lambda>p. fst p = b) parts))"

section \<open>Lemmas\<close>

lemma pass_on_simps [simp]:
  "pass_on [] fv = fv"
  "pass_on t (pass_on s fv) = pass_on (s @ t) fv"
  "tf_inside (fst (pass_on t fv)) = tf_inside (fst fv)"
  by (cases fv; simp add: pass_on_def)+

lemma pass_on_buffer:
  "pass_on t (f\<lparr>tf_buffer := b\<rparr>, v) = (let (f1, v1) = pass_on t (f, v) in (f1\<lparr>tf_buffer := b\<rparr>, v1))"
  by (simp add: pass_on_def)

text \<open>The retained end of a buffer is the longest one that may still become a tag.\<close>

lemma retained_facts:
  fixes buf tag :: string
  defines "r \<equiv> keep_possible_tag_prefix buf tag"
  shows "buf = take (length buf - length r) buf @ r"
    "buf = a @ b \<Longrightarrow> length b < length tag \<Longrightarrow> is_prefix b tag \<Longrightarrow> length b \<le> length r"
    "tag \<noteq> [] \<Longrightarrow> length r < length tag"
proof -
  obtain c where "buf = c @ r" using pattern_end_suffix unfolding r_def keep_possible_tag_prefix_def by blast
  then show "buf = take (length buf - length r) buf @ r" by simp
  show "length b \<le> length r" if "buf = a @ b" "length b < length tag" "is_prefix b tag"
    unfolding r_def keep_possible_tag_prefix_def by (rule pattern_end_longest [OF that(1) _ that(3)]) (use that in simp)
  show "length r < length tag" if "tag \<noteq> []"
    using pattern_end_length [of "min (length buf) (length tag - 1)" buf tag] that
    unfolding r_def keep_possible_tag_prefix_def by (cases tag) auto
qed

text \<open>A beginning that can be passed on whatever follows.\<close>

definition settled :: "string \<Rightarrow> string \<Rightarrow> string \<Rightarrow> bool" where
  "settled tag p q \<longleftrightarrow> (\<forall>n<length p. \<not> occurs_at tag (p @ q) n) \<and>
     (\<forall>a b. p @ q = a @ b \<and> length q < length b \<and> length b < length tag \<longrightarrow> \<not> is_prefix b tag)"

lemma settled_retained:
  assumes none: "find_text tag buffer = None"
    and p: "buffer = p @ keep_possible_tag_prefix buffer tag"
  shows "settled tag p (keep_possible_tag_prefix buffer tag @ y)"
proof -
  let ?r = "keep_possible_tag_prefix buffer tag"
  have short: "\<not> is_prefix (drop n buffer) tag" if "n < length p" "length (drop n buffer) < length tag" for n
  proof
    assume pre: "is_prefix (drop n buffer) tag"
    have "buffer = take n buffer @ drop n buffer" by simp
    from retained_facts(2) [OF this that(2) pre] have "length (drop n buffer) \<le> length ?r" .
    moreover have "length buffer = length p + length ?r" using p by (metis length_append)
    ultimately show False using that(1) by simp
  qed
  have "\<not> occurs_at tag (p @ ?r @ y) n" if n: "n < length p" for n
  proof
    assume "occurs_at tag (p @ ?r @ y) n"
    then have occ: "is_prefix tag (drop n buffer @ y)" using p n by (simp add: occurs_at_def) (metis append.assoc drop_append diff_is_0_eq' drop_0 less_imp_le)
    have "n \<le> length buffer" using p n by (metis length_append less_imp_le trans_le_add1)
    with none have "\<not> is_prefix tag (drop n buffer)" by (auto simp: find_text_None occurs_at_def)
    with occ obtain q where q: "tag = drop n buffer @ q" "q \<noteq> []" by (auto simp: is_prefix_append_cases)
    then have "length (drop n buffer) < length tag" "is_prefix (drop n buffer) tag"
      by (metis append_self_conv length_append less_add_same_cancel1 length_greater_0_conv, metis is_prefix_self(1))
    with short [OF n] show False by blast
  qed
  moreover have "\<not> is_prefix b tag" if b: "p @ ?r @ y = a @ b" "length (?r @ y) < length b" "length b < length tag" for a b
  proof
    assume pre: "is_prefix b tag"
    have "length (p @ ?r @ y) = length (a @ b)" using b(1) by simp
    then have "length a < length p" using b(2) by simp
    moreover have "buffer @ y = a @ b" using b(1) p by (metis append.assoc)
    moreover have "length a \<le> length buffer" using \<open>length a < length p\<close> p by (metis length_append less_imp_le trans_le_add1)
    ultimately have "b = drop (length a) buffer @ y" by (metis append_eq_conv_conj drop_append diff_is_0_eq' drop_0)
    then have "is_prefix (drop (length a) buffer) tag" "length (drop (length a) buffer) < length tag"
      using pre b(3) by (auto simp: is_prefix_ex)
    with short [OF \<open>length a < length p\<close>] show False by blast
  qed
  ultimately show ?thesis unfolding settled_def by blast
qed

lemma settled_retains:
  assumes "settled tag p q" and "tag \<noteq> []"
  shows "keep_possible_tag_prefix (p @ q) tag = keep_possible_tag_prefix q tag"
proof -
  let ?r = "keep_possible_tag_prefix (p @ q) tag" and ?s = "keep_possible_tag_prefix q tag"
  obtain a where a: "p @ q = a @ ?r" using retained_facts(1) by metis
  obtain c where c: "q = c @ ?s" using retained_facts(1) by metis
  have pre: "is_prefix ?r tag" "is_prefix ?s tag"
    unfolding keep_possible_tag_prefix_def by (rule pattern_end_prefix)+
  have short: "length ?r < length tag" "length ?s < length tag" using retained_facts(3) [OF assms(2)] by blast+
  have "length ?r \<le> length q" using assms(1) a pre(1) short(1) unfolding settled_def by (metis not_le_imp_less)
  moreover have "length p + length q = length a + length ?r" using arg_cong [OF a, of length] by simp
  ultimately have "length a = length p + (length q - length ?r)" by simp
  then have "drop (length q - length ?r) q = ?r" using arg_cong [OF a, of "drop (length a)"] by simp
  then obtain d where d: "q = d @ ?r" by (metis append_take_drop_id)
  have "length ?r \<le> length ?s" by (rule retained_facts(2) [OF d short(1) pre(1)])
  moreover have "p @ q = (p @ c) @ ?s" using c by simp
  from retained_facts(2) [OF this short(2) pre(2)] have "length ?s \<le> length ?r" .
  ultimately show ?thesis using c d by (metis append_eq_append_conv le_antisym)
qed

lemma push_loop_settled:
  assumes "settled (wanted_tag (tf_inside f)) p q"
  shows "push_loop (f\<lparr>tf_buffer := p @ q\<rparr>, v) =
    push_loop (let (f1, v1) = pass_on p (f, v) in (f1\<lparr>tf_buffer := q\<rparr>, v1))"
proof (cases "p = []")
  case True
  then show ?thesis by simp
next
  case p: False
  let ?tag = "wanted_tag (tf_inside f)"
  obtain f1 v1 where pass: "pass_on p (f, v) = (f1, v1)" by (cases "pass_on p (f, v)")
  have inside: "tf_inside f1 = tf_inside f" using arg_cong [OF pass, of "\<lambda>x. tf_inside (fst x)"] by simp
  have find: "find_text ?tag (p @ q) = map_option (\<lambda>n. length p + n) (find_text ?tag q)"
    by (rule find_text_after) (use assms in \<open>simp add: settled_def\<close>)
  have keep: "keep_possible_tag_prefix (p @ q) ?tag = keep_possible_tag_prefix q ?tag"
    by (rule settled_retains [OF assms]) simp
  have more: "pass_on t (f1, v1) = pass_on (p @ t) (f, v)" for t using pass pass_on_simps(2) [of t p "(f, v)"] by simp
  have len: "length (keep_possible_tag_prefix q ?tag) \<le> length q"
    using retained_facts(1) [of q ?tag] by (metis length_append le_add2)
  have "push_loop (f\<lparr>tf_buffer := p @ q\<rparr>, v) = push_loop (f1\<lparr>tf_buffer := q\<rparr>, v1)"
  proof (cases "q = []")
    case True
    have "keep_possible_tag_prefix q ?tag = []" using len True by simp
    with True p find keep show ?thesis
      by (simp add: push_loop.simps [of "f\<lparr>tf_buffer := p\<rparr>"] push_loop.simps [of "f1\<lparr>tf_buffer := []\<rparr>"]
          Let_def pass pass_on_buffer)
  next
    case False
    show ?thesis
    proof (cases "find_text ?tag q")
      case None
      with False p find keep len show ?thesis
        by (simp add: push_loop.simps [of "f\<lparr>tf_buffer := p @ q\<rparr>"] push_loop.simps [of "f1\<lparr>tf_buffer := q\<rparr>"]
            Let_def pass pass_on_buffer inside more split: prod.split)
    next
      case (Some n)
      with False p find show ?thesis
        by (simp add: push_loop.simps [of "f\<lparr>tf_buffer := p @ q\<rparr>"] push_loop.simps [of "f1\<lparr>tf_buffer := q\<rparr>"]
            Let_def pass pass_on_buffer inside more split: prod.split)
    qed
  qed
  then show ?thesis by (simp add: pass)
qed

lemma push_loop_append:
  "push_loop (f\<lparr>tf_buffer := tf_buffer f @ y\<rparr>, v) =
     (let (f1, v1) = push_loop (f, v) in push_loop (f1\<lparr>tf_buffer := tf_buffer f1 @ y\<rparr>, v1))"
proof (induction "(f, v)" arbitrary: f v rule: push_loop.induct)
  case (1 f v)
  let ?tag = "wanted_tag (tf_inside f)" and ?b = "tf_buffer f"
  show ?case
  proof (cases "?b = []")
    case True
    then show ?thesis by (simp add: push_loop.simps [of f v])
  next
    case False
    show ?thesis
    proof (cases "find_text ?tag ?b")
      case (Some n)
      obtain f1 v1 where pass: "pass_on (take n ?b) (f, v) = (f1, v1)" by (cases "pass_on (take n ?b) (f, v)")
      let ?f = "f1\<lparr>tf_buffer := drop (n + length ?tag) ?b, tf_inside := \<not> tf_inside f\<rparr>"
      have bound: "n + length ?tag \<le> length ?b" by (rule find_text_bound [OF Some])
      have "push_loop (f, v) = push_loop (?f, v1)" using False Some pass
        by (subst push_loop.simps) (simp add: Let_def)
      moreover have "push_loop (f\<lparr>tf_buffer := ?b @ y\<rparr>, v) = push_loop (?f\<lparr>tf_buffer := tf_buffer ?f @ y\<rparr>, v1)"
      proof -
        have swap: "f1\<lparr>tf_buffer := z, tf_inside := \<not> tf_inside f\<rparr> = f1\<lparr>tf_inside := \<not> tf_inside f, tf_buffer := z\<rparr>" for z
          by (cases f1) simp
        then show ?thesis using False bound pass find_text_append [OF Some, of y]
          by (subst push_loop.simps) (simp add: Let_def pass_on_buffer swap)
      qed
      moreover have "push_loop (?f\<lparr>tf_buffer := tf_buffer ?f @ y\<rparr>, v1) =
          (let (f1, v1) = push_loop (?f, v1) in push_loop (f1\<lparr>tf_buffer := tf_buffer f1 @ y\<rparr>, v1))"
        by (rule 1 [OF False refl refl Some pass [symmetric] refl])
      ultimately show ?thesis by simp
    next
      case None
      let ?r = "keep_possible_tag_prefix ?b ?tag" and ?p = "take (length ?b - length (keep_possible_tag_prefix ?b ?tag)) ?b"
      obtain f1 v1 where pass: "pass_on ?p (f, v) = (f1, v1)" by (cases "pass_on ?p (f, v)")
      have split: "?b = ?p @ ?r" by (rule retained_facts(1))
      have "push_loop (f, v) = (f1\<lparr>tf_buffer := ?r\<rparr>, v1)" using False None pass
        by (subst push_loop.simps) (simp add: Let_def)
      moreover have "push_loop (f\<lparr>tf_buffer := ?p @ ?r @ y\<rparr>, v) = push_loop (f1\<lparr>tf_buffer := ?r @ y\<rparr>, v1)"
        using push_loop_settled [OF settled_retained [OF None split], where v = v and y1 = y] pass by simp
      moreover have "?p @ ?r @ y = ?b @ y" using split by (metis append.assoc)
      ultimately show ?thesis by simp
    qed
  qed
qed

text \<open>What was collected before does not matter.\<close>

lemma pass_on_ahead:
  "pass_on t (f\<lparr>tf_thinking := a @ tf_thinking f\<rparr>, b @ v) =
     (let (f1, v1) = pass_on t (f, v) in (f1\<lparr>tf_thinking := a @ tf_thinking f1\<rparr>, b @ v1))"
  by (simp add: pass_on_def)

lemma push_loop_ahead:
  "push_loop (f\<lparr>tf_thinking := a @ tf_thinking f\<rparr>, b @ v) =
     (let (f1, v1) = push_loop (f, v) in (f1\<lparr>tf_thinking := a @ tf_thinking f1\<rparr>, b @ v1))"
proof (induction "(f, v)" arbitrary: f v rule: push_loop.induct)
  case (1 f v)
  let ?tag = "wanted_tag (tf_inside f)" and ?b = "tf_buffer f" and ?g = "f\<lparr>tf_thinking := a @ tf_thinking f\<rparr>"
  show ?case
  proof (cases "?b = []")
    case True
    then show ?thesis by (simp add: push_loop.simps [of f] push_loop.simps [of ?g])
  next
    case False
    show ?thesis
    proof (cases "find_text ?tag ?b")
      case None
      then show ?thesis using False
        by (simp add: push_loop.simps [of f] push_loop.simps [of ?g] Let_def pass_on_ahead split: prod.split)
    next
      case (Some n)
      obtain f1 v1 where pass: "pass_on (take n ?b) (f, v) = (f1, v1)" by (cases "pass_on (take n ?b) (f, v)")
      let ?f = "f1\<lparr>tf_buffer := drop (n + length ?tag) ?b, tf_inside := \<not> tf_inside f\<rparr>"
      have swap: "f1\<lparr>tf_thinking := z, tf_buffer := drop (n + length ?tag) ?b, tf_inside := \<not> tf_inside f\<rparr> =
          ?f\<lparr>tf_thinking := z\<rparr>" for z by (cases f1) simp
      have "push_loop (?f\<lparr>tf_thinking := a @ tf_thinking ?f\<rparr>, b @ v1) =
          (let (f1, v1) = push_loop (?f, v1) in (f1\<lparr>tf_thinking := a @ tf_thinking f1\<rparr>, b @ v1))"
        by (rule 1 [OF False refl refl Some pass [symmetric] refl])
      moreover have "push_loop (?g, b @ v) = push_loop (?f\<lparr>tf_thinking := a @ tf_thinking ?f\<rparr>, b @ v1)"
        using False Some pass by (simp add: push_loop.simps [of ?g] Let_def pass_on_ahead swap)
      moreover have "push_loop (f, v) = push_loop (?f, v1)" using False Some pass
        by (simp add: push_loop.simps [of f] Let_def)
      ultimately show ?thesis by simp
    qed
  qed
qed

text \<open>One loop over a whole text.\<close>

lemma parts_of_None: "find_text (wanted_tag b) s = None \<Longrightarrow> parts_of b s = [(b, s)]"
  by (subst parts_of.simps) simp

lemma parts_of_Some: "find_text (wanted_tag b) s = Some n \<Longrightarrow>
    parts_of b s = (b, take n s) # parts_of (\<not> b) (drop (n + length (wanted_tag b)) s)"
  by (subst parts_of.simps) simp

lemma parts_of_nonempty [simp]: "parts_of b s \<noteq> []"
  by (subst parts_of.simps) (simp split: option.split)

lemma side_of_simps [simp]:
  "side_of c [] = []"
  "side_of c ((b, s) # ps) = (if b = c then s else []) @ side_of c ps"
  by (simp_all add: side_of_def)

lemma pass_on_result:
  "pass_on t (f, v) = (f1, v1) \<Longrightarrow> v1 = v @ (if tf_inside f then [] else t) \<and>
     tf_thinking f1 = tf_thinking f @ (if tf_inside f then t else []) \<and> tf_inside f1 = tf_inside f"
  by (auto simp: pass_on_def split: if_splits)

lemma tag_lengths: "length (wanted_tag b) \<le> 8"
  by (simp add: wanted_tag_def open_tag_def close_tag_def)

lemma push_loop_parts:
  "push_loop (f, v) = (f', v') \<Longrightarrow>
     v' @ (if tf_inside f' then [] else tf_buffer f') = v @ side_of False (parts_of (tf_inside f) (tf_buffer f)) \<and>
     tf_thinking f' @ (if tf_inside f' then tf_buffer f' else []) =
       tf_thinking f @ side_of True (parts_of (tf_inside f) (tf_buffer f)) \<and>
     tf_inside f' = fst (last (parts_of (tf_inside f) (tf_buffer f))) \<and> length (tf_buffer f') < 8"
proof (induction "(f, v)" arbitrary: f v rule: push_loop.induct)
  case (1 f v)
  let ?tag = "wanted_tag (tf_inside f)" and ?b = "tf_buffer f"
  show ?case
  proof (cases "?b = []")
    case True
    moreover from this have "parts_of (tf_inside f) ?b = [(tf_inside f, [])]" by (simp add: parts_of_None)
    ultimately show ?thesis using 1(2) by (simp add: push_loop.simps [of f])
  next
    case False
    show ?thesis
    proof (cases "find_text ?tag ?b")
      case None
      let ?r = "keep_possible_tag_prefix ?b ?tag" and ?p = "take (length ?b - length (keep_possible_tag_prefix ?b ?tag)) ?b"
      obtain f1 v1 where pass: "pass_on ?p (f, v) = (f1, v1)" by (cases "pass_on ?p (f, v)")
      have "?p @ ?r = ?b" by (rule retained_facts(1) [symmetric])
      moreover have "length ?r < 8" using retained_facts(3) [of ?tag ?b] tag_lengths [of "tf_inside f"] by simp
      moreover have "f' = f1\<lparr>tf_buffer := ?r\<rparr>" "v' = v1" using 1(2) False None pass
        by (simp_all add: push_loop.simps [of f] Let_def)
      ultimately show ?thesis using pass_on_result [OF pass] parts_of_None [OF None] by auto
    next
      case (Some n)
      obtain f1 v1 where pass: "pass_on (take n ?b) (f, v) = (f1, v1)" by (cases "pass_on (take n ?b) (f, v)")
      let ?f = "f1\<lparr>tf_buffer := drop (n + length ?tag) ?b, tf_inside := \<not> tf_inside f\<rparr>"
      have "push_loop (?f, v1) = (f', v')" using 1(2) False Some pass
        by (simp add: push_loop.simps [of f] Let_def)
      from 1(1) [OF False refl refl Some pass [symmetric] refl this]
      show ?thesis using pass_on_result [OF pass] parts_of_Some [OF Some] by auto
    qed
  qed
qed

section \<open>Sessions\<close>

text \<open>The calls of a stream's reader, with all that was shown and all that was drained so far.\<close>

datatype filter_op = Push string | Drain

fun filter_step :: "filter_op \<Rightarrow> think_filter \<times> string \<times> string \<Rightarrow> think_filter \<times> string \<times> string" where
  "filter_step (Push chunk) (f, shown, thought) = (let (f1, v) = push_chunk chunk f in (f1, shown @ v, thought))"
| "filter_step Drain (f, shown, thought) = (let (f1, t) = drain_thinking f in (f1, shown, thought @ t))"

definition pushed_text :: "filter_op list \<Rightarrow> string" where
  "pushed_text ops = concat (map (\<lambda>op. case op of Push chunk \<Rightarrow> chunk | Drain \<Rightarrow> []) ops)"

lemma filter_session:
  assumes "fold filter_step ops (new_filter, [], []) = (f, shown, thought)"
  shows "push_loop (new_filter\<lparr>tf_buffer := pushed_text ops\<rparr>, []) = (f\<lparr>tf_thinking := thought @ tf_thinking f\<rparr>, shown)"
  using assms
proof (induction ops arbitrary: f shown thought rule: rev_induct)
  case Nil
  then show ?case by (auto simp: pushed_text_def new_filter_def push_loop.simps)
next
  case (snoc op ops)
  obtain f0 s0 t0 where before: "fold filter_step ops (new_filter, [], []) = (f0, s0, t0)" by (metis prod_cases3)
  from snoc.IH [OF before]
  have IH: "push_loop (new_filter\<lparr>tf_buffer := pushed_text ops\<rparr>, []) = (f0\<lparr>tf_thinking := t0 @ tf_thinking f0\<rparr>, s0)" .
  show ?case
  proof (cases op)
    case Drain
    then have "f = f0\<lparr>tf_thinking := []\<rparr>" "shown = s0" "thought = t0 @ tf_thinking f0"
      using snoc.prems before by (auto simp: drain_thinking_def)
    then show ?thesis using IH Drain by (simp add: pushed_text_def)
  next
    case (Push chunk)
    obtain f1 v where call: "push_loop (f0\<lparr>tf_buffer := tf_buffer f0 @ chunk\<rparr>, []) = (f1, v)"
      by (cases "push_loop (f0\<lparr>tf_buffer := tf_buffer f0 @ chunk\<rparr>, [])")
    have now: "f = f1" "shown = s0 @ v" "thought = t0"
      using snoc.prems before Push call by (auto simp: push_chunk_def)
    have swap: "f0\<lparr>tf_thinking := a, tf_buffer := b\<rparr> = f0\<lparr>tf_buffer := b, tf_thinking := a\<rparr>" for a b by (cases f0) simp
    have "push_loop (new_filter\<lparr>tf_buffer := pushed_text ops @ chunk\<rparr>, []) =
        push_loop (f0\<lparr>tf_buffer := tf_buffer f0 @ chunk, tf_thinking := t0 @ tf_thinking f0\<rparr>, s0)"
      using push_loop_append [where f = "new_filter\<lparr>tf_buffer := pushed_text ops\<rparr>" and y = chunk and v = "[]"] IH by (simp add: swap)
    also have "\<dots> = (f1\<lparr>tf_thinking := t0 @ tf_thinking f1\<rparr>, s0 @ v)"
      using push_loop_ahead [where f = "f0\<lparr>tf_buffer := tf_buffer f0 @ chunk\<rparr>" and a = t0 and b = s0 and v = "[]"] call by simp
    finally show ?thesis using Push now by (simp add: pushed_text_def)
  qed
qed

text \<open>The parts are the text: outside and inside take turns, and only tags are left out.\<close>

fun with_tags :: "(bool \<times> string) list \<Rightarrow> string" where
  "with_tags [] = []"
| "with_tags [(b, s)] = s"
| "with_tags ((b, s) # p # ps) = s @ wanted_tag b @ with_tags (p # ps)"

lemma with_tags_parts: "with_tags (parts_of b s) = s"
proof (induction b s rule: parts_of.induct)
  case (1 b s)
  show ?case
  proof (cases "find_text (wanted_tag b) s")
    case None
    then show ?thesis by (simp add: parts_of_None)
  next
    case (Some n)
    obtain p ps where "parts_of (\<not> b) (drop (n + length (wanted_tag b)) s) = p # ps"
      by (cases "parts_of (\<not> b) (drop (n + length (wanted_tag b)) s)") auto
    with 1 [OF Some] Some show ?thesis using find_text_split [OF Some] by (simp add: parts_of_Some)
  qed
qed

section \<open>Properties\<close>

text \<open>
  (C18) The chunks do not matter. However an answer is cut into chunks, and whenever the reasoning is drained,
  the reader has seen, after the end of the stream, exactly the parts of the whole text outside of the
  blocks; what was drained and what is still held are the parts inside; and never more than seven characters
  wait. The parts, with their tags, are the text.
\<close>

theorem chunks_do_not_matter:
  assumes "fold filter_step ops (new_filter, [], []) = (f, shown, thought)"
  shows "shown @ snd (finish_filter f) = side_of False (parts_of False (pushed_text ops)) \<and>
    thought @ tf_thinking f @ (if tf_inside f then tf_buffer f else []) = side_of True (parts_of False (pushed_text ops)) \<and>
    length (tf_buffer f) < 8 \<and> with_tags (parts_of False (pushed_text ops)) = pushed_text ops"
  using push_loop_parts [OF filter_session [OF assms]] with_tags_parts [of False "pushed_text ops"]
  by (auto simp: new_filter_def finish_filter_def split: if_splits)

theorem chunks_do_not_matter_witness:
  "case fold filter_step [Push ''a<thi'', Push ''nk>b</'', Drain, Push ''think>c <'', Push ''x''] (new_filter, [], []) of
     (f, shown, thought) \<Rightarrow> shown @ snd (finish_filter f) = ''ac <x'' \<and> thought @ tf_thinking f = ''b''"
proof -
  let ?ops = "[Push ''a<thi'', Push ''nk>b</'', Drain, Push ''think>c <'', Push ''x'']"
  obtain f shown thought where run: "fold filter_step ?ops (new_filter, [], []) = (f, shown, thought)" by (metis prod_cases3)
  have "parts_of False (pushed_text ?ops) = [(False, ''a''), (True, ''b''), (False, ''c <x'')]" by code_simp
  moreover have "\<not> tf_inside f" using push_loop_parts [OF filter_session [OF run]] calculation by (simp add: new_filter_def)
  ultimately show ?thesis using chunks_do_not_matter [OF run] run by simp
qed

text \<open>The end of an unfinished block that looks like the start of a tag is dropped at the end of the stream.\<close>

lemma unfinished_reasoning_is_lost:
  "case push_chunk ''<think>a < b and c <'' new_filter of (f, v) \<Rightarrow>
     tf_thinking f = ''a < b and c '' \<and> tf_thinking (fst (finish_filter f)) = ''a < b and c '' \<and>
     tf_buffer (fst (finish_filter f)) = []"
  by code_simp

end
