(* ===== verification/Spec2Isabelle.thy ===== *)
theory Spec2Isabelle
  imports ControlPlane QueryMachine Progress ToolExecutor Compaction Workflow ModelRouter Cron Patches StreamFilter
begin

text \<open>
  Verification of the runtime core of ovolv999, a coding agent written in TypeScript.

  \<^bold>\<open>The program.\<close> A user's message starts a turn. The coordinator
  (\<open>src/src/core/runtime/coordinator.ts\<close>) runs it: it asks a model, executes the tool calls of the
  answer, and repeats until a query state machine (\<open>queryStateMachine.ts\<close>) reaches a terminal state.
  Every turn is an execution run, registered under one status table (\<open>executionRun.ts\<close>); each status
  change is an event on a bus that appends it to a JSONL log, from which a crashed process recovers its
  runs (\<open>executionRunEvents.ts\<close>). Tool calls are cut into batches by their resource claims
  (\<open>toolScheduler.ts\<close>), pass the permission pipeline (\<open>toolExecutor.ts\<close>), and hold leases of the
  resource scheduler (\<open>resourceScheduler.ts\<close>) while they run; their texts are cut to a budget
  (\<open>toolResultBudget.ts\<close>) and their effects are folded into the working state (\<open>workingState.ts\<close>).
  A task graph (\<open>taskGraph.ts\<close>) holds the plan of the turn. When the loop has stopped, the
  completion contract decides from the working state, the plan and the evidence store what the status
  of the run and the outcome of the turn are. A monitor (\<open>progressMonitor.ts\<close>) watches for stalls.
  When the conversation grows, old results are cleared and the history is compacted before the next model
  call (\<open>compact.ts\<close>, \<open>contextManager.ts\<close>); a router (\<open>modelRouter.ts\<close>) chooses the model of a call
  and a circuit breaker per profile keeps failing ones out. Beside all that a durable queue
  (\<open>taskControlPlane.ts\<close>) hands tasks to workers under leases, workflows (\<open>workflow.ts\<close>) run fixed
  lists of steps, schedules (\<open>cron.ts\<close>) give prompts their times, and everything that is stored is
  written by one routine (\<open>atomicWrite.ts\<close>), several files at once under a transaction
  (\<open>atomicTransaction.ts\<close>).

  \<^bold>\<open>The theories\<close>, and the files they model.
    \<^item> \<open>Prelude\<close>: JavaScript's insertion-ordered \<open>Map\<close> as association lists, sequencing of operations
      that may fail, and lemmas shared by all components.
    \<^item> \<open>ExecutionRun\<close> (\<open>executionRun.ts\<close>): the statuses, the transition table and the registry with
      all its operations; the status history of a run.
    \<^item> \<open>RunEvents\<close> (\<open>executionRunEvents.ts\<close>): envelopes, the bus with its subscribers, the JSONL
      file with lines that do not parse and torn last lines, replay, and the recovery of a registry.
    \<^item> \<open>ResourceScheduler\<close> (\<open>resourceScheduler.ts\<close>): claims, leases, waiters, the pump, and the
      release on terminal events.
    \<^item> \<open>ToolScheduler\<close> (\<open>toolScheduler.ts\<close>): canonical claim keys, the partition into batches, what
      a batch answers, and the interleavings of concurrent calls over the resource scheduler.
    \<^item> \<open>ToolResultBudget\<close> (\<open>toolResultBudget.ts\<close>): truncation of one result and of a batch.
    \<^item> \<open>TaskGraph\<close> (\<open>taskGraph.ts\<close>): every operation of the plan, the depth-first cycle check, ready
      nodes and parallel groups.
    \<^item> \<open>WorkingState\<close> (\<open>workingState.ts\<close>, \<open>contextManager.ts\<close>): the structured state of a task, its
      update from tool results, its text form and the check after compaction.
    \<^item> \<open>Completion\<close> (\<open>completionContract.ts\<close>, \<open>reviewer.ts\<close>, \<open>evidence.ts\<close>, \<open>terminationPolicy.ts\<close>,
      \<open>turnOutcome.ts\<close>, and the end of \<open>coordinator.ts\<close>): when a run counts as done.
    \<^item> \<open>QueryMachine\<close> (\<open>queryStateMachine.ts\<close> and the loop of \<open>coordinator.ts\<close>): the reducer, the
      token budget tracker and the driver with its retries.
    \<^item> \<open>Progress\<close> (\<open>progressMonitor.ts\<close>, \<open>criticTrigger.ts\<close>): stall detection and the risk gate.
    \<^item> \<open>ControlPlane\<close> (\<open>taskControlPlane.ts\<close>): the task queue, its event file, and the worker.

    \<^item> \<open>JsRegex\<close>: the regular expressions of the language as far as the permission code uses them, with
      a matcher and its meaning. \<open>Glob\<close> (\<open>globMatch.ts\<close>): patterns, against the texts they accept.
    \<^item> \<open>RiskClassifier\<close> (\<open>riskClassifier.ts\<close>): the dangerous patterns and the risk of a command.
    \<^item> \<open>Permissions\<close> (\<open>permissionRules.ts\<close>, \<open>permissionSystem.ts\<close>): rules, modes and manager.
    \<^item> \<open>ToolAccess\<close> (\<open>toolRegistry.ts\<close>, \<open>toolPolicy.ts\<close>, \<open>agentToolFilter.ts\<close>): which tools are shown and
      which may run.
    \<^item> \<open>ToolExecutor\<close> (\<open>toolExecutor.ts\<close>, \<open>permissionModeGate.ts\<close>, \<open>structuredToolResult.ts\<close>): one tool
      call with its permission layers, hooks, result and reports. \<open>StructuredResult\<close>
      (\<open>structuredToolResult.ts\<close>): the results it registers.

    \<^item> \<open>Conversation\<close> (\<open>sessionManager.ts\<close>, \<open>historyTrimmer.ts\<close>): messages, histories in which every
      result follows its call, fork points and trimming.
    \<^item> \<open>Compaction\<close> (\<open>compact.ts\<close>, \<open>contextManager.ts\<close>, \<open>retryManager.ts\<close>): clearing of old results,
      the safe split point, summaries with retries and the breaker around them, budgets of a window.
    \<^item> \<open>Workflow\<close> (\<open>workflow.ts\<close>): steps, conditions, references to inputs, shell processes, the runs
      a workflow opens, and its JSON form.
    \<^item> \<open>ModelRouter\<close> (\<open>modelRouter.ts\<close>): complexity, scores and choice of a profile, health and circuit
      of each profile with its exclusive probe, overrides and fallback chains.
    \<^item> \<open>Cron\<close> (\<open>cron.ts\<close>): fields, durations, the next run on the Gregorian calendar, and the store.
    \<^item> \<open>AtomicFiles\<close> (\<open>atomicWrite.ts\<close>): a write as a machine of system calls on a disk that may lose
      its power. \<open>Transactions\<close> (\<open>atomicTransaction.ts\<close>): snapshots, commit and rollback on top of it.
    \<^item> \<open>Texts\<close>: searching, splitting and the longest end that begins a pattern. \<open>StreamFilter\<close>
      (\<open>thinkingTagFilter.ts\<close>): the filter of reasoning blocks against the whole text.
    \<^item> \<open>PathSecurity\<close> (\<open>pathSecurity.ts\<close>): the guards on paths. \<open>Patches\<close> (\<open>applyPatch.ts\<close>): the patch
      language, the matching of hunks, and the patch tool on a disk whose calls may fail.

  \<^bold>\<open>How the model reads.\<close> An interface of the source is a record, a union of literals a datatype, a
  \<open>Map\<close> an association list in insertion order, a class the record of its private fields, a method a
  function from the state (and the clock, when it reads one) to the new state and the result. A
  \<open>throw\<close> is a value \<open>Inl\<close> of the component's error type. Promises that wait are part of the state,
  with the operation that resolves them; concurrent code is a step relation whose steps are the
  stretches between two \<open>await\<close>s. Strings are character lists. Times are integer milliseconds.

  \<^bold>\<open>What the lemmas show.\<close> Each theory defines the invariant of its state, shows that every operation
  keeps it, and states it for arbitrary histories of calls; interfaces are locales, interpreted on the
  model's own definitions. The properties that span components are the ones about the log and the
  registry (recovery gives back the live runs), about batches and the resource scheduler (no deadlock
  in any interleaving), about the gate over working state, plan and contract (what success means),
  about the driver over the reducer and the budget tracker (every turn ends), about the executor over
  registry, rules, modes and hooks (what runs was let pass), about clearing, compaction and trimming in
  any order (the history stays paired), about a workflow over the registry of runs, and about
  transactions over atomic writes whose calls fail. The router's circuits refine the textbook breaker,
  the next run of a schedule is the first instant at which it fires.

  \<^bold>\<open>Bounds and fuel.\<close> The depth-first search of the cycle check terminates by the number of nodes not
  visited yet, the pump by the number of waiters. The driver of a turn is a step function; its
  termination is a theorem with an explicit bound on the number of steps, not a fuel parameter. The
  tail of a compaction grows by one message per round of its guard, a walk along fallbacks by one
  entry, the search for the next run through the 366 days of the source. A range of a schedule
  may loop forever and is a partial function; when it returns is a theorem. Links are followed 40
  times, the limit of the system; a write needs at most 13 calls and one per character.
  Numbers of the source are doubles; the counters here are integers, which agree with them below
  \<open>2 ^ 53\<close>.

  \<^bold>\<open>Not modelled.\<close> Terminal interface, slash commands, configuration, start-up wiring, network
  clients, the language server client, the bodies of the other tools (shell and network effects), memory
  and skill stores, the loop engine, the daemon, and the telemetry files: they are input and output
  around the core. The local time zone of a schedule is a fixed offset, a path has no links but in its
  last component, and file contents are character lists without their encoding. Of the
  coordinator, prompts and streaming are left out, and what the model or a tool answers is an input of
  the model. Random ids are counters, assumed distinct.
\<close>

end
